(* ===== verification/Prelude.thy ===== *)
theory Prelude
  imports Main "HOL-Library.Word"
begin

unbundle bit_operations_syntax

text \<open>
  Shared vocabulary of the development: the machine integers of the code, the outcome of a
  fallible Rust function, a state-and-error monad for the functions that mutate the kernel
  state, the checked arithmetic of \<open>usize\<close>, little-endian byte encodings and the list lemmas
  the component theories share.

  The widths are those of the target (x86-64). \<open>u8\<close>, \<open>u32\<close>, \<open>u64\<close> are words. A \<open>usize\<close> is a
  natural number whose every arithmetic operation checks the bound \<open>2 ^ 64\<close> and panics beyond
  it, as the debug profile the repository builds and tests with does; the places where the
  code asks for wrapping arithmetic write the \<open>mod 2 ^ 64\<close> out.
\<close>

subsection \<open>Machine integers\<close>

type_synonym u8 = "8 word"
type_synonym u16 = "16 word"
type_synonym u32 = "32 word"
type_synonym u64 = "64 word"
type_synonym usize = nat

abbreviation usize_lim :: nat where
  "usize_lim \<equiv> 18446744073709551616"

lemma usize_lim_pow: "usize_lim = 2 ^ 64"
  by simp

subsection \<open>Outcomes of fallible code\<close>

text \<open>
  \<open>Err e\<close> is the value \<open>Err(e)\<close> of the source. \<open>Panic\<close> is a panic: a failed \<open>assert!\<close>, an
  \<open>unwrap\<close> of nothing, an index out of range, an arithmetic overflow, an \<open>unimplemented!\<close>.
  \<open>NoRef\<close> marks a reference to an object that is not in the store; a Rust \<open>Arc\<close> rules it out,
  and the well-formedness invariants of the components do the same for the model. \<open>NoFuel\<close> is
  the end of the fuel of a recursion; every recursion with fuel has an enough-fuel theorem.
\<close>

datatype 'e fault = Err 'e | Panic | NoRef | NoFuel

type_synonym ('e, 'a) outcome = "'e fault + 'a"

definition rbind :: "('x + 'a) \<Rightarrow> ('a \<Rightarrow> 'x + 'b) \<Rightarrow> 'x + 'b" where
  "rbind r f = (case r of Inl e \<Rightarrow> Inl e | Inr x \<Rightarrow> f x)"

definition ok_or :: "'x \<Rightarrow> 'a option \<Rightarrow> 'x + 'a" where
  "ok_or e v = (case v of None \<Rightarrow> Inl e | Some x \<Rightarrow> Inr x)"

definition is_ok :: "'x + 'a \<Rightarrow> bool" where
  "is_ok r = (case r of Inl _ \<Rightarrow> False | Inr _ \<Rightarrow> True)"

lemma rbind_simps [simp]:
  "rbind (Inl e) f = Inl e"
  "rbind (Inr x) f = f x"
  by (simp_all add: rbind_def)

lemma rbind_eq_Inr: "rbind r f = Inr y \<longleftrightarrow> (\<exists>x. r = Inr x \<and> f x = Inr y)"
  by (cases r) auto

lemma rbind_eq_Inl: "rbind r f = Inl e \<longleftrightarrow> r = Inl e \<or> (\<exists>x. r = Inr x \<and> f x = Inl e)"
  by (cases r) auto

lemma ok_or_simps [simp]:
  "ok_or e None = Inl e"
  "ok_or e (Some x) = Inr x"
  by (simp_all add: ok_or_def)

lemma ok_or_eq_Inr: "ok_or e v = Inr x \<longleftrightarrow> v = Some x"
  by (cases v) auto

lemma is_ok_simps [simp]:
  "is_ok (Inl e) = False"
  "is_ok (Inr x) = True"
  by (simp_all add: is_ok_def)

lemma is_ok_iff: "is_ok r \<longleftrightarrow> (\<exists>x. r = Inr x)"
  by (cases r) auto

subsection \<open>State and errors\<close>

text \<open>
  A function that mutates the kernel state and may fail takes the state and returns the outcome
  with the new state; a failure keeps the mutations made before it, as a Rust function that
  returns early does.
\<close>

definition sret :: "'a \<Rightarrow> 's \<Rightarrow> ('x + 'a) \<times> 's" where
  "sret x s = (Inr x, s)"

definition sfail :: "'x \<Rightarrow> 's \<Rightarrow> ('x + 'a) \<times> 's" where
  "sfail e s = (Inl e, s)"

definition slift :: "('s \<Rightarrow> 'x + 'a) \<Rightarrow> 's \<Rightarrow> ('x + 'a) \<times> 's" where
  "slift f s = (f s, s)"

definition sbind ::
  "('s \<Rightarrow> ('x + 'a) \<times> 's) \<Rightarrow> ('a \<Rightarrow> 's \<Rightarrow> ('x + 'b) \<times> 's) \<Rightarrow> 's \<Rightarrow> ('x + 'b) \<times> 's" where
  "sbind m f s = (case m s of (Inl e, s') \<Rightarrow> (Inl e, s') | (Inr x, s') \<Rightarrow> f x s')"

primrec sfor :: "('i \<Rightarrow> 's \<Rightarrow> ('x + unit) \<times> 's) \<Rightarrow> 'i list \<Rightarrow> 's \<Rightarrow> ('x + unit) \<times> 's" where
  "sfor f [] s = (Inr (), s)"
| "sfor f (i # is) s = sbind (f i) (\<lambda>_. sfor f is) s"

lemma sret_apply [simp]: "sret x s = (Inr x, s)"
  by (simp add: sret_def)

lemma sfail_apply [simp]: "sfail e s = (Inl e, s)"
  by (simp add: sfail_def)

lemma slift_apply [simp]: "slift f s = (f s, s)"
  by (simp add: slift_def)

lemma sbind_Inr: "m s = (Inr x, s') \<Longrightarrow> sbind m f s = f x s'"
  by (simp add: sbind_def)

lemma sbind_Inl: "m s = (Inl e, s') \<Longrightarrow> sbind m f s = (Inl e, s')"
  by (simp add: sbind_def)

lemma sbind_eq_Inr:
  "sbind m f s = (Inr y, t) \<longleftrightarrow> (\<exists>x s'. m s = (Inr x, s') \<and> f x s' = (Inr y, t))"
  by (auto simp: sbind_def split: prod.splits sum.splits)

lemma sbind_cases:
  assumes "sbind m f s = (r, t)"
  obtains (fail) e where "m s = (Inl e, t)" and "r = Inl e"
  | (step) x s' where "m s = (Inr x, s')" and "f x s' = (r, t)"
  using assms by (auto simp: sbind_def split: prod.splits sum.splits)

lemma sbind_slift: "sbind (slift f) g s = (case f s of Inl e \<Rightarrow> (Inl e, s) | Inr x \<Rightarrow> g x s)"
  by (simp add: sbind_def split: sum.splits)

lemma sbind_cong [fundef_cong]:
  assumes "s = s'" and "m s' = m' s'"
    and "\<And>x t. m' s' = (Inr x, t) \<Longrightarrow> f x t = f' x t"
  shows "sbind m f s = sbind m' f' s'"
  using assms by (auto simp: sbind_def split: prod.splits sum.splits)

lemma sbind_keeps:
  "P (snd (m s)) \<Longrightarrow> (\<And>x u. m s = (Inr x, u) \<Longrightarrow> P u \<Longrightarrow> P (snd (f x u))) \<Longrightarrow> P (snd (sbind m f s))"
  by (auto simp: sbind_def split: prod.splits sum.splits)

lemma sfor_invariant:
  assumes "sfor f is s = (r, t)" and "P s"
    and "\<And>i u r u'. i \<in> set is \<Longrightarrow> P u \<Longrightarrow> f i u = (r, u') \<Longrightarrow> P u'"
  shows "P t"
  using assms
proof (induction "is" arbitrary: s)
  case Nil
  then show ?case by simp
next
  case (Cons i "is")
  from Cons.prems(1) have "sbind (f i) (\<lambda>_. sfor f is) s = (r, t)" by simp
  then show ?case
  proof (cases rule: sbind_cases)
    case (fail e)
    with Cons.prems show ?thesis by auto
  next
    case (step x s')
    with Cons.prems have "P s'" by auto
    from step(2) this show ?thesis
      by (rule Cons.IH) (use Cons.prems(3) in auto)
  qed
qed

lemma sfor_append: "sfor f (xs @ ys) s = sbind (sfor f xs) (\<lambda>_. sfor f ys) s"
proof (induction xs arbitrary: s)
  case Nil
  show ?case by (simp add: sbind_def)
next
  case (Cons x xs)
  then show ?case by (auto simp: sbind_def split: prod.splits sum.splits)
qed

lemma sfor_all_ok:
  assumes "P s"
    and "\<And>i u. i \<in> set is \<Longrightarrow> P u \<Longrightarrow> \<exists>u'. f i u = (Inr (), u') \<and> P u'"
  shows "\<exists>t. sfor f is s = (Inr (), t) \<and> P t"
  using assms
proof (induction "is" arbitrary: s)
  case Nil
  then show ?case by simp
next
  case (Cons i "is")
  then obtain s' where "f i s = (Inr (), s')" "P s'" by (metis list.set_intros(1))
  with Cons show ?case by (auto simp: sbind_Inr)
qed

lemma sfor_collect:
  assumes "P s"
    and "\<And>i u. i \<in> set is \<Longrightarrow> P u \<Longrightarrow> \<exists>u'. f i u = (Inr (), u') \<and> P u' \<and> R u u' \<and> Q i u'"
    and "\<And>u. R u u" and "\<And>u v w. R u v \<Longrightarrow> R v w \<Longrightarrow> R u w"
    and "\<And>i u v. R u v \<Longrightarrow> Q i u \<Longrightarrow> Q i v"
  shows "\<exists>t. sfor f is s = (Inr (), t) \<and> P t \<and> R s t \<and> (\<forall>i \<in> set is. Q i t)"
  using assms(1,2)
proof (induction "is" arbitrary: s)
  case Nil
  then show ?case using assms(3) by simp
next
  case (Cons i "is")
  obtain u where u: "f i s = (Inr (), u)" "P u" "R s u" "Q i u" using Cons.prems by force
  obtain t where t: "sfor f is u = (Inr (), t)" "P t" "R u t" "\<forall>i \<in> set is. Q i t"
    using Cons.IH [OF u(2)] Cons.prems(2) by force
  have "sfor f (i # is) s = (Inr (), t)" using u(1) t(1) by (simp add: sbind_def)
  moreover have "R s t" "Q i t" using assms(4) [OF u(3) t(3)] assms(5) [OF t(3) u(4)] .
  ultimately show ?case using t(2,4) by auto
qed

lemma sfor_cong:
  "(\<And>i u. i \<in> set is \<Longrightarrow> f i u = g i u) \<Longrightarrow> sfor f is s = sfor g is s"
proof (induction "is" arbitrary: s)
  case Nil
  show ?case by simp
next
  case (Cons i "is")
  then have "sfor f is u = sfor g is u" for u by simp
  with Cons.prems show ?case by (auto simp: sbind_def split: prod.splits sum.splits)
qed

subsection \<open>Checked arithmetic of usize\<close>

definition uadd :: "usize \<Rightarrow> usize \<Rightarrow> ('e, usize) outcome" where
  "uadd a b = (if a + b < usize_lim then Inr (a + b) else Inl Panic)"

definition usub :: "usize \<Rightarrow> usize \<Rightarrow> ('e, usize) outcome" where
  "usub a b = (if b \<le> a then Inr (a - b) else Inl Panic)"

definition umul :: "usize \<Rightarrow> usize \<Rightarrow> ('e, usize) outcome" where
  "umul a b = (if a * b < usize_lim then Inr (a * b) else Inl Panic)"

lemma uadd_eq_Inr [simp]: "uadd a b = Inr c \<longleftrightarrow> a + b < usize_lim \<and> c = a + b"
  by (auto simp: uadd_def)

lemma usub_eq_Inr [simp]: "usub a b = Inr c \<longleftrightarrow> b \<le> a \<and> c = a - b"
  by (auto simp: usub_def)

lemma umul_eq_Inr [simp]: "umul a b = Inr c \<longleftrightarrow> a * b < usize_lim \<and> c = a * b"
  by (auto simp: umul_def)

subsection \<open>Bit flags\<close>

definition flags_contains :: "'a::len word \<Rightarrow> 'a word \<Rightarrow> bool" where
  "flags_contains f g \<longleftrightarrow> f AND g = g"

lemma flags_contains_bits:
  "flags_contains f g \<longleftrightarrow> (\<forall>n < LENGTH('a). bit (g :: 'a::len word) n \<longrightarrow> bit f n)"
  by (auto simp: flags_contains_def bit_eq_iff bit_and_iff dest: bit_imp_le_length)

lemma flags_contains_refl [simp]: "flags_contains f f"
  by (simp add: flags_contains_def)

lemma flags_contains_trans:
  "flags_contains f g \<Longrightarrow> flags_contains g h \<Longrightarrow> flags_contains f h"
  by (auto simp: flags_contains_bits)

lemma flags_contains_or:
  "flags_contains f (g OR h) \<longleftrightarrow> flags_contains f g \<and> flags_contains f h"
  by (auto simp: flags_contains_bits bit_or_iff)

lemma flags_contains_mono: "flags_contains f g \<Longrightarrow> flags_contains (f OR h) g"
  by (auto simp: flags_contains_bits bit_or_iff)

subsection \<open>Little-endian byte encodings\<close>

text \<open>\<open>to_ne_bytes\<close>, \<open>from_ne_bytes\<close> and the layout of an integer in memory on x86-64.\<close>

primrec le_bytes :: "nat \<Rightarrow> nat \<Rightarrow> u8 list" where
  "le_bytes 0 v = []"
| "le_bytes (Suc n) v = of_nat (v mod 256) # le_bytes n (v div 256)"

primrec le_nat :: "u8 list \<Rightarrow> nat" where
  "le_nat [] = 0"
| "le_nat (b # bs) = unat b + 256 * le_nat bs"

lemma length_le_bytes [simp]: "length (le_bytes n v) = n"
  by (induction n arbitrary: v) auto

lemma unat_of_nat_byte: "unat (of_nat (v mod 256) :: u8) = v mod 256"
  by (simp add: unat_of_nat)

lemma le_nat_le_bytes: "v < 256 ^ n \<Longrightarrow> le_nat (le_bytes n v) = v"
proof (induction n arbitrary: v)
  case 0
  then show ?case by simp
next
  case (Suc n)
  then have "v div 256 < 256 ^ n" by (simp add: less_mult_imp_div_less mult.commute)
  with Suc.IH show ?case by (simp add: unat_of_nat_byte)
qed

lemma le_bytes_le_nat: "le_bytes (length bs) (le_nat bs) = bs"
proof (induction bs)
  case Nil
  show ?case by simp
next
  case (Cons b bs)
  have lt: "unat b < 256" using unsigned_less [of b] by simp
  then have "(unat b + 256 * le_nat bs) mod 256 = unat b" by simp
  moreover from lt have "(unat b + 256 * le_nat bs) div 256 = le_nat bs" by simp
  ultimately show ?case using Cons by simp
qed

lemma le_nat_bound: "le_nat bs < 256 ^ length bs"
proof (induction bs)
  case Nil
  show ?case by simp
next
  case (Cons b bs)
  have "unat b < 256" using unsigned_less [of b] by simp
  with Cons show ?case by simp
qed

subsection \<open>Lists\<close>

definition splice_at :: "'a list \<Rightarrow> nat \<Rightarrow> 'a list \<Rightarrow> 'a list" where
  \<comment> \<open>\<open>xs[off..off + len].copy_from_slice(ys)\<close>, the range being in bounds\<close>
  "splice_at xs off ys = take off xs @ ys @ drop (off + length ys) xs"

lemma length_splice_at [simp]:
  "off + length ys \<le> length xs \<Longrightarrow> length (splice_at xs off ys) = length xs"
  by (simp add: splice_at_def)

lemma splice_at_read:
  "off + length ys \<le> length xs \<Longrightarrow> take (length ys) (drop off (splice_at xs off ys)) = ys"
  by (simp add: splice_at_def)

lemma nth_splice_at:
  assumes "off + length ys \<le> length xs" and "i < length xs"
  shows "splice_at xs off ys ! i = (if off \<le> i \<and> i < off + length ys then ys ! (i - off) else xs ! i)"
  using assms by (auto simp: splice_at_def nth_append min_def)

lemma upt_append_split:
  assumes "[p..<q] @ xs = [a..<e]" and "p < q"
  shows "p = a" "q \<le> e" "xs = [q..<e]"
proof -
  have len: "(q - p) + length xs = e - a" using arg_cong [OF assms(1), of length] by simp
  with assms(2) have ne: "a < e" by simp
  have "([p..<q] @ xs) ! 0 = [a..<e] ! 0" by (simp only: assms(1))
  then show pa: "p = a" using assms(2) ne by (simp add: nth_append)
  from len pa ne show le: "q \<le> e" by simp
  have "drop (q - p) ([p..<q] @ xs) = drop (q - p) [a..<e]" by (simp only: assms(1))
  then show "xs = [q..<e]" using pa assms(2) by (simp add: drop_upt)
qed

lemma filter_neq_absent: "x \<notin> set xs \<Longrightarrow> filter (\<lambda>y. y \<noteq> x) xs = xs"
  by (induction xs) auto

lemma find_Some_in: "find P xs = Some x \<Longrightarrow> x \<in> set xs \<and> P x"
  by (induction xs) (auto split: if_splits)

lemma find_None_iff_all: "find P xs = None \<longleftrightarrow> (\<forall>x \<in> set xs. \<not> P x)"
  by (induction xs) auto

named_theorems component_defs \<open>definitions a component proof unfolds\<close>
named_theorems frame_simps \<open>fields an operation leaves unchanged\<close>

end
