(* ===== verification/Zx_Error.thy ===== *)
theory Zx_Error
  imports Prelude
begin

text \<open>
  The Zircon status codes (\<^verbatim>\<open>zircon-object/src/error.rs\<close>): the enum \<open>ZxError\<close>, the
  discriminant each variant has as an \<open>i32\<close>, the result type \<open>ZxResult\<close> and the conversion
  from the errors of user pointers (\<^verbatim>\<open>kernel-hal/src/user.rs\<close>).
\<close>

datatype zx_error =
    OK
  | INTERNAL
  | NOT_SUPPORTED
  | NO_RESOURCES
  | NO_MEMORY
  | INTERNAL_INTR_RETRY
  | INVALID_ARGS
  | BAD_HANDLE
  | WRONG_TYPE
  | BAD_SYSCALL
  | OUT_OF_RANGE
  | BUFFER_TOO_SMALL
  | BAD_STATE
  | TIMED_OUT
  | SHOULD_WAIT
  | CANCELED
  | PEER_CLOSED
  | NOT_FOUND
  | ALREADY_EXISTS
  | ALREADY_BOUND
  | UNAVAILABLE
  | ACCESS_DENIED
  | IO
  | IO_REFUSED
  | IO_DATA_INTEGRITY
  | IO_DATA_LOSS
  | IO_NOT_PRESENT
  | IO_OVERRUN
  | IO_MISSED_DEADLINE
  | IO_INVALID
  | BAD_PATH
  | NOT_DIR
  | NOT_FILE
  | FILE_BIG
  | NO_SPACE
  | NOT_EMPTY
  | STOP
  | NEXT
  | ASYNC
  | PROTOCOL_NOT_SUPPORTED
  | ADDRESS_UNREACHABLE
  | ADDRESS_IN_USE
  | NOT_CONNECTED
  | CONNECTION_REFUSED
  | CONNECTION_RESET
  | CONNECTION_ABORTED

type_synonym 'a zx = "(zx_error, 'a) outcome"

fun zx_code :: "zx_error \<Rightarrow> int" where
  "zx_code OK = 0"
| "zx_code INTERNAL = - 1"
| "zx_code NOT_SUPPORTED = - 2"
| "zx_code NO_RESOURCES = - 3"
| "zx_code NO_MEMORY = - 4"
| "zx_code INTERNAL_INTR_RETRY = - 6"
| "zx_code INVALID_ARGS = - 10"
| "zx_code BAD_HANDLE = - 11"
| "zx_code WRONG_TYPE = - 12"
| "zx_code BAD_SYSCALL = - 13"
| "zx_code OUT_OF_RANGE = - 14"
| "zx_code BUFFER_TOO_SMALL = - 15"
| "zx_code BAD_STATE = - 20"
| "zx_code TIMED_OUT = - 21"
| "zx_code SHOULD_WAIT = - 22"
| "zx_code CANCELED = - 23"
| "zx_code PEER_CLOSED = - 24"
| "zx_code NOT_FOUND = - 25"
| "zx_code ALREADY_EXISTS = - 26"
| "zx_code ALREADY_BOUND = - 27"
| "zx_code UNAVAILABLE = - 28"
| "zx_code ACCESS_DENIED = - 30"
| "zx_code IO = - 40"
| "zx_code IO_REFUSED = - 41"
| "zx_code IO_DATA_INTEGRITY = - 42"
| "zx_code IO_DATA_LOSS = - 43"
| "zx_code IO_NOT_PRESENT = - 44"
| "zx_code IO_OVERRUN = - 45"
| "zx_code IO_MISSED_DEADLINE = - 46"
| "zx_code IO_INVALID = - 47"
| "zx_code BAD_PATH = - 50"
| "zx_code NOT_DIR = - 51"
| "zx_code NOT_FILE = - 52"
| "zx_code FILE_BIG = - 53"
| "zx_code NO_SPACE = - 54"
| "zx_code NOT_EMPTY = - 55"
| "zx_code STOP = - 60"
| "zx_code NEXT = - 61"
| "zx_code ASYNC = - 62"
| "zx_code PROTOCOL_NOT_SUPPORTED = - 70"
| "zx_code ADDRESS_UNREACHABLE = - 71"
| "zx_code ADDRESS_IN_USE = - 72"
| "zx_code NOT_CONNECTED = - 73"
| "zx_code CONNECTION_REFUSED = - 74"
| "zx_code CONNECTION_RESET = - 75"
| "zx_code CONNECTION_ABORTED = - 76"

subsection \<open>Errors of user pointers\<close>

datatype user_error =
    InvalidUtf8
  | InvalidPointer
  | BufferTooSmall
  | InvalidLength
  | InvalidVectorAddress

fun zx_of_user :: "user_error \<Rightarrow> zx_error" where
  "zx_of_user InvalidUtf8 = INVALID_ARGS"
| "zx_of_user InvalidPointer = INVALID_ARGS"
| "zx_of_user BufferTooSmall = BUFFER_TOO_SMALL"
| "zx_of_user InvalidLength = INVALID_ARGS"
| "zx_of_user InvalidVectorAddress = NOT_FOUND"

definition user_res :: "(user_error, 'a) outcome \<Rightarrow> 'a zx" where
  \<comment> \<open>the \<open>?\<close> operator on a \<open>Result<_, user::Error>\<close> inside a function returning \<open>ZxResult\<close>\<close>
  "user_res r =
     (case r of
        Inr x \<Rightarrow> Inr x
      | Inl f \<Rightarrow> (case f of
            Err e \<Rightarrow> Inl (Err (zx_of_user e)) | Panic \<Rightarrow> Inl Panic | NoRef \<Rightarrow> Inl NoRef | NoFuel \<Rightarrow> Inl NoFuel))"

lemma user_res_simps [simp]:
  "user_res (Inl (Err e)) = Inl (Err (zx_of_user e))"
  "user_res (Inl Panic) = Inl Panic"
  "user_res (Inr x) = Inr x"
  by (simp_all add: user_res_def)

lemma zx_code_bounds: "- 76 \<le> zx_code e \<and> zx_code e \<le> 0"
  by (cases e) simp_all

lemma zx_code_inj: "zx_code e = zx_code f \<longleftrightarrow> e = f"
  by (cases e; cases f; simp)

lemma zx_code_zero: "zx_code e = 0 \<longleftrightarrow> e = OK"
  by (cases e) simp_all

end
