(* ===== verification/Rights.thy ===== *)
theory Rights
  imports Prelude
begin

text \<open>
  The bit-flag types of the kernel: handle rights (\<^verbatim>\<open>zircon-object/src/object/rights.rs\<close>),
  resource flags (\<^verbatim>\<open>zircon-object/src/dev/resource.rs\<close>), VMAR creation flags
  (\<^verbatim>\<open>zircon-object/src/vm/vmar.rs\<close>) and MMU flags (\<^verbatim>\<open>kernel-hal/src/lib.rs\<close>), each a word
  of the width the \<open>bitflags!\<close> declaration gives it.
\<close>

subsection \<open>Handle rights\<close>

type_synonym rights = u32

definition R_DUPLICATE :: rights where "R_DUPLICATE = 1"
definition R_TRANSFER :: rights where "R_TRANSFER = 2"
definition R_READ :: rights where "R_READ = 4"
definition R_WRITE :: rights where "R_WRITE = 8"
definition R_EXECUTE :: rights where "R_EXECUTE = 16"
definition R_MAP :: rights where "R_MAP = 32"
definition R_GET_PROPERTY :: rights where "R_GET_PROPERTY = 64"
definition R_SET_PROPERTY :: rights where "R_SET_PROPERTY = 128"
definition R_ENUMERATE :: rights where "R_ENUMERATE = 256"
definition R_DESTROY :: rights where "R_DESTROY = 512"
definition R_SET_POLICY :: rights where "R_SET_POLICY = 1024"
definition R_GET_POLICY :: rights where "R_GET_POLICY = 2048"
definition R_SIGNAL :: rights where "R_SIGNAL = 4096"
definition R_SIGNAL_PEER :: rights where "R_SIGNAL_PEER = 8192"
definition R_WAIT :: rights where "R_WAIT = 16384"
definition R_INSPECT :: rights where "R_INSPECT = 32768"
definition R_MANAGE_JOB :: rights where "R_MANAGE_JOB = 65536"
definition R_MANAGE_PROCESS :: rights where "R_MANAGE_PROCESS = 131072"
definition R_MANAGE_THREAD :: rights where "R_MANAGE_THREAD = 262144"
definition R_APPLY_PROFILE :: rights where "R_APPLY_PROFILE = 524288"
definition R_SAME_RIGHTS :: rights where "R_SAME_RIGHTS = 2147483648"

definition R_BASIC :: rights where
  "R_BASIC = R_TRANSFER OR R_DUPLICATE OR R_WAIT OR R_INSPECT"

definition R_IO :: rights where
  "R_IO = R_READ OR R_WRITE"

definition R_PROPERTY :: rights where
  "R_PROPERTY = R_GET_PROPERTY OR R_SET_PROPERTY"

definition R_POLICY :: rights where
  "R_POLICY = R_GET_POLICY OR R_SET_POLICY"

text \<open>In Rust \<open>&\<close> binds tighter than \<open>|\<close>: only \<open>BASIC\<close> loses \<open>DUPLICATE\<close> here.\<close>

definition R_DEFAULT_CHANNEL :: rights where
  "R_DEFAULT_CHANNEL = (R_BASIC AND NOT R_DUPLICATE) OR R_IO OR R_SIGNAL OR R_SIGNAL_PEER"

definition R_DEFAULT_PROCESS :: rights where
  "R_DEFAULT_PROCESS = R_BASIC OR R_IO OR R_PROPERTY OR R_ENUMERATE OR R_DESTROY
     OR R_SIGNAL OR R_MANAGE_PROCESS OR R_MANAGE_THREAD"

definition R_DEFAULT_THREAD :: rights where
  "R_DEFAULT_THREAD = R_BASIC OR R_IO OR R_PROPERTY OR R_DESTROY OR R_SIGNAL OR R_MANAGE_THREAD"

definition R_DEFAULT_VMAR :: rights where
  "R_DEFAULT_VMAR = R_BASIC AND NOT R_WAIT"

definition R_DEFAULT_JOB :: rights where
  "R_DEFAULT_JOB = R_BASIC OR R_IO OR R_PROPERTY OR R_POLICY OR R_ENUMERATE OR R_DESTROY
     OR R_SIGNAL OR R_MANAGE_JOB OR R_MANAGE_PROCESS OR R_MANAGE_THREAD"

definition R_DEFAULT_VMO :: rights where
  "R_DEFAULT_VMO = R_BASIC OR R_IO OR R_PROPERTY OR R_MAP OR R_SIGNAL"

definition R_DEFAULT_RESOURCE :: rights where
  "R_DEFAULT_RESOURCE = R_TRANSFER OR R_DUPLICATE OR R_WRITE OR R_INSPECT"

definition R_DEFAULT_DEBUGLOG :: rights where
  "R_DEFAULT_DEBUGLOG = R_BASIC OR R_WRITE OR R_SIGNAL"

lemmas right_bit_defs =
  R_DUPLICATE_def R_TRANSFER_def R_READ_def R_WRITE_def R_EXECUTE_def R_MAP_def
  R_GET_PROPERTY_def R_SET_PROPERTY_def R_ENUMERATE_def R_DESTROY_def R_SET_POLICY_def
  R_GET_POLICY_def R_SIGNAL_def R_SIGNAL_PEER_def R_WAIT_def R_INSPECT_def R_MANAGE_JOB_def
  R_MANAGE_PROCESS_def R_MANAGE_THREAD_def R_APPLY_PROFILE_def R_SAME_RIGHTS_def

lemmas right_group_defs =
  R_BASIC_def R_IO_def R_PROPERTY_def R_POLICY_def R_DEFAULT_CHANNEL_def R_DEFAULT_PROCESS_def
  R_DEFAULT_THREAD_def R_DEFAULT_VMAR_def R_DEFAULT_JOB_def R_DEFAULT_VMO_def
  R_DEFAULT_RESOURCE_def R_DEFAULT_DEBUGLOG_def

lemmas rights_defs = right_bit_defs right_group_defs

definition right_bits :: "rights list" where
  \<comment> \<open>the elementary rights, in the order of the declaration\<close>
  "right_bits =
     [R_DUPLICATE, R_TRANSFER, R_READ, R_WRITE, R_EXECUTE, R_MAP, R_GET_PROPERTY,
      R_SET_PROPERTY, R_ENUMERATE, R_DESTROY, R_SET_POLICY, R_GET_POLICY, R_SIGNAL,
      R_SIGNAL_PEER, R_WAIT, R_INSPECT, R_MANAGE_JOB, R_MANAGE_PROCESS, R_MANAGE_THREAD,
      R_APPLY_PROFILE, R_SAME_RIGHTS]"

subsection \<open>Resource flags\<close>

type_synonym resource_flags = u32

definition RF_EXCLUSIVE :: resource_flags where "RF_EXCLUSIVE = 65536"

subsection \<open>VMAR flags\<close>

type_synonym vmar_flags = u32

definition VF_COMPACT :: vmar_flags where "VF_COMPACT = 1"
definition VF_SPECIFIC :: vmar_flags where "VF_SPECIFIC = 2"
definition VF_SPECIFIC_OVERWRITE :: vmar_flags where "VF_SPECIFIC_OVERWRITE = 4"
definition VF_CAN_MAP_SPECIFIC :: vmar_flags where "VF_CAN_MAP_SPECIFIC = 8"
definition VF_CAN_MAP_READ :: vmar_flags where "VF_CAN_MAP_READ = 16"
definition VF_CAN_MAP_WRITE :: vmar_flags where "VF_CAN_MAP_WRITE = 32"
definition VF_CAN_MAP_EXECUTE :: vmar_flags where "VF_CAN_MAP_EXECUTE = 64"
definition VF_REQUIRE_NON_RESIZABLE :: vmar_flags where "VF_REQUIRE_NON_RESIZABLE = 128"
definition VF_ALLOW_FAULTS :: vmar_flags where "VF_ALLOW_FAULTS = 256"

definition VF_CAN_MAP_RXW :: vmar_flags where
  "VF_CAN_MAP_RXW = VF_CAN_MAP_READ OR VF_CAN_MAP_EXECUTE OR VF_CAN_MAP_WRITE"

definition VF_ROOT_FLAGS :: vmar_flags where
  "VF_ROOT_FLAGS = VF_CAN_MAP_RXW OR VF_CAN_MAP_SPECIFIC"

lemmas vmar_flag_defs =
  VF_COMPACT_def VF_SPECIFIC_def VF_SPECIFIC_OVERWRITE_def VF_CAN_MAP_SPECIFIC_def
  VF_CAN_MAP_READ_def VF_CAN_MAP_WRITE_def VF_CAN_MAP_EXECUTE_def VF_REQUIRE_NON_RESIZABLE_def
  VF_ALLOW_FAULTS_def VF_CAN_MAP_RXW_def VF_ROOT_FLAGS_def

subsection \<open>MMU flags\<close>

type_synonym mmu_flags = u64

definition MMU_CACHE_1 :: mmu_flags where "MMU_CACHE_1 = 1"
definition MMU_CACHE_2 :: mmu_flags where "MMU_CACHE_2 = 2"
definition MMU_READ :: mmu_flags where "MMU_READ = 4"
definition MMU_WRITE :: mmu_flags where "MMU_WRITE = 8"
definition MMU_EXECUTE :: mmu_flags where "MMU_EXECUTE = 16"
definition MMU_USER :: mmu_flags where "MMU_USER = 32"

definition MMU_RXW :: mmu_flags where
  "MMU_RXW = MMU_READ OR MMU_WRITE OR MMU_EXECUTE"

lemmas mmu_flag_defs =
  MMU_CACHE_1_def MMU_CACHE_2_def MMU_READ_def MMU_WRITE_def MMU_EXECUTE_def MMU_USER_def
  MMU_RXW_def

definition mmu_from_bits_truncate :: "u64 \<Rightarrow> mmu_flags" where
  \<comment> \<open>\<open>MMUFlags::from_bits_truncate\<close>: the declared bits are the lowest six\<close>
  "mmu_from_bits_truncate w = w AND 63"

subsection \<open>Facts on the constants\<close>

lemma right_bits_distinct: "distinct right_bits"
  by (simp add: right_bits_def right_bit_defs)

lemma right_bits_disjoint:
  "a \<in> set right_bits \<Longrightarrow> b \<in> set right_bits \<Longrightarrow> a \<noteq> b \<Longrightarrow> a AND b = 0"
  by (auto simp: right_bits_def right_bit_defs)

lemma default_channel_rights:
  "flags_contains R_DEFAULT_CHANNEL r \<longleftrightarrow>
     r AND NOT (R_TRANSFER OR R_WAIT OR R_INSPECT OR R_READ OR R_WRITE OR R_SIGNAL OR R_SIGNAL_PEER) = 0"
proof -
  have "R_DEFAULT_CHANNEL =
      R_TRANSFER OR R_WAIT OR R_INSPECT OR R_READ OR R_WRITE OR R_SIGNAL OR R_SIGNAL_PEER"
    by (simp add: rights_defs)
  moreover have "\<And>m :: u32. m AND r = r \<longleftrightarrow> r AND NOT m = 0"
    by (auto simp: bit_eq_iff bit_and_iff bit_not_iff)
  ultimately show ?thesis by (simp add: flags_contains_def)
qed

lemma default_vmar_no_wait: "\<not> flags_contains R_DEFAULT_VMAR R_WAIT"
  by (simp add: flags_contains_def rights_defs)

lemma mmu_rxw_bits: "MMU_RXW = 28"
  by (simp add: mmu_flag_defs)

end
