(* ===== verification/Kobject.thy ===== *)
theory Kobject
  imports Zx_Error Rights
begin

text \<open>
  Kernel objects and handles (\<^verbatim>\<open>zircon-object/src/object/mod.rs\<close> and \<^verbatim>\<open>handle.rs\<close>): the
  object id counter, the object base with its name, references to kernel objects as a
  \<open>dyn KernelObject\<close> with their dynamic type, downcasts, and handles.

  An \<open>Arc\<close> of an object is its id in the store of its type; an object is alive as long as it is
  in that store, and upgrading a \<open>Weak\<close> is looking it up.
\<close>

subsection \<open>Object ids\<close>

type_synonym koid = u64

record koid_state =
  next_koid :: koid

definition init_koid :: koid where
  "init_koid = 1024"

definition new_koid :: "'a koid_state_scheme \<Rightarrow> koid \<times> 'a koid_state_scheme" where
  \<comment> \<open>\<open>NEXT_KOID.fetch_add(1, SeqCst)\<close>, which wraps\<close>
  "new_koid s = (next_koid s, s\<lparr>next_koid := next_koid s + 1\<rparr>)"

primrec new_koids :: "nat \<Rightarrow> 'a koid_state_scheme \<Rightarrow> koid list \<times> 'a koid_state_scheme" where
  "new_koids 0 s = ([], s)"
| "new_koids (Suc n) s =
     (let (k, s1) = new_koid s; (ks, s2) = new_koids n s1 in (k # ks, s2))"

lemma new_koids_eq:
  "fst (new_koids n s) = map (\<lambda>i. next_koid s + of_nat i) [0..<n]"
proof (induction n arbitrary: s)
  case 0
  show ?case by simp
next
  case (Suc n)
  have "map (\<lambda>i. next_koid s + of_nat i) [0..<Suc n] =
      next_koid s # map (\<lambda>i. next_koid s + 1 + of_nat i) [0..<n]"
    by (simp add: map_upt_Suc add.assoc del: upt_Suc)
  with Suc show ?case by (simp add: new_koid_def Let_def split_beta)
qed

lemma of_nat_koid_inj:
  "i < usize_lim \<Longrightarrow> j < usize_lim \<Longrightarrow> (of_nat i :: koid) = of_nat j \<longleftrightarrow> i = j"
  by (simp add: word_of_nat_eq_iff take_bit_eq_mod)

lemma new_koids_distinct: "n \<le> usize_lim \<Longrightarrow> distinct (fst (new_koids n s))"
  by (auto simp: new_koids_eq distinct_map inj_on_def of_nat_koid_inj)

subsection \<open>The object base\<close>

record kobj_base =
  base_id :: koid
  base_name :: string

definition kobject_base_new :: "'a koid_state_scheme \<Rightarrow> kobj_base \<times> 'a koid_state_scheme" where
  "kobject_base_new s = (let (k, s1) = new_koid s in (\<lparr>base_id = k, base_name = ''''\<rparr>, s1))"

definition kobject_base_with_name ::
  "string \<Rightarrow> 'a koid_state_scheme \<Rightarrow> kobj_base \<times> 'a koid_state_scheme" where
  "kobject_base_with_name nm s = (let (k, s1) = new_koid s in (\<lparr>base_id = k, base_name = nm\<rparr>, s1))"

definition base_set_name :: "string \<Rightarrow> kobj_base \<Rightarrow> kobj_base" where
  "base_set_name nm b = b\<lparr>base_name := nm\<rparr>"

subsection \<open>References to kernel objects\<close>

datatype obj_type =
    T_Job | T_Process | T_Thread | T_Channel | T_VmObject | T_VmAddressRegion
  | T_Resource | T_DebugLog | T_DummyObject

datatype kobj_ref = KObj (ref_type: obj_type) (ref_id: koid)

fun obj_type_name :: "obj_type \<Rightarrow> string" where
  \<comment> \<open>\<open>stringify!($class)\<close> in \<open>impl_kobject!\<close>\<close>
  "obj_type_name T_Job = ''Job''"
| "obj_type_name T_Process = ''Process''"
| "obj_type_name T_Thread = ''Thread''"
| "obj_type_name T_Channel = ''Channel''"
| "obj_type_name T_VmObject = ''VmObject''"
| "obj_type_name T_VmAddressRegion = ''VmAddressRegion''"
| "obj_type_name T_Resource = ''Resource''"
| "obj_type_name T_DebugLog = ''DebugLog''"
| "obj_type_name T_DummyObject = ''DummyObject''"

definition downcast :: "obj_type \<Rightarrow> kobj_ref \<Rightarrow> koid option" where
  \<comment> \<open>\<open>downcast_arc::<T>()\<close>\<close>
  "downcast t r = (if ref_type r = t then Some (ref_id r) else None)"

lemma downcast_KObj [simp]: "downcast t (KObj t' k) = (if t' = t then Some k else None)"
  by (simp add: downcast_def)

lemma downcast_eq_Some: "downcast t r = Some k \<longleftrightarrow> r = KObj t k"
  by (cases r) auto

text \<open>The default methods of the trait \<open>KernelObject\<close>; a type may override them.\<close>

definition kobj_peer_default :: "kobj_ref zx" where
  "kobj_peer_default = Inl (Err NOT_SUPPORTED)"

definition kobj_related_koid_default :: koid where
  "kobj_related_koid_default = 0"

definition kobj_get_child_default :: "koid \<Rightarrow> kobj_ref zx" where
  "kobj_get_child_default k = Inl (Err WRONG_TYPE)"

subsection \<open>Handles\<close>

type_synonym handle_value = u32

definition INVALID_HANDLE :: handle_value where
  "INVALID_HANDLE = 0"

record handle =
  object :: kobj_ref
  rights :: rights

definition handle_new :: "kobj_ref \<Rightarrow> rights \<Rightarrow> handle" where
  "handle_new r rs = \<lparr>object = r, rights = rs\<rparr>"

lemma handle_new_simps [simp]:
  "object (handle_new r rs) = r"
  "rights (handle_new r rs) = rs"
  by (simp_all add: handle_new_def)

end
