(* ===== verification/Vm_Util.thy ===== *)
theory Vm_Util
  imports Zx_Error
begin

text \<open>
  Page arithmetic (\<^verbatim>\<open>zircon-object/src/vm/mod.rs\<close>). \<open>ceil\<close> uses a wrapping addition, so
  \<open>roundup_pages\<close> of a size in the last page of the address space is 0; the callers detect this by
  comparing the result with the size, which the last lemma shows to be exact.
\<close>

abbreviation PAGE_SIZE :: usize where
  "PAGE_SIZE \<equiv> 4096"

definition PAGE_SIZE_LOG2 :: usize where
  "PAGE_SIZE_LOG2 = 12"

definition check_aligned :: "usize \<Rightarrow> usize \<Rightarrow> bool zx" where
  \<comment> \<open>\<open>x % align\<close> panics when \<open>align\<close> is 0\<close>
  "check_aligned x align = (if align = 0 then Inl Panic else Inr (x mod align = 0))"

definition page_aligned :: "usize \<Rightarrow> bool" where
  "page_aligned x \<longleftrightarrow> check_aligned x PAGE_SIZE = Inr True"

definition ceil :: "usize \<Rightarrow> usize \<Rightarrow> usize zx" where
  \<comment> \<open>\<open>x.wrapping_add(align - 1) / align\<close>\<close>
  "ceil x align = (if align = 0 then Inl Panic else Inr ((x + (align - 1)) mod usize_lim div align))"

definition pages :: "usize \<Rightarrow> usize" where
  "pages sz = (case ceil sz PAGE_SIZE of Inr n \<Rightarrow> n | Inl _ \<Rightarrow> 0)"

definition roundup_pages :: "usize \<Rightarrow> usize" where
  "roundup_pages sz = pages sz * PAGE_SIZE"

definition round_down_pages :: "usize \<Rightarrow> usize" where
  "round_down_pages sz = sz div PAGE_SIZE * PAGE_SIZE"

lemma page_aligned_iff: "page_aligned x \<longleftrightarrow> x mod PAGE_SIZE = 0"
  by (simp add: page_aligned_def check_aligned_def)

lemma check_aligned_page [simp]: "check_aligned x PAGE_SIZE = Inr (page_aligned x)"
  by (simp add: page_aligned_def check_aligned_def)

lemma page_aligned_0 [simp]: "page_aligned 0"
  by (simp add: page_aligned_iff)

lemma page_aligned_add: "page_aligned x \<Longrightarrow> page_aligned y \<Longrightarrow> page_aligned (x + y)"
  by (simp add: page_aligned_iff mod_add_eq flip: mod_add_eq)

lemma page_aligned_mult [simp]: "page_aligned (n * PAGE_SIZE)" "page_aligned (PAGE_SIZE * n)"
  by (simp_all add: page_aligned_iff)

lemma pages_eq: "pages sz = (sz + 4095) mod usize_lim div 4096"
  by (simp add: pages_def ceil_def)

lemma pages_no_wrap: "sz + 4095 < usize_lim \<Longrightarrow> pages sz = (sz + 4095) div 4096"
  by (simp add: pages_eq)

lemma pages_aligned:
  assumes "page_aligned sz" and "sz < usize_lim"
  shows "pages sz = sz div 4096"
proof -
  from assms(1) obtain n where n: "sz = 4096 * n"
    by (auto simp: page_aligned_iff)
  with assms(2) have "n < 4503599627370496" by simp
  with n have "sz + 4095 < usize_lim" by simp
  then have "pages sz = (sz + 4095) div 4096" by (rule pages_no_wrap)
  with n show ?thesis by simp
qed

lemma roundup_pages_aligned_id: "page_aligned sz \<Longrightarrow> sz < usize_lim \<Longrightarrow> roundup_pages sz = sz"
  by (auto simp: roundup_pages_def pages_aligned page_aligned_iff)

lemma page_aligned_roundup [simp]: "page_aligned (roundup_pages sz)"
  by (simp add: roundup_pages_def)

lemma roundup_pages_bound: "roundup_pages sz < usize_lim"
proof -
  have "(sz + 4095) mod usize_lim div 4096 * 4096 \<le> (sz + 4095) mod usize_lim"
    by simp
  also have "\<dots> < usize_lim" by simp
  finally show ?thesis by (simp add: roundup_pages_def pages_eq)
qed

lemma roundup_pages_ge:
  assumes "sz \<le> usize_lim - 4096"
  shows "sz \<le> roundup_pages sz" "roundup_pages sz < sz + 4096"
proof -
  have nw: "sz + 4095 < usize_lim" using assms by simp
  define q where "q = (sz + 4095) div 4096"
  have "4096 * q \<le> sz + 4095" "sz + 4095 < 4096 * q + 4096"
    unfolding q_def by (simp_all add: dividend_less_times_div)
  moreover have "roundup_pages sz = q * 4096"
    using nw by (simp add: roundup_pages_def pages_no_wrap q_def)
  ultimately show "sz \<le> roundup_pages sz" "roundup_pages sz < sz + 4096" by simp_all
qed

lemma roundup_pages_wraps:
  assumes "usize_lim - 4096 < sz" and "sz < usize_lim"
  shows "roundup_pages sz = 0"
proof -
  have "(sz + 4095) mod usize_lim = sz + 4095 - usize_lim"
    using assms by (simp add: mod_if)
  then have "(sz + 4095) mod usize_lim < 4096" using assms by simp
  then show ?thesis by (simp add: roundup_pages_def pages_eq)
qed

lemma roundup_pages_overflow_iff:
  assumes "sz < usize_lim"
  shows "roundup_pages sz < sz \<longleftrightarrow> usize_lim - 4096 < sz"
proof (cases "usize_lim - 4096 < sz")
  case True
  with assms show ?thesis by (simp add: roundup_pages_wraps)
next
  case False
  then have "sz \<le> usize_lim - 4096" by simp
  from roundup_pages_ge(1) [OF this] False show ?thesis by simp
qed

lemma round_down_pages_le: "round_down_pages sz \<le> sz" "sz < round_down_pages sz + 4096"
  by (simp_all add: round_down_pages_def dividend_less_div_times)

end
