(* ===== verification/Hal.thy ===== *)
theory Hal
  imports Kobject Vm_Util
begin

text \<open>
  The hardware abstraction layer of the user-mode kernel: physical memory as a byte array, the
  queue of free frames, and the page table, which is the host's own address space
  (\<^verbatim>\<open>kernel-hal-unix/src/lib.rs\<close>), with the provided methods of the HAL types and the page table
  trait (\<^verbatim>\<open>kernel-hal/src/dummy.rs\<close>, \<^verbatim>\<open>lib.rs\<close>, \<^verbatim>\<open>vdso.rs\<close>).

  \<open>mmap\<close>, \<open>munmap\<close> and \<open>mprotect\<close> are the host's: the state component \<open>host_map\<close> holds what they
  are documented to do, page by page. An \<open>mmap\<close> with \<open>MAP_FIXED\<close> replaces what was mapped, a
  \<open>munmap\<close> of a page that is not mapped is no error, an \<open>mprotect\<close> of one is (and the code
  asserts success).
\<close>

subsection \<open>State\<close>

datatype prot = PROT_READ | PROT_WRITE | PROT_EXEC

record hal_state = koid_state +
  pmem :: "usize \<Rightarrow> u8"
  avail_frames :: "usize list"
  host_map :: "usize \<Rightarrow> (usize \<times> prot set) option"

definition PMEM_SIZE :: usize where
  "PMEM_SIZE = 1073741824"

definition init_frames :: "usize list" where
  \<comment> \<open>\<open>(PAGE_SIZE..PMEM_SIZE).step_by(PAGE_SIZE)\<close>\<close>
  "init_frames = map (\<lambda>i. i * PAGE_SIZE) [1..<PMEM_SIZE div PAGE_SIZE]"

definition phys_to_virt :: "usize \<Rightarrow> usize zx" where
  "phys_to_virt paddr = uadd 0x800000000 paddr"

subsection \<open>Cache policy\<close>

datatype cache_policy = Cached | Uncached | UncachedDevice | WriteCombining

fun cache_policy_code :: "cache_policy \<Rightarrow> u32" where
  "cache_policy_code Cached = 0"
| "cache_policy_code Uncached = 1"
| "cache_policy_code UncachedDevice = 2"
| "cache_policy_code WriteCombining = 3"

subsection \<open>Physical memory\<close>

definition pmem_bounds :: "usize \<Rightarrow> nat \<Rightarrow> unit zx" where
  \<comment> \<open>\<open>assert!(paddr + len <= PMEM_SIZE)\<close>\<close>
  "pmem_bounds paddr n =
     rbind (uadd paddr n) (\<lambda>e. if e \<le> PMEM_SIZE then Inr () else Inl Panic)"

definition pmem_read :: "'a hal_state_scheme \<Rightarrow> usize \<Rightarrow> nat \<Rightarrow> u8 list zx" where
  "pmem_read s paddr n =
     rbind (pmem_bounds paddr n) (\<lambda>_. Inr (map (\<lambda>i. pmem s (paddr + i)) [0..<n]))"

definition pmem_store :: "(usize \<Rightarrow> u8) \<Rightarrow> usize \<Rightarrow> u8 list \<Rightarrow> usize \<Rightarrow> u8" where
  "pmem_store m paddr bs a = (if paddr \<le> a \<and> a < paddr + length bs then bs ! (a - paddr) else m a)"

definition pmem_write ::
  "usize \<Rightarrow> u8 list \<Rightarrow> 'a hal_state_scheme \<Rightarrow> unit zx \<times> 'a hal_state_scheme" where
  "pmem_write paddr bs s =
     (case pmem_bounds paddr (length bs) of
        Inl f \<Rightarrow> (Inl f, s)
      | Inr _ \<Rightarrow> (Inr (), s\<lparr>pmem := pmem_store (pmem s) paddr bs\<rparr>))"

definition pmem_zero ::
  "usize \<Rightarrow> nat \<Rightarrow> 'a hal_state_scheme \<Rightarrow> unit zx \<times> 'a hal_state_scheme" where
  "pmem_zero paddr n s =
     (case pmem_bounds paddr n of
        Inl f \<Rightarrow> (Inl f, s)
      | Inr _ \<Rightarrow> (Inr (), s\<lparr>pmem := pmem_store (pmem s) paddr (replicate n 0)\<rparr>))"

definition frame_copy ::
  "usize \<Rightarrow> usize \<Rightarrow> 'a hal_state_scheme \<Rightarrow> unit zx \<times> 'a hal_state_scheme" where
  "frame_copy src target s =
     (case rbind (pmem_bounds src PAGE_SIZE) (\<lambda>_. pmem_bounds target PAGE_SIZE) of
        Inl f \<Rightarrow> (Inl f, s)
      | Inr _ \<Rightarrow>
          (Inr (), s\<lparr>pmem := pmem_store (pmem s) target (map (\<lambda>i. pmem s (src + i)) [0..<PAGE_SIZE])\<rparr>))"

definition frame_flush :: "usize \<Rightarrow> 'a hal_state_scheme \<Rightarrow> 'a hal_state_scheme" where
  "frame_flush target s = s"

subsection \<open>Frames\<close>

definition frame_alloc :: "'a hal_state_scheme \<Rightarrow> usize option \<times> 'a hal_state_scheme" where
  "frame_alloc s =
     (case avail_frames s of
        [] \<Rightarrow> (None, s)
      | p # ps \<Rightarrow> (Some p, s\<lparr>avail_frames := ps\<rparr>))"

definition frame_dealloc :: "usize \<Rightarrow> 'a hal_state_scheme \<Rightarrow> 'a hal_state_scheme" where
  \<comment> \<open>\<open>PhysFrame::drop\<close>\<close>
  "frame_dealloc p s = s\<lparr>avail_frames := avail_frames s @ [p]\<rparr>"

definition zero_frame_addr :: usize where
  "zero_frame_addr = 0"

definition frame_alloc_zeroed ::
  "'a hal_state_scheme \<Rightarrow> usize option zx \<times> 'a hal_state_scheme" where
  "frame_alloc_zeroed s =
     (case frame_alloc s of
        (None, s1) \<Rightarrow> (Inr None, s1)
      | (Some p, s1) \<Rightarrow> sbind (pmem_zero p PAGE_SIZE) (\<lambda>_. sret (Some p)) s1)"

definition alloc_contiguous_base ::
  "usize \<Rightarrow> usize \<Rightarrow> 'a hal_state_scheme \<Rightarrow> usize option zx \<times> 'a hal_state_scheme" where
  \<comment> \<open>the weak default; \<^verbatim>\<open>kernel-hal-unix\<close> exports no \<open>hal_frame_alloc_contiguous\<close>\<close>
  "alloc_contiguous_base n align_log2 s = (Inl Panic, s)"

definition alloc_contiguous_zeroed ::
  "usize \<Rightarrow> usize \<Rightarrow> 'a hal_state_scheme \<Rightarrow> usize list zx \<times> 'a hal_state_scheme" where
  "alloc_contiguous_zeroed n align_log2 =
     sbind (alloc_contiguous_base n align_log2) (\<lambda>b.
       case b of
         None \<Rightarrow> sret []
       | Some base \<Rightarrow>
           sbind (slift (\<lambda>_. umul n PAGE_SIZE)) (\<lambda>len.
           sbind (pmem_zero base len) (\<lambda>_.
             sret (map (\<lambda>i. base + i * PAGE_SIZE) [0..<n]))))"

subsection \<open>Page table\<close>

definition to_mmap_prot :: "mmu_flags \<Rightarrow> prot set" where
  "to_mmap_prot f =
     (if flags_contains f MMU_READ then {PROT_READ} else {}) \<union>
     (if flags_contains f MMU_WRITE then {PROT_WRITE} else {}) \<union>
     (if flags_contains f MMU_EXECUTE then {PROT_EXEC} else {})"

definition pt_map ::
  "usize \<Rightarrow> usize \<Rightarrow> mmu_flags \<Rightarrow> 'a hal_state_scheme \<Rightarrow> unit zx \<times> 'a hal_state_scheme" where
  "pt_map vaddr paddr f s =
     (if page_aligned vaddr \<and> page_aligned paddr
      then (Inr (), s\<lparr>host_map := (host_map s)(vaddr \<mapsto> (paddr, to_mmap_prot f))\<rparr>)
      else (Inl Panic, s))"

definition pt_unmap_cont ::
  "usize \<Rightarrow> usize \<Rightarrow> 'a hal_state_scheme \<Rightarrow> unit zx \<times> 'a hal_state_scheme" where
  "pt_unmap_cont vaddr n s =
     (if n = 0 then (Inr (), s)
      else if \<not> page_aligned vaddr then (Inl Panic, s)
      else case umul PAGE_SIZE n of
             Inl f \<Rightarrow> (Inl f, s)
           | Inr len \<Rightarrow>
               (Inr (), s\<lparr>host_map := (\<lambda>v. if vaddr \<le> v \<and> v < vaddr + len then None else host_map s v)\<rparr>))"

definition pt_unmap :: "usize \<Rightarrow> 'a hal_state_scheme \<Rightarrow> unit zx \<times> 'a hal_state_scheme" where
  "pt_unmap vaddr = pt_unmap_cont vaddr 1"

definition pt_protect ::
  "usize \<Rightarrow> mmu_flags \<Rightarrow> 'a hal_state_scheme \<Rightarrow> unit zx \<times> 'a hal_state_scheme" where
  "pt_protect vaddr f s =
     (if page_aligned vaddr
      then case host_map s vaddr of
             None \<Rightarrow> (Inl Panic, s)
           | Some (paddr, _) \<Rightarrow>
               (Inr (), s\<lparr>host_map := (host_map s)(vaddr \<mapsto> (paddr, to_mmap_prot f))\<rparr>)
      else (Inl Panic, s))"

definition pt_query :: "usize \<Rightarrow> 'a hal_state_scheme \<Rightarrow> usize zx" where
  \<comment> \<open>\<open>unimplemented!()\<close>\<close>
  "pt_query vaddr s = Inl Panic"

primrec pt_map_many ::
  "usize \<Rightarrow> usize list \<Rightarrow> mmu_flags \<Rightarrow> 'a hal_state_scheme \<Rightarrow> unit zx \<times> 'a hal_state_scheme" where
  "pt_map_many vaddr [] f = sret ()"
| "pt_map_many vaddr (p # ps) f =
     sbind (pt_map vaddr p f) (\<lambda>_.
     sbind (slift (\<lambda>_. uadd vaddr PAGE_SIZE)) (\<lambda>v. pt_map_many v ps f))"

definition pt_map_cont ::
  "usize \<Rightarrow> usize \<Rightarrow> usize \<Rightarrow> mmu_flags \<Rightarrow> 'a hal_state_scheme \<Rightarrow> unit zx \<times> 'a hal_state_scheme" where
  "pt_map_cont vaddr paddr n f =
     sfor (\<lambda>i.
       sbind (slift (\<lambda>_. rbind (umul i PAGE_SIZE) (uadd paddr))) (\<lambda>p.
       sbind (pt_map (vaddr + i * PAGE_SIZE) p f) (\<lambda>_.
       sbind (slift (\<lambda>_. uadd (vaddr + i * PAGE_SIZE) PAGE_SIZE)) (\<lambda>_. sret ())))) [0..<n]"

subsection \<open>Constants for the vDSO\<close>

record vdso_version =
  version_string_len :: u64
  version_string :: "u8 list"

definition set_version_string :: "u8 list \<Rightarrow> vdso_version \<Rightarrow> unit zx \<times> vdso_version" where
  \<comment> \<open>\<open>copy_from_slice\<close> panics when the slices differ in length, after the length was stored\<close>
  "set_version_string str c =
     (let len = min (length str) 64;
          c1 = c\<lparr>version_string_len := of_nat len\<rparr>
      in if length str = len
         then (Inr (), c1\<lparr>version_string := splice_at (version_string c1) 0 str\<rparr>)
         else (Inl Panic, c1))"

subsection \<open>Facts on physical memory\<close>

definition frame_ok :: "usize \<Rightarrow> bool" where
  "frame_ok p \<longleftrightarrow> page_aligned p \<and> 0 < p \<and> p + PAGE_SIZE \<le> PMEM_SIZE"

lemma pmem_bounds_ok [simp]: "pmem_bounds p n = Inr u \<longleftrightarrow> p + n \<le> PMEM_SIZE"
  by (auto simp: pmem_bounds_def rbind_eq_Inr PMEM_SIZE_def)

lemma pmem_bounds_Inr: "p + n \<le> PMEM_SIZE \<Longrightarrow> pmem_bounds p n = Inr ()"
  by simp

lemma pmem_read_ok:
  "p + n \<le> PMEM_SIZE \<Longrightarrow> pmem_read s p n = Inr (map (\<lambda>i. pmem s (p + i)) [0..<n])"
  by (simp add: pmem_read_def pmem_bounds_Inr)

lemma pmem_write_ok:
  "p + length bs \<le> PMEM_SIZE \<Longrightarrow> pmem_write p bs s = (Inr (), s\<lparr>pmem := pmem_store (pmem s) p bs\<rparr>)"
  by (simp add: pmem_write_def pmem_bounds_Inr)

lemma pmem_zero_ok:
  "p + n \<le> PMEM_SIZE \<Longrightarrow> pmem_zero p n s = (Inr (), s\<lparr>pmem := pmem_store (pmem s) p (replicate n 0)\<rparr>)"
  by (simp add: pmem_zero_def pmem_bounds_Inr)

lemma pmem_store_at: "i < length bs \<Longrightarrow> pmem_store m p bs (p + i) = bs ! i"
  by (simp add: pmem_store_def)

lemma pmem_store_other: "a < p \<or> p + length bs \<le> a \<Longrightarrow> pmem_store m p bs a = m a"
  by (auto simp: pmem_store_def)

lemma pmem_write_read:
  assumes "pmem_write p bs s = (Inr (), s')"
  shows "pmem_read s' p (length bs) = Inr bs"
proof -
  from assms have b: "p + length bs \<le> PMEM_SIZE" and s': "s' = s\<lparr>pmem := pmem_store (pmem s) p bs\<rparr>"
    by (auto simp: pmem_write_def split: sum.splits)
  show ?thesis
    by (auto simp: pmem_read_ok [OF b] s' pmem_store_at intro!: nth_equalityI)
qed

lemma set_init_frames: "set init_frames = {p. frame_ok p}"
proof -
  have "p \<in> set init_frames" if "frame_ok p" for p
  proof -
    from that obtain i where i: "p = i * 4096" by (auto simp: frame_ok_def page_aligned_iff)
    with that have "i \<in> {1..<PMEM_SIZE div 4096}" by (auto simp: frame_ok_def PMEM_SIZE_def)
    with i show ?thesis by (auto simp: init_frames_def)
  qed
  then show ?thesis by (auto simp: init_frames_def frame_ok_def PMEM_SIZE_def)
qed

lemma distinct_init_frames: "distinct init_frames"
  by (auto simp: init_frames_def distinct_map inj_on_def)

lemma frame_ok_disjoint:
  assumes "frame_ok p" and "frame_ok q" and "p \<noteq> q" and "i < 4096" and "j < 4096"
  shows "p + i \<noteq> q + j"
proof
  assume eq: "p + i = q + j"
  from assms(1) obtain m where "p = 4096 * m" by (auto simp: frame_ok_def page_aligned_iff)
  moreover from assms(2) obtain n where "q = 4096 * n" by (auto simp: frame_ok_def page_aligned_iff)
  ultimately have "(4096 * m + i) div 4096 = (4096 * n + j) div 4096" and mn: "p = 4096 * m" "q = 4096 * n"
    using eq by simp_all
  with assms(4,5) have "m = n" by simp
  with mn assms(3) show False by simp
qed

text \<open>
  The frame queue never hands a frame out twice: the free frames and the frames owned by anyone
  stay distinct.
\<close>

definition frames_inv :: "'a hal_state_scheme \<Rightarrow> usize list \<Rightarrow> bool" where
  "frames_inv s owned \<longleftrightarrow>
     distinct (avail_frames s @ owned) \<and> (\<forall>p \<in> set (avail_frames s @ owned). frame_ok p)"

lemma frames_inv_init: "avail_frames s = init_frames \<Longrightarrow> frames_inv s []"
  using set_init_frames by (simp add: frames_inv_def distinct_init_frames)

lemma frame_alloc_inv:
  "frame_alloc s = (Some p, s') \<Longrightarrow> frames_inv s owned \<Longrightarrow> frames_inv s' (p # owned)"
  by (auto simp: frame_alloc_def frames_inv_def split: list.splits)

lemma frame_dealloc_inv:
  "frames_inv s (p # owned) \<Longrightarrow> frames_inv (frame_dealloc p s) owned"
  by (auto simp: frame_dealloc_def frames_inv_def)

lemma frames_inv_perm:
  "frames_inv s xs \<Longrightarrow> distinct ys \<Longrightarrow> set ys \<subseteq> set xs \<Longrightarrow> frames_inv s ys"
  by (auto simp: frames_inv_def)

lemma frames_inv_pmem [simp]: "frames_inv (s\<lparr>pmem := m\<rparr>) owned = frames_inv s owned"
  by (simp add: frames_inv_def)

lemma frames_inv_owned_ok: "frames_inv s owned \<Longrightarrow> p \<in> set owned \<Longrightarrow> frame_ok p"
  by (simp add: frames_inv_def)

lemma frame_alloc_zeroed_cases:
  assumes "frames_inv s owned"
  obtains (none) "avail_frames s = []" and "frame_alloc_zeroed s = (Inr None, s)"
  | (some) p s' where "frame_alloc_zeroed s = (Inr (Some p), s')"
      and "s' = s\<lparr>avail_frames := tl (avail_frames s), pmem := pmem_store (pmem s) p (replicate 4096 0)\<rparr>"
      and "frames_inv s' (p # owned)" and "avail_frames s = p # avail_frames s'"
proof (cases "avail_frames s")
  case Nil
  then show ?thesis by (auto simp: frame_alloc_zeroed_def frame_alloc_def intro: none)
next
  case (Cons p ps)
  with assms have p: "p + 4096 \<le> PMEM_SIZE" by (auto simp: frames_inv_def frame_ok_def)
  define s' where "s' = s\<lparr>avail_frames := ps, pmem := pmem_store (pmem s) p (replicate 4096 0)\<rparr>"
  have "frame_alloc_zeroed s = (Inr (Some p), s')"
    using Cons p by (simp add: frame_alloc_zeroed_def frame_alloc_def sbind_def pmem_zero_ok s'_def)
  moreover have "frames_inv s' (p # owned)"
    using assms Cons by (auto simp: s'_def frames_inv_def)
  ultimately show ?thesis using Cons by (intro some [of p s']) (simp_all add: s'_def)
qed

lemma to_mmap_prot_iff:
  "PROT_READ \<in> to_mmap_prot f \<longleftrightarrow> flags_contains f MMU_READ"
  "PROT_WRITE \<in> to_mmap_prot f \<longleftrightarrow> flags_contains f MMU_WRITE"
  "PROT_EXEC \<in> to_mmap_prot f \<longleftrightarrow> flags_contains f MMU_EXECUTE"
  by (auto simp: to_mmap_prot_def)

lemma set_version_string_panics: "64 < length str \<Longrightarrow> fst (set_version_string str c) = Inl Panic"
  by (simp add: set_version_string_def Let_def)

end
