(* ===== verification/Block_Range.thy ===== *)
theory Block_Range
  imports Zx_Error
begin

text \<open>
  Splitting a byte range into the parts that lie in one block each
  (\<^verbatim>\<open>zircon-object/src/util/block_range.rs\<close>): the iterator \<open>BlockIter\<close>, its step \<open>next\<close>, the
  items \<open>BlockRange\<close> and their accessors. \<open>block_all\<close> is the \<open>for\<close> loop over the iterator. The
  main lemma says that the items partition the range in order, whatever its alignment.
\<close>

record block_iter =
  bi_begin :: usize
  bi_end :: usize
  bi_log2 :: nat

record block_range =
  br_block :: usize
  br_begin :: usize
  br_end :: usize
  br_log2 :: nat

definition block_size :: "nat \<Rightarrow> usize zx" where
  \<comment> \<open>\<open>1usize << n\<close>, which panics on a shift by 64 or more\<close>
  "block_size n = (if n < 64 then Inr (2 ^ n) else Inl Panic)"

definition br_len :: "block_range \<Rightarrow> usize zx" where
  "br_len b = usub (br_end b) (br_begin b)"

definition br_is_full :: "block_range \<Rightarrow> bool zx" where
  "br_is_full b = rbind (br_len b) (\<lambda>l. rbind (block_size (br_log2 b)) (\<lambda>z. Inr (l = z)))"

definition br_is_empty :: "block_range \<Rightarrow> bool zx" where
  "br_is_empty b = rbind (br_len b) (\<lambda>l. Inr (l = 0))"

definition origin :: "block_range \<Rightarrow> usize \<Rightarrow> usize zx" where
  \<comment> \<open>\<open>(block << log2) + x\<close>: the shift drops the high bits, the addition is checked\<close>
  "origin b x = rbind (block_size (br_log2 b)) (\<lambda>z. uadd (br_block b * z mod usize_lim) x)"

definition origin_begin :: "block_range \<Rightarrow> usize zx" where
  "origin_begin b = origin b (br_begin b)"

definition origin_end :: "block_range \<Rightarrow> usize zx" where
  "origin_end b = origin b (br_end b)"

definition block_next :: "block_iter \<Rightarrow> ((block_range \<times> block_iter) option) zx" where
  "block_next it =
     (if bi_begin it \<ge> bi_end it then Inr None
      else rbind (block_size (bi_log2 it)) (\<lambda>z.
        let block = bi_begin it div z;
            b = bi_begin it mod z;
            e = (if block = bi_end it div z then bi_end it mod z else z)
        in rbind (usub e b) (\<lambda>d.
           rbind (uadd (bi_begin it) d) (\<lambda>nb.
             Inr (Some (\<lparr>br_block = block, br_begin = b, br_end = e, br_log2 = bi_log2 it\<rparr>,
                        it\<lparr>bi_begin := nb\<rparr>))))))"

text \<open>What one step does, without the outcome around it.\<close>

lemma same_block_mod_less:
  "b < e \<Longrightarrow> b div z = e div z \<Longrightarrow> b mod z < e mod (z :: nat)"
proof -
  assume lt: "b < e" and eq: "b div z = e div z"
  have "e = z * (b div z) + e mod z" by (metis eq mult_div_mod_eq)
  moreover have "b = z * (b div z) + b mod z" by simp
  ultimately show ?thesis using lt by (metis nat_add_left_cancel_less)
qed

lemma block_next_Some:
  assumes "block_next it = Inr (Some (b, it'))"
  defines "z \<equiv> 2 ^ bi_log2 it"
  shows "bi_begin it < bi_end it" "bi_log2 it < 64"
    and "br_log2 b = bi_log2 it" "br_block b = bi_begin it div z"
    and "br_begin b = bi_begin it mod z" "br_begin b < br_end b" "br_end b \<le> z"
    and "br_block b * z + br_begin b = bi_begin it"
    and "br_block b * z + br_end b = bi_begin it'"
    and "bi_begin it < bi_begin it'" "bi_begin it' \<le> bi_end it"
    and "bi_end it' = bi_end it" "bi_log2 it' = bi_log2 it"
proof -
  have z: "0 < z" by (simp add: z_def)
  have lt: "bi_begin it < bi_end it" and n: "bi_log2 it < 64"
    using assms(1) by (auto simp: block_next_def block_size_def split: if_splits)
  define q where "q = bi_begin it div z"
  define e where "e = (if q = bi_end it div z then bi_end it mod z else z)"
  have b: "b = \<lparr>br_block = q, br_begin = bi_begin it mod z, br_end = e, br_log2 = bi_log2 it\<rparr>"
    and it': "it' = it\<lparr>bi_begin := bi_begin it + (e - bi_begin it mod z)\<rparr>"
    and le: "bi_begin it mod z \<le> e"
    using assms(1) lt n
    by (auto simp: block_next_def block_size_def Let_def rbind_eq_Inr q_def e_def z_def)
  have less: "bi_begin it mod z < e"
    using same_block_mod_less [OF lt, of z] z by (auto simp: e_def q_def)
  have ez: "e \<le> z" using z by (auto simp: e_def less_imp_le)
  have split: "bi_begin it = q * z + bi_begin it mod z" by (simp add: q_def)
  have next_begin: "bi_begin it' = q * z + e"
    using split le by (simp add: it')
  have "q * z + e \<le> bi_end it"
  proof (cases "q = bi_end it div z")
    case True
    then show ?thesis by (simp add: e_def)
  next
    case False
    moreover have "q \<le> bi_end it div z" using lt by (simp add: q_def div_le_mono)
    ultimately have "Suc q \<le> bi_end it div z" by simp
    then have "Suc q * z \<le> bi_end it div z * z" by (rule mult_le_mono1)
    also have "\<dots> \<le> bi_end it" by simp
    finally show ?thesis using False by (simp add: e_def add.commute)
  qed
  with b it' le less ez split next_begin lt n show
    "bi_begin it < bi_end it" "bi_log2 it < 64"
    "br_log2 b = bi_log2 it" "br_block b = bi_begin it div z"
    "br_begin b = bi_begin it mod z" "br_begin b < br_end b" "br_end b \<le> z"
    "br_block b * z + br_begin b = bi_begin it"
    "br_block b * z + br_end b = bi_begin it'"
    "bi_begin it < bi_begin it'" "bi_begin it' \<le> bi_end it"
    "bi_end it' = bi_end it" "bi_log2 it' = bi_log2 it"
    by (simp_all add: q_def)
qed

lemma block_next_ok:
  assumes "bi_log2 it < 64" and "bi_end it < usize_lim"
  shows "\<exists>r. block_next it = Inr r"
proof (cases "bi_begin it < bi_end it")
  case False
  then show ?thesis by (simp add: block_next_def)
next
  case True
  define z :: nat where "z = 2 ^ bi_log2 it"
  have z: "0 < z" by (simp add: z_def)
  define e where "e = (if bi_begin it div z = bi_end it div z then bi_end it mod z else z)"
  have le: "bi_begin it mod z \<le> e"
    using same_block_mod_less [OF True, of z] z by (auto simp: e_def less_imp_le)
  have "bi_begin it + (e - bi_begin it mod z) \<le> bi_end it"
  proof (cases "bi_begin it div z = bi_end it div z")
    case same: True
    have "bi_begin it = bi_begin it div z * z + bi_begin it mod z"
      by simp
    moreover have "bi_end it = bi_begin it div z * z + bi_end it mod z"
      unfolding same by simp
    moreover have "e = bi_end it mod z" using same by (simp add: e_def)
    ultimately show ?thesis using le by linarith
  next
    case False
    with True have "Suc (bi_begin it div z) \<le> bi_end it div z"
      by (meson Suc_leI div_le_mono le_neq_implies_less less_imp_le)
    then have "Suc (bi_begin it div z) * z \<le> bi_end it div z * z" by (rule mult_le_mono1)
    also have "\<dots> \<le> bi_end it" by simp
    finally have "z + bi_begin it div z * z \<le> bi_end it" by simp
    moreover have "bi_begin it = bi_begin it div z * z + bi_begin it mod z" by simp
    moreover have "e = z" using False by (simp add: e_def)
    ultimately show ?thesis using le by linarith
  qed
  then have "uadd (bi_begin it) (e - bi_begin it mod z) =
      (Inr (bi_begin it + (e - bi_begin it mod z)) :: usize zx)"
    using assms(2) by simp
  moreover have "usub e (bi_begin it mod z) = (Inr (e - bi_begin it mod z) :: usize zx)"
    using le by simp
  ultimately show ?thesis
    using True assms(1)
    by (simp add: block_next_def block_size_def Let_def rbind_eq_Inr z_def [symmetric] e_def [symmetric])
qed

function block_all :: "block_iter \<Rightarrow> (block_range list) zx" where
  "block_all it =
     (case block_next it of
        Inl f \<Rightarrow> Inl f
      | Inr None \<Rightarrow> Inr []
      | Inr (Some (b, it')) \<Rightarrow> rbind (block_all it') (\<lambda>bs. Inr (b # bs)))"
  by pat_completeness auto
termination
  by (relation "measure (\<lambda>it. bi_end it - bi_begin it)")
     (auto, metis block_next_Some(10,11,12) diff_less_mono2 less_le_trans)

declare block_all.simps [simp del]

lemma block_all_empty: "bi_end it \<le> bi_begin it \<Longrightarrow> block_all it = Inr []"
  by (subst block_all.simps) (simp add: block_next_def)

lemma block_all_step:
  "block_next it = Inr (Some (b, it')) \<Longrightarrow> block_all it = rbind (block_all it') (\<lambda>bs. Inr (b # bs))"
  by (subst block_all.simps) simp

definition block_bytes :: "block_range \<Rightarrow> usize list" where
  \<comment> \<open>the positions of the original range that an item stands for\<close>
  "block_bytes b = [br_block b * 2 ^ br_log2 b + br_begin b ..< br_block b * 2 ^ br_log2 b + br_end b]"

definition block_ok :: "nat \<Rightarrow> block_range \<Rightarrow> bool" where
  "block_ok n b \<longleftrightarrow> br_log2 b = n \<and> br_begin b < br_end b \<and> br_end b \<le> 2 ^ n"

lemma block_all_partition:
  assumes "bi_log2 it < 64" and "bi_end it < usize_lim" and "bi_begin it \<le> bi_end it"
  shows "\<exists>bs. block_all it = (Inr bs :: (block_range list) zx) \<and>
           concat (map block_bytes bs) = [bi_begin it ..< bi_end it] \<and>
           list_all (block_ok (bi_log2 it)) bs"
  using assms
proof (induction "bi_end it - bi_begin it" arbitrary: it rule: less_induct)
  case less
  show ?case
  proof (cases "bi_begin it < bi_end it")
    case False
    with less.prems(3) show ?thesis by (simp add: block_all_empty)
  next
    case True
    obtain r where r: "block_next it = (Inr r :: _ zx)"
      using block_next_ok [OF less.prems(1,2)] by blast
    with True obtain b it' where n: "block_next it = (Inr (Some (b, it')) :: _ zx)"
      by (cases r) (auto simp: block_next_def block_size_def Let_def rbind_eq_Inr split: if_splits)
    note s = block_next_Some [OF n]
    have "bi_end it' - bi_begin it' < bi_end it - bi_begin it" using s(10-12) by simp
    from less.hyps [OF this] s less.prems obtain bs where
      bs: "block_all it' = (Inr bs :: (block_range list) zx)"
        "concat (map block_bytes bs) = [bi_begin it' ..< bi_end it]"
        "list_all (block_ok (bi_log2 it)) bs"
      by auto
    have "block_bytes b = [bi_begin it ..< bi_begin it']"
      using s(3,8,9) by (simp add: block_bytes_def)
    moreover have "[bi_begin it ..< bi_begin it'] @ [bi_begin it' ..< bi_end it] = [bi_begin it ..< bi_end it]"
      using s(10,11) by (metis le_add_diff_inverse less_imp_le upt_add_eq_append)
    moreover have "block_ok (bi_log2 it) b" using s(3,6,7) by (simp add: block_ok_def)
    ultimately show ?thesis using bs by (simp add: block_all_step [OF n])
  qed
qed

lemma origin_ok:
  assumes "block_ok n b" and "n < 64" and "br_block b * 2 ^ n + x < usize_lim"
  shows "origin b x = Inr (br_block b * 2 ^ br_log2 b + x)"
  using assms by (simp add: origin_def block_size_def block_ok_def)

end
