(* ===== verification/Vmo_Paged.thy ===== *)
theory Vmo_Paged
  imports Hal Block_Range
begin

text \<open>
  The paged memory object (\<^verbatim>\<open>zircon-object/src/vm/vmo/paged.rs\<close>): a list of physical frames with
  a cache policy, a contiguity flag, a pin count and the weak list of its mappings. Every method
  of \<open>VMObjectPaged\<close> and of its inner part is translated. The lemmas show that \<open>read\<close> and \<open>write\<close>
  address the object byte by byte through \<open>byte_addr\<close>, whatever the alignment of the range.
\<close>

subsection \<open>State\<close>

record paged =
  pg_frames :: "usize list"
  pg_cache :: cache_policy
  pg_contiguous :: bool
  pg_pin :: usize
  pg_mappings :: "nat list"

record physical =
  ph_paddr :: usize
  ph_pages :: usize
  ph_cache :: cache_policy

text \<open>The heap of trait objects; \<open>next_obj\<close> is the address of the next allocation.\<close>

record vmo_state = hal_state +
  paged_objs :: "nat \<Rightarrow> paged option"
  phys_objs :: "nat \<Rightarrow> physical option"
  next_obj :: nat

type_synonym 'a st_unit = "'a \<Rightarrow> unit zx \<times> 'a"

definition put_paged :: "nat \<Rightarrow> paged \<Rightarrow> 'a vmo_state_scheme \<Rightarrow> 'a vmo_state_scheme" where
  "put_paged i pg s = s\<lparr>paged_objs := (paged_objs s)(i \<mapsto> pg)\<rparr>"

definition new_paged_obj :: "paged \<Rightarrow> 'a vmo_state_scheme \<Rightarrow> nat zx \<times> 'a vmo_state_scheme" where
  "new_paged_obj pg s =
     (Inr (next_obj s),
      s\<lparr>paged_objs := (paged_objs s)(next_obj s \<mapsto> pg), next_obj := next_obj s + 1\<rparr>)"

definition with_paged ::
  "nat \<Rightarrow> (paged \<Rightarrow> 'a vmo_state_scheme \<Rightarrow> 'b zx \<times> 'a vmo_state_scheme) \<Rightarrow>
   'a vmo_state_scheme \<Rightarrow> 'b zx \<times> 'a vmo_state_scheme" where
  "with_paged i f s = (case paged_objs s i of None \<Rightarrow> (Inl NoRef, s) | Some pg \<Rightarrow> f pg s)"

definition get_paged :: "nat \<Rightarrow> 'a vmo_state_scheme \<Rightarrow> paged zx" where
  "get_paged i s = ok_or NoRef (paged_objs s i)"

definition paged_default :: paged where
  "paged_default = \<lparr>pg_frames = [], pg_cache = Cached, pg_contiguous = False, pg_pin = 0, pg_mappings = []\<rparr>"

subsection \<open>Creation\<close>

primrec alloc_frames_zeroed ::
  "nat \<Rightarrow> 'a hal_state_scheme \<Rightarrow> usize list zx \<times> 'a hal_state_scheme" where
  \<comment> \<open>\<open>resize_with(n, || PhysFrame::alloc_zeroed().unwrap())\<close> from the empty vector\<close>
  "alloc_frames_zeroed 0 = sret []"
| "alloc_frames_zeroed (Suc n) =
     sbind frame_alloc_zeroed (\<lambda>v.
       case v of
         None \<Rightarrow> sfail Panic
       | Some p \<Rightarrow> sbind (alloc_frames_zeroed n) (\<lambda>ps. sret (p # ps)))"

definition paged_new :: "nat \<Rightarrow> 'a vmo_state_scheme \<Rightarrow> nat zx \<times> 'a vmo_state_scheme" where
  "paged_new n =
     sbind (alloc_frames_zeroed n) (\<lambda>fs. new_paged_obj (paged_default\<lparr>pg_frames := fs\<rparr>))"

definition paged_new_contiguous ::
  "nat \<Rightarrow> usize \<Rightarrow> 'a vmo_state_scheme \<Rightarrow> nat zx \<times> 'a vmo_state_scheme" where
  "paged_new_contiguous n align_log2 =
     sbind (slift (\<lambda>_. usub align_log2 PAGE_SIZE_LOG2)) (\<lambda>a.
     sbind (alloc_contiguous_zeroed n a) (\<lambda>fs.
       if fs = [] then sfail (Err NO_MEMORY)
       else new_paged_obj (paged_default\<lparr>pg_frames := fs, pg_contiguous := True\<rparr>)))"

subsection \<open>Splitting a range into pages\<close>

definition page_part :: "usize list \<Rightarrow> usize \<Rightarrow> block_range \<Rightarrow> (usize \<times> nat \<times> nat) zx" where
  \<comment> \<open>the arguments \<open>f\<close> is called with for one block: physical address and range of the buffer\<close>
  "page_part fs offset b =
     (if br_block b < length fs
      then rbind (origin_begin b) (\<lambda>ob. rbind (usub ob offset) (\<lambda>lo.
           rbind (origin_end b) (\<lambda>oe. rbind (usub oe offset) (\<lambda>hi.
           rbind (uadd (fs ! br_block b) (br_begin b)) (\<lambda>pa. Inr (pa, lo, hi))))))
      else Inl Panic)"

definition for_each_page ::
  "usize list \<Rightarrow> usize \<Rightarrow> nat \<Rightarrow> (usize \<times> nat \<times> nat \<Rightarrow> 's st_unit) \<Rightarrow> 's st_unit" where
  "for_each_page fs offset buf_len f =
     sbind (slift (\<lambda>_. rbind (uadd offset buf_len) (\<lambda>e.
              block_all \<lparr>bi_begin = offset, bi_end = e, bi_log2 = 12\<rparr>))) (\<lambda>bs.
     sfor (\<lambda>b. sbind (slift (\<lambda>_. page_part fs offset b)) f) bs)"

subsection \<open>Reading and writing\<close>

definition read_part :: "'a hal_state_scheme \<Rightarrow> usize \<times> nat \<times> nat \<Rightarrow> u8 list st_unit" where
  "read_part s part buf =
     (case part of (pa, lo, hi) \<Rightarrow>
        (case pmem_read s pa (hi - lo) of
           Inl e \<Rightarrow> (Inl e, buf)
         | Inr bs \<Rightarrow> (Inr (), splice_at buf lo bs)))"

definition write_part :: "u8 list \<Rightarrow> usize \<times> nat \<times> nat \<Rightarrow> 'a hal_state_scheme st_unit" where
  "write_part buf part = (case part of (pa, lo, hi) \<Rightarrow> pmem_write pa (take (hi - lo) (drop lo buf)))"

definition zero_part :: "usize \<times> nat \<times> nat \<Rightarrow> 'a hal_state_scheme st_unit" where
  "zero_part part = (case part of (pa, lo, hi) \<Rightarrow> pmem_zero pa (hi - lo))"

definition paged_read :: "nat \<Rightarrow> usize \<Rightarrow> u8 list \<Rightarrow> 'a vmo_state_scheme \<Rightarrow> u8 list zx" where
  \<comment> \<open>the buffer after the call\<close>
  "paged_read i offset buf s =
     rbind (get_paged i s) (\<lambda>pg.
       if pg_cache pg \<noteq> Cached then Inl (Err BAD_STATE)
       else case for_each_page (pg_frames pg) offset (length buf) (read_part s) buf of
              (Inl e, _) \<Rightarrow> Inl e
            | (Inr _, buf') \<Rightarrow> Inr buf')"

definition paged_write :: "nat \<Rightarrow> usize \<Rightarrow> u8 list \<Rightarrow> 'a vmo_state_scheme st_unit" where
  "paged_write i offset buf =
     with_paged i (\<lambda>pg.
       if pg_cache pg \<noteq> Cached then sfail (Err BAD_STATE)
       else for_each_page (pg_frames pg) offset (length buf) (write_part buf))"

definition paged_zero :: "nat \<Rightarrow> usize \<Rightarrow> nat \<Rightarrow> 'a vmo_state_scheme st_unit" where
  "paged_zero i offset n =
     with_paged i (\<lambda>pg.
       if pg_cache pg \<noteq> Cached then sfail (Err BAD_STATE)
       else for_each_page (pg_frames pg) offset n zero_part)"

subsection \<open>Length\<close>

definition paged_len :: "nat \<Rightarrow> 'a vmo_state_scheme \<Rightarrow> usize zx" where
  "paged_len i s = rbind (get_paged i s) (\<lambda>pg. umul (length (pg_frames pg)) PAGE_SIZE)"

primrec alloc_frames :: "nat \<Rightarrow> 'a hal_state_scheme \<Rightarrow> usize list zx \<times> 'a hal_state_scheme" where
  \<comment> \<open>\<open>PhysFrame::alloc().ok_or(NO_MEMORY).unwrap()\<close>, \<open>n\<close> times\<close>
  "alloc_frames 0 = sret []"
| "alloc_frames (Suc n) =
     (\<lambda>s. case frame_alloc s of
        (None, s1) \<Rightarrow> (Inl Panic, s1)
      | (Some p, s1) \<Rightarrow> sbind (alloc_frames n) (\<lambda>ps. sret (p # ps)) s1)"

definition dealloc_frames :: "usize list \<Rightarrow> 'a hal_state_scheme \<Rightarrow> 'a hal_state_scheme" where
  "dealloc_frames fs s = fold frame_dealloc fs s"

definition paged_set_len :: "nat \<Rightarrow> usize \<Rightarrow> 'a vmo_state_scheme st_unit" where
  "paged_set_len i len =
     (if \<not> page_aligned len then sfail Panic
      else with_paged i (\<lambda>pg s.
        let n = len div PAGE_SIZE; fs = pg_frames pg
        in if n \<le> length fs
           then (Inr (), put_paged i (pg\<lparr>pg_frames := take n fs\<rparr>) (dealloc_frames (drop n fs) s))
           else sbind (alloc_frames (n - length fs)) (\<lambda>new s1.
                  (Inr (), put_paged i (pg\<lparr>pg_frames := fs @ new\<rparr>) s1)) s))"

subsection \<open>Committing\<close>

definition paged_commit_page :: "nat \<Rightarrow> usize \<Rightarrow> mmu_flags \<Rightarrow> 'a vmo_state_scheme \<Rightarrow> usize zx" where
  "paged_commit_page i idx flags s =
     rbind (get_paged i s) (\<lambda>pg.
       if idx < length (pg_frames pg) then Inr (pg_frames pg ! idx) else Inl Panic)"

definition paged_commit :: "nat \<Rightarrow> usize \<Rightarrow> usize \<Rightarrow> 'a vmo_state_scheme st_unit" where
  "paged_commit i offset len = with_paged i (\<lambda>_. sret ())"

definition paged_decommit :: "nat \<Rightarrow> usize \<Rightarrow> usize \<Rightarrow> 'a vmo_state_scheme st_unit" where
  "paged_decommit i offset len = with_paged i (\<lambda>_. sret ())"

subsection \<open>Children\<close>

primrec alloc_frames_err ::
  "nat \<Rightarrow> usize list \<Rightarrow> 'a hal_state_scheme \<Rightarrow> usize list zx \<times> 'a hal_state_scheme" where
  \<comment> \<open>\<open>PhysFrame::alloc().ok_or(NO_MEMORY)?\<close>, \<open>n\<close> times, pushed on \<open>acc\<close>; a failure drops \<open>acc\<close>\<close>
  "alloc_frames_err 0 acc = sret acc"
| "alloc_frames_err (Suc n) acc =
     (\<lambda>s. case frame_alloc s of
        (None, s1) \<Rightarrow> (Inl (Err NO_MEMORY), dealloc_frames acc s1)
      | (Some p, s1) \<Rightarrow> alloc_frames_err n (acc @ [p]) s1)"

definition copy_frame ::
  "usize list \<Rightarrow> usize \<Rightarrow> nat \<times> usize \<Rightarrow> 'a hal_state_scheme st_unit" where
  \<comment> \<open>fill frame number \<open>j\<close> of the child from the parent, or with zeros past its end\<close>
  "copy_frame src start jp =
     (case jp of (j, p) \<Rightarrow>
        if start + j < length src then frame_copy (src ! (start + j)) p else pmem_zero p PAGE_SIZE)"

definition paged_create_child ::
  "nat \<Rightarrow> usize \<Rightarrow> usize \<Rightarrow> 'a vmo_state_scheme \<Rightarrow> nat zx \<times> 'a vmo_state_scheme" where
  "paged_create_child i offset len =
     (if \<not> page_aligned offset \<or> \<not> page_aligned len then sfail Panic
      else with_paged i (\<lambda>pg.
        if pg_contiguous pg then sfail (Err INVALID_ARGS)
        else if pg_cache pg \<noteq> Cached \<or> pg_pin pg \<noteq> 0 then sfail (Err BAD_STATE)
        else sbind (alloc_frames_err (pages len) []) (\<lambda>fs.
             sbind (sfor (copy_frame (pg_frames pg) (pages offset)) (List.enumerate 0 fs)) (\<lambda>_.
               new_paged_obj (paged_default\<lparr>pg_frames := fs\<rparr>)))))"

subsection \<open>Mappings, information, cache policy\<close>

definition paged_append_mapping :: "nat \<Rightarrow> nat \<Rightarrow> 'a vmo_state_scheme st_unit" where
  "paged_append_mapping i m =
     with_paged i (\<lambda>pg s. (Inr (), put_paged i (pg\<lparr>pg_mappings := pg_mappings pg @ [m]\<rparr>) s))"

definition paged_remove_mapping ::
  "(nat \<Rightarrow> bool) \<Rightarrow> nat \<Rightarrow> nat \<Rightarrow> 'a vmo_state_scheme st_unit" where
  \<comment> \<open>\<open>alive\<close> says which mappings still have strong references\<close>
  "paged_remove_mapping alive i m =
     with_paged i (\<lambda>pg s.
       (Inr (), put_paged i (pg\<lparr>pg_mappings := filter (\<lambda>x. alive x \<and> x \<noteq> m) (pg_mappings pg)\<rparr>) s))"

definition paged_cache_policy :: "nat \<Rightarrow> 'a vmo_state_scheme \<Rightarrow> cache_policy zx" where
  "paged_cache_policy i s = rbind (get_paged i s) (\<lambda>pg. Inr (pg_cache pg))"

definition paged_set_cache_policy :: "nat \<Rightarrow> cache_policy \<Rightarrow> 'a vmo_state_scheme st_unit" where
  "paged_set_cache_policy i policy =
     with_paged i (\<lambda>pg s.
       if pg_frames pg \<noteq> [] \<and> pg_cache pg \<noteq> Cached then (Inl (Err BAD_STATE), s)
       else if pg_pin pg \<noteq> 0 then (Inl (Err BAD_STATE), s)
       else let s1 = (if pg_cache pg = Cached \<and> policy \<noteq> Cached
                      then fold frame_flush (pg_frames pg) s else s)
            in (Inr (), put_paged i (pg\<lparr>pg_cache := policy\<rparr>) s1))"

definition paged_committed_pages_in_range :: "usize \<Rightarrow> usize \<Rightarrow> usize zx" where
  "paged_committed_pages_in_range start_idx end_idx = usub end_idx start_idx"

definition pin_range :: "paged \<Rightarrow> usize \<Rightarrow> usize \<Rightarrow> unit zx" where
  "pin_range pg offset len =
     rbind (uadd offset len) (\<lambda>e.
     rbind (umul (length (pg_frames pg)) PAGE_SIZE) (\<lambda>z.
       if e > z then Inl (Err OUT_OF_RANGE) else Inr ()))"

definition paged_pin :: "nat \<Rightarrow> usize \<Rightarrow> usize \<Rightarrow> 'a vmo_state_scheme st_unit" where
  "paged_pin i offset len =
     with_paged i (\<lambda>pg.
       sbind (slift (\<lambda>_. pin_range pg offset len)) (\<lambda>_.
         if len = 0 then sret ()
         else sbind (slift (\<lambda>_. uadd (pg_pin pg) (pages len))) (\<lambda>c s.
                (Inr (), put_paged i (pg\<lparr>pg_pin := c\<rparr>) s))))"

definition paged_unpin :: "nat \<Rightarrow> usize \<Rightarrow> usize \<Rightarrow> 'a vmo_state_scheme st_unit" where
  "paged_unpin i offset len =
     with_paged i (\<lambda>pg.
       sbind (slift (\<lambda>_. pin_range pg offset len)) (\<lambda>_.
         if len = 0 then sret ()
         else sbind (slift (\<lambda>_. usub (pg_pin pg) (pages len))) (\<lambda>c s.
                (Inr (), put_paged i (pg\<lparr>pg_pin := c\<rparr>) s))))"

definition paged_is_contiguous :: "nat \<Rightarrow> 'a vmo_state_scheme \<Rightarrow> bool zx" where
  "paged_is_contiguous i s = rbind (get_paged i s) (\<lambda>pg. Inr (pg_contiguous pg))"

definition paged_drop :: "nat \<Rightarrow> 'a vmo_state_scheme \<Rightarrow> 'a vmo_state_scheme" where
  \<comment> \<open>the last reference goes away: the vector of frames is dropped, front to back\<close>
  "paged_drop i s =
     (case paged_objs s i of
        None \<Rightarrow> s
      | Some pg \<Rightarrow> (dealloc_frames (pg_frames pg) s)\<lparr>paged_objs := (paged_objs s)(i := None)\<rparr>)"


subsection \<open>Byte addressing\<close>

definition byte_addr :: "usize list \<Rightarrow> usize \<Rightarrow> usize" where
  "byte_addr fs off = fs ! (off div 4096) + off mod 4096"

definition paged_ok :: "paged \<Rightarrow> bool" where
  "paged_ok pg \<longleftrightarrow> distinct (pg_frames pg) \<and> (\<forall>p \<in> set (pg_frames pg). frame_ok p)"

lemma div_less_pages: "off < 4096 * n \<Longrightarrow> off div 4096 < (n :: nat)"
  by (simp add: less_mult_imp_div_less mult.commute)

lemma byte_addr_block:
  "x < 4096 \<Longrightarrow> byte_addr fs (k * 4096 + x) = fs ! k + x"
  by (simp add: byte_addr_def)

lemma byte_addr_inj:
  assumes "distinct fs" and "\<forall>p \<in> set fs. frame_ok p" and "a < 4096 * length fs" and "b < 4096 * length fs"
    and "byte_addr fs a = byte_addr fs b"
  shows "a = b"
proof -
  have a: "a div 4096 < length fs" and b: "b div 4096 < length fs"
    using assms(3,4) by (simp_all add: div_less_pages)
  have "fs ! (a div 4096) = fs ! (b div 4096)"
    using frame_ok_disjoint [of "fs ! (a div 4096)" "fs ! (b div 4096)" "a mod 4096" "b mod 4096"]
      assms(2,5) a b by (auto simp: byte_addr_def)
  with assms(1) a b have "a div 4096 = b div 4096" by (simp add: nth_eq_iff_index_eq)
  moreover from this assms(5) have "a mod 4096 = b mod 4096" by (simp add: byte_addr_def)
  ultimately show ?thesis by (metis mult_div_mod_eq)
qed

lemma byte_addr_bound:
  assumes "\<forall>p \<in> set fs. frame_ok p" and "a < 4096 * length fs"
  shows "byte_addr fs a < PMEM_SIZE"
proof -
  have "a div 4096 < length fs" using assms(2) by (rule div_less_pages)
  with assms(1) have "fs ! (a div 4096) + 4096 \<le> PMEM_SIZE" by (simp add: frame_ok_def)
  moreover have "a mod 4096 < 4096" by simp
  ultimately show ?thesis unfolding byte_addr_def by linarith
qed

definition part_of :: "usize list \<Rightarrow> usize \<Rightarrow> block_range \<Rightarrow> usize \<times> nat \<times> nat" where
  "part_of fs offset b =
     (fs ! br_block b + br_begin b,
      br_block b * 4096 + br_begin b - offset, br_block b * 4096 + br_end b - offset)"

lemma page_part_ok:
  assumes "block_ok 12 b" and "offset \<le> br_block b * 4096 + br_begin b"
    and "br_block b * 4096 + br_end b \<le> 4096 * length fs"
    and "br_block b * 4096 + br_end b < usize_lim"
    and "\<forall>p \<in> set fs. frame_ok p"
  shows "page_part fs offset b = Inr (part_of fs offset b)"
proof -
  from assms(1) have lt: "br_begin b < br_end b" "br_end b \<le> 4096" and n: "br_log2 b = 12"
    by (simp_all add: block_ok_def)
  have blk: "br_block b < length fs"
  proof -
    have "br_block b * 4096 < 4096 * length fs" using lt assms(3) by linarith
    then show ?thesis by simp
  qed
  with assms(5) have "fs ! br_block b + 4096 \<le> PMEM_SIZE" by (simp add: frame_ok_def)
  then have "uadd (fs ! br_block b) (br_begin b) = (Inr (fs ! br_block b + br_begin b) :: usize zx)"
    using lt by (simp add: PMEM_SIZE_def)
  moreover have "origin_begin b = Inr (br_block b * 4096 + br_begin b)"
    "origin_end b = Inr (br_block b * 4096 + br_end b)"
    using origin_ok [OF assms(1), of "br_begin b"] origin_ok [OF assms(1), of "br_end b"] assms(4) lt n
    by (simp_all add: origin_begin_def origin_end_def)
  ultimately show ?thesis
    using blk assms(2) lt by (simp add: page_part_def part_of_def rbind_eq_Inr)
qed

lemma for_each_page_loop:
  assumes "offset + n \<le> 4096 * length fs" and "offset + n < usize_lim"
    and "\<forall>p \<in> set fs. frame_ok p"
  obtains bs where "concat (map block_bytes bs) = [offset ..< offset + n]"
    and "list_all (block_ok 12) bs"
    and "\<And>f s. for_each_page fs offset n f s = sfor (\<lambda>b. f (part_of fs offset b)) bs s"
proof -
  let ?it = "\<lparr>bi_begin = offset, bi_end = offset + n, bi_log2 = 12\<rparr>"
  obtain bs where bs: "block_all ?it = Inr bs" "concat (map block_bytes bs) = [offset ..< offset + n]"
    "list_all (block_ok 12) bs"
    using block_all_partition [of ?it] assms(2) by auto
  have part: "page_part fs offset b = Inr (part_of fs offset b)" if b: "b \<in> set bs" for b
  proof -
    from bs(3) b have ok: "block_ok 12 b" by (simp add: list_all_iff)
    have sub: "set (block_bytes b) \<subseteq> {offset ..< offset + n}"
      using arg_cong [OF bs(2), of set] b by auto
    have "br_block b * 4096 + br_begin b \<in> set (block_bytes b)"
      "br_block b * 4096 + br_end b - 1 \<in> set (block_bytes b)"
      using ok by (auto simp: block_bytes_def block_ok_def)
    with sub have "offset \<le> br_block b * 4096 + br_begin b"
      "br_block b * 4096 + br_end b - 1 < offset + n" by auto
    then have "offset \<le> br_block b * 4096 + br_begin b" "br_block b * 4096 + br_end b \<le> offset + n"
      by simp_all
    with ok assms show ?thesis by (intro page_part_ok) auto
  qed
  have add: "uadd offset n = (Inr (offset + n) :: usize zx)" using assms(2) by simp
  have "for_each_page fs offset n f s = sfor (\<lambda>b. f (part_of fs offset b)) bs s" for f s
    unfolding for_each_page_def add
    by (simp add: sbind_Inr bs(1)) (rule sfor_cong, simp add: part sbind_Inr)
  with bs(2,3) that show ?thesis by blast
qed


text \<open>One block of the loop reads or writes its bytes at their addresses.\<close>

lemma block_span:
  assumes "concat (map block_bytes (b # bs)) = [a..<e]" and "list_all (block_ok 12) (b # bs)"
  shows "br_block b * 4096 + br_begin b = a" "br_block b * 4096 + br_end b \<le> e"
    and "a < br_block b * 4096 + br_end b"
    and "concat (map block_bytes bs) = [br_block b * 4096 + br_end b ..< e]"
proof -
  from assms(2) have ok: "br_log2 b = 12" "br_begin b < br_end b" by (simp_all add: block_ok_def)
  with assms(1) have "[br_block b * 4096 + br_begin b ..< br_block b * 4096 + br_end b]
      @ concat (map block_bytes bs) = [a..<e]"
    by (simp add: block_bytes_def)
  from upt_append_split [OF this] ok(2) show
    "br_block b * 4096 + br_begin b = a" "br_block b * 4096 + br_end b \<le> e"
    "a < br_block b * 4096 + br_end b"
    "concat (map block_bytes bs) = [br_block b * 4096 + br_end b ..< e]"
    by simp_all
qed

lemma part_byte_addr:
  assumes "block_ok 12 b" and "br_begin b + j < br_end b"
  shows "fs ! br_block b + br_begin b + j = byte_addr fs (br_block b * 4096 + br_begin b + j)"
proof -
  have "br_begin b + j < 4096" using assms by (simp add: block_ok_def)
  then have "byte_addr fs (br_block b * 4096 + (br_begin b + j)) = fs ! br_block b + (br_begin b + j)"
    by (rule byte_addr_block)
  then show ?thesis by (simp only: add.assoc)
qed

lemma part_in_pmem:
  assumes "block_ok 12 b" and "\<forall>p \<in> set fs. frame_ok p" and "br_block b * 4096 + br_end b \<le> 4096 * length fs"
  shows "fs ! br_block b + br_begin b + (br_end b - br_begin b) \<le> PMEM_SIZE"
proof -
  from assms(1) have lt: "br_begin b < br_end b" "br_end b \<le> 4096" by (simp_all add: block_ok_def)
  have "br_block b * 4096 < 4096 * length fs" using lt assms(3) by linarith
  then have "br_block b < length fs" by simp
  with assms(2) have "fs ! br_block b + 4096 \<le> PMEM_SIZE" by (simp add: frame_ok_def)
  with lt show ?thesis by simp
qed

lemma read_loop:
  assumes "concat (map block_bytes bs) = [a..<e]" and "list_all (block_ok 12) bs"
    and "o0 \<le> a" and "a \<le> e" and "e - o0 \<le> length buf" and "e \<le> 4096 * length fs"
    and fs: "\<forall>p \<in> set fs. frame_ok p"
  shows "\<exists>buf'. sfor (\<lambda>b. read_part s (part_of fs o0 b)) bs buf = (Inr (), buf') \<and>
      length buf' = length buf \<and>
      (\<forall>i < length buf. buf' ! i =
         (if a \<le> o0 + i \<and> o0 + i < e then pmem s (byte_addr fs (o0 + i)) else buf ! i))"
  using assms(1-6)
proof (induction bs arbitrary: a buf)
  case Nil
  then have "[a..<e] = []" by simp
  then have "e \<le> a" by (simp only: upt_eq_Nil_conv) auto
  then show ?case by auto
next
  case (Cons b bs)
  note span = block_span [OF Cons.prems(1,2)]
  from Cons.prems(2) have ok: "block_ok 12 b" by simp
  define q where "q = br_block b * 4096 + br_end b"
  define d where "d = br_end b - br_begin b"
  have ad: "a + d = q" using span(1,3) by (simp add: d_def q_def)
  define bytes where "bytes = map (\<lambda>j. pmem s (byte_addr fs (a + j))) [0..<d]"
  have len: "length bytes = d" by (simp add: bytes_def)
  have "fs ! br_block b + br_begin b + d \<le> PMEM_SIZE"
    using part_in_pmem [OF ok fs] span(2) Cons.prems(6) by (simp add: d_def)
  then have "pmem_read s (fs ! br_block b + br_begin b) d = Inr bytes"
    using part_byte_addr [OF ok, of _ fs] span(1)
    by (auto simp: pmem_read_ok bytes_def d_def add.assoc)
  moreover have "q - o0 - (a - o0) = d" using ad Cons.prems(3) by simp
  ultimately have step: "read_part s (part_of fs o0 b) buf = (Inr (), splice_at buf (a - o0) bytes)"
    using span(1) by (simp add: read_part_def part_of_def q_def)
  have fit: "a - o0 + length bytes \<le> length buf"
    using ad span(2) Cons.prems(3,5) len by (simp add: q_def)
  have IH: "\<exists>buf'. sfor (\<lambda>b. read_part s (part_of fs o0 b)) bs (splice_at buf (a - o0) bytes) = (Inr (), buf') \<and>
      length buf' = length (splice_at buf (a - o0) bytes) \<and>
      (\<forall>i < length (splice_at buf (a - o0) bytes). buf' ! i =
         (if q \<le> o0 + i \<and> o0 + i < e then pmem s (byte_addr fs (o0 + i))
          else splice_at buf (a - o0) bytes ! i))"
    using span(2-4) Cons.prems(2,3,5,6) fit by (intro Cons.IH) (simp_all add: q_def)
  then obtain buf' where buf': "sfor (\<lambda>b. read_part s (part_of fs o0 b)) bs (splice_at buf (a - o0) bytes) = (Inr (), buf')"
    "length buf' = length buf"
    "\<And>i. i < length buf \<Longrightarrow> buf' ! i =
         (if q \<le> o0 + i \<and> o0 + i < e then pmem s (byte_addr fs (o0 + i))
          else splice_at buf (a - o0) bytes ! i)"
    using fit by auto
  have "buf' ! i = (if a \<le> o0 + i \<and> o0 + i < e then pmem s (byte_addr fs (o0 + i)) else buf ! i)"
    if i: "i < length buf" for i
    using buf'(3) [OF i] nth_splice_at [OF fit i] len ad span(2) Cons.prems(3) q_def
    by (auto simp: bytes_def add.commute)
  with buf'(1,2) step show ?case by (auto simp: sbind_Inr)
qed

theorem paged_read_bytes:
  assumes "paged_objs s i = Some pg" and "pg_cache pg = Cached" and "paged_ok pg"
    and "off + length buf \<le> 4096 * length (pg_frames pg)" and "off + length buf < usize_lim"
  shows "paged_read i off buf s =
           Inr (map (\<lambda>j. pmem s (byte_addr (pg_frames pg) (off + j))) [0..<length buf])"
proof -
  have fs: "\<forall>p \<in> set (pg_frames pg). frame_ok p" using assms(3) by (simp add: paged_ok_def)
  obtain bs where bs: "concat (map block_bytes bs) = [off ..< off + length buf]"
    "list_all (block_ok 12) bs"
    "for_each_page (pg_frames pg) off (length buf) (read_part s) buf =
       sfor (\<lambda>b. read_part s (part_of (pg_frames pg) off b)) bs buf"
    using for_each_page_loop [OF assms(4,5) fs] by metis
  obtain buf' where buf': "sfor (\<lambda>b. read_part s (part_of (pg_frames pg) off b)) bs buf = (Inr (), buf')"
    "length buf' = length buf"
    "\<forall>j < length buf. buf' ! j = pmem s (byte_addr (pg_frames pg) (off + j))"
    using read_loop [OF bs(1,2) _ _ _ assms(4) fs, of off buf s] by auto
  have "buf' = map (\<lambda>j. pmem s (byte_addr (pg_frames pg) (off + j))) [0..<length buf]"
    using buf'(2,3) by (intro nth_equalityI) auto
  with buf'(1) bs(3) assms(1,2) show ?thesis by (simp add: paged_read_def get_paged_def)
qed


lemma write_loop:
  fixes s :: "'a hal_state_scheme"
  assumes "concat (map block_bytes bs) = [a..<e]" and "list_all (block_ok 12) bs"
    and "o0 \<le> a" and "a \<le> e" and "e - o0 \<le> length data" and "e \<le> 4096 * length fs"
    and fs: "\<forall>p \<in> set fs. frame_ok p" and dist: "distinct fs"
  shows "\<exists>m. sfor (\<lambda>b. write_part data (part_of fs o0 b)) bs s = (Inr (), s\<lparr>pmem := m\<rparr>) \<and>
      (\<forall>x. a \<le> x \<and> x < e \<longrightarrow> m (byte_addr fs x) = data ! (x - o0)) \<and>
      (\<forall>y. y \<notin> byte_addr fs ` {a..<e} \<longrightarrow> m y = pmem s y)"
  using assms(1-6)
proof (induction bs arbitrary: a s)
  case Nil
  then have "[a..<e] = []" by simp
  then have "e \<le> a" by (simp only: upt_eq_Nil_conv) auto
  then show ?case by (auto intro: exI [of _ "pmem s"])
next
  case (Cons b bs)
  note span = block_span [OF Cons.prems(1,2)]
  from Cons.prems(2) have ok: "block_ok 12 b" by simp
  define q where "q = br_block b * 4096 + br_end b"
  define d where "d = br_end b - br_begin b"
  define pa where "pa = fs ! br_block b + br_begin b"
  have ad: "a + d = q" using span(1,3) by (simp add: d_def q_def)
  define bytes where "bytes = take d (drop (a - o0) data)"
  have len: "length bytes = d"
    using ad span(2) Cons.prems(3,5) by (simp add: bytes_def q_def)
  have pa: "pa + j = byte_addr fs (a + j)" if "j < d" for j
    using part_byte_addr [OF ok, of j fs] span(1) that by (simp add: pa_def d_def)
  have "pa + length bytes \<le> PMEM_SIZE"
    using part_in_pmem [OF ok fs] span(2) Cons.prems(6) len by (simp add: pa_def d_def)
  then have "pmem_write pa bytes s = (Inr (), s\<lparr>pmem := pmem_store (pmem s) pa bytes\<rparr>)"
    by (rule pmem_write_ok)
  moreover have "q - o0 - (a - o0) = d" using ad Cons.prems(3) by simp
  ultimately have step: "write_part data (part_of fs o0 b) s =
      (Inr (), s\<lparr>pmem := pmem_store (pmem s) pa bytes\<rparr>)"
    using span(1) by (simp add: write_part_def part_of_def q_def bytes_def pa_def)
  let ?s1 = "s\<lparr>pmem := pmem_store (pmem s) pa bytes\<rparr>"
  have "\<exists>m. sfor (\<lambda>b. write_part data (part_of fs o0 b)) bs ?s1 = (Inr (), ?s1\<lparr>pmem := m\<rparr>) \<and>
      (\<forall>x. q \<le> x \<and> x < e \<longrightarrow> m (byte_addr fs x) = data ! (x - o0)) \<and>
      (\<forall>y. y \<notin> byte_addr fs ` {q..<e} \<longrightarrow> m y = pmem ?s1 y)"
    using span(2-4) Cons.prems(2,3,5,6) by (intro Cons.IH) (simp_all add: q_def)
  then obtain m where m: "sfor (\<lambda>b. write_part data (part_of fs o0 b)) bs ?s1 = (Inr (), s\<lparr>pmem := m\<rparr>)"
    "\<And>x. q \<le> x \<Longrightarrow> x < e \<Longrightarrow> m (byte_addr fs x) = data ! (x - o0)"
    "\<And>y. y \<notin> byte_addr fs ` {q..<e} \<Longrightarrow> m y = pmem_store (pmem s) pa bytes y"
    by auto
  have "m (byte_addr fs x) = data ! (x - o0)" if "a \<le> x" "x < e" for x
  proof (cases "q \<le> x")
    case True
    with that m(2) show ?thesis by blast
  next
    case False
    then have xd: "x - a < d" using ad that by simp
    have "byte_addr fs x \<notin> byte_addr fs ` {q..<e}"
    proof
      assume "byte_addr fs x \<in> byte_addr fs ` {q..<e}"
      then obtain y where y: "q \<le> y" "y < e" "byte_addr fs x = byte_addr fs y" by auto
      with byte_addr_inj [OF dist fs, of x y] that Cons.prems(6) False show False by simp
    qed
    then have "m (byte_addr fs x) = pmem_store (pmem s) pa bytes (pa + (x - a))"
      using m(3) pa [OF xd] that by simp
    also have "\<dots> = bytes ! (x - a)" using xd len by (intro pmem_store_at) simp
    also have "\<dots> = data ! (x - o0)"
      using xd len that Cons.prems(3) by (simp add: bytes_def)
    finally show ?thesis .
  qed
  moreover have "m y = pmem s y" if y: "y \<notin> byte_addr fs ` {a..<e}" for y
  proof -
    have "y \<notin> byte_addr fs ` {q..<e}" using y ad by auto
    then have "m y = pmem_store (pmem s) pa bytes y" by (rule m(3))
    also have "\<dots> = pmem s y"
    proof (rule pmem_store_other, rule ccontr)
      assume "\<not> (y < pa \<or> pa + length bytes \<le> y)"
      then have "y - pa < d" "pa + (y - pa) = y" using len by auto
      with pa [of "y - pa"] have "y = byte_addr fs (a + (y - pa))" by simp
      moreover have "a + (y - pa) \<in> {a..<e}"
        using \<open>y - pa < d\<close> ad span(2) by (simp add: q_def)
      ultimately show False using y by blast
    qed
    finally show ?thesis .
  qed
  ultimately show ?case using m(1) step by (intro exI [of _ m]) (simp add: sbind_Inr)
qed

theorem paged_write_bytes:
  assumes "paged_objs s i = Some pg" and "pg_cache pg = Cached" and "paged_ok pg"
    and "off + length data \<le> 4096 * length (pg_frames pg)" and "off + length data < usize_lim"
  obtains m where "paged_write i off data s = (Inr (), s\<lparr>pmem := m\<rparr>)"
    and "\<And>j. j < length data \<Longrightarrow> m (byte_addr (pg_frames pg) (off + j)) = data ! j"
    and "\<And>y. y \<notin> byte_addr (pg_frames pg) ` {off ..< off + length data} \<Longrightarrow> m y = pmem s y"
proof -
  have fs: "\<forall>p \<in> set (pg_frames pg). frame_ok p" and dist: "distinct (pg_frames pg)"
    using assms(3) by (simp_all add: paged_ok_def)
  obtain bs where bs: "concat (map block_bytes bs) = [off ..< off + length data]"
    "list_all (block_ok 12) bs"
    "for_each_page (pg_frames pg) off (length data) (write_part data) s =
       sfor (\<lambda>b. write_part data (part_of (pg_frames pg) off b)) bs s"
    using for_each_page_loop [OF assms(4,5) fs] by metis
  obtain m where m: "sfor (\<lambda>b. write_part data (part_of (pg_frames pg) off b)) bs s = (Inr (), s\<lparr>pmem := m\<rparr>)"
    "\<forall>x. off \<le> x \<and> x < off + length data \<longrightarrow> m (byte_addr (pg_frames pg) x) = data ! (x - off)"
    "\<forall>y. y \<notin> byte_addr (pg_frames pg) ` {off ..< off + length data} \<longrightarrow> m y = pmem s y"
    using write_loop [OF bs(1,2) _ _ _ assms(4) fs dist, of off data s] by auto
  show ?thesis
  proof (rule that)
    show "paged_write i off data s = (Inr (), s\<lparr>pmem := m\<rparr>)"
      using m(1) bs(3) assms(1,2) by (simp add: paged_write_def with_paged_def)
    show "m (byte_addr (pg_frames pg) (off + j)) = data ! j" if "j < length data" for j
      using m(2) that by simp
    show "m y = pmem s y" if "y \<notin> byte_addr (pg_frames pg) ` {off ..< off + length data}" for y
      using m(3) that by simp
  qed
qed

text \<open>Zeroing a range is writing zeros to it.\<close>

lemma zero_part_eq_write:
  "hi \<le> n \<Longrightarrow> zero_part (pa, lo, hi) s = write_part (replicate n 0) (pa, lo, hi) s"
  by (simp add: zero_part_def write_part_def pmem_zero_def pmem_write_def diff_le_mono min_absorb1)

lemma paged_zero_eq_write:
  assumes "paged_objs s i = Some pg" and "paged_ok pg"
    and "off + n \<le> 4096 * length (pg_frames pg)" and "off + n < usize_lim"
  shows "paged_zero i off n s = paged_write i off (replicate n 0) s"
proof -
  have fs: "\<forall>p \<in> set (pg_frames pg). frame_ok p" using assms(2) by (simp add: paged_ok_def)
  obtain bs where bs: "concat (map block_bytes bs) = [off ..< off + n]" "list_all (block_ok 12) bs"
    "\<And>f u. for_each_page (pg_frames pg) off n f (u :: 'a vmo_state_scheme) =
       sfor (\<lambda>b. f (part_of (pg_frames pg) off b)) bs u"
    using for_each_page_loop [OF assms(3,4) fs] by metis
  have "zero_part (part_of (pg_frames pg) off b) u = write_part (replicate n 0) (part_of (pg_frames pg) off b) u"
    if b: "b \<in> set bs" for b and u :: "'a vmo_state_scheme"
  proof -
    have "set (block_bytes b) \<subseteq> {off ..< off + n}" using arg_cong [OF bs(1), of set] b by auto
    moreover have "br_block b * 4096 + br_end b - 1 \<in> set (block_bytes b)"
      using bs(2) b by (auto simp: block_bytes_def block_ok_def list_all_iff)
    ultimately have "br_block b * 4096 + br_end b - 1 < off + n" by auto
    then show ?thesis unfolding part_of_def by (intro zero_part_eq_write) simp
  qed
  then have "for_each_page (pg_frames pg) off n zero_part s =
      for_each_page (pg_frames pg) off n (write_part (replicate n 0)) s"
    unfolding bs(3) by (intro sfor_cong)
  then show ?thesis using assms(1) by (simp add: paged_zero_def paged_write_def with_paged_def)
qed

end
