(* ===== verification/Vmo_Heap.thy ===== *)
theory Vmo_Heap
  imports Vmo_Paged
begin

text \<open>
  The heap of paged memory objects: the invariant that no physical frame belongs to two objects
  or to an object and the free queue, its preservation by every operation of
  \<^verbatim>\<open>paged.rs\<close>, and what it gives: objects do not see each other's writes, a fresh object reads
  as zeros, a snapshot child starts with the parent's bytes.
\<close>

subsection \<open>Frame allocation in bulk\<close>

lemma alloc_frames_eq:
  "alloc_frames n s =
     (if n \<le> length (avail_frames s)
      then (Inr (take n (avail_frames s)), s\<lparr>avail_frames := drop n (avail_frames s)\<rparr>)
      else (Inl Panic, s\<lparr>avail_frames := []\<rparr>))"
proof (induction n arbitrary: s)
  case 0
  show ?case by simp
next
  case (Suc n)
  show ?case
    by (cases "avail_frames s") (simp_all add: frame_alloc_def Suc sbind_def)
qed

lemma dealloc_frames_eq [simp]: "dealloc_frames fs s = s\<lparr>avail_frames := avail_frames s @ fs\<rparr>"
  by (induction fs arbitrary: s) (simp_all add: dealloc_frames_def frame_dealloc_def)

lemma alloc_frames_err_eq:
  "alloc_frames_err n acc s =
     (if n \<le> length (avail_frames s)
      then (Inr (acc @ take n (avail_frames s)), s\<lparr>avail_frames := drop n (avail_frames s)\<rparr>)
      else (Inl (Err NO_MEMORY), s\<lparr>avail_frames := acc @ avail_frames s\<rparr>))"
proof (induction n arbitrary: s acc)
  case 0
  show ?case by simp
next
  case (Suc n)
  show ?case
    by (cases "avail_frames s") (simp_all add: frame_alloc_def Suc)
qed

definition in_frames :: "usize list \<Rightarrow> usize \<Rightarrow> bool" where
  "in_frames fs a \<longleftrightarrow> (\<exists>p \<in> set fs. p \<le> a \<and> a < p + 4096)"

definition zero_all :: "usize list \<Rightarrow> (usize \<Rightarrow> u8) \<Rightarrow> usize \<Rightarrow> u8" where
  "zero_all fs m = fold (\<lambda>p m. pmem_store m p (replicate 4096 0)) fs m"

lemma in_frames_simps [simp]:
  "\<not> in_frames [] a"
  "in_frames (p # fs) a \<longleftrightarrow> (p \<le> a \<and> a < p + 4096) \<or> in_frames fs a"
  by (auto simp: in_frames_def)

lemma in_frames_nth: "j < length fs \<Longrightarrow> x < 4096 \<Longrightarrow> in_frames fs (fs ! j + x)"
  by (auto simp: in_frames_def intro!: bexI [of _ "fs ! j"])

lemma zero_all_apply: "zero_all fs m a = (if in_frames fs a then 0 else m a)"
proof (induction fs arbitrary: m)
  case Nil
  show ?case by (simp add: zero_all_def)
next
  case (Cons p fs)
  have "zero_all (p # fs) m a = zero_all fs (pmem_store m p (replicate 4096 0)) a"
    by (simp add: zero_all_def)
  with Cons show ?case by (auto simp: pmem_store_def)
qed

lemma alloc_frames_zeroed_eq:
  assumes "\<forall>p \<in> set (avail_frames s). p + 4096 \<le> PMEM_SIZE"
  shows "alloc_frames_zeroed n s =
     (if n \<le> length (avail_frames s)
      then (Inr (take n (avail_frames s)),
            s\<lparr>avail_frames := drop n (avail_frames s), pmem := zero_all (take n (avail_frames s)) (pmem s)\<rparr>)
      else (Inl Panic, s\<lparr>avail_frames := [], pmem := zero_all (avail_frames s) (pmem s)\<rparr>))"
  using assms
proof (induction n arbitrary: s)
  case 0
  show ?case by (simp add: zero_all_def)
next
  case (Suc n)
  show ?case
  proof (cases "avail_frames s")
    case Nil
    then show ?thesis by (simp add: frame_alloc_zeroed_def frame_alloc_def sbind_def zero_all_def)
  next
    case (Cons p ps)
    let ?s1 = "s\<lparr>avail_frames := ps, pmem := pmem_store (pmem s) p (replicate 4096 0)\<rparr>"
    have "p + 4096 \<le> PMEM_SIZE" using Suc.prems Cons by simp
    then have "frame_alloc_zeroed s = (Inr (Some p), ?s1)"
      using Cons by (simp add: frame_alloc_zeroed_def frame_alloc_def sbind_def pmem_zero_ok)
    moreover have "alloc_frames_zeroed n ?s1 =
       (if n \<le> length ps
        then (Inr (take n ps), ?s1\<lparr>avail_frames := drop n ps, pmem := zero_all (take n ps) (pmem ?s1)\<rparr>)
        else (Inl Panic, ?s1\<lparr>avail_frames := [], pmem := zero_all ps (pmem ?s1)\<rparr>))"
      using Suc.IH [of ?s1] Suc.prems Cons by simp
    ultimately show ?thesis using Cons by (simp add: sbind_def zero_all_def)
  qed
qed

subsection \<open>The heap invariant\<close>

definition heap_inv :: "'a vmo_state_scheme \<Rightarrow> bool" where
  "heap_inv s \<longleftrightarrow>
     distinct (avail_frames s) \<and> (\<forall>p \<in> set (avail_frames s). frame_ok p) \<and>
     (\<forall>i pg. paged_objs s i = Some pg \<longrightarrow>
        i < next_obj s \<and> paged_ok pg \<and> set (pg_frames pg) \<inter> set (avail_frames s) = {}) \<and>
     (\<forall>i j pg pg'. i \<noteq> j \<longrightarrow> paged_objs s i = Some pg \<longrightarrow> paged_objs s j = Some pg' \<longrightarrow>
        set (pg_frames pg) \<inter> set (pg_frames pg') = {})"

lemma heap_invD:
  assumes "heap_inv s" and "paged_objs s i = Some pg"
  shows "i < next_obj s" "paged_ok pg" "set (pg_frames pg) \<inter> set (avail_frames s) = {}"
  using assms unfolding heap_inv_def by blast+

lemma heap_inv_disjoint:
  assumes "heap_inv s" and "i \<noteq> j" and "paged_objs s i = Some pg" and "paged_objs s j = Some pg'"
  shows "set (pg_frames pg) \<inter> set (pg_frames pg') = {}"
  using assms unfolding heap_inv_def by blast

lemma heap_inv_avail:
  assumes "heap_inv s" and "p \<in> set (avail_frames s)"
  shows "frame_ok p" "p + 4096 \<le> PMEM_SIZE"
  using assms by (auto simp: heap_inv_def frame_ok_def)

lemma heap_inv_init:
  "avail_frames s = init_frames \<Longrightarrow> paged_objs s = Map.empty \<Longrightarrow> heap_inv s"
  using set_init_frames by (simp add: heap_inv_def distinct_init_frames)

lemma heap_inv_cong:
  "avail_frames t = avail_frames s \<Longrightarrow> paged_objs t = paged_objs s \<Longrightarrow> next_obj t = next_obj s \<Longrightarrow>
     heap_inv t = heap_inv s"
  by (simp add: heap_inv_def)

lemma heap_inv_pmem [simp]: "heap_inv (s\<lparr>pmem := m\<rparr>) = heap_inv s"
  by (rule heap_inv_cong) simp_all

text \<open>Moving frames between the queue and one object keeps the invariant.\<close>

lemma heap_inv_put:
  assumes inv: "heap_inv s" and i: "i < n" and n: "next_obj s \<le> n"
    and fs: "distinct (pg_frames pg @ av)"
    and sub: "set (pg_frames pg) \<union> set av \<subseteq>
      set (avail_frames s) \<union> (case paged_objs s i of None \<Rightarrow> {} | Some pg0 \<Rightarrow> set (pg_frames pg0))"
  shows "heap_inv (s\<lparr>avail_frames := av, paged_objs := (paged_objs s)(i \<mapsto> pg), next_obj := n\<rparr>)"
proof -
  define old where "old = (case paged_objs s i of None \<Rightarrow> {} | Some pg0 \<Rightarrow> set (pg_frames pg0))"
  have old_ok: "\<forall>p \<in> set (avail_frames s) \<union> old. frame_ok p"
    using inv unfolding heap_inv_def old_def paged_ok_def by (auto split: option.splits)
  have other: "set (pg_frames pg') \<inter> (set (avail_frames s) \<union> old) = {}"
    if "paged_objs s j = Some pg'" "j \<noteq> i" for j pg'
  proof (cases "paged_objs s i")
    case None
    then show ?thesis using heap_invD(3) [OF inv that(1)] by (simp add: old_def)
  next
    case (Some pg0)
    then show ?thesis
      using heap_invD(3) [OF inv that(1)] heap_inv_disjoint [OF inv that(2,1) Some]
      by (auto simp: old_def)
  qed
  show ?thesis
    unfolding heap_inv_def
  proof (intro conjI allI impI ballI; simp)
    show "distinct av" using fs by simp
  next
    fix p assume "p \<in> set av"
    with sub old_ok show "frame_ok p" unfolding old_def by blast
  next
    fix j pg' assume j: "(if j = i then Some pg else paged_objs s j) = Some pg'"
    then show "j < n" using i n heap_invD(1) [OF inv, of j] by (auto split: if_splits)
  next
    fix j pg' assume j: "(if j = i then Some pg else paged_objs s j) = Some pg'"
    show "paged_ok pg'"
    proof (cases "j = i")
      case True
      with j fs sub old_ok show ?thesis unfolding paged_ok_def old_def by auto
    next
      case False
      with j heap_invD(2) [OF inv] show ?thesis by simp
    qed
  next
    fix j pg' assume j: "(if j = i then Some pg else paged_objs s j) = Some pg'"
    show "set (pg_frames pg') \<inter> set av = {}"
    proof (cases "j = i")
      case True
      with j fs show ?thesis by auto
    next
      case False
      with j other [of j pg'] sub show ?thesis unfolding old_def by auto
    qed
  next
    fix j k pg' pg'' assume jk: "j \<noteq> k"
      "(if j = i then Some pg else paged_objs s j) = Some pg'"
      "(if k = i then Some pg else paged_objs s k) = Some pg''"
    show "set (pg_frames pg') \<inter> set (pg_frames pg'') = {}"
    proof (cases "j = i \<or> k = i")
      case True
      with jk other sub show ?thesis unfolding old_def by (fastforce split: if_splits)
    next
      case False
      with jk inv show ?thesis unfolding heap_inv_def by auto
    qed
  qed
qed


lemma heap_inv_put':
  fixes s t :: "'a vmo_state_scheme"
  assumes "heap_inv s"
    and "avail_frames t = av" and "paged_objs t = (paged_objs s)(i \<mapsto> pg)" and "next_obj t = n"
    and "i < n" and "next_obj s \<le> n" and "distinct (pg_frames pg @ av)"
    and "set (pg_frames pg) \<union> set av \<subseteq>
      set (avail_frames s) \<union> (case paged_objs s i of None \<Rightarrow> {} | Some pg0 \<Rightarrow> set (pg_frames pg0))"
  shows "heap_inv t"
proof -
  have "heap_inv (s\<lparr>avail_frames := av, paged_objs := (paged_objs s)(i \<mapsto> pg), next_obj := n\<rparr>)"
    by (rule heap_inv_put) (use assms in simp_all)
  moreover have "heap_inv t =
      heap_inv (s\<lparr>avail_frames := av, paged_objs := (paged_objs s)(i \<mapsto> pg), next_obj := n\<rparr>)"
    by (rule heap_inv_cong) (use assms(2-4) in simp_all)
  ultimately show ?thesis by simp
qed

lemma heap_inv_shrink:
  fixes s t :: "'a vmo_state_scheme"
  assumes inv: "heap_inv s" and "avail_frames t = []" and "paged_objs t = paged_objs s" and "next_obj t = next_obj s"
  shows "heap_inv t"
  using inv heap_invD [OF inv] heap_inv_disjoint [OF inv] assms(2-4)
  by (auto simp: heap_inv_def)

lemma fresh_id: "heap_inv s \<Longrightarrow> paged_objs s (next_obj s) = None"
  using heap_invD(1) [of s "next_obj s"] by (cases "paged_objs s (next_obj s)") auto

lemma heap_inv_fresh:
  fixes s t :: "'a vmo_state_scheme"
  assumes inv: "heap_inv s" and "n \<le> length (avail_frames s)"
    and "avail_frames t = drop n (avail_frames s)"
    and "paged_objs t = (paged_objs s)(next_obj s \<mapsto> pg)" and "next_obj t = Suc (next_obj s)"
    and "pg_frames pg = take n (avail_frames s)"
  shows "heap_inv t"
proof (rule heap_inv_put' [OF inv assms(3-5)])
  show "distinct (pg_frames pg @ drop n (avail_frames s))"
    using inv assms(6) by (simp add: heap_inv_def)
  show "set (pg_frames pg) \<union> set (drop n (avail_frames s)) \<subseteq> set (avail_frames s) \<union>
      (case paged_objs s (next_obj s) of None \<Rightarrow> {} | Some pg0 \<Rightarrow> set (pg_frames pg0))"
    using assms(6) set_take_subset set_drop_subset by fastforce
qed simp_all

text \<open>An update of an object that keeps its frames.\<close>

lemma heap_inv_same_frames:
  fixes s t :: "'a vmo_state_scheme"
  assumes inv: "heap_inv s" and i: "paged_objs s i = Some pg" and fr: "pg_frames pg' = pg_frames pg"
    and t: "avail_frames t = avail_frames s" "paged_objs t = (paged_objs s)(i \<mapsto> pg')" "next_obj t = next_obj s"
  shows "heap_inv t"
proof (rule heap_inv_put' [OF inv t])
  show "i < next_obj s" using heap_invD(1) [OF inv i] .
  show "distinct (pg_frames pg' @ avail_frames s)"
    using heap_invD(2,3) [OF inv i] inv fr by (auto simp: paged_ok_def heap_inv_def)
qed (use i fr in auto)

lemma heap_inv_drop:
  assumes "heap_inv s"
  shows "heap_inv (paged_drop i s)"
proof (cases "paged_objs s i")
  case None
  with assms show ?thesis by (simp add: paged_drop_def)
next
  case (Some pg)
  have "distinct (avail_frames s @ pg_frames pg)" "\<forall>p \<in> set (pg_frames pg). frame_ok p"
    using heap_invD(2,3) [OF assms Some] assms by (auto simp: paged_ok_def heap_inv_def)
  moreover have "set (pg_frames pg') \<inter> set (pg_frames pg) = {}"
    if "j \<noteq> i" "paged_objs s j = Some pg'" for j pg'
    using heap_inv_disjoint [OF assms that Some] .
  ultimately show ?thesis
    using assms Some unfolding heap_inv_def paged_drop_def
    by (auto simp: Int_Un_distrib)
qed

subsection \<open>The operations keep the invariant\<close>

lemma heap_inv_alloc_fail:
  "heap_inv s \<Longrightarrow> heap_inv (s\<lparr>avail_frames := [], pmem := m\<rparr>)" "heap_inv s \<Longrightarrow> heap_inv (s\<lparr>avail_frames := []\<rparr>)"
  by (auto elim: heap_inv_shrink)

lemma heap_inv_zeroed_avail: "heap_inv s \<Longrightarrow> \<forall>p \<in> set (avail_frames s). p + 4096 \<le> PMEM_SIZE"
  by (auto dest: heap_inv_avail)

lemma paged_new_eq:
  assumes "heap_inv s"
  shows "paged_new n s =
     (if n \<le> length (avail_frames s)
      then (Inr (next_obj s),
            s\<lparr>avail_frames := drop n (avail_frames s), pmem := zero_all (take n (avail_frames s)) (pmem s),
              paged_objs := (paged_objs s)(next_obj s \<mapsto>
                paged_default\<lparr>pg_frames := take n (avail_frames s)\<rparr>),
              next_obj := Suc (next_obj s)\<rparr>)
      else (Inl Panic, s\<lparr>avail_frames := [], pmem := zero_all (avail_frames s) (pmem s)\<rparr>))"
  using heap_inv_zeroed_avail [OF assms]
  by (simp add: paged_new_def sbind_def alloc_frames_zeroed_eq new_paged_obj_def)

lemma heap_inv_new: "heap_inv s \<Longrightarrow> heap_inv (snd (paged_new n s))"
  by (auto simp: paged_new_eq heap_inv_alloc_fail elim!: heap_inv_fresh)

lemma heap_inv_set_len:
  assumes inv: "heap_inv s"
  shows "heap_inv (snd (paged_set_len i len s))"
proof (cases "page_aligned len \<and> paged_objs s i \<noteq> None")
  case False
  then show ?thesis using inv by (auto simp: paged_set_len_def with_paged_def)
next
  case True
  then obtain pg where pg: "paged_objs s i = Some pg" by blast
  define n where "n = len div 4096"
  note D = heap_invD [OF inv pg]
  have dist: "distinct (pg_frames pg @ avail_frames s)"
    using D inv by (auto simp: paged_ok_def heap_inv_def)
  show ?thesis
  proof (cases "n \<le> length (pg_frames pg)")
    case le: True
    have "distinct (take n (pg_frames pg) @ avail_frames s @ drop n (pg_frames pg))"
    proof -
      have "distinct ((take n (pg_frames pg) @ drop n (pg_frames pg)) @ avail_frames s)"
        using dist by simp
      then show ?thesis by (auto simp del: append_take_drop_id)
    qed
    then have "heap_inv (put_paged i (pg\<lparr>pg_frames := take n (pg_frames pg)\<rparr>)
        (dealloc_frames (drop n (pg_frames pg)) s))"
      using D(1) pg set_take_subset [of n "pg_frames pg"] set_drop_subset [of n "pg_frames pg"]
      by (intro heap_inv_put' [OF inv]) (auto simp: put_paged_def)
    with le True pg show ?thesis by (simp add: paged_set_len_def with_paged_def n_def Let_def)
  next
    case gt: False
    define k where "k = n - length (pg_frames pg)"
    show ?thesis
    proof (cases "k \<le> length (avail_frames s)")
      case fits: True
      have "distinct ((pg_frames pg @ take k (avail_frames s)) @ drop k (avail_frames s))"
        using dist by simp
      then have "heap_inv (put_paged i (pg\<lparr>pg_frames := pg_frames pg @ take k (avail_frames s)\<rparr>)
          (s\<lparr>avail_frames := drop k (avail_frames s)\<rparr>))"
        using D(1) pg set_take_subset [of k "avail_frames s"] set_drop_subset [of k "avail_frames s"]
        unfolding put_paged_def
        by (intro heap_inv_put' [OF inv, where i = i and n = "next_obj s" and
              pg = "pg\<lparr>pg_frames := pg_frames pg @ take k (avail_frames s)\<rparr>" and
              av = "drop k (avail_frames s)"]) auto
      with gt fits True pg show ?thesis
        by (simp add: paged_set_len_def with_paged_def n_def k_def alloc_frames_eq sbind_def Let_def)
    next
      case short: False
      with gt True pg show ?thesis
        using heap_inv_alloc_fail(2) [OF inv]
        by (simp add: paged_set_len_def with_paged_def n_def k_def alloc_frames_eq sbind_def Let_def)
    qed
  qed
qed

subsection \<open>Snapshot children\<close>

lemma copy_loop:
  fixes s :: "'a hal_state_scheme"
  assumes "\<forall>p \<in> set fs. frame_ok p" and "\<forall>p \<in> set src. frame_ok p" and "distinct fs"
    and "set fs \<inter> set src = {}"
  shows "\<exists>m. sfor (copy_frame src start) (List.enumerate k fs) s = (Inr (), s\<lparr>pmem := m\<rparr>) \<and>
     (\<forall>j < length fs. \<forall>x < 4096. m (fs ! j + x) =
        (if start + (k + j) < length src then pmem s (src ! (start + (k + j)) + x) else 0)) \<and>
     (\<forall>a. \<not> in_frames fs a \<longrightarrow> m a = pmem s a)"
  using assms
proof (induction fs arbitrary: k s)
  case Nil
  show ?case by (auto intro: exI [of _ "pmem s"])
next
  case (Cons p fs)
  define bytes :: "u8 list" where
    "bytes = (if start + k < length src then map (\<lambda>i. pmem s (src ! (start + k) + i)) [0..<4096]
              else replicate 4096 0)"
  let ?s1 = "s\<lparr>pmem := pmem_store (pmem s) p bytes\<rparr>"
  have p: "frame_ok p" "p + 4096 \<le> PMEM_SIZE" using Cons.prems by (simp_all add: frame_ok_def)
  have "start + k < length src \<Longrightarrow> src ! (start + k) + 4096 \<le> PMEM_SIZE"
    using Cons.prems(2) by (simp add: frame_ok_def)
  then have step: "copy_frame src start (k, p) s = (Inr (), ?s1)"
    using p(2) by (simp add: copy_frame_def bytes_def frame_copy_def pmem_bounds_Inr pmem_zero_ok)
  obtain m where m: "sfor (copy_frame src start) (List.enumerate (Suc k) fs) ?s1 = (Inr (), ?s1\<lparr>pmem := m\<rparr>)"
    "\<And>j x. j < length fs \<Longrightarrow> x < 4096 \<Longrightarrow> m (fs ! j + x) =
        (if start + (Suc k + j) < length src then pmem ?s1 (src ! (start + (Suc k + j)) + x) else 0)"
    "\<And>a. \<not> in_frames fs a \<Longrightarrow> m a = pmem ?s1 a"
    using Cons.IH [of "Suc k" ?s1] Cons.prems by auto
  have p_apart: "\<not> in_frames fs (p + x)" if "x < 4096" for x
  proof
    assume "in_frames fs (p + x)"
    then obtain q where q: "q \<in> set fs" "q \<le> p + x" "p + x < q + 4096" by (auto simp: in_frames_def)
    then have "p + x = q + (p + x - q)" "p + x - q < 4096" by simp_all
    moreover have "q \<noteq> p" "frame_ok q" using q(1) Cons.prems by auto
    ultimately show False using frame_ok_disjoint [of p q x "p + x - q"] p(1) that by simp
  qed
  have src_apart: "pmem_store (pmem s) p bytes (src ! n + x) = pmem s (src ! n + x)"
    if "n < length src" "x < 4096" for n x
  proof (rule pmem_store_other, rule ccontr)
    assume *: "\<not> (src ! n + x < p \<or> p + length bytes \<le> src ! n + x)"
    then have "src ! n + x = p + (src ! n + x - p)" "src ! n + x - p < 4096"
      by (auto simp: bytes_def split: if_splits)
    moreover have "src ! n \<noteq> p" "frame_ok (src ! n)"
      using that(1) Cons.prems nth_mem [OF that(1)] by auto
    ultimately show False using frame_ok_disjoint [of "src ! n" p x "src ! n + x - p"] p(1) that(2) by simp
  qed
  have "m ((p # fs) ! j + x) =
      (if start + (k + j) < length src then pmem s (src ! (start + (k + j)) + x) else 0)"
    if "j < length (p # fs)" "x < 4096" for j x
  proof (cases j)
    case 0
    then show ?thesis
      using m(3) [OF p_apart [OF that(2)]] that(2) by (auto simp: bytes_def pmem_store_def)
  next
    case (Suc j')
    then show ?thesis using m(2) [of j' x] that src_apart by (auto simp del: pmem_store_def)
  qed
  moreover have "m a = pmem s a" if "\<not> in_frames (p # fs) a" for a
    using that m(3) [of a] by (auto simp: pmem_store_def bytes_def)
  ultimately show ?case
    using m(1) step by (intro exI [of _ m]) (simp add: sbind_Inr)
qed

definition child_ready :: "paged \<Rightarrow> usize \<Rightarrow> usize \<Rightarrow> bool" where
  "child_ready pg offset len \<longleftrightarrow>
     page_aligned offset \<and> page_aligned len \<and> \<not> pg_contiguous pg \<and> pg_cache pg = Cached \<and> pg_pin pg = 0"

lemma paged_create_child_cases:
  assumes inv: "heap_inv s" and pg: "paged_objs s i = Some pg" and "child_ready pg offset len"
  obtains (no_memory) "length (avail_frames s) < pages len"
      and "paged_create_child i offset len s = (Inl (Err NO_MEMORY), s)"
  | (created) m fs where "fs = take (pages len) (avail_frames s)" and "length fs = pages len"
      and "paged_create_child i offset len s = (Inr (next_obj s),
            s\<lparr>avail_frames := drop (pages len) (avail_frames s), pmem := m,
              paged_objs := (paged_objs s)(next_obj s \<mapsto> paged_default\<lparr>pg_frames := fs\<rparr>),
              next_obj := Suc (next_obj s)\<rparr>)"
      and "\<And>j x. j < length fs \<Longrightarrow> x < 4096 \<Longrightarrow> m (fs ! j + x) =
        (if pages offset + j < length (pg_frames pg)
         then pmem s (pg_frames pg ! (pages offset + j) + x) else 0)"
      and "\<And>a. \<not> in_frames fs a \<Longrightarrow> m a = pmem s a"
proof (cases "pages len \<le> length (avail_frames s)")
  case False
  with assms show ?thesis
    by (intro no_memory) (simp_all add: paged_create_child_def with_paged_def child_ready_def
      sbind_def alloc_frames_err_eq)
next
  case True
  define fs where "fs = take (pages len) (avail_frames s)"
  let ?s1 = "s\<lparr>avail_frames := drop (pages len) (avail_frames s)\<rparr>"
  have "\<forall>p \<in> set fs. frame_ok p" "distinct fs" "set fs \<inter> set (pg_frames pg) = {}"
    using inv heap_invD(3) [OF inv pg] set_take_subset [of "pages len" "avail_frames s"]
    by (auto simp: fs_def heap_inv_def)
  moreover have "\<forall>p \<in> set (pg_frames pg). frame_ok p"
    using heap_invD(2) [OF inv pg] by (simp add: paged_ok_def)
  ultimately obtain m where m:
    "sfor (copy_frame (pg_frames pg) (pages offset)) (List.enumerate 0 fs) ?s1 = (Inr (), ?s1\<lparr>pmem := m\<rparr>)"
    "\<And>j x. j < length fs \<Longrightarrow> x < 4096 \<Longrightarrow> m (fs ! j + x) =
        (if pages offset + (0 + j) < length (pg_frames pg)
         then pmem ?s1 (pg_frames pg ! (pages offset + (0 + j)) + x) else 0)"
    "\<And>a. \<not> in_frames fs a \<Longrightarrow> m a = pmem ?s1 a"
    using copy_loop [of fs "pg_frames pg" "pages offset" 0 ?s1] by blast
  show ?thesis
  proof (rule created [of fs m])
    show "paged_create_child i offset len s = (Inr (next_obj s),
            s\<lparr>avail_frames := drop (pages len) (avail_frames s), pmem := m,
              paged_objs := (paged_objs s)(next_obj s \<mapsto> paged_default\<lparr>pg_frames := fs\<rparr>),
              next_obj := Suc (next_obj s)\<rparr>)"
      using True assms m(1)
      by (simp add: paged_create_child_def with_paged_def child_ready_def sbind_def
        alloc_frames_err_eq fs_def new_paged_obj_def)
  qed (use True m in \<open>simp_all add: fs_def\<close>)
qed

lemma heap_inv_create_child:
  assumes inv: "heap_inv s"
  shows "heap_inv (snd (paged_create_child i offset len s))"
proof (cases "\<exists>pg. paged_objs s i = Some pg \<and> child_ready pg offset len")
  case False
  then have "snd (paged_create_child i offset len s) = s"
    by (auto simp: paged_create_child_def with_paged_def child_ready_def split: option.splits)
  with inv show ?thesis by simp
next
  case True
  then obtain pg where "paged_objs s i = Some pg" "child_ready pg offset len" by blast
  with inv show ?thesis
  proof (cases rule: paged_create_child_cases)
    case no_memory
    with inv show ?thesis by simp
  next
    case (created m fs)
    then have "pages len \<le> length (avail_frames s)" by simp
    from heap_inv_fresh [OF inv this, where pg = "paged_default\<lparr>pg_frames := fs\<rparr>"] created(1,3)
    show ?thesis by simp
  qed
qed

subsection \<open>Operations that leave the frames alone\<close>

definition same_heap :: "'a vmo_state_scheme \<Rightarrow> 'a vmo_state_scheme \<Rightarrow> bool" where
  "same_heap s t \<longleftrightarrow>
     avail_frames t = avail_frames s \<and> paged_objs t = paged_objs s \<and> next_obj t = next_obj s"

lemma same_heap_refl [simp]: "same_heap s s"
  by (simp add: same_heap_def)

lemma same_heap_inv: "same_heap s t \<Longrightarrow> heap_inv t = heap_inv s"
  unfolding same_heap_def by (intro heap_inv_cong) simp_all

lemma write_part_same: "same_heap s u \<Longrightarrow> same_heap s (snd (write_part data part u))"
  by (auto simp: write_part_def pmem_write_def same_heap_def split: prod.splits sum.splits)

lemma zero_part_same: "same_heap s u \<Longrightarrow> same_heap s (snd (zero_part part u))"
  by (auto simp: zero_part_def pmem_zero_def same_heap_def split: prod.splits sum.splits)

lemma for_each_page_same:
  assumes f: "\<And>u part. same_heap s u \<Longrightarrow> same_heap s (snd (f part u))"
  shows "same_heap s (snd (for_each_page fs off n f s))"
proof -
  have loop: "same_heap s (snd (sfor (\<lambda>b. sbind (slift (\<lambda>_. page_part fs off b)) f) bs s))" for bs
  proof (rule sfor_invariant [where P = "same_heap s", OF prod.collapse [symmetric]])
    fix b u r u' assume "same_heap s u" "sbind (slift (\<lambda>_. page_part fs off b)) f u = (r, u')"
    then show "same_heap s u'"
      using f [of u] by (cases "page_part fs off b") (auto simp: sbind_def, metis snd_conv)
  qed simp
  then show ?thesis
    unfolding for_each_page_def by (auto simp: sbind_def split: sum.splits)
qed

lemma paged_write_same: "same_heap s (snd (paged_write i off data s))"
  by (auto simp: paged_write_def with_paged_def split: option.splits
      intro!: for_each_page_same write_part_same)

lemma paged_zero_same: "same_heap s (snd (paged_zero i off n s))"
  by (auto simp: paged_zero_def with_paged_def split: option.splits
      intro!: for_each_page_same zero_part_same)

lemma heap_inv_put_paged:
  assumes "heap_inv s" and "paged_objs s i = Some pg" and "pg_frames pg' = pg_frames pg"
  shows "heap_inv (put_paged i pg' s)"
  using heap_inv_same_frames [OF assms, of "put_paged i pg' s"] by (simp add: put_paged_def)

lemma frame_flush_all [simp]: "fold frame_flush fs s = s"
  by (induction fs) (simp_all add: frame_flush_def)

lemma heap_inv_append_mapping: "heap_inv s \<Longrightarrow> heap_inv (snd (paged_append_mapping i m s))"
  by (auto simp: paged_append_mapping_def with_paged_def heap_inv_put_paged split: option.splits)

lemma heap_inv_remove_mapping: "heap_inv s \<Longrightarrow> heap_inv (snd (paged_remove_mapping alive i m s))"
  by (auto simp: paged_remove_mapping_def with_paged_def heap_inv_put_paged split: option.splits)

lemma heap_inv_set_cache: "heap_inv s \<Longrightarrow> heap_inv (snd (paged_set_cache_policy i pol s))"
  by (auto simp: paged_set_cache_policy_def with_paged_def Let_def heap_inv_put_paged split: option.splits)

lemma heap_inv_pin: "heap_inv s \<Longrightarrow> heap_inv (snd (paged_pin i off len s))"
  by (auto simp: paged_pin_def with_paged_def sbind_def heap_inv_put_paged split: option.splits sum.splits)

lemma heap_inv_unpin: "heap_inv s \<Longrightarrow> heap_inv (snd (paged_unpin i off len s))"
  by (auto simp: paged_unpin_def with_paged_def sbind_def heap_inv_put_paged split: option.splits sum.splits)

subsection \<open>The contents of an object\<close>

definition contents :: "'a vmo_state_scheme \<Rightarrow> nat \<Rightarrow> u8 list option" where
  \<comment> \<open>the bytes of an object that is open to \<open>read\<close> and \<open>write\<close>\<close>
  "contents s i =
     (case paged_objs s i of
        None \<Rightarrow> None
      | Some pg \<Rightarrow>
          if pg_cache pg = Cached
          then Some (map (\<lambda>x. pmem s (byte_addr (pg_frames pg) x)) [0..<4096 * length (pg_frames pg)])
          else None)"

lemma contents_SomeD:
  assumes "contents s i = Some bs"
  obtains pg where "paged_objs s i = Some pg" and "pg_cache pg = Cached"
    and "bs = map (\<lambda>x. pmem s (byte_addr (pg_frames pg) x)) [0..<4096 * length (pg_frames pg)]"
  using assms by (auto simp: contents_def split: option.splits if_splits)

lemma init_frames_length: "length init_frames = 262143"
  by (simp add: init_frames_def PMEM_SIZE_def)

lemma paged_ok_size:
  assumes "paged_ok pg"
  shows "4096 * length (pg_frames pg) < usize_lim"
proof -
  have "set (pg_frames pg) \<subseteq> set init_frames"
    using assms by (auto simp: set_init_frames paged_ok_def)
  then have "card (set (pg_frames pg)) \<le> card (set init_frames)" by (intro card_mono) auto
  then have "length (pg_frames pg) \<le> 262143"
    using assms card_length [of init_frames] distinct_card [of "pg_frames pg"]
    by (simp add: paged_ok_def init_frames_length)
  then show ?thesis by simp
qed

lemma paged_read_contents:
  assumes "heap_inv s" and "contents s i = Some bs" and "off + length buf \<le> length bs"
  shows "paged_read i off buf s = Inr (take (length buf) (drop off bs))"
proof -
  obtain pg where pg: "paged_objs s i = Some pg" "pg_cache pg = Cached"
    and bs: "bs = map (\<lambda>x. pmem s (byte_addr (pg_frames pg) x)) [0..<4096 * length (pg_frames pg)]"
    using assms(2) by (rule contents_SomeD)
  have ok: "paged_ok pg" using heap_invD(2) [OF assms(1) pg(1)] .
  have le: "off + length buf \<le> 4096 * length (pg_frames pg)" using assms(3) bs by simp
  with paged_ok_size [OF ok] have "off + length buf < usize_lim" by simp
  from paged_read_bytes [OF pg ok le this] show ?thesis
    using le by (auto simp: bs intro!: nth_equalityI)
qed

text \<open>The physical addresses of two objects do not meet.\<close>

lemma byte_addr_in_frames:
  assumes "x < 4096 * length fs"
  shows "in_frames fs (byte_addr fs x)"
proof -
  have "x div 4096 < length fs" using assms by (rule div_less_pages)
  then show ?thesis unfolding byte_addr_def by (intro in_frames_nth) simp_all
qed

lemma in_frames_disjoint:
  assumes "\<forall>p \<in> set fs. frame_ok p" and "\<forall>p \<in> set gs. frame_ok p" and "set fs \<inter> set gs = {}"
    and "in_frames fs a"
  shows "\<not> in_frames gs a"
proof
  assume "in_frames gs a"
  then obtain q where q: "q \<in> set gs" "q \<le> a" "a < q + 4096" by (auto simp: in_frames_def)
  from assms(4) obtain p where p: "p \<in> set fs" "p \<le> a" "a < p + 4096" by (auto simp: in_frames_def)
  have "p \<noteq> q" "frame_ok p" "frame_ok q" using assms p(1) q(1) by auto
  moreover have "a - p < 4096" "a - q < 4096" "p + (a - p) = q + (a - q)" using p q by linarith+
  ultimately show False using frame_ok_disjoint [of p q "a - p" "a - q"] by blast
qed

lemma other_object_apart:
  assumes "heap_inv s" and "i \<noteq> j" and "paged_objs s i = Some pg" and "paged_objs s j = Some pg'"
    and "in_frames (pg_frames pg) a"
  shows "\<not> in_frames (pg_frames pg') a"
  using heap_invD(2) [OF assms(1,3)] heap_invD(2) [OF assms(1,4)] heap_inv_disjoint [OF assms(1-4)] assms(5)
  by (intro in_frames_disjoint [of "pg_frames pg"]) (auto simp: paged_ok_def)

lemma contents_cong:
  assumes "paged_objs t i = paged_objs s i"
    and "\<And>pg a. paged_objs s i = Some pg \<Longrightarrow> in_frames (pg_frames pg) a \<Longrightarrow> pmem t a = pmem s a"
  shows "contents t i = contents s i"
proof -
  have "pmem t (byte_addr (pg_frames pg) x) = pmem s (byte_addr (pg_frames pg) x)"
    if "paged_objs s i = Some pg" "x < 4096 * length (pg_frames pg)" for pg x
    using assms(2) [OF that(1) byte_addr_in_frames [OF that(2)]] .
  with assms(1) show ?thesis by (auto simp: contents_def split: option.splits)
qed

lemma paged_write_contents:
  assumes inv: "heap_inv s" and c: "contents s i = Some bs" and len: "off + length data \<le> length bs"
  shows "\<exists>t. paged_write i off data s = (Inr (), t) \<and> heap_inv t \<and>
           contents t = (contents s)(i \<mapsto> splice_at bs off data)"
proof -
  obtain pg where pg: "paged_objs s i = Some pg" "pg_cache pg = Cached"
    and bs: "bs = map (\<lambda>x. pmem s (byte_addr (pg_frames pg) x)) [0..<4096 * length (pg_frames pg)]"
    using c by (rule contents_SomeD)
  have ok: "paged_ok pg" using heap_invD(2) [OF inv pg(1)] .
  have le: "off + length data \<le> 4096 * length (pg_frames pg)" using len bs by simp
  with paged_ok_size [OF ok] have lim: "off + length data < usize_lim" by simp
  obtain m where m: "paged_write i off data s = (Inr (), s\<lparr>pmem := m\<rparr>)"
    "\<And>j. j < length data \<Longrightarrow> m (byte_addr (pg_frames pg) (off + j)) = data ! j"
    "\<And>y. y \<notin> byte_addr (pg_frames pg) ` {off ..< off + length data} \<Longrightarrow> m y = pmem s y"
    using paged_write_bytes [OF pg ok le lim] by metis
  let ?t = "s\<lparr>pmem := m\<rparr>"
  have inj: "byte_addr (pg_frames pg) x = byte_addr (pg_frames pg) y \<longleftrightarrow> x = y"
    if "x < 4096 * length (pg_frames pg)" "y < 4096 * length (pg_frames pg)" for x y
    using byte_addr_inj [of "pg_frames pg" x y] ok that by (auto simp: paged_ok_def)
  have "m (byte_addr (pg_frames pg) x) = splice_at bs off data ! x" if x: "x < 4096 * length (pg_frames pg)" for x
  proof (cases "off \<le> x \<and> x < off + length data")
    case True
    then have "x - off < length data" "off + (x - off) = x" by linarith+
    with m(2) [of "x - off"] nth_splice_at [OF len, of x] True x bs show ?thesis by simp
  next
    case False
    have "byte_addr (pg_frames pg) x \<notin> byte_addr (pg_frames pg) ` {off ..< off + length data}"
    proof
      assume "byte_addr (pg_frames pg) x \<in> byte_addr (pg_frames pg) ` {off ..< off + length data}"
      then obtain y where "off \<le> y" "y < off + length data"
        "byte_addr (pg_frames pg) x = byte_addr (pg_frames pg) y" by auto
      with inj [OF x, of y] le False show False by simp
    qed
    from m(3) [OF this] show ?thesis using nth_splice_at [OF len, of x] False x bs by auto
  qed
  then have "contents ?t i = Some (splice_at bs off data)"
    using pg len bs by (auto simp: contents_def intro!: nth_equalityI)
  moreover have "contents ?t j = contents s j" if j: "j \<noteq> i" for j
  proof (rule contents_cong)
    fix pg' a assume pg': "paged_objs s j = Some pg'" "in_frames (pg_frames pg') a"
    have "a \<notin> byte_addr (pg_frames pg) ` {off ..< off + length data}"
    proof
      assume "a \<in> byte_addr (pg_frames pg) ` {off ..< off + length data}"
      then have "in_frames (pg_frames pg) a" using le by (auto intro: byte_addr_in_frames)
      with other_object_apart [OF inv j pg'(1) pg(1) pg'(2)] show False by simp
    qed
    then show "pmem ?t a = pmem s a" using m(3) by simp
  qed simp
  ultimately show ?thesis using m(1) inv by (intro exI [of _ ?t]) auto
qed

end
