(* ===== verification/Vmo_Contents.thy ===== *)
theory Vmo_Contents
  imports Vmo_Heap
begin

text \<open>
  Memory objects as byte stores. The locale \<open>byte_store\<close> states what a client may rely on: reading
  returns the bytes of the object, writing changes those of this object only. The heap of paged
  objects is an instance; creation, snapshot children, resizing and dropping are described by what
  they do to the contents. A step relation over all operations gives the reachable heaps.
\<close>

subsection \<open>The interface of a byte store\<close>

locale byte_store =
  fixes inv :: "'s \<Rightarrow> bool"
    and content :: "'s \<Rightarrow> nat \<Rightarrow> u8 list option"
    and read_at :: "nat \<Rightarrow> usize \<Rightarrow> u8 list \<Rightarrow> 's \<Rightarrow> u8 list zx"
    and write_at :: "nat \<Rightarrow> usize \<Rightarrow> u8 list \<Rightarrow> 's \<Rightarrow> unit zx \<times> 's"
  assumes read_spec: "inv s \<Longrightarrow> content s i = Some bs \<Longrightarrow> off + length buf \<le> length bs \<Longrightarrow>
      read_at i off buf s = Inr (take (length buf) (drop off bs))"
    and write_spec: "inv s \<Longrightarrow> content s i = Some bs \<Longrightarrow> off + length data \<le> length bs \<Longrightarrow>
      \<exists>t. write_at i off data s = (Inr (), t) \<and> inv t \<and> content t = (content s)(i \<mapsto> splice_at bs off data)"
begin

lemma write_then:
  assumes "inv s" and "content s i = Some bs" and "off + length data \<le> length bs"
    and "write_at i off data s = (r, t)"
  shows "r = Inr ()" "inv t" "content t = (content s)(i \<mapsto> splice_at bs off data)"
  using write_spec [OF assms(1-3)] assms(4) by auto

lemma read_back:
  assumes "inv s" and "content s i = Some bs" and "off + length data \<le> length bs"
    and "write_at i off data s = (r, t)" and "length buf = length data"
  shows "read_at i off buf t = Inr data"
proof -
  note w = write_then [OF assms(1-4)]
  have "read_at i off buf t = Inr (take (length buf) (drop off (splice_at bs off data)))"
    using w assms(3,5) by (intro read_spec) simp_all
  then show ?thesis using splice_at_read [OF assms(3)] assms(5) by simp
qed

lemma read_other:
  assumes "inv s" and "content s i = Some bs" and "off + length data \<le> length bs"
    and "write_at i off data s = (r, t)" and "j \<noteq> i"
    and "content s j = Some cs" and "off' + length buf \<le> length cs"
  shows "read_at j off' buf t = read_at j off' buf s"
proof -
  note w = write_then [OF assms(1-4)]
  have "content t j = Some cs" using w(3) assms(5,6) by simp
  from read_spec [OF w(2) this assms(7)] read_spec [OF assms(1,6,7)] show ?thesis by simp
qed

lemma writes_commute:
  assumes "inv s" and "i \<noteq> j" and "content s i = Some bs" and "content s j = Some cs"
    and "off + length xs \<le> length bs" and "off' + length ys \<le> length cs"
    and "write_at i off xs s = (r1, t1)" and "write_at j off' ys t1 = (r2, t2)"
    and "write_at j off' ys s = (q1, u1)" and "write_at i off xs u1 = (q2, u2)"
  shows "content t2 = content u2"
proof -
  note w1 = write_then [OF assms(1,3,5,7)]
  have "content t1 j = Some cs" using w1(3) assms(2,4) by simp
  note w2 = write_then [OF w1(2) this assms(6,8)]
  note v1 = write_then [OF assms(1,4,6,9)]
  have "content u1 i = Some bs" using v1(3) assms(2,3) by simp
  note v2 = write_then [OF v1(2) this assms(5,10)]
  show ?thesis using w1(3) w2(3) v1(3) v2(3) assms(2) by (simp add: fun_upd_twist)
qed

end

interpretation paged_store: byte_store heap_inv contents paged_read paged_write
  by unfold_locales (auto simp: paged_read_contents paged_write_contents)

subsection \<open>Creation and destruction\<close>

lemma contents_other:
  assumes inv: "heap_inv s" and "paged_objs t j = paged_objs s j"
    and "\<And>a. \<not> in_frames fs a \<Longrightarrow> pmem t a = pmem s a" and "set fs \<subseteq> set (avail_frames s)"
  shows "contents t j = contents s j"
proof (rule contents_cong)
  fix pg a assume pg: "paged_objs s j = Some pg" "in_frames (pg_frames pg) a"
  have "\<not> in_frames fs a"
  proof (rule in_frames_disjoint [OF _ _ _ pg(2)])
    show "\<forall>p \<in> set (pg_frames pg). frame_ok p" using heap_invD(2) [OF inv pg(1)] by (simp add: paged_ok_def)
    show "\<forall>p \<in> set fs. frame_ok p" using heap_inv_avail(1) [OF inv] assms(4) by blast
    show "set (pg_frames pg) \<inter> set fs = {}" using heap_invD(3) [OF inv pg(1)] assms(4) by blast
  qed
  then show "pmem t a = pmem s a" by (rule assms(3))
qed (rule assms(2))

lemma contents_new:
  assumes inv: "heap_inv s" and n: "n \<le> length (avail_frames s)" and new: "paged_new n s = (r, t)"
  shows "r = Inr (next_obj s)" "contents t = (contents s)(next_obj s \<mapsto> replicate (4096 * n) 0)"
proof -
  define fs where "fs = take n (avail_frames s)"
  have len: "length fs = n" using n by (simp add: fs_def)
  have t: "r = Inr (next_obj s)" "pmem t = zero_all fs (pmem s)"
    "paged_objs t = (paged_objs s)(next_obj s \<mapsto> paged_default\<lparr>pg_frames := fs\<rparr>)"
    using new n by (simp_all add: paged_new_eq [OF inv] fs_def [symmetric]) auto
  show "r = Inr (next_obj s)" by (rule t(1))
  have "contents t (next_obj s) = Some (replicate (4096 * n) 0)"
    using byte_addr_in_frames [of _ fs] len
    by (auto simp: contents_def t(2,3) paged_default_def zero_all_apply intro!: nth_equalityI)
  moreover have "contents t j = contents s j" if "j \<noteq> next_obj s" for j
    by (rule contents_other [OF inv, of _ _ fs])
      (use that t(2,3) in \<open>auto simp: zero_all_apply fs_def dest: in_set_takeD\<close>)
  ultimately show "contents t = (contents s)(next_obj s \<mapsto> replicate (4096 * n) 0)" by auto
qed

lemma contents_drop:
  assumes inv: "heap_inv s"
  shows "contents (paged_drop i s) = (contents s)(i := None)"
proof
  fix j
  show "contents (paged_drop i s) j = ((contents s)(i := None)) j"
    by (auto simp: paged_drop_def contents_def split: option.splits)
qed

lemma contents_child:
  assumes inv: "heap_inv s" and bs0: "contents s i = Some bs"
    and new: "paged_create_child i offset len s = (Inr c, t)" and lim: "offset < usize_lim" "len < usize_lim"
  shows "c = next_obj s"
    "contents t = (contents s)(c \<mapsto> take len (drop offset bs @ replicate len 0))"
proof -
  obtain pg where pg: "paged_objs s i = Some pg" "pg_cache pg = Cached"
    and bs: "bs = map (\<lambda>x. pmem s (byte_addr (pg_frames pg) x)) [0..<4096 * length (pg_frames pg)]"
    using bs0 by (rule contents_SomeD)
  have ready: "child_ready pg offset len"
    using new pg by (auto simp: paged_create_child_def with_paged_def child_ready_def split: if_splits)
  then have al: "page_aligned offset" "page_aligned len" by (simp_all add: child_ready_def)
  obtain k l where k: "offset = 4096 * k" and l: "len = 4096 * l"
    using al by (auto simp: page_aligned_iff elim!: dvdE)
  have pgs: "pages offset = k" "pages len = l"
    using pages_aligned [OF al(1) lim(1)] pages_aligned [OF al(2) lim(2)] k l by simp_all
  from inv pg(1) ready show "c = next_obj s"
    by (cases rule: paged_create_child_cases) (use new in auto)
  from inv pg(1) ready show "contents t = (contents s)(c \<mapsto> take len (drop offset bs @ replicate len 0))"
  proof (cases rule: paged_create_child_cases)
    case no_memory
    with new show ?thesis by simp
  next
    case (created m fs)
    then have t: "pmem t = m" "c = next_obj s"
      "paged_objs t = (paged_objs s)(next_obj s \<mapsto> paged_default\<lparr>pg_frames := fs\<rparr>)"
      using new by auto
    have lfs: "length fs = l" using created(2) pgs by simp
    have "m (byte_addr fs x) = take len (drop offset bs @ replicate len 0) ! x" if x: "x < len" for x
    proof -
      have x4: "x div 4096 < length fs" using x l lfs by (intro div_less_pages) simp
      have "offset + x = 4096 * (k + x div 4096) + x mod 4096"
        using k by (simp add: algebra_simps)
      then have "(offset + x) div 4096 = k + x div 4096" "(offset + x) mod 4096 = x mod 4096"
        by simp_all
      then have "byte_addr (pg_frames pg) (offset + x) = pg_frames pg ! (k + x div 4096) + x mod 4096"
        by (simp add: byte_addr_def)
      moreover have "k + x div 4096 < length (pg_frames pg) \<longleftrightarrow> offset + x < 4096 * length (pg_frames pg)"
        using \<open>(offset + x) div 4096 = k + x div 4096\<close> by (metis div_less_iff_less_mult mult.commute zero_less_numeral)
      ultimately show ?thesis
        using created(4) [OF x4, of "x mod 4096"] pgs x
        by (auto simp: byte_addr_def bs nth_append)
    qed
    then have "contents t c = Some (take len (drop offset bs @ replicate len 0))"
      using lfs l by (auto simp: contents_def t paged_default_def intro!: nth_equalityI)
    moreover have "contents t j = contents s j" if "j \<noteq> c" for j
      by (rule contents_other [OF inv, of _ _ fs])
        (use that t created(1,5) in \<open>auto dest: in_set_takeD\<close>)
    ultimately show ?thesis by auto
  qed
qed

subsection \<open>Resizing\<close>

lemma contents_set_len:
  assumes inv: "heap_inv s" and bs0: "contents s i = Some bs" and set: "paged_set_len i len s = (Inr (), t)"
  shows "\<exists>cs. contents t = (contents s)(i \<mapsto> cs) \<and> length cs = len \<and>
           take (length bs) cs = take len bs"
proof -
  obtain pg where pg: "paged_objs s i = Some pg" "pg_cache pg = Cached"
    and bs: "bs = map (\<lambda>x. pmem s (byte_addr (pg_frames pg) x)) [0..<4096 * length (pg_frames pg)]"
    using bs0 by (rule contents_SomeD)
  have al: "page_aligned len" using set by (auto simp: paged_set_len_def split: if_splits)
  then obtain n where n: "len = 4096 * n" by (auto simp: page_aligned_iff)
  define fs where "fs = pg_frames pg"
  obtain fs' where fs': "paged_objs t = (paged_objs s)(i \<mapsto> pg\<lparr>pg_frames := fs'\<rparr>)" "pmem t = pmem s"
    "length fs' = n" "take (length fs) fs' = take n fs"
  proof (cases "n \<le> length fs")
    case True
    with set al n pg show ?thesis
      by (intro that [of "take n fs"]) (auto simp: paged_set_len_def with_paged_def Let_def put_paged_def fs_def)
  next
    case False
    with set al n pg show ?thesis
      by (intro that [of "fs @ take (n - length fs) (avail_frames s)"])
        (auto simp: paged_set_len_def with_paged_def Let_def put_paged_def fs_def sbind_def alloc_frames_eq
          split: if_splits)
  qed
  define cs where "cs = map (\<lambda>x. pmem s (byte_addr fs' x)) [0..<4096 * n]"
  have "fs' ! j = fs ! j" if "j < n" "j < length fs" for j
    using fs'(4) that by (metis nth_take)
  then have "cs ! x = bs ! x" if "x < len" "x < length bs" for x
    using that n bs by (simp add: cs_def byte_addr_def fs_def div_less_pages)
  then have "take (length bs) cs = take len bs"
    using n by (auto simp: cs_def intro!: nth_equalityI)
  moreover have "contents t = (contents s)(i \<mapsto> cs)"
    using fs'(1,3) pg by (intro ext) (simp add: contents_def cs_def fs'(2) split: option.split)
  ultimately show ?thesis using n by (auto simp: cs_def)
qed

subsection \<open>Reachable heaps\<close>

text \<open>Every method call on any object, successful or not, is a step.\<close>

inductive paged_step :: "'a vmo_state_scheme \<Rightarrow> 'a vmo_state_scheme \<Rightarrow> bool" where
  ps_new: "paged_new n s = (r, t) \<Longrightarrow> paged_step s t"
| ps_write: "paged_write i off data s = (r, t) \<Longrightarrow> paged_step s t"
| ps_zero: "paged_zero i off n s = (r, t) \<Longrightarrow> paged_step s t"
| ps_set_len: "paged_set_len i len s = (r, t) \<Longrightarrow> paged_step s t"
| ps_child: "paged_create_child i off len s = (r, t) \<Longrightarrow> paged_step s t"
| ps_append: "paged_append_mapping i m s = (r, t) \<Longrightarrow> paged_step s t"
| ps_remove: "paged_remove_mapping alive i m s = (r, t) \<Longrightarrow> paged_step s t"
| ps_cache: "paged_set_cache_policy i pol s = (r, t) \<Longrightarrow> paged_step s t"
| ps_pin: "paged_pin i off len s = (r, t) \<Longrightarrow> paged_step s t"
| ps_unpin: "paged_unpin i off len s = (r, t) \<Longrightarrow> paged_step s t"
| ps_drop: "paged_step s (paged_drop i s)"

inductive_cases paged_stepE: "paged_step s t"

inductive paged_reach :: "'a vmo_state_scheme \<Rightarrow> 'a vmo_state_scheme \<Rightarrow> bool" for s0 where
  pr_init: "paged_reach s0 s0"
| pr_step: "paged_reach s0 s \<Longrightarrow> paged_step s t \<Longrightarrow> paged_reach s0 t"

lemma paged_step_heap_inv: "paged_step s t \<Longrightarrow> heap_inv s \<Longrightarrow> heap_inv t"
proof (induction rule: paged_step.induct)
  case (ps_new n s r t)
  then show ?case using heap_inv_new [of s n] by simp
next
  case (ps_write i off data s r t)
  then show ?case using same_heap_inv [OF paged_write_same [of s i off data]] by simp
next
  case (ps_zero i off n s r t)
  then show ?case using same_heap_inv [OF paged_zero_same [of s i off n]] by simp
next
  case (ps_set_len i len s r t)
  then show ?case using heap_inv_set_len [of s i len] by simp
next
  case (ps_child i off len s r t)
  then show ?case using heap_inv_create_child [of s i off len] by simp
next
  case (ps_append i m s r t)
  then show ?case using heap_inv_append_mapping [of s i m] by simp
next
  case (ps_remove alive i m s r t)
  then show ?case using heap_inv_remove_mapping [of s alive i m] by simp
next
  case (ps_cache i pol s r t)
  then show ?case using heap_inv_set_cache [of s i pol] by simp
next
  case (ps_pin i off len s r t)
  then show ?case using heap_inv_pin [of s i off len] by simp
next
  case (ps_unpin i off len s r t)
  then show ?case using heap_inv_unpin [of s i off len] by simp
qed (simp add: heap_inv_drop)

lemma paged_reach_heap_inv: "paged_reach s0 s \<Longrightarrow> heap_inv s0 \<Longrightarrow> heap_inv s"
  by (induction rule: paged_reach.induct) (auto intro: paged_step_heap_inv)

text \<open>A small heap with four free frames, for the examples.\<close>

definition demo_heap :: vmo_state where
  "demo_heap =
     \<lparr>next_koid = 1024, pmem = (\<lambda>_. 7), avail_frames = [4096, 8192, 12288, 16384],
      host_map = (\<lambda>_. None), paged_objs = Map.empty, phys_objs = Map.empty, next_obj = 0\<rparr>"

lemma heap_inv_demo: "heap_inv demo_heap"
  by (simp add: heap_inv_def demo_heap_def frame_ok_def page_aligned_iff PMEM_SIZE_def)

lemma demo_new:
  obtains t where "paged_new 1 demo_heap = (Inr 0, t)" and "heap_inv t"
    and "contents t = [0 \<mapsto> replicate 4096 0]" and "length (avail_frames t) = 3" and "next_obj t = 1"
    and "paged_objs t 0 = Some (paged_default\<lparr>pg_frames := [4096]\<rparr>)"
proof -
  obtain r t where new: "paged_new 1 demo_heap = (r, t)" by (cases "paged_new 1 demo_heap") auto
  have n: "1 \<le> length (avail_frames demo_heap)" by (simp add: demo_heap_def)
  note c = contents_new [OF heap_inv_demo n new]
  have "contents demo_heap = Map.empty" by (auto simp: contents_def demo_heap_def)
  moreover have "next_obj demo_heap = 0" by (simp add: demo_heap_def)
  moreover have "heap_inv t" using heap_inv_new [OF heap_inv_demo, of 1] new by simp
  moreover have "length (avail_frames t) = 3" "next_obj t = 1"
    "paged_objs t 0 = Some (paged_default\<lparr>pg_frames := [4096]\<rparr>)"
    using new n unfolding paged_new_eq [OF heap_inv_demo] by (auto simp: demo_heap_def)
  ultimately show ?thesis using that [of t] new c by simp
qed

subsection \<open>Properties\<close>

text \<open>C7. In every heap the operations of paged objects can reach from the initial frame queue, no
  physical frame belongs to two objects, nor to an object and the queue of free frames.\<close>

theorem vmo_frames_exclusive:
  assumes "paged_reach s0 s" and "avail_frames s0 = init_frames" and "paged_objs s0 = Map.empty"
  shows "distinct (avail_frames s) \<and>
     (\<forall>i pg. paged_objs s i = Some pg \<longrightarrow>
        distinct (pg_frames pg) \<and> set (pg_frames pg) \<inter> set (avail_frames s) = {}) \<and>
     (\<forall>i j pg pg'. i \<noteq> j \<longrightarrow> paged_objs s i = Some pg \<longrightarrow> paged_objs s j = Some pg' \<longrightarrow>
        set (pg_frames pg) \<inter> set (pg_frames pg') = {})"
proof -
  have inv: "heap_inv s" using paged_reach_heap_inv [OF assms(1) heap_inv_init] assms(2,3) by simp
  from inv have "distinct (avail_frames s)" by (simp add: heap_inv_def)
  with heap_invD [OF inv] heap_inv_disjoint [OF inv] show ?thesis
    by (simp add: paged_ok_def)
qed

lemma vmo_frames_exclusive_witness:
  "\<exists>t :: vmo_state. paged_reach (demo_heap\<lparr>avail_frames := init_frames\<rparr>) t \<and> distinct (avail_frames t)"
proof -
  let ?s = "demo_heap\<lparr>avail_frames := init_frames\<rparr>"
  obtain r t where "paged_new 1 ?s = (r, t)" by (cases "paged_new 1 ?s") auto
  then have reach: "paged_reach ?s t" by (intro pr_step [OF pr_init] ps_new)
  have "distinct (avail_frames t)"
    using vmo_frames_exclusive [OF reach] by (simp add: demo_heap_def)
  with reach show ?thesis by blast
qed

text \<open>C8. Reading back the range just written, at any offset and across any number of pages, returns
  the bytes written, and every byte of the object outside the range is unchanged.\<close>

theorem vmo_write_then_read:
  assumes "heap_inv s" and "contents s i = Some bs" and "off + length data \<le> length bs"
    and "paged_write i off data s = (r, t)" and "length buf = length data"
  shows "r = Inr () \<and> paged_read i off buf t = Inr data \<and>
     (\<forall>x < length bs. x < off \<or> off + length data \<le> x \<longrightarrow> the (contents t i) ! x = bs ! x)"
  using paged_store.write_then [OF assms(1-4)] paged_store.read_back [OF assms] nth_splice_at [OF assms(3)]
  by simp

lemma vmo_write_then_read_witness:
  "\<exists>(s :: vmo_state) t. paged_write 0 4000 [1, 2, 3] s = (Inr (), t) \<and>
      paged_read 0 4000 [0, 0, 0] t = Inr [1, 2, 3]"
proof -
  obtain s :: vmo_state where s: "heap_inv s" "contents s = [0 \<mapsto> replicate 4096 0]"
    by (rule demo_new) blast
  obtain r t where w: "paged_write 0 4000 [1, 2, 3] s = (r, t)"
    by (cases "paged_write 0 4000 [1, 2, 3] s") auto
  have "r = Inr () \<and> paged_read 0 4000 [0, 0, 0] t = Inr [1, 2, 3]"
    using vmo_write_then_read [of s 0 "replicate 4096 0" 4000 "[1, 2, 3]" r t "[0, 0, 0]"] s w by simp
  with w show ?thesis by blast
qed

text \<open>A write to one object is invisible in every other object.\<close>

theorem vmo_write_isolated:
  assumes "heap_inv s" and "contents s i = Some bs" and "off + length data \<le> length bs"
    and "paged_write i off data s = (r, t)" and "j \<noteq> i"
    and "contents s j = Some cs" and "off' + length buf \<le> length cs"
  shows "paged_read j off' buf t = paged_read j off' buf s"
  using paged_store.read_other [OF assms] .

lemma vmo_write_isolated_witness:
  "\<exists>(s :: vmo_state) t. paged_write 0 0 [9] s = (Inr (), t) \<and> paged_read 1 0 [5] t = Inr [0]"
proof -
  obtain s :: vmo_state where s: "heap_inv s" "contents s = [0 \<mapsto> replicate 4096 0]"
    "length (avail_frames s) = 3" "next_obj s = 1"
    by (rule demo_new) blast
  obtain q u where u: "paged_new 1 s = (q, u)" by (cases "paged_new 1 s") auto
  have c: "contents u = [0 \<mapsto> replicate 4096 0, 1 \<mapsto> replicate 4096 0]" and inv: "heap_inv u"
    using contents_new(2) [OF s(1) _ u] heap_inv_new [OF s(1), of 1] s u by simp_all
  obtain r t where w: "paged_write 0 0 [9] u = (r, t)" by (cases "paged_write 0 0 [9] u") auto
  have "paged_read 1 0 [5] t = paged_read 1 0 [5] u"
    using vmo_write_isolated [of u 0 "replicate 4096 0" 0 "[9]" r t 1 "replicate 4096 0" 0 "[5]"] c inv w
    by simp
  moreover have "paged_read 1 0 [5] u = Inr [0]"
    using paged_read_contents [OF inv, of 1 "replicate 4096 0" 0 "[5]"] c
    by (simp add: numeral_eq_Suc)
  moreover have "r = Inr ()"
    using paged_store.write_then(1) [OF inv, of 0 "replicate 4096 0" 0 "[9]" r t] c w by simp
  ultimately show ?thesis using w by auto
qed

text \<open>C28. A snapshot child starts with the bytes of its parent from the given offset, and zeros
  where the parent has no more pages; no other object changes.\<close>

theorem vmo_snapshot_child:
  assumes "heap_inv s" and "contents s i = Some bs"
    and "paged_create_child i offset len s = (Inr c, t)" and "offset < usize_lim" and "len < usize_lim"
  shows "contents t = (contents s)(c \<mapsto> take len (drop offset bs @ replicate len 0)) \<and>
     contents s c = None \<and> heap_inv t"
  using contents_child [OF assms] fresh_id [OF assms(1)] heap_inv_create_child [OF assms(1), of i offset len]
    assms(3)
  by (simp add: contents_def)

lemma vmo_snapshot_child_witness:
  "\<exists>(s :: vmo_state) t. paged_create_child 0 0 8192 s = (Inr 1, t) \<and>
      contents t 1 = Some (replicate 8192 0) \<and> contents s 1 = None"
proof -
  obtain s :: vmo_state where s: "heap_inv s" "contents s = [0 \<mapsto> replicate 4096 0]"
    "length (avail_frames s) = 3" "next_obj s = 1"
    "paged_objs s 0 = Some (paged_default\<lparr>pg_frames := [4096]\<rparr>)"
    by (rule demo_new) blast
  have ready: "child_ready (paged_default\<lparr>pg_frames := [4096]\<rparr>) 0 8192"
    by (simp add: child_ready_def paged_default_def page_aligned_iff)
  obtain t where new: "paged_create_child 0 0 8192 s = (Inr 1, t)"
    by (rule paged_create_child_cases [OF s(1,5) ready]) (use s in \<open>auto simp: pages_eq\<close>)
  have "contents t = (contents s)(1 \<mapsto> take 8192 (drop 0 (replicate 4096 0) @ replicate 8192 0)) \<and>
      contents s 1 = None"
    using vmo_snapshot_child [OF s(1) _ new] s(2) by simp
  with new show ?thesis by (intro exI [of _ s] exI [of _ t]) (simp flip: replicate_add)
qed

end
