(* ===== verification/Vmo.thy ===== *)
theory Vmo
  imports Vmo_Contents
begin

text \<open>
  Virtual memory objects (\<^verbatim>\<open>zircon-object/src/vm/vmo/mod.rs\<close>, \<^verbatim>\<open>physical.rs\<close>, \<^verbatim>\<open>slice.rs\<close>): the
  trait \<open>VMObjectTrait\<close> as a datatype of its three implementations with one dispatching function
  per method, and \<open>VmObject\<close>, the kernel object around it, with its tree of children. A slice is
  immutable and holds its parent by value; the physical and paged objects live in the heap, with a
  count of the kernel objects that keep each alive.
\<close>

subsection \<open>The trait object\<close>

datatype vmo_trait = Paged nat | Physical nat | Slice vmo_trait usize usize

definition get_phys :: "nat \<Rightarrow> 'a vmo_state_scheme \<Rightarrow> physical zx" where
  "get_phys i s = ok_or NoRef (phys_objs s i)"

definition phys_new :: "usize \<Rightarrow> usize \<Rightarrow> 'a vmo_state_scheme \<Rightarrow> nat zx \<times> 'a vmo_state_scheme" where
  "phys_new paddr n s =
     (if page_aligned paddr
      then (Inr (next_obj s),
            s\<lparr>phys_objs := (phys_objs s)(next_obj s \<mapsto> \<lparr>ph_paddr = paddr, ph_pages = n, ph_cache = Uncached\<rparr>),
              next_obj := next_obj s + 1\<rparr>)
      else (Inl Panic, s))"

definition phys_len :: "physical \<Rightarrow> usize zx" where
  "phys_len ph = umul (ph_pages ph) PAGE_SIZE"

definition phys_range :: "nat \<Rightarrow> usize \<Rightarrow> nat \<Rightarrow> 'a vmo_state_scheme \<Rightarrow> usize zx" where
  \<comment> \<open>\<open>assert!(offset + len <= self.len())\<close>, then \<open>self.paddr + offset\<close>\<close>
  "phys_range i offset n s =
     rbind (get_phys i s) (\<lambda>ph.
     rbind (uadd offset n) (\<lambda>e.
     rbind (phys_len ph) (\<lambda>z.
       if e \<le> z then uadd (ph_paddr ph) offset else Inl Panic)))"

text \<open>The closure \<open>commit_pages_with\<close> of a paged object hands to its argument commits a page as
  \<open>commit_page\<close> does, under the lock already taken.\<close>

definition paged_committer :: "nat \<Rightarrow> 'a vmo_state_scheme \<Rightarrow> usize \<Rightarrow> mmu_flags \<Rightarrow> usize zx" where
  [simp]: "paged_committer i s idx flags = paged_commit_page i idx flags s"

text \<open>The methods of \<open>VMObjectPhysical\<close>. Nothing is committed or copied: the memory is already there.\<close>

definition phys_read :: "nat \<Rightarrow> usize \<Rightarrow> u8 list \<Rightarrow> 'a vmo_state_scheme \<Rightarrow> u8 list zx" where
  "phys_read i offset buf s = rbind (phys_range i offset (length buf) s) (\<lambda>pa. pmem_read s pa (length buf))"

definition phys_write :: "nat \<Rightarrow> usize \<Rightarrow> u8 list \<Rightarrow> 'a vmo_state_scheme st_unit" where
  "phys_write i offset buf = sbind (slift (phys_range i offset (length buf))) (\<lambda>pa. pmem_write pa buf)"

definition phys_zero :: "nat \<Rightarrow> usize \<Rightarrow> usize \<Rightarrow> 'a vmo_state_scheme st_unit" where
  "phys_zero i offset len = sbind (slift (phys_range i offset len)) (\<lambda>pa. pmem_zero pa len)"

definition phys_set_len :: "nat \<Rightarrow> usize \<Rightarrow> 'a vmo_state_scheme st_unit" where
  "phys_set_len i len = sfail Panic"

definition phys_commit_page :: "nat \<Rightarrow> usize \<Rightarrow> mmu_flags \<Rightarrow> 'a vmo_state_scheme \<Rightarrow> usize zx" where
  "phys_commit_page i idx flags s = rbind (get_phys i s) (\<lambda>ph. rbind (umul idx PAGE_SIZE) (uadd (ph_paddr ph)))"

definition phys_committer :: "nat \<Rightarrow> 'a vmo_state_scheme \<Rightarrow> usize \<Rightarrow> mmu_flags \<Rightarrow> usize zx" where
  \<comment> \<open>the closure that \<open>commit_pages_with\<close> hands to its argument\<close>
  "phys_committer i s idx flags = rbind (get_phys i s) (\<lambda>ph. rbind (umul idx PAGE_SIZE) (uadd (ph_paddr ph)))"

definition phys_commit :: "nat \<Rightarrow> usize \<Rightarrow> usize \<Rightarrow> 'a vmo_state_scheme st_unit" where
  "phys_commit i offset len = sret ()"

definition phys_decommit :: "nat \<Rightarrow> usize \<Rightarrow> usize \<Rightarrow> 'a vmo_state_scheme st_unit" where
  "phys_decommit i offset len = sret ()"

definition phys_create_child :: "nat \<Rightarrow> usize \<Rightarrow> usize \<Rightarrow> 'a vmo_state_scheme \<Rightarrow> vmo_trait zx \<times> 'a vmo_state_scheme" where
  "phys_create_child i offset len = sfail (Err NOT_SUPPORTED)"

definition phys_cache_policy :: "nat \<Rightarrow> 'a vmo_state_scheme \<Rightarrow> cache_policy zx" where
  "phys_cache_policy i s = rbind (get_phys i s) (\<lambda>ph. Inr (ph_cache ph))"

definition phys_set_cache_policy :: "nat \<Rightarrow> cache_policy \<Rightarrow> 'a vmo_state_scheme st_unit" where
  "phys_set_cache_policy i pol =
     sbind (slift (get_phys i)) (\<lambda>ph s.
       (Inr (), s\<lparr>phys_objs := (phys_objs s)(i \<mapsto> ph\<lparr>ph_cache := pol\<rparr>)\<rparr>))"

definition phys_committed_pages :: "nat \<Rightarrow> usize \<Rightarrow> usize \<Rightarrow> usize zx" where
  "phys_committed_pages i a b = Inr 0"

definition phys_is_contiguous :: "nat \<Rightarrow> 'a vmo_state_scheme \<Rightarrow> bool zx" where
  "phys_is_contiguous i s = Inr True"

lemmas phys_methods [simp] =
  phys_read_def phys_write_def phys_zero_def phys_set_len_def phys_commit_page_def phys_committer_def phys_commit_def
  phys_decommit_def phys_create_child_def phys_cache_policy_def phys_set_cache_policy_def phys_committed_pages_def
  phys_is_contiguous_def

text \<open>\<open>VMObjectSlice\<close>.\<close>

definition slice_new :: "vmo_trait \<Rightarrow> usize \<Rightarrow> usize \<Rightarrow> vmo_trait" where
  [simp]: "slice_new parent offset sz = Slice parent offset sz"

definition slice_check_range :: "usize \<Rightarrow> usize \<Rightarrow> usize \<Rightarrow> unit zx" where
  "slice_check_range sz offset len =
     rbind (uadd offset len) (\<lambda>e. if e \<ge> sz then Inl (Err OUT_OF_RANGE) else Inr ())"

definition slice_offset :: "usize \<Rightarrow> usize \<Rightarrow> usize \<Rightarrow> usize \<Rightarrow> usize zx" where
  \<comment> \<open>the check and the parent's offset\<close>
  "slice_offset off sz offset len =
     rbind (slice_check_range sz offset len) (\<lambda>_. uadd offset off)"

primrec trait_read :: "vmo_trait \<Rightarrow> usize \<Rightarrow> u8 list \<Rightarrow> 'a vmo_state_scheme \<Rightarrow> u8 list zx" where
  "trait_read (Paged i) offset buf s = paged_read i offset buf s"
| "trait_read (Physical i) offset buf s = phys_read i offset buf s"
| "trait_read (Slice p off sz) offset buf s =
     rbind (slice_offset off sz offset (length buf)) (\<lambda>o'. trait_read p o' buf s)"

primrec trait_write :: "vmo_trait \<Rightarrow> usize \<Rightarrow> u8 list \<Rightarrow> 'a vmo_state_scheme st_unit" where
  "trait_write (Paged i) offset buf = paged_write i offset buf"
| "trait_write (Physical i) offset buf = phys_write i offset buf"
| "trait_write (Slice p off sz) offset buf =
     sbind (slift (\<lambda>_. slice_offset off sz offset (length buf))) (\<lambda>o'. trait_write p o' buf)"

primrec trait_zero :: "vmo_trait \<Rightarrow> usize \<Rightarrow> usize \<Rightarrow> 'a vmo_state_scheme st_unit" where
  "trait_zero (Paged i) offset len = paged_zero i offset len"
| "trait_zero (Physical i) offset len = phys_zero i offset len"
| "trait_zero (Slice p off sz) offset len =
     sbind (slift (\<lambda>_. slice_offset off sz offset len)) (\<lambda>o'. trait_zero p o' len)"

fun trait_len :: "vmo_trait \<Rightarrow> 'a vmo_state_scheme \<Rightarrow> usize zx" where
  "trait_len (Paged i) s = paged_len i s"
| "trait_len (Physical i) s = rbind (get_phys i s) phys_len"
| "trait_len (Slice p off sz) s = Inr sz"

fun trait_set_len :: "vmo_trait \<Rightarrow> usize \<Rightarrow> 'a vmo_state_scheme st_unit" where
  "trait_set_len (Paged i) len = paged_set_len i len"
| "trait_set_len (Physical i) len = phys_set_len i len"
| "trait_set_len (Slice p off sz) len = sfail Panic"

primrec trait_commit_page :: "vmo_trait \<Rightarrow> usize \<Rightarrow> mmu_flags \<Rightarrow> 'a vmo_state_scheme \<Rightarrow> usize zx" where
  "trait_commit_page (Paged i) idx flags s = paged_commit_page i idx flags s"
| "trait_commit_page (Physical i) idx flags s = phys_commit_page i idx flags s"
| "trait_commit_page (Slice p off sz) idx flags s =
     rbind (uadd idx (off div PAGE_SIZE)) (\<lambda>idx'. trait_commit_page p idx' flags s)"

primrec trait_committer :: "vmo_trait \<Rightarrow> 'a vmo_state_scheme \<Rightarrow> usize \<Rightarrow> mmu_flags \<Rightarrow> usize zx" where
  \<comment> \<open>the closure \<open>commit_pages_with\<close> hands to its argument; a slice passes its parent's on\<close>
  "trait_committer (Paged i) s idx flags = paged_committer i s idx flags"
| "trait_committer (Physical i) s idx flags = phys_committer i s idx flags"
| "trait_committer (Slice p off sz) s idx flags = trait_committer p s idx flags"

primrec trait_commit :: "vmo_trait \<Rightarrow> usize \<Rightarrow> usize \<Rightarrow> 'a vmo_state_scheme st_unit" where
  "trait_commit (Paged i) offset len = paged_commit i offset len"
| "trait_commit (Physical i) offset len = phys_commit i offset len"
| "trait_commit (Slice p off sz) offset len =
     sbind (slift (\<lambda>_. uadd offset off)) (\<lambda>o'. trait_commit p o' len)"

primrec trait_decommit :: "vmo_trait \<Rightarrow> usize \<Rightarrow> usize \<Rightarrow> 'a vmo_state_scheme st_unit" where
  "trait_decommit (Paged i) offset len = paged_decommit i offset len"
| "trait_decommit (Physical i) offset len = phys_decommit i offset len"
| "trait_decommit (Slice p off sz) offset len =
     sbind (slift (\<lambda>_. uadd offset off)) (\<lambda>o'. trait_decommit p o' len)"

fun trait_create_child ::
  "vmo_trait \<Rightarrow> usize \<Rightarrow> usize \<Rightarrow> 'a vmo_state_scheme \<Rightarrow> vmo_trait zx \<times> 'a vmo_state_scheme" where
  "trait_create_child (Paged i) offset len =
     sbind (paged_create_child i offset len) (\<lambda>c. sret (Paged c))"
| "trait_create_child (Physical i) offset len = phys_create_child i offset len"
| "trait_create_child (Slice p off sz) offset len = sfail (Err NOT_SUPPORTED)"

fun trait_append_mapping :: "vmo_trait \<Rightarrow> nat \<Rightarrow> 'a vmo_state_scheme st_unit" where
  "trait_append_mapping (Paged i) m = paged_append_mapping i m"
| "trait_append_mapping (Physical i) m = sret ()"
| "trait_append_mapping (Slice p off sz) m = sret ()"

fun trait_remove_mapping :: "(nat \<Rightarrow> bool) \<Rightarrow> vmo_trait \<Rightarrow> nat \<Rightarrow> 'a vmo_state_scheme st_unit" where
  "trait_remove_mapping alive (Paged i) m = paged_remove_mapping alive i m"
| "trait_remove_mapping alive (Physical i) m = sret ()"
| "trait_remove_mapping alive (Slice p off sz) m = sret ()"

primrec trait_cache_policy :: "vmo_trait \<Rightarrow> 'a vmo_state_scheme \<Rightarrow> cache_policy zx" where
  "trait_cache_policy (Paged i) s = paged_cache_policy i s"
| "trait_cache_policy (Physical i) s = phys_cache_policy i s"
| "trait_cache_policy (Slice p off sz) s = trait_cache_policy p s"

fun trait_set_cache_policy :: "vmo_trait \<Rightarrow> cache_policy \<Rightarrow> 'a vmo_state_scheme st_unit" where
  "trait_set_cache_policy (Paged i) pol = paged_set_cache_policy i pol"
| "trait_set_cache_policy (Physical i) pol = phys_set_cache_policy i pol"
| "trait_set_cache_policy (Slice p off sz) pol = sret ()"

primrec trait_committed_pages :: "vmo_trait \<Rightarrow> usize \<Rightarrow> usize \<Rightarrow> usize zx" where
  "trait_committed_pages (Paged i) a b = paged_committed_pages_in_range a b"
| "trait_committed_pages (Physical i) a b = phys_committed_pages i a b"
| "trait_committed_pages (Slice p off sz) a b =
     rbind (uadd a (pages off)) (\<lambda>a'. rbind (uadd b (pages off)) (\<lambda>b'. trait_committed_pages p a' b'))"

primrec trait_pin :: "vmo_trait \<Rightarrow> usize \<Rightarrow> usize \<Rightarrow> 'a vmo_state_scheme st_unit" where
  "trait_pin (Paged i) offset len = paged_pin i offset len"
| "trait_pin (Physical i) offset len = sfail (Err NOT_SUPPORTED)"
| "trait_pin (Slice p off sz) offset len =
     sbind (slift (\<lambda>_. slice_offset off sz offset len)) (\<lambda>o'. trait_pin p o' len)"

primrec trait_unpin :: "vmo_trait \<Rightarrow> usize \<Rightarrow> usize \<Rightarrow> 'a vmo_state_scheme st_unit" where
  "trait_unpin (Paged i) offset len = paged_unpin i offset len"
| "trait_unpin (Physical i) offset len = sfail (Err NOT_SUPPORTED)"
| "trait_unpin (Slice p off sz) offset len =
     sbind (slift (\<lambda>_. slice_offset off sz offset len)) (\<lambda>o'. trait_unpin p o' len)"

primrec trait_is_contiguous :: "vmo_trait \<Rightarrow> 'a vmo_state_scheme \<Rightarrow> bool zx" where
  "trait_is_contiguous (Paged i) s = paged_is_contiguous i s"
| "trait_is_contiguous (Physical i) s = phys_is_contiguous i s"
| "trait_is_contiguous (Slice p off sz) s = trait_is_contiguous p s"

primrec trait_is_paged :: "vmo_trait \<Rightarrow> bool" where
  "trait_is_paged (Paged i) = True"
| "trait_is_paged (Physical i) = False"
| "trait_is_paged (Slice p off sz) = trait_is_paged p"

primrec trait_base :: "vmo_trait \<Rightarrow> nat" where
  \<comment> \<open>the heap object a trait object keeps alive\<close>
  "trait_base (Paged i) = i"
| "trait_base (Physical i) = i"
| "trait_base (Slice p off sz) = trait_base p"

subsection \<open>The kernel object\<close>

record vmobject =
  vo_name :: string
  vo_resizable :: bool
  vo_trait :: vmo_trait
  vo_parent :: "koid option"
  vo_children :: "koid list"
  vo_mapping_count :: usize
  vo_content_size :: usize

record vm_state = vmo_state +
  vmos :: "koid \<Rightarrow> vmobject option"
  base_rc :: "nat \<Rightarrow> nat"

definition vmo_alive :: "'a vm_state_scheme \<Rightarrow> koid \<Rightarrow> bool" where
  "vmo_alive s k \<longleftrightarrow> vmos s k \<noteq> None"

definition get_vmo :: "koid \<Rightarrow> 'a vm_state_scheme \<Rightarrow> vmobject zx" where
  "get_vmo k s = ok_or NoRef (vmos s k)"

definition with_vmo ::
  "koid \<Rightarrow> (vmobject \<Rightarrow> 'a vm_state_scheme \<Rightarrow> 'b zx \<times> 'a vm_state_scheme) \<Rightarrow>
   'a vm_state_scheme \<Rightarrow> 'b zx \<times> 'a vm_state_scheme" where
  "with_vmo k f s = (case vmos s k of None \<Rightarrow> (Inl NoRef, s) | Some v \<Rightarrow> f v s)"

definition put_vmo :: "koid \<Rightarrow> vmobject \<Rightarrow> 'a vm_state_scheme \<Rightarrow> 'a vm_state_scheme" where
  "put_vmo k v s = s\<lparr>vmos := (vmos s)(k \<mapsto> v)\<rparr>"

definition retain_base :: "vmo_trait \<Rightarrow> 'a vm_state_scheme \<Rightarrow> 'a vm_state_scheme" where
  "retain_base t s = s\<lparr>base_rc := (base_rc s)(trait_base t := base_rc s (trait_base t) + 1)\<rparr>"

definition release_base :: "vmo_trait \<Rightarrow> 'a vm_state_scheme \<Rightarrow> 'a vm_state_scheme" where
  "release_base t s =
     (let b = trait_base t;
          s1 = s\<lparr>base_rc := (base_rc s)(b := base_rc s b - 1)\<rparr>
      in if base_rc s1 b = 0
         then (paged_drop b s1)\<lparr>phys_objs := (phys_objs s1)(b := None)\<rparr>
         else s1)"

definition vmobject_init :: "string \<Rightarrow> bool \<Rightarrow> vmo_trait \<Rightarrow> koid option \<Rightarrow> vmobject" where
  "vmobject_init nm resizable t parent =
     \<lparr>vo_name = nm, vo_resizable = resizable, vo_trait = t, vo_parent = parent, vo_children = [],
      vo_mapping_count = 0, vo_content_size = 0\<rparr>"

definition vmo_alloc :: "koid \<Rightarrow> vmobject \<Rightarrow> 'a vm_state_scheme \<Rightarrow> 'a vm_state_scheme" where
  \<comment> \<open>\<open>Arc::new(VmObject {..})\<close>, which takes a reference to its trait object\<close>
  "vmo_alloc k v s = retain_base (vo_trait v) (put_vmo k v s)"

definition new_paged_with_resizable ::
  "bool \<Rightarrow> nat \<Rightarrow> 'a vm_state_scheme \<Rightarrow> koid zx \<times> 'a vm_state_scheme" where
  "new_paged_with_resizable resizable n s =
     (let (k, s1) = new_koid s
      in sbind (paged_new n) (\<lambda>i s2.
           (Inr k, vmo_alloc k (vmobject_init '''' resizable (Paged i) None) s2)) s1)"

definition new_paged :: "nat \<Rightarrow> 'a vm_state_scheme \<Rightarrow> koid zx \<times> 'a vm_state_scheme" where
  "new_paged n = new_paged_with_resizable False n"

definition new_physical :: "usize \<Rightarrow> usize \<Rightarrow> 'a vm_state_scheme \<Rightarrow> koid zx \<times> 'a vm_state_scheme" where
  "new_physical paddr n s =
     (let (k, s1) = new_koid s
      in sbind (phys_new paddr n) (\<lambda>i s2.
           (Inr k, vmo_alloc k (vmobject_init '''' False (Physical i) None) s2)) s1)"

definition new_contiguous :: "nat \<Rightarrow> usize \<Rightarrow> 'a vm_state_scheme \<Rightarrow> koid zx \<times> 'a vm_state_scheme" where
  "new_contiguous n align_log2 s =
     (let (k, s1) = new_koid s
      in sbind (paged_new_contiguous n align_log2) (\<lambda>i s2.
           (Inr k, vmo_alloc k (vmobject_init '''' False (Paged i) None) s2)) s1)"

definition add_child :: "koid \<Rightarrow> koid \<Rightarrow> 'a vm_state_scheme st_unit" where
  "add_child k c =
     with_vmo k (\<lambda>v s.
       (Inr (), put_vmo k (v\<lparr>vo_children := filter (vmo_alive s) (vo_children v) @ [c]\<rparr>) s))"

definition vmo_create_child ::
  "koid \<Rightarrow> bool \<Rightarrow> usize \<Rightarrow> usize \<Rightarrow> 'a vm_state_scheme \<Rightarrow> koid zx \<times> 'a vm_state_scheme" where
  "vmo_create_child k resizable offset len =
     with_vmo k (\<lambda>v s.
       let (c, s1) = new_koid s
       in sbind (trait_create_child (vo_trait v) offset len) (\<lambda>t s2.
            sbind (add_child k c) (\<lambda>_. sret c)
              (vmo_alloc c (vmobject_init (vo_name v) resizable t (Some k)) s2)) s1)"

definition SLICE_SIZE_MAX :: usize where
  \<comment> \<open>\<open>usize::MAX & !(32 * PAGE_SIZE)\<close>\<close>
  "SLICE_SIZE_MAX = 18446744073709420543"

definition slice_args :: "vmobject \<Rightarrow> usize \<Rightarrow> usize \<Rightarrow> 'a vm_state_scheme \<Rightarrow> usize zx" where
  \<comment> \<open>the checks of \<open>create_slice\<close>; the size of the slice\<close>
  "slice_args v offset p_size s =
     (let sz = roundup_pages p_size
      in if sz < p_size \<or> sz > SLICE_SIZE_MAX then Inl (Err OUT_OF_RANGE)
         else rbind (trait_len (vo_trait v) s) (\<lambda>parent_size.
           if \<not> page_aligned offset then Inl (Err INVALID_ARGS)
           else if offset > parent_size \<or> sz > parent_size - offset then Inl (Err INVALID_ARGS)
           else if vo_resizable v then Inl (Err NOT_SUPPORTED)
           else rbind (trait_cache_policy (vo_trait v) s) (\<lambda>pol.
             if pol = Cached then Inr sz
             else rbind (trait_is_contiguous (vo_trait v) s) (\<lambda>contig.
               if contig then Inr sz else Inl (Err BAD_STATE)))))"

definition vmo_create_slice ::
  "koid \<Rightarrow> usize \<Rightarrow> usize \<Rightarrow> 'a vm_state_scheme \<Rightarrow> koid zx \<times> 'a vm_state_scheme" where
  "vmo_create_slice k offset p_size =
     with_vmo k (\<lambda>v. sbind (slift (slice_args v offset p_size)) (\<lambda>sz s.
       let (c, s1) = new_koid s
       in sbind (add_child k c) (\<lambda>_. sret c)
            (vmo_alloc c (vmobject_init (vo_name v) False (slice_new (vo_trait v) offset sz) (Some k)) s1)))"

definition vmo_set_len :: "koid \<Rightarrow> usize \<Rightarrow> 'a vm_state_scheme st_unit" where
  "vmo_set_len k len =
     with_vmo k (\<lambda>v.
       if roundup_pages len < len then sfail (Err OUT_OF_RANGE)
       else if \<not> vo_resizable v then sfail (Err UNAVAILABLE)
       else trait_set_len (vo_trait v) (roundup_pages len))"

definition set_content_field :: "koid \<Rightarrow> usize \<Rightarrow> 'a vm_state_scheme \<Rightarrow> 'a vm_state_scheme" where
  "set_content_field k n s =
     (case vmos s k of None \<Rightarrow> s | Some v \<Rightarrow> put_vmo k (v\<lparr>vo_content_size := n\<rparr>) s)"

definition resize_for_content ::
  "koid \<Rightarrow> usize \<Rightarrow> usize \<Rightarrow> 'a vm_state_scheme \<Rightarrow> usize zx \<times> 'a vm_state_scheme" where
  \<comment> \<open>the new content size: \<open>len\<close> when the object had to grow and could not\<close>
  "resize_for_content k len sz s =
     (if roundup_pages sz > len
      then case vmo_set_len k (roundup_pages sz) s of
             (Inr _, s1) \<Rightarrow> (Inr sz, s1)
           | (Inl (Err _), s1) \<Rightarrow> (Inr len, s1)
           | (Inl f, s1) \<Rightarrow> (Inl f, s1)
      else (Inr sz, s))"

definition set_content_size_and_resize ::
  "koid \<Rightarrow> usize \<Rightarrow> usize \<Rightarrow> 'a vm_state_scheme \<Rightarrow> usize zx \<times> 'a vm_state_scheme" where
  "set_content_size_and_resize k sz zero_until =
     with_vmo k (\<lambda>v. sbind (slift (trait_len (vo_trait v))) (\<lambda>len.
       if sz < vo_content_size v then sret (vo_content_size v)
       else sbind (resize_for_content k len sz) (\<lambda>new_size.
         let zu = min zero_until new_size
         in sbind (if zu > vo_content_size v
                   then trait_zero (vo_trait v) (vo_content_size v) (zu - vo_content_size v)
                   else sret ()) (\<lambda>_ s.
              (Inr new_size, set_content_field k new_size s)))))"

definition content_size :: "koid \<Rightarrow> 'a vm_state_scheme \<Rightarrow> usize zx" where
  "content_size k s = rbind (get_vmo k s) (\<lambda>v. Inr (vo_content_size v))"

definition set_content_size :: "koid \<Rightarrow> usize \<Rightarrow> 'a vm_state_scheme st_unit" where
  "set_content_size k n = with_vmo k (\<lambda>v s. (Inr (), put_vmo k (v\<lparr>vo_content_size := n\<rparr>) s))"

definition vmo_set_cache_policy :: "koid \<Rightarrow> cache_policy \<Rightarrow> 'a vm_state_scheme st_unit" where
  "vmo_set_cache_policy k pol =
     with_vmo k (\<lambda>v.
       if vo_children v \<noteq> [] then sfail (Err BAD_STATE)
       else if vo_mapping_count v \<noteq> 0 then sfail (Err BAD_STATE)
       else trait_set_cache_policy (vo_trait v) pol)"

definition vmo_append_mapping :: "koid \<Rightarrow> nat \<Rightarrow> 'a vm_state_scheme st_unit" where
  "vmo_append_mapping k m =
     with_vmo k (\<lambda>v. sbind (slift (\<lambda>_. uadd (vo_mapping_count v) 1)) (\<lambda>c s.
       trait_append_mapping (vo_trait v) m (put_vmo k (v\<lparr>vo_mapping_count := c\<rparr>) s)))"

definition vmo_remove_mapping :: "(nat \<Rightarrow> bool) \<Rightarrow> koid \<Rightarrow> nat \<Rightarrow> 'a vm_state_scheme st_unit" where
  "vmo_remove_mapping alive k m =
     with_vmo k (\<lambda>v. sbind (slift (\<lambda>_. usub (vo_mapping_count v) 1)) (\<lambda>c s.
       trait_remove_mapping alive (vo_trait v) m (put_vmo k (v\<lparr>vo_mapping_count := c\<rparr>) s)))"

definition share_count :: "koid \<Rightarrow> 'a vm_state_scheme \<Rightarrow> usize zx" where
  "share_count k s = rbind (get_vmo k s) (\<lambda>v. Inr (vo_mapping_count v))"

definition is_resizable :: "koid \<Rightarrow> 'a vm_state_scheme \<Rightarrow> bool zx" where
  "is_resizable k s = rbind (get_vmo k s) (\<lambda>v. Inr (vo_resizable v))"

definition vmo_is_contiguous :: "koid \<Rightarrow> 'a vm_state_scheme \<Rightarrow> bool zx" where
  "vmo_is_contiguous k s = rbind (get_vmo k s) (\<lambda>v. trait_is_contiguous (vo_trait v) s)"

text \<open>The methods reached through \<open>Deref\<close>.\<close>

definition vmo_read :: "koid \<Rightarrow> usize \<Rightarrow> u8 list \<Rightarrow> 'a vm_state_scheme \<Rightarrow> u8 list zx" where
  "vmo_read k offset buf s = rbind (get_vmo k s) (\<lambda>v. trait_read (vo_trait v) offset buf s)"

definition vmo_write :: "koid \<Rightarrow> usize \<Rightarrow> u8 list \<Rightarrow> 'a vm_state_scheme st_unit" where
  "vmo_write k offset buf = with_vmo k (\<lambda>v. trait_write (vo_trait v) offset buf)"

definition vmo_len :: "koid \<Rightarrow> 'a vm_state_scheme \<Rightarrow> usize zx" where
  "vmo_len k s = rbind (get_vmo k s) (\<lambda>v. trait_len (vo_trait v) s)"

subsection \<open>Information\<close>

record vmo_info =
  vi_koid :: koid
  vi_name :: "u8 list"
  vi_size :: u64
  vi_parent_koid :: koid
  vi_num_children :: u64
  vi_num_mappings :: u64
  vi_share_count :: u64
  vi_flags :: u32
  vi_committed_bytes :: u64
  vi_rights :: rights
  vi_cache_policy :: u32

definition VMO_TYPE_PHYSICAL :: u32 where "VMO_TYPE_PHYSICAL = 0"
definition VMO_TYPE_PAGED :: u32 where "VMO_TYPE_PAGED = 1"
definition VMO_RESIZABLE :: u32 where "VMO_RESIZABLE = 2"
definition VMO_IS_COW_CLONE :: u32 where "VMO_IS_COW_CLONE = 4"
definition VMO_VIA_HANDLE :: u32 where "VMO_VIA_HANDLE = 8"
definition VMO_VIA_MAPPING :: u32 where "VMO_VIA_MAPPING = 16"
definition VMO_PAGER_BACKED :: u32 where "VMO_PAGER_BACKED = 32"
definition VMO_CONTIGUOUS :: u32 where "VMO_CONTIGUOUS = 64"

definition name_bytes :: "string \<Rightarrow> u8 list" where
  \<comment> \<open>the first 32 bytes of the name, padded with zeros\<close>
  "name_bytes nm = splice_at (replicate 32 0) 0 (map of_char (take 32 nm))"

definition inner_complete_info :: "paged \<Rightarrow> vmo_info \<Rightarrow> vmo_info zx" where
  "inner_complete_info pg info =
     rbind (umul (length (pg_frames pg)) PAGE_SIZE) (\<lambda>n.
       Inr (info\<lparr>vi_flags := (if pg_contiguous pg then vi_flags info OR VMO_CONTIGUOUS else vi_flags info),
                vi_committed_bytes := of_nat n\<rparr>))"

definition paged_complete_info :: "nat \<Rightarrow> 'a vmo_state_scheme \<Rightarrow> vmo_info \<Rightarrow> vmo_info zx" where
  "paged_complete_info i s info =
     rbind (get_paged i s) (\<lambda>pg. inner_complete_info pg (info\<lparr>vi_flags := vi_flags info OR VMO_TYPE_PAGED\<rparr>))"

definition phys_complete_info :: "nat \<Rightarrow> 'a vmo_state_scheme \<Rightarrow> vmo_info \<Rightarrow> vmo_info zx" where
  \<comment> \<open>a warning in the log\<close>
  "phys_complete_info i s info = Inr info"

primrec trait_complete_info :: "vmo_trait \<Rightarrow> 'a vmo_state_scheme \<Rightarrow> vmo_info \<Rightarrow> vmo_info zx" where
  "trait_complete_info (Paged i) s info = paged_complete_info i s info"
| "trait_complete_info (Physical i) s info = phys_complete_info i s info"
| "trait_complete_info (Slice p off sz) s info = trait_complete_info p s info"

definition vmo_get_info :: "koid \<Rightarrow> 'a vm_state_scheme \<Rightarrow> vmo_info zx" where
  "vmo_get_info k s =
     rbind (get_vmo k s) (\<lambda>v.
     rbind (trait_len (vo_trait v) s) (\<lambda>len.
     rbind (trait_cache_policy (vo_trait v) s) (\<lambda>pol.
       trait_complete_info (vo_trait v) s
         \<lparr>vi_koid = k, vi_name = name_bytes (vo_name v), vi_size = of_nat len,
          vi_parent_koid = (case vo_parent v of
              None \<Rightarrow> 0
            | Some p \<Rightarrow> if vmo_alive s p then p else 0),
          vi_num_children = of_nat (length (vo_children v)), vi_num_mappings = 0,
          vi_share_count = of_nat (vo_mapping_count v),
          vi_flags = (if vo_resizable v then VMO_RESIZABLE else 0),
          vi_committed_bytes = 0, vi_rights = 0, vi_cache_policy = cache_policy_code pol\<rparr>)))"

subsection \<open>Dropping the kernel object\<close>

definition set_parent :: "koid \<Rightarrow> koid \<Rightarrow> 'a vm_state_scheme \<Rightarrow> 'a vm_state_scheme" where
  \<comment> \<open>when the child is still alive\<close>
  "set_parent p c s =
     (case vmos s c of None \<Rightarrow> s | Some w \<Rightarrow> put_vmo c (w\<lparr>vo_parent := Some p\<rparr>) s)"

definition prune_children :: "koid \<Rightarrow> 'a vm_state_scheme \<Rightarrow> 'a vm_state_scheme" where
  "prune_children c s =
     (case vmos s c of
        None \<Rightarrow> s
      | Some w \<Rightarrow> put_vmo c (w\<lparr>vo_children := filter (vmo_alive s) (vo_children w)\<rparr>) s)"

definition reparent :: "vmobject \<Rightarrow> koid \<Rightarrow> 'a vm_state_scheme \<Rightarrow> 'a vm_state_scheme" where
  \<comment> \<open>\<open>VmObject::drop\<close> with the parent alive\<close>
  "reparent v p s =
     (let s1 = fold (set_parent p) (vo_children v) s
      in case vmos s1 p of
           None \<Rightarrow> s1
         | Some pv \<Rightarrow>
             let cs = filter (vmo_alive s1) (vo_children pv @ vo_children v)
             in fold prune_children cs (put_vmo p (pv\<lparr>vo_children := cs\<rparr>) s1))"

definition vmo_drop :: "koid \<Rightarrow> 'a vm_state_scheme \<Rightarrow> 'a vm_state_scheme" where
  \<comment> \<open>the last \<open>Arc\<close> goes away: no \<open>Weak\<close> upgrades any more, then \<open>Drop::drop\<close>, then the fields\<close>
  "vmo_drop k s =
     (case vmos s k of
        None \<Rightarrow> s
      | Some v \<Rightarrow>
          let s1 = s\<lparr>vmos := (vmos s)(k := None)\<rparr>;
              s2 = (case vo_parent v of
                      None \<Rightarrow> s1
                    | Some p \<Rightarrow> if vmo_alive s1 p then reparent v p s1 else s1)
          in release_base (vo_trait v) s2)"

end
