(* ===== verification/Vmo_Tree.thy ===== *)
theory Vmo_Tree
  imports Vmo
begin

text \<open>
  The tree of memory objects and their lifetimes. \<open>vmo_tree\<close> ties the parent pointers and the child
  lists together, \<open>bases_ok\<close> says that the reference count of a backing object is the number of
  kernel objects over it and that no kernel object is left without its backing object. Both are
  invariants of creation, of snapshot and slice children, of resizing and of \<open>VmObject::drop\<close>.
\<close>

subsection \<open>Slices\<close>

lemma trait_read_slice:
  "trait_read (Slice p off sz) offset buf s =
     (if offset + length buf \<ge> usize_lim then Inl Panic
      else if offset + length buf \<ge> sz then Inl (Err OUT_OF_RANGE)
      else if offset + off \<ge> usize_lim then Inl Panic
      else trait_read p (offset + off) buf s)"
  by (auto simp: slice_offset_def slice_check_range_def uadd_def)

lemma slice_args_ok:
  assumes "slice_args v offset p_size s = Inr sz" and "p_size < usize_lim"
  shows "sz = roundup_pages p_size" "p_size \<le> sz" "page_aligned offset"
    "\<exists>n. trait_len (vo_trait v) s = Inr n \<and> offset + sz \<le> n" "\<not> vo_resizable v"
  using assms by (auto simp: slice_args_def Let_def rbind_eq_Inr split: if_splits)

subsection \<open>The tree\<close>

definition vmo_tree :: "'a vm_state_scheme \<Rightarrow> bool" where
  "vmo_tree s \<longleftrightarrow>
     (\<forall>k v. vmos s k = Some v \<longrightarrow>
        k < next_koid s \<and> distinct (vo_children v) \<and>
        (\<forall>c \<in> set (vo_children v). c < next_koid s) \<and>
        (\<forall>p. vo_parent v = Some p \<longrightarrow> p < k) \<and>
        (\<forall>c w. c \<in> set (vo_children v) \<longrightarrow> vmos s c = Some w \<longrightarrow> vo_parent w = Some k) \<and>
        (\<forall>p pv. vo_parent v = Some p \<longrightarrow> vmos s p = Some pv \<longrightarrow> k \<in> set (vo_children pv)))"

lemma vmo_treeD:
  assumes "vmo_tree s" and "vmos s k = Some v"
  shows "k < next_koid s" "distinct (vo_children v)" "\<And>c. c \<in> set (vo_children v) \<Longrightarrow> c < next_koid s"
    and "\<And>p. vo_parent v = Some p \<Longrightarrow> p < k"
    and "\<And>c w. c \<in> set (vo_children v) \<Longrightarrow> vmos s c = Some w \<Longrightarrow> vo_parent w = Some k"
    and "\<And>p pv. vo_parent v = Some p \<Longrightarrow> vmos s p = Some pv \<Longrightarrow> k \<in> set (vo_children pv)"
  using assms unfolding vmo_tree_def by blast+

lemma vmo_tree_fresh: "vmo_tree s \<Longrightarrow> vmos s (next_koid s) = None"
  using vmo_treeD(1) [of s "next_koid s"] by (cases "vmos s (next_koid s)") auto

lemma vmo_treeI:
  assumes "\<And>k v. vmos s k = Some v \<Longrightarrow> k < next_koid s"
    and "\<And>k v. vmos s k = Some v \<Longrightarrow> distinct (vo_children v)"
    and "\<And>k v c. vmos s k = Some v \<Longrightarrow> c \<in> set (vo_children v) \<Longrightarrow> c < next_koid s"
    and "\<And>k v p. vmos s k = Some v \<Longrightarrow> vo_parent v = Some p \<Longrightarrow> p < k"
    and "\<And>k v c w. vmos s k = Some v \<Longrightarrow> c \<in> set (vo_children v) \<Longrightarrow> vmos s c = Some w \<Longrightarrow> vo_parent w = Some k"
    and "\<And>k v p pv. vmos s k = Some v \<Longrightarrow> vo_parent v = Some p \<Longrightarrow> vmos s p = Some pv \<Longrightarrow> k \<in> set (vo_children pv)"
  shows "vmo_tree s"
  unfolding vmo_tree_def using assms by blast

lemma vmo_tree_cong:
  "vmos t = vmos s \<Longrightarrow> next_koid t = next_koid s \<Longrightarrow> vmo_tree t = vmo_tree s"
  by (simp add: vmo_tree_def)

lemma koid_step:
  assumes "n \<noteq> - 1" and "k \<le> n"
  shows "k < n + (1 :: koid)"
proof -
  have "n < n + 1" using assms(1) inc_less_eq_self_iff_eq [of n] by (simp add: not_le)
  with assms(2) show ?thesis by simp
qed

text \<open>Only the links matter: what the invariant reads of an object.\<close>

definition links :: "vmobject \<Rightarrow> koid option \<times> koid list" where
  "links v = (vo_parent v, vo_children v)"

lemma vmo_tree_links:
  assumes tree: "vmo_tree s" and n: "next_koid t = next_koid s"
    and l: "\<And>k. map_option links (vmos t k) = map_option links (vmos s k)"
  shows "vmo_tree t"
proof -
  have prev: "\<exists>v'. vmos s k = Some v' \<and> vo_parent v' = vo_parent v \<and> vo_children v' = vo_children v"
    if "vmos t k = Some v" for k v
    using l [of k] that by (cases "vmos s k") (auto simp: links_def)
  note D = vmo_treeD [OF tree]
  show ?thesis
  proof (rule vmo_treeI)
    fix k v assume "vmos t k = Some v"
    with prev obtain v' where v': "vmos s k = Some v'" "vo_parent v' = vo_parent v" "vo_children v' = vo_children v"
      by blast
    show "k < next_koid t" "distinct (vo_children v)" using D(1,2) [OF v'(1)] v' n by simp_all
    show "c < next_koid t" if "c \<in> set (vo_children v)" for c using D(3) [OF v'(1)] that v' n by simp
    show "p < k" if "vo_parent v = Some p" for p using D(4) [OF v'(1)] that v' by simp
    show "vo_parent w = Some k" if "c \<in> set (vo_children v)" "vmos t c = Some w" for c w
      using D(5) [OF v'(1)] prev [OF that(2)] that v' by auto
    show "k \<in> set (vo_children pv)" if q: "vo_parent v = Some p" "vmos t p = Some pv" for p pv
    proof -
      obtain pv' where "vmos s p = Some pv'" "vo_children pv' = vo_children pv" using prev [OF q(2)] by auto
      with D(6) [OF v'(1), of p pv'] q(1) v'(2) show ?thesis by simp
    qed
  qed
qed

text \<open>A new object without a parent, and one that becomes a child.\<close>

lemma vmo_tree_root:
  assumes tree: "vmo_tree s" and nw: "next_koid s \<noteq> - 1"
    and t: "vmos t = (vmos s)(next_koid s \<mapsto> v)" "next_koid t = next_koid s + 1"
    and v: "vo_children v = []" "vo_parent v = None"
  shows "vmo_tree t"
proof -
  note D = vmo_treeD [OF tree]
  have lt: "k < next_koid s + 1" if "k \<le> next_koid s" for k
    using koid_step [OF nw that] .
  show ?thesis
  proof (rule vmo_treeI)
    fix k w assume kw: "vmos t k = Some w"
    show "k < next_koid t" using kw lt D(1) [of k] by (auto simp: t split: if_splits)
    show "distinct (vo_children w)" using kw D(2) v by (auto simp: t split: if_splits)
    show "c < next_koid t" if "c \<in> set (vo_children w)" for c
      using kw that D(3) [of k w c] v lt [of c] by (auto simp: t split: if_splits)
    show "p < k" if "vo_parent w = Some p" for p
      using kw that D(4) v by (auto simp: t split: if_splits)
    show "vo_parent w' = Some k" if "c \<in> set (vo_children w)" "vmos t c = Some w'" for c w'
      using kw that D(3) [of k w c] D(5) [of k w c w'] v by (auto simp: t split: if_splits)
    show "k \<in> set (vo_children pv)" if "vo_parent w = Some p" "vmos t p = Some pv" for p pv
      using kw that D(1) [of k w] D(4) [of k w p] D(6) [of k w p pv] v by (auto simp: t split: if_splits)
  qed
qed

lemma vmo_tree_child:
  assumes tree: "vmo_tree s" and nw: "next_koid s \<noteq> - 1" and p: "vmos s p = Some pv"
    and t: "vmos t = (vmos s)(next_koid s \<mapsto> v,
        p \<mapsto> pv\<lparr>vo_children := filter (\<lambda>c. c = next_koid s \<or> vmo_alive s c) (vo_children pv) @ [next_koid s]\<rparr>)"
      "next_koid t = next_koid s + 1"
    and v: "vo_children v = []" "vo_parent v = Some p"
  shows "vmo_tree t"
proof -
  note D = vmo_treeD [OF tree]
  define n where "n = next_koid s"
  define pv' where "pv' = pv\<lparr>vo_children := filter (\<lambda>c. c = n \<or> vmo_alive s c) (vo_children pv) @ [n]\<rparr>"
  have lt: "k < next_koid t" if "k \<le> n" for k
    using koid_step [OF nw] that by (simp add: t n_def)
  have pn: "p < n" "n \<noteq> p" using D(1) [OF p] by (auto simp: n_def)
  have T: "vmos t k = (if k = p then Some pv' else if k = n then Some v else vmos s k)" for k
    by (simp add: t n_def pv'_def)
  have old: "k < n" if "vmos s k = Some w" for k w
    using D(1) [OF that] by (simp add: n_def)
  have pch: "n \<notin> set (vo_children pv)" using D(3) [OF p] by (auto simp: n_def)
  show ?thesis
  proof (rule vmo_treeI)
    fix k w assume kw: "vmos t k = Some w"
    consider (p) "k = p" "w = pv'" | (n) "k = n" "w = v" "k \<noteq> p" | (o) "k \<noteq> p" "k \<noteq> n" "vmos s k = Some w"
      using kw T [of k] by (auto split: if_splits)
    note ks = this
    show "k < next_koid t" using ks old lt pn by cases (auto intro: order.strict_implies_order)
    show "distinct (vo_children w)"
      using ks D(2) [OF p] pch D(2) [of k w] v by cases (auto simp: pv'_def)
    show "c < next_koid t" if "c \<in> set (vo_children w)" for c
      using ks
    proof cases
      case p
      then have "c = n \<or> c \<in> set (vo_children pv)" using that by (auto simp: pv'_def)
      then show ?thesis using lt D(3) [OF assms(3), of c] by (auto simp: n_def)
    next
      case n
      then show ?thesis using that v by simp
    next
      case o
      from D(3) [OF this(3) that] show ?thesis by (intro lt) (simp add: n_def)
    qed
    show "q < k" if "vo_parent w = Some q" for q
      using ks that v pn D(4) [OF p, of q] D(4) [of k w q] by cases (auto simp: pv'_def)
    show "vo_parent w' = Some k" if c: "c \<in> set (vo_children w)" "vmos t c = Some w'" for c w'
      using ks
    proof cases
      case p
      show ?thesis
      proof (cases "c = n")
        case True
        then show ?thesis using c T [of c] pn v p by auto
      next
        case False
        then have "c \<in> set (vo_children pv)" "c \<noteq> p"
          using c p D(5) [OF assms(3), of p pv] D(4) [OF assms(3), of p] assms(3) by (auto simp: pv'_def)
        then show ?thesis using c T [of c] False p D(5) [OF assms(3), of c w'] by auto
      qed
    next
      case n
      then show ?thesis using c v by simp
    next
      case o
      have "c \<noteq> n" using D(3) [OF o(3) c(1)] by (auto simp: n_def)
      then show ?thesis
        using c T [of c] D(5) [OF o(3) c(1)] p by (auto simp: pv'_def split: if_splits)
    qed
    show "k \<in> set (vo_children qv)" if q: "vo_parent w = Some q" "vmos t q = Some qv" for q qv
    proof -
      have qn: "q \<noteq> n" if "k \<noteq> n"
        using ks q(1) that D(4) [OF p, of q] D(4) [of k w q] old [of k w] pn by cases (auto simp: pv'_def)
      show ?thesis
        using ks
      proof cases
        case p
        have "q < p" "q \<noteq> p" using D(4) [OF assms(3), of q] q(1) p by (auto simp: pv'_def)
        then show ?thesis using q T [of q] qn p pn D(6) [OF assms(3), of q qv] by (auto simp: pv'_def)
      next
        case n
        then show ?thesis using q T [of q] v by (auto simp: pv'_def)
      next
        case o
        then have kq: "vmos s q = Some qv0 \<Longrightarrow> k \<in> set (vo_children qv0)" for qv0
          using D(6) [OF o(3) q(1)] by simp
        show ?thesis
          using kq [of pv] kq [of qv] q(2) T [of q] qn o p by (auto simp: pv'_def vmo_alive_def split: if_splits)
      qed
    qed
  qed
qed

subsection \<open>Dropping an object\<close>

lemma set_parent_eq:
  "set_parent p c s =
     s\<lparr>vmos := (vmos s)(c := map_option (\<lambda>w. w\<lparr>vo_parent := Some p\<rparr>) (vmos s c))\<rparr>"
  by (cases "vmos s c") (simp_all add: set_parent_def put_vmo_def fun_upd_idem)

lemma fold_set_parent:
  "fold (set_parent p) cs s =
     s\<lparr>vmos := (\<lambda>c. if c \<in> set cs then map_option (\<lambda>w. w\<lparr>vo_parent := Some p\<rparr>) (vmos s c) else vmos s c)\<rparr>"
proof (induction cs arbitrary: s)
  case Nil
  show ?case by simp
next
  case (Cons c cs)
  have "fold (set_parent p) (c # cs) s = fold (set_parent p) cs (set_parent p c s)" by simp
  also have "\<dots> = (set_parent p c s)\<lparr>vmos := (\<lambda>d. if d \<in> set cs
      then map_option (\<lambda>w. w\<lparr>vo_parent := Some p\<rparr>) (vmos (set_parent p c s) d)
      else vmos (set_parent p c s) d)\<rparr>"
    by (rule Cons)
  also have "(\<lambda>d. if d \<in> set cs then map_option (\<lambda>w. w\<lparr>vo_parent := Some p\<rparr>) (vmos (set_parent p c s) d)
      else vmos (set_parent p c s) d) =
      (\<lambda>d. if d \<in> set (c # cs) then map_option (\<lambda>w. w\<lparr>vo_parent := Some p\<rparr>) (vmos s d) else vmos s d)"
    by (auto simp: set_parent_eq fun_eq_iff option.map_comp o_def)
  finally show ?case by (simp add: set_parent_eq)
qed

lemma prune_children_eq:
  "prune_children c s =
     s\<lparr>vmos := (vmos s)(c := map_option (\<lambda>w. w\<lparr>vo_children := filter (vmo_alive s) (vo_children w)\<rparr>) (vmos s c))\<rparr>"
  by (cases "vmos s c") (simp_all add: prune_children_def put_vmo_def fun_upd_idem)

lemma fold_prune_children:
  "fold prune_children cs s =
     s\<lparr>vmos := (\<lambda>c. if c \<in> set cs
        then map_option (\<lambda>w. w\<lparr>vo_children := filter (vmo_alive s) (vo_children w)\<rparr>) (vmos s c)
        else vmos s c)\<rparr>"
proof (induction cs arbitrary: s)
  case Nil
  show ?case by simp
next
  case (Cons c cs)
  have alive: "vmo_alive (prune_children c s) = vmo_alive s"
    by (auto simp: prune_children_eq vmo_alive_def fun_eq_iff)
  let ?f = "\<lambda>w. w\<lparr>vo_children := filter (vmo_alive s) (vo_children w)\<rparr>"
  have "fold prune_children (c # cs) s = fold prune_children cs (prune_children c s)" by simp
  also have "\<dots> = (prune_children c s)\<lparr>vmos := (\<lambda>d. if d \<in> set cs
      then map_option ?f (vmos (prune_children c s) d) else vmos (prune_children c s) d)\<rparr>"
    unfolding Cons alive ..
  also have "(\<lambda>d. if d \<in> set cs then map_option ?f (vmos (prune_children c s) d)
      else vmos (prune_children c s) d) =
      (\<lambda>d. if d \<in> set (c # cs) then map_option ?f (vmos s d) else vmos s d)"
    by (auto simp: prune_children_eq fun_eq_iff option.map_comp o_def)
  finally show ?case by (simp add: prune_children_eq)
qed

lemma vmo_tree_prune:
  assumes tree: "vmo_tree s" and n: "next_koid t = next_koid s"
    and t: "\<And>k w. vmos t k = Some w \<Longrightarrow> \<exists>w'. vmos s k = Some w' \<and> vo_parent w = vo_parent w' \<and>
        (vo_children w = vo_children w' \<or> vo_children w = filter (vmo_alive s) (vo_children w'))"
  shows "vmo_tree t"
proof -
  note D = vmo_treeD [OF tree]
  show ?thesis
  proof (rule vmo_treeI)
    fix k w assume "vmos t k = Some w"
    with t obtain w' where w': "vmos s k = Some w'" "vo_parent w = vo_parent w'"
      "vo_children w = vo_children w' \<or> vo_children w = filter (vmo_alive s) (vo_children w')" by blast
    then have sub: "set (vo_children w) \<subseteq> set (vo_children w')" by auto
    show "k < next_koid t" using D(1) [OF w'(1)] n by simp
    show "distinct (vo_children w)" using D(2) [OF w'(1)] w'(3) by auto
    show "c < next_koid t" if "c \<in> set (vo_children w)" for c using D(3) [OF w'(1)] sub that n by auto
    show "p < k" if "vo_parent w = Some p" for p using D(4) [OF w'(1)] that w'(2) by simp
    show "vo_parent u = Some k" if c: "c \<in> set (vo_children w)" "vmos t c = Some u" for c u
    proof -
      obtain u' where "vmos s c = Some u'" "vo_parent u = vo_parent u'" using t [OF c(2)] by blast
      with D(5) [OF w'(1), of c u'] c(1) sub show ?thesis by auto
    qed
    show "k \<in> set (vo_children pv)" if q: "vo_parent w = Some p" "vmos t p = Some pv" for p pv
    proof -
      obtain pv' where pv': "vmos s p = Some pv'"
        "vo_children pv = vo_children pv' \<or> vo_children pv = filter (vmo_alive s) (vo_children pv')"
        using t [OF q(2)] by blast
      have "k \<in> set (vo_children pv')" using D(6) [OF w'(1)] q(1) w'(2) pv'(1) by simp
      moreover have "vmo_alive s k" using w'(1) by (simp add: vmo_alive_def)
      ultimately show ?thesis using pv'(2) by auto
    qed
  qed
qed

lemma vmo_tree_remove: "vmo_tree s \<Longrightarrow> vmo_tree (s\<lparr>vmos := (vmos s)(k := None)\<rparr>)"
  by (erule vmo_tree_prune) (auto split: if_splits)

lemma vmo_tree_adopt:
  assumes tree: "vmo_tree s" and k: "vmos s k = Some v" and par: "vo_parent v = Some p"
    and p: "vmos s p = Some pv" and n: "next_koid t = next_koid s"
    and T: "\<And>c. vmos t c =
        (if c = k then None
         else if c = p then Some (pv\<lparr>vo_children := filter (\<lambda>c. c \<noteq> k \<and> vmo_alive s c) (vo_children pv @ vo_children v)\<rparr>)
         else if c \<in> set (vo_children v) then map_option (\<lambda>w. w\<lparr>vo_parent := Some p\<rparr>) (vmos s c)
         else vmos s c)"
  shows "vmo_tree t"
proof -
  note D = vmo_treeD [OF tree]
  have pk: "p < k" using D(4) [OF k par] .
  define cs where "cs = filter (\<lambda>c. c \<noteq> k \<and> vmo_alive s c) (vo_children pv @ vo_children v)"
  have excl: "c \<notin> set (vo_children v)" if "c \<in> set (vo_children pv)" "vmo_alive s c" for c
    using that D(5) [OF p that(1)] D(5) [OF k, of c] pk by (auto simp: vmo_alive_def)
  have dist: "distinct cs"
    using D(2) [OF p] D(2) [OF k] excl by (auto simp: cs_def)
  have src: "\<exists>u'. vmos s c = Some u' \<and>
      (vo_parent u = (if c \<noteq> p \<and> c \<in> set (vo_children v) then Some p else vo_parent u')) \<and>
      (vo_children u = (if c = p then cs else vo_children u'))" if "vmos t c = Some u" for c u
    using that T [of c] p by (auto simp: cs_def split: if_splits)
  have pv_ch: "p \<notin> set (vo_children v)" using D(5) [OF k, of p pv] p D(4) [OF p, of k] pk by auto
  show ?thesis
  proof (rule vmo_treeI)
    fix c u assume u: "vmos t c = Some u"
    then obtain u' where u': "vmos s c = Some u'"
      "vo_parent u = (if c \<noteq> p \<and> c \<in> set (vo_children v) then Some p else vo_parent u')"
      "vo_children u = (if c = p then cs else vo_children u')" using src by blast
    have ck: "c \<noteq> k" using u T [of c] by auto
    show "c < next_koid t" using D(1) [OF u'(1)] n by simp
    show "distinct (vo_children u)" using D(2) [OF u'(1)] dist u'(3) by simp
    show "d < next_koid t" if "d \<in> set (vo_children u)" for d
      using that D(3) [OF u'(1)] D(3) [OF p] D(3) [OF k] u'(3) n by (auto simp: cs_def split: if_splits)
    show "q < c" if "vo_parent u = Some q" for q
    proof (cases "c \<noteq> p \<and> c \<in> set (vo_children v)")
      case True
      then have "k < c" using D(5) [OF k, of c u'] D(4) [OF u'(1), of k] u'(1) by simp
      with True that u'(2) pk show ?thesis by simp
    next
      case False
      with that u'(2) D(4) [OF u'(1)] show ?thesis by simp
    qed
    show "vo_parent w = Some c" if d: "d \<in> set (vo_children u)" "vmos t d = Some w" for d w
    proof -
      obtain w' where w': "vmos s d = Some w'"
        "vo_parent w = (if d \<noteq> p \<and> d \<in> set (vo_children v) then Some p else vo_parent w')"
        using src [OF d(2)] by blast
      show ?thesis
      proof (cases "c = p")
        case True
        then have "d \<in> set (vo_children pv) \<or> d \<in> set (vo_children v)" using d u'(3) by (auto simp: cs_def)
        then show ?thesis using w' D(5) [OF p, of d w'] pv_ch True by auto
      next
        case False
        then have "vo_parent w' = Some c" using D(5) [OF u'(1), of d w'] d(1) u'(3) w'(1) by simp
        moreover have "d \<notin> set (vo_children v)"
          using D(5) [OF k, of d w'] w'(1) calculation ck by auto
        ultimately show ?thesis using w'(2) by simp
      qed
    qed
    show "c \<in> set (vo_children qv)" if q: "vo_parent u = Some q" "vmos t q = Some qv" for q qv
    proof -
      obtain qv' where qv': "vmos s q = Some qv'" "vo_children qv = (if q = p then cs else vo_children qv')"
        using src [OF q(2)] by blast
      have al: "vmo_alive s c" using u'(1) by (simp add: vmo_alive_def)
      show ?thesis
      proof (cases "c \<noteq> p \<and> c \<in> set (vo_children v)")
        case True
        then show ?thesis using q(1) u'(2) qv'(2) ck al by (auto simp: cs_def)
      next
        case False
        then have "vo_parent u' = Some q" using q(1) u'(2) by (metis (full_types))
        then have "c \<in> set (vo_children qv')" using D(6) [OF u'(1) _ qv'(1)] by simp
        then show ?thesis using qv' p ck al by (auto simp: cs_def)
      qed
    qed
  qed
qed

lemma release_base_frame [frame_simps, simp]:
  "vmos (release_base t s) = vmos s"
  "next_koid (release_base t s) = next_koid s"
  by (simp_all add: release_base_def Let_def paged_drop_def split: option.splits)

lemma vmo_drop_links:
  fixes s :: "'a vm_state_scheme"
  assumes tree: "vmo_tree s" and k: "vmos s k = Some v" and par: "vo_parent v = Some p"
    and p: "vmos s p = Some pv"
  obtains u :: "'a vm_state_scheme" where "vmo_tree u" and "next_koid u = next_koid s"
    and "\<And>c. vmos u c =
        (if c = k then None
         else if c = p then Some (pv\<lparr>vo_children := filter (\<lambda>c. c \<noteq> k \<and> vmo_alive s c) (vo_children pv @ vo_children v)\<rparr>)
         else if c \<in> set (vo_children v) then map_option (\<lambda>w. w\<lparr>vo_parent := Some p\<rparr>) (vmos s c)
         else vmos s c)"
    and "vmos (vmo_drop k s) = (\<lambda>c. if c \<in> set (vo_children pv @ vo_children v)
        then map_option (\<lambda>w. w\<lparr>vo_children := filter (vmo_alive u) (vo_children w)\<rparr>) (vmos u c)
        else vmos u c)"
    and "next_koid (vmo_drop k s) = next_koid s"
proof -
  note D = vmo_treeD [OF tree]
  have pk: "p \<noteq> k" using D(4) [OF k par] by simp
  have pv_ch: "p \<notin> set (vo_children v)" "p \<notin> set (vo_children pv)"
    using D(5) [OF k, of p pv] p D(4) [OF p, of k] D(4) [OF k par] D(5) [OF p, of p pv] D(4) [OF p, of p] by auto
  let ?s1 = "s\<lparr>vmos := (vmos s)(k := None)\<rparr>"
  let ?s2 = "fold (set_parent p) (vo_children v) ?s1"
  have alive: "vmo_alive ?s2 = (\<lambda>c. c \<noteq> k \<and> vmo_alive s c)"
    by (auto simp: fold_set_parent vmo_alive_def fun_eq_iff)
  have s2p: "vmos ?s2 p = Some pv" using pk pv_ch p by (simp add: fold_set_parent)
  let ?cs = "filter (vmo_alive ?s2) (vo_children pv @ vo_children v)"
  let ?u = "put_vmo p (pv\<lparr>vo_children := ?cs\<rparr>) ?s2"
  have u: "vmos ?u c = (if c = k then None
         else if c = p then Some (pv\<lparr>vo_children := filter (\<lambda>c. c \<noteq> k \<and> vmo_alive s c) (vo_children pv @ vo_children v)\<rparr>)
         else if c \<in> set (vo_children v) then map_option (\<lambda>w. w\<lparr>vo_parent := Some p\<rparr>) (vmos s c)
         else vmos s c)" for c
    using pk alive by (auto simp: put_vmo_def fold_set_parent)
  have nk: "next_koid ?u = next_koid s" by (simp add: put_vmo_def fold_set_parent)
  have dead: "map_option f (vmos ?u c) = vmos ?u c" if "c \<in> set (vo_children pv @ vo_children v)" "c \<notin> set ?cs" for f c
  proof -
    have "c \<noteq> p" "vmos ?s2 c = None" using that pv_ch by (auto simp: vmo_alive_def)
    then have "vmos ?u c = None" by (simp add: put_vmo_def)
    then show ?thesis by simp
  qed
  have "vmo_alive ?s1 p" using p pk by (simp add: vmo_alive_def)
  then have drop: "vmo_drop k s = release_base (vo_trait v) (fold prune_children ?cs ?u)"
    by (simp only: vmo_drop_def reparent_def k par s2p option.case Let_def if_True)
  have "vmos (vmo_drop k s) = (\<lambda>c. if c \<in> set ?cs
        then map_option (\<lambda>w. w\<lparr>vo_children := filter (vmo_alive ?u) (vo_children w)\<rparr>) (vmos ?u c)
        else vmos ?u c)"
    unfolding drop fold_prune_children by simp
  also have "\<dots> = (\<lambda>c. if c \<in> set (vo_children pv @ vo_children v)
        then map_option (\<lambda>w. w\<lparr>vo_children := filter (vmo_alive ?u) (vo_children w)\<rparr>) (vmos ?u c)
        else vmos ?u c)"
    using dead by (intro ext) auto
  finally have vd: "vmos (vmo_drop k s) = \<dots>" .
  have "next_koid (vmo_drop k s) = next_koid s"
    unfolding drop fold_prune_children using nk by simp
  from that [OF vmo_tree_adopt [OF tree k par p nk u] nk u vd this] show ?thesis .
qed

lemma vmo_drop_tree:
  fixes s :: "'a vm_state_scheme"
  assumes tree: "vmo_tree s"
  shows "vmo_tree (vmo_drop k s)"
proof (cases "vmos s k")
  case None
  with tree show ?thesis by (simp add: vmo_drop_def)
next
  case k: (Some v)
  show ?thesis
  proof (cases "\<exists>p pv. vo_parent v = Some p \<and> vmos s p = Some pv")
    case True
    then obtain p pv where p: "vo_parent v = Some p" "vmos s p = Some pv" by blast
    obtain u :: "'a vm_state_scheme" where u: "vmo_tree u" "next_koid u = next_koid s"
      "vmos (vmo_drop k s) = (\<lambda>c. if c \<in> set (vo_children pv @ vo_children v)
        then map_option (\<lambda>w. w\<lparr>vo_children := filter (vmo_alive u) (vo_children w)\<rparr>) (vmos u c)
        else vmos u c)" "next_koid (vmo_drop k s) = next_koid s"
      by (rule vmo_drop_links [OF tree k p]) (rule that; assumption)
    show ?thesis
    proof (rule vmo_tree_prune [OF u(1)])
      show "next_koid (vmo_drop k s) = next_koid u" using u(2,4) by simp
    next
      fix c w assume "vmos (vmo_drop k s) c = Some w"
      then have "(if c \<in> set (vo_children pv @ vo_children v)
        then map_option (\<lambda>w. w\<lparr>vo_children := filter (vmo_alive u) (vo_children w)\<rparr>) (vmos u c)
        else vmos u c) = Some w" by (simp only: u(3))
      then show "\<exists>w'. vmos u c = Some w' \<and> vo_parent w = vo_parent w' \<and>
          (vo_children w = vo_children w' \<or> vo_children w = filter (vmo_alive u) (vo_children w'))"
        by (cases "vmos u c") (auto split: if_splits)
    qed
  next
    case False
    have "vmos (vmo_drop k s) = (vmos s)(k := None)" "next_koid (vmo_drop k s) = next_koid s"
      using k False by (auto simp: vmo_drop_def vmo_alive_def Let_def split: option.splits)
    with vmo_tree_remove [OF tree, of k] show ?thesis
      using vmo_tree_cong [of "vmo_drop k s" "s\<lparr>vmos := (vmos s)(k := None)\<rparr>"] by simp
  qed
qed

subsection \<open>The backing objects\<close>

primrec trait_live :: "'a vmo_state_scheme \<Rightarrow> vmo_trait \<Rightarrow> bool" where
  "trait_live s (Paged i) \<longleftrightarrow> paged_objs s i \<noteq> None"
| "trait_live s (Physical i) \<longleftrightarrow> phys_objs s i \<noteq> None"
| "trait_live s (Slice p off sz) \<longleftrightarrow> trait_live s p"

definition holders :: "'a vm_state_scheme \<Rightarrow> nat \<Rightarrow> koid set" where
  "holders s b = {k. \<exists>v. vmos s k = Some v \<and> trait_base (vo_trait v) = b}"

definition bases_ok :: "'a vm_state_scheme \<Rightarrow> bool" where
  "bases_ok s \<longleftrightarrow>
     heap_inv s \<and> (\<forall>i. phys_objs s i \<noteq> None \<longrightarrow> i < next_obj s) \<and>
     (\<forall>b. base_rc s b = card (holders s b)) \<and>
     (\<forall>k v. vmos s k = Some v \<longrightarrow> trait_live s (vo_trait v))"

lemma trait_live_base:
  "trait_live s t \<Longrightarrow> paged_objs s (trait_base t) \<noteq> None \<or> phys_objs s (trait_base t) \<noteq> None"
  by (induction t) auto

lemma trait_live_mono:
  assumes "trait_live s t"
    and "paged_objs s (trait_base t) \<noteq> None \<Longrightarrow> paged_objs u (trait_base t) \<noteq> None"
    and "phys_objs s (trait_base t) \<noteq> None \<Longrightarrow> phys_objs u (trait_base t) \<noteq> None"
  shows "trait_live u t"
  using assms by (induction t) auto

lemma bases_okD:
  assumes "bases_ok s"
  shows "heap_inv s" "\<And>i. phys_objs s i \<noteq> None \<Longrightarrow> i < next_obj s"
    and "\<And>b. base_rc s b = card (holders s b)"
    and "\<And>k v. vmos s k = Some v \<Longrightarrow> trait_live s (vo_trait v)"
  using assms unfolding bases_ok_def by blast+

lemma base_bound:
  assumes "bases_ok s" and "vmos s k = Some v"
  shows "trait_base (vo_trait v) < next_obj s"
  using trait_live_base [OF bases_okD(4) [OF assms]] bases_okD(2) [OF assms(1)]
    heap_invD(1) [OF bases_okD(1) [OF assms(1)]] by auto

lemma finite_holders [simp]: "finite (holders s b)"
  by simp

lemma holders_add:
  assumes "vmos s k = None" and "vmos t = (vmos s)(k \<mapsto> v)"
  shows "holders t b = (if b = trait_base (vo_trait v) then insert k (holders s b) else holders s b)"
  using assms by (auto simp: holders_def split: if_splits)

lemma holders_traits:
  assumes "\<And>k. map_option vo_trait (vmos t k) = map_option vo_trait (vmos s k)"
  shows "holders t b = holders s b"
proof -
  have "(\<exists>v. vmos t k = Some v \<and> trait_base (vo_trait v) = b) =
      (\<exists>v. vmos s k = Some v \<and> trait_base (vo_trait v) = b)" for k
    using assms [of k] by (cases "vmos s k"; cases "vmos t k") auto
  then show ?thesis by (simp add: holders_def)
qed

lemma bases_ok_add:
  assumes ok: "bases_ok s" and k: "vmos s k = None" and inv: "heap_inv t"
    and t: "vmos t = (vmos s)(k \<mapsto> v)" "next_obj s \<le> next_obj t"
      "base_rc t = (base_rc s)(trait_base (vo_trait v) := base_rc s (trait_base (vo_trait v)) + 1)"
    and live: "trait_live t (vo_trait v)"
    and pm: "\<And>i. paged_objs s i \<noteq> None \<Longrightarrow> paged_objs t i \<noteq> None"
    and ph: "\<And>i. phys_objs s i \<noteq> None \<Longrightarrow> phys_objs t i \<noteq> None" "\<And>i. phys_objs t i \<noteq> None \<Longrightarrow> i < next_obj t"
  shows "bases_ok t"
  unfolding bases_ok_def
proof (intro conjI allI impI)
  fix b
  have "k \<notin> holders s b" using k by (simp add: holders_def)
  then show "base_rc t b = card (holders t b)"
    using bases_okD(3) [OF ok, of b] by (auto simp: holders_add [OF k t(1)] t(3))
next
  fix k' v' assume "vmos t k' = Some v'"
  then show "trait_live t (vo_trait v')"
    using live bases_okD(4) [OF ok, of k' v'] trait_live_mono [of s "vo_trait v'" t] pm ph(1)
    by (auto simp: t(1) split: if_splits)
qed (use inv ph(2) in auto)

text \<open>An update that touches neither the holders nor which backing objects exist.\<close>

lemma bases_ok_same:
  assumes ok: "bases_ok s" and inv: "heap_inv t" and "next_obj t = next_obj s"
    and tr: "\<And>k. map_option vo_trait (vmos t k) = map_option vo_trait (vmos s k)"
    and rc: "base_rc t = base_rc s"
    and d: "dom (paged_objs t) = dom (paged_objs s)" "dom (phys_objs t) = dom (phys_objs s)"
  shows "bases_ok t"
  unfolding bases_ok_def
proof (intro conjI allI impI)
  fix i assume "phys_objs t i \<noteq> None"
  then have "phys_objs s i \<noteq> None" using d(2) by blast
  then show "i < next_obj t" using bases_okD(2) [OF ok] assms(3) by simp
next
  fix b
  show "base_rc t b = card (holders t b)"
    using bases_okD(3) [OF ok, of b] holders_traits [OF tr] rc by simp
next
  fix k v assume "vmos t k = Some v"
  with tr [of k] obtain v' where "vmos s k = Some v'" "vo_trait v' = vo_trait v"
    by (cases "vmos s k") auto
  then show "trait_live t (vo_trait v)"
    using bases_okD(4) [OF ok, of k v'] trait_live_mono [of s "vo_trait v" t] d
    unfolding dom_def by (auto simp: set_eq_iff)
qed (rule inv)

lemma vmo_drop_shape:
  fixes s :: "'a vm_state_scheme"
  assumes k: "vmos s k = Some v"
  obtains f where "vmo_drop k s = release_base (vo_trait v) (s\<lparr>vmos := f\<rparr>)"
    and "\<And>c. map_option vo_trait (f c) = (if c = k then None else map_option vo_trait (vmos s c))"
proof -
  let ?s1 = "s\<lparr>vmos := (vmos s)(k := None)\<rparr>"
  show ?thesis
  proof (cases "\<exists>p. vo_parent v = Some p \<and> vmo_alive ?s1 p")
    case False
    then have "vmo_drop k s = release_base (vo_trait v) ?s1"
      using k by (auto simp: vmo_drop_def Let_def split: option.splits)
    then show ?thesis by (rule that) simp
  next
    case True
    then obtain p where p: "vo_parent v = Some p" "vmo_alive ?s1 p" by blast
    let ?s2 = "fold (set_parent p) (vo_children v) ?s1"
    have "vmos ?s2 p \<noteq> None" using p(2) by (auto simp: fold_set_parent vmo_alive_def)
    then obtain pv where pv: "vmos ?s2 p = Some pv" by blast
    let ?cs = "filter (vmo_alive ?s2) (vo_children pv @ vo_children v)"
    let ?u = "put_vmo p (pv\<lparr>vo_children := ?cs\<rparr>) ?s2"
    let ?t = "fold prune_children ?cs ?u"
    have drop: "vmo_drop k s = release_base (vo_trait v) ?t"
      by (simp only: vmo_drop_def reparent_def k p pv option.case Let_def if_True)
    have "?t = s\<lparr>vmos := vmos ?t\<rparr>"
      by (simp add: fold_prune_children put_vmo_def fold_set_parent)
    moreover have "map_option vo_trait (vmos ?t c) = (if c = k then None else map_option vo_trait (vmos s c))" for c
    proof -
      have "map_option vo_trait (vmos ?t c) = map_option vo_trait (vmos ?u c)"
        by (auto simp: fold_prune_children option.map_comp o_def)
      also have "\<dots> = map_option vo_trait (vmos ?s2 c)" using pv by (auto simp: put_vmo_def)
      also have "\<dots> = map_option vo_trait (vmos ?s1 c)"
        by (auto simp: fold_set_parent option.map_comp o_def)
      finally show ?thesis by simp
    qed
    ultimately show ?thesis using that [of "vmos ?t"] drop by simp
  qed
qed

lemma heap_inv_release:
  assumes "heap_inv s"
  shows "heap_inv (release_base t s)"
proof -
  have "heap_inv (s\<lparr>base_rc := r\<rparr>)" for r using assms by (simp add: heap_inv_def)
  then have "heap_inv (paged_drop b (s\<lparr>base_rc := r\<rparr>))" for b r by (rule heap_inv_drop)
  moreover have "heap_inv (u\<lparr>phys_objs := f\<rparr>) = heap_inv u" for u :: "'a vm_state_scheme" and f
    by (simp add: heap_inv_def)
  ultimately show ?thesis using assms by (simp add: release_base_def Let_def heap_inv_def)
qed

lemma release_base_fields:
  "base_rc (release_base t s) = (base_rc s)(trait_base t := base_rc s (trait_base t) - 1)"
  "next_obj (release_base t s) = next_obj s"
  "paged_objs (release_base t s) =
     (if base_rc s (trait_base t) \<le> 1 then (paged_objs s)(trait_base t := None) else paged_objs s)"
  "phys_objs (release_base t s) =
     (if base_rc s (trait_base t) \<le> 1 then (phys_objs s)(trait_base t := None) else phys_objs s)"
  by (auto simp: release_base_def Let_def paged_drop_def split: option.splits)

lemma vmo_drop_bases:
  fixes s :: "'a vm_state_scheme"
  assumes ok: "bases_ok s"
  shows "bases_ok (vmo_drop k s)"
proof (cases "vmos s k")
  case None
  with ok show ?thesis by (simp add: vmo_drop_def)
next
  case k: (Some v)
  obtain f where f: "vmo_drop k s = release_base (vo_trait v) (s\<lparr>vmos := f\<rparr>)"
    "\<And>c. map_option vo_trait (f c) = (if c = k then None else map_option vo_trait (vmos s c))"
    using vmo_drop_shape [OF k] by blast
  let ?b = "trait_base (vo_trait v)"
  let ?t = "vmo_drop k s"
  have vt: "vmos ?t = f" by (simp add: f(1))
  have src: "\<exists>v'. vmos s c = Some v' \<and> vo_trait v' = vo_trait w \<and> c \<noteq> k" if "f c = Some w" for c w
    using f(2) [of c] that by (cases "vmos s c") (auto split: if_splits)
  have dst: "\<exists>w. f c = Some w \<and> vo_trait w = vo_trait v'" if "vmos s c = Some v'" "c \<noteq> k" for c v'
    using f(2) [of c] that by (cases "f c") auto
  have hold: "holders ?t b = holders s b - {k}" for b
  proof -
    have "c \<in> holders ?t b \<longleftrightarrow> c \<in> holders s b - {k}" for c
    proof
      assume "c \<in> holders ?t b"
      then show "c \<in> holders s b - {k}" using src [of c] by (auto simp: holders_def vt)
    next
      assume "c \<in> holders s b - {k}"
      then show "c \<in> holders ?t b" using dst [of c] by (auto simp: holders_def vt)
    qed
    then show ?thesis by blast
  qed
  have kb: "k \<in> holders s ?b" "b \<noteq> ?b \<Longrightarrow> k \<notin> holders s b" for b using k by (auto simp: holders_def)
  have rc: "base_rc ?t b = card (holders ?t b)" for b
  proof -
    have "base_rc ?t b = (if b = ?b then base_rc s b - 1 else base_rc s b)"
      by (simp add: f(1) release_base_fields)
    then show ?thesis unfolding hold using bases_okD(3) [OF ok, of b] kb by (auto simp: card_Diff_singleton)
  qed
  show ?thesis
    unfolding bases_ok_def
  proof (intro conjI allI impI)
    have "heap_inv (s\<lparr>vmos := f\<rparr>)" using bases_okD(1) [OF ok] by (simp add: heap_inv_def)
    then show "heap_inv ?t" unfolding f(1) by (rule heap_inv_release)
  next
    fix i assume "phys_objs ?t i \<noteq> None"
    then show "i < next_obj ?t"
      using bases_okD(2) [OF ok] by (auto simp: f(1) release_base_fields split: if_splits)
  next
    fix b show "base_rc ?t b = card (holders ?t b)" by (rule rc)
  next
    fix c w assume "vmos ?t c = Some w"
    then obtain v' where v': "vmos s c = Some v'" "vo_trait v' = vo_trait w" "c \<noteq> k"
      using src [of c w] vt by auto
    have live: "trait_live s (vo_trait w)" using bases_okD(4) [OF ok v'(1)] v'(2) by simp
    have "2 \<le> base_rc s ?b" if "trait_base (vo_trait w) = ?b"
    proof -
      have "{k, c} \<subseteq> holders s ?b" using that v' kb(1) by (auto simp: holders_def)
      then have "card {k, c} \<le> card (holders s ?b)" by (intro card_mono) simp_all
      then show ?thesis using v'(3) bases_okD(3) [OF ok] by simp
    qed
    then show "trait_live ?t (vo_trait w)"
      by (intro trait_live_mono [OF live]) (auto simp: f(1) release_base_fields)
  qed
qed

subsection \<open>Methods of a trait object\<close>

text \<open>What a method of an existing trait object may change.\<close>

definition trait_shape :: "'a vmo_state_scheme \<Rightarrow> 'a vmo_state_scheme \<Rightarrow> bool" where
  "trait_shape s t \<longleftrightarrow>
     (\<exists>m av po ph. t = s\<lparr>pmem := m, avail_frames := av, paged_objs := po, phys_objs := ph\<rparr> \<and>
        dom po = dom (paged_objs s) \<and> dom ph = dom (phys_objs s))"

lemma trait_shapeI:
  "t = s\<lparr>pmem := m, avail_frames := av, paged_objs := po, phys_objs := ph\<rparr> \<Longrightarrow>
     dom po = dom (paged_objs s) \<Longrightarrow> dom ph = dom (phys_objs s) \<Longrightarrow> trait_shape s t"
  unfolding trait_shape_def by blast

lemma trait_shape_refl [simp]: "trait_shape s s"
  by (rule trait_shapeI [where m = "pmem s" and av = "avail_frames s" and po = "paged_objs s" and ph = "phys_objs s"]) simp_all

lemma trait_shape_pmem [simp]: "trait_shape s (s\<lparr>pmem := m\<rparr>)"
  by (rule trait_shapeI [where m = m and av = "avail_frames s" and po = "paged_objs s" and ph = "phys_objs s"]) simp_all

lemma trait_shape_avail [simp]: "trait_shape s (s\<lparr>avail_frames := av\<rparr>)"
  by (rule trait_shapeI [where m = "pmem s" and av = av and po = "paged_objs s" and ph = "phys_objs s"]) simp_all

lemma trait_shape_put_avail:
  "paged_objs s i \<noteq> None \<Longrightarrow> trait_shape s (s\<lparr>avail_frames := av, paged_objs := (paged_objs s)(i \<mapsto> pg)\<rparr>)"
  by (rule trait_shapeI [where m = "pmem s" and av = av and po = "(paged_objs s)(i \<mapsto> pg)"
        and ph = "phys_objs s"]) auto

lemma trait_shape_put_paged:
  "paged_objs s i \<noteq> None \<Longrightarrow> trait_shape s (s\<lparr>paged_objs := (paged_objs s)(i \<mapsto> pg)\<rparr>)"
  by (rule trait_shapeI [where m = "pmem s" and av = "avail_frames s" and
        po = "(paged_objs s)(i \<mapsto> pg)" and ph = "phys_objs s"]) auto

lemma trait_shape_put_phys:
  "phys_objs s i \<noteq> None \<Longrightarrow> trait_shape s (s\<lparr>phys_objs := (phys_objs s)(i \<mapsto> ph)\<rparr>)"
  by (rule trait_shapeI [where m = "pmem s" and av = "avail_frames s" and po = "paged_objs s" and
        ph = "(phys_objs s)(i \<mapsto> ph)"]) auto

lemmas trait_shape_put = trait_shape_put_avail trait_shape_put_paged trait_shape_put_phys

lemma for_each_page_pmem:
  assumes f: "\<And>u part. \<exists>m. snd (f part u) = u\<lparr>pmem := m\<rparr>"
  shows "\<exists>m. snd (for_each_page fs off n f (s :: 'a hal_state_scheme)) = s\<lparr>pmem := m\<rparr>"
proof -
  have "\<exists>m. t = s\<lparr>pmem := m\<rparr>"
    if "sfor (\<lambda>b. sbind (slift (\<lambda>_. page_part fs off b)) f) bs s = (r, t)" for bs r t
  proof (rule sfor_invariant [OF that, where P = "\<lambda>t. \<exists>m. t = s\<lparr>pmem := m\<rparr>"])
    show "\<exists>m. s = s\<lparr>pmem := m\<rparr>" by (rule exI [of _ "pmem s"]) simp
  next
    fix b u r u' assume u: "\<exists>m. u = s\<lparr>pmem := m\<rparr>" "sbind (slift (\<lambda>_. page_part fs off b)) f u = (r, u')"
    show "\<exists>m. u' = s\<lparr>pmem := m\<rparr>"
    proof (cases "page_part fs off b")
      case (Inl e)
      with u show ?thesis by (simp add: sbind_def)
    next
      case (Inr part)
      with u(2) have "u' = snd (f part u)" by (simp add: sbind_def)
      with f [of part u] u(1) show ?thesis by auto
    qed
  qed
  moreover have "\<exists>m. s = s\<lparr>pmem := m\<rparr>" by (rule exI [of _ "pmem s"]) simp
  ultimately show ?thesis
    by (auto simp: for_each_page_def sbind_def split: sum.splits) (metis prod.collapse)
qed

lemma pmem_ops_shape:
  "\<exists>m. snd (pmem_write p bs u) = u\<lparr>pmem := m\<rparr>"
  "\<exists>m. snd (pmem_zero p n u) = u\<lparr>pmem := m\<rparr>"
proof -
  have *: "\<exists>m. u = u\<lparr>pmem := m\<rparr>" by (rule exI [of _ "pmem u"]) simp
  show "\<exists>m. snd (pmem_write p bs u) = u\<lparr>pmem := m\<rparr>"
    using * by (auto simp: pmem_write_def split: sum.splits)
  show "\<exists>m. snd (pmem_zero p n u) = u\<lparr>pmem := m\<rparr>"
    using * by (auto simp: pmem_zero_def split: sum.splits)
qed

lemma paged_write_shape: "trait_shape s (snd (paged_write i off data s))"
proof -
  have "\<exists>m. snd (for_each_page fs off n (write_part data) s) = s\<lparr>pmem := m\<rparr>" for fs n
    by (rule for_each_page_pmem) (auto simp: write_part_def pmem_ops_shape split: prod.splits)
  then have "trait_shape s (snd (for_each_page fs off n (write_part data) s))" for fs n
    by (metis trait_shape_pmem)
  then show ?thesis by (auto simp: paged_write_def with_paged_def split: option.splits)
qed

lemma paged_zero_shape: "trait_shape s (snd (paged_zero i off n s))"
proof -
  have "\<exists>m. snd (for_each_page fs off n zero_part s) = s\<lparr>pmem := m\<rparr>" for fs
    by (rule for_each_page_pmem) (auto simp: zero_part_def pmem_ops_shape split: prod.splits)
  then have "trait_shape s (snd (for_each_page fs off n zero_part s))" for fs
    by (metis trait_shape_pmem)
  then show ?thesis by (auto simp: paged_zero_def with_paged_def split: option.splits)
qed

lemma paged_update_shapes:
  "trait_shape s (snd (paged_set_len i len s))"
  "trait_shape s (snd (paged_append_mapping i m s))"
  "trait_shape s (snd (paged_remove_mapping alive i m s))"
  "trait_shape s (snd (paged_set_cache_policy i pol s))"
  "trait_shape s (snd (paged_pin i off len s))"
  "trait_shape s (snd (paged_unpin i off len s))"
  by (auto simp: paged_set_len_def paged_append_mapping_def paged_remove_mapping_def
    paged_set_cache_policy_def paged_pin_def paged_unpin_def with_paged_def Let_def sbind_def
    put_paged_def alloc_frames_eq trait_shape_put split: option.splits sum.splits)

definition trait_good :: "('b zx \<times> 'a vmo_state_scheme) \<Rightarrow> 'a vmo_state_scheme \<Rightarrow> bool" where
  "trait_good res s \<longleftrightarrow> trait_shape s (snd res) \<and> (heap_inv s \<longrightarrow> heap_inv (snd res))"

lemma trait_good_refl [simp]: "trait_good (r, s) s"
  by (simp add: trait_good_def)

lemma trait_good_phys_set:
  "phys_objs s i \<noteq> None \<Longrightarrow> trait_good (r, s\<lparr>phys_objs := (phys_objs s)(i \<mapsto> ph)\<rparr>) s"
  by (auto simp: trait_good_def trait_shape_put heap_inv_def)

lemma pmem_ops_good: "trait_good (pmem_write p bs s) s" "trait_good (pmem_zero p n s) s"
  using pmem_ops_shape(1) [of p bs s] pmem_ops_shape(2) [of p n s]
  by (auto simp: trait_good_def)

lemma paged_ops_good:
  "trait_good (paged_write i off data s) s" "trait_good (paged_zero i off n s) s"
  "trait_good (paged_set_len i n s) s" "trait_good (paged_append_mapping i m s) s"
  "trait_good (paged_remove_mapping alive i m s) s" "trait_good (paged_set_cache_policy i pol s) s"
  "trait_good (paged_pin i off n s) s" "trait_good (paged_unpin i off n s) s"
  by (simp_all add: trait_good_def paged_write_shape paged_zero_shape paged_update_shapes
    same_heap_inv [OF paged_write_same] same_heap_inv [OF paged_zero_same] heap_inv_set_len
    heap_inv_append_mapping heap_inv_remove_mapping heap_inv_set_cache heap_inv_pin heap_inv_unpin)

lemma trait_ops_good:
  "trait_good (trait_write t off data s) s"
  "trait_good (trait_zero t off n s) s"
  "trait_good (trait_set_len t n s) s"
  "trait_good (trait_append_mapping t m s) s"
  "trait_good (trait_remove_mapping alive t m s) s"
  "trait_good (trait_set_cache_policy t pol s) s"
  "trait_good (trait_pin t off n s) s"
  "trait_good (trait_unpin t off n s) s"
  by (induction t arbitrary: off)
    (auto simp: sbind_def paged_ops_good pmem_ops_good get_phys_def ok_or_def trait_good_phys_set
      split: sum.splits option.splits)

end
