(* ===== verification/Vmo_Life.thy ===== *)
theory Vmo_Life
  imports Vmo_Tree
begin

text \<open>
  The life of memory objects: the invariant of the store, a step relation over the operations of
  \<open>VmObject\<close> and the properties that follow: parents and children agree, no object outlives its
  backing frames, slices stay inside their parents.
\<close>

definition vmo_ok :: "'a vm_state_scheme \<Rightarrow> bool" where
  "vmo_ok s \<longleftrightarrow> vmo_tree s \<and> bases_ok s"

lemma vmo_okD: "vmo_ok s \<Longrightarrow> vmo_tree s" "vmo_ok s \<Longrightarrow> bases_ok s" "vmo_ok s \<Longrightarrow> heap_inv s"
  by (auto simp: vmo_ok_def bases_ok_def)

lemma vmo_ok_good:
  fixes s :: "'a vm_state_scheme"
  assumes ok: "vmo_ok s" and good: "trait_good res s"
  shows "vmo_ok (snd res)"
proof -
  obtain m av po ph where t: "snd res = s\<lparr>pmem := m, avail_frames := av, paged_objs := po, phys_objs := ph\<rparr>"
    "dom po = dom (paged_objs s)" "dom ph = dom (phys_objs s)"
    using good by (auto simp: trait_good_def trait_shape_def)
  have "vmo_tree (snd res)"
    by (rule vmo_tree_links [OF vmo_okD(1) [OF ok]]) (simp_all add: t(1))
  moreover have "bases_ok (snd res)"
  proof (rule bases_ok_same [OF vmo_okD(2) [OF ok]])
    show "heap_inv (snd res)" using good vmo_okD(3) [OF ok] by (simp add: trait_good_def)
  qed (use t in simp_all)
  ultimately show ?thesis by (simp add: vmo_ok_def)
qed

lemma vmo_ok_put:
  fixes s :: "'a vm_state_scheme"
  assumes ok: "vmo_ok s" and k: "vmos s k = Some v" and "links v' = links v" and "vo_trait v' = vo_trait v"
  shows "vmo_ok (put_vmo k v' s)"
proof -
  have "vmo_tree (put_vmo k v' s)"
    by (rule vmo_tree_links [OF vmo_okD(1) [OF ok]]) (use assms in \<open>auto simp: put_vmo_def\<close>)
  moreover have "bases_ok (put_vmo k v' s)"
  proof (rule bases_ok_same [OF vmo_okD(2) [OF ok]])
    show "heap_inv (put_vmo k v' s)" using vmo_okD(3) [OF ok] by (simp add: put_vmo_def heap_inv_def)
  qed (use assms in \<open>auto simp: put_vmo_def\<close>)
  ultimately show ?thesis by (simp add: vmo_ok_def)
qed

lemma vmo_ok_bump:
  fixes s :: "'a vm_state_scheme"
  assumes ok: "vmo_ok s" and nw: "next_koid s \<noteq> - 1"
  shows "vmo_ok (s\<lparr>next_koid := next_koid s + 1\<rparr>)"
proof -
  note D = vmo_treeD [OF vmo_okD(1) [OF ok]]
  have "vmo_tree (s\<lparr>next_koid := next_koid s + 1\<rparr>)"
  proof (rule vmo_treeI)
    fix k v assume "vmos (s\<lparr>next_koid := next_koid s + 1\<rparr>) k = Some v"
    then have k: "vmos s k = Some v" by simp
    show "k < next_koid (s\<lparr>next_koid := next_koid s + 1\<rparr>)"
      using koid_step [OF nw, of k] D(1) [OF k] by simp
    show "c < next_koid (s\<lparr>next_koid := next_koid s + 1\<rparr>)" if "c \<in> set (vo_children v)" for c
      using koid_step [OF nw, of c] D(3) [OF k that] by simp
    show "distinct (vo_children v)" using D(2) [OF k] .
    show "p < k" if "vo_parent v = Some p" for p using D(4) [OF k that] .
    show "vo_parent w = Some k"
      if "c \<in> set (vo_children v)" "vmos (s\<lparr>next_koid := next_koid s + 1\<rparr>) c = Some w" for c w
      using D(5) [OF k] that by simp
    show "k \<in> set (vo_children pv)"
      if "vo_parent v = Some p" "vmos (s\<lparr>next_koid := next_koid s + 1\<rparr>) p = Some pv" for p pv
      using D(6) [OF k] that by simp
  qed
  moreover have "bases_ok (s\<lparr>next_koid := next_koid s + 1\<rparr>)"
    by (rule bases_ok_same [OF vmo_okD(2) [OF ok]]) (use vmo_okD(3) [OF ok] in \<open>auto simp: heap_inv_def\<close>)
  ultimately show ?thesis by (simp add: vmo_ok_def)
qed

text \<open>Allocation of an object over a fresh or shared backing object.\<close>

lemma vmo_ok_alloc_root:
  fixes s t :: "'a vm_state_scheme"
  assumes ok: "vmo_ok s" and nw: "next_koid s \<noteq> - 1" and inv: "heap_inv t"
    and v: "vo_children v = []" "vo_parent v = None"
    and t: "vmos t = (vmos s)(next_koid s \<mapsto> v)" "next_koid t = next_koid s + 1" "next_obj s \<le> next_obj t"
      "base_rc t = (base_rc s)(trait_base (vo_trait v) := base_rc s (trait_base (vo_trait v)) + 1)"
    and live: "trait_live t (vo_trait v)"
    and pm: "\<And>i. paged_objs s i \<noteq> None \<Longrightarrow> paged_objs t i \<noteq> None"
    and ph: "\<And>i. phys_objs s i \<noteq> None \<Longrightarrow> phys_objs t i \<noteq> None" "\<And>i. phys_objs t i \<noteq> None \<Longrightarrow> i < next_obj t"
  shows "vmo_ok t"
proof -
  have "vmo_tree t" using vmo_tree_root [OF vmo_okD(1) [OF ok] nw t(1,2) v] .
  moreover have "bases_ok t"
    using bases_ok_add [OF vmo_okD(2) [OF ok] vmo_tree_fresh [OF vmo_okD(1) [OF ok]] inv t(1,3,4) live pm ph] .
  ultimately show ?thesis by (simp add: vmo_ok_def)
qed

lemma vmo_ok_alloc_child:
  fixes s t :: "'a vm_state_scheme"
  assumes ok: "vmo_ok s" and nw: "next_koid s \<noteq> - 1" and inv: "heap_inv t"
    and p: "vmos s p = Some pv"
    and v: "vo_children v = []" "vo_parent v = Some p"
    and t: "vmos t = (vmos s)(next_koid s \<mapsto> v,
        p \<mapsto> pv\<lparr>vo_children := filter (\<lambda>c. c = next_koid s \<or> vmo_alive s c) (vo_children pv) @ [next_koid s]\<rparr>)"
      "next_koid t = next_koid s + 1" "next_obj s \<le> next_obj t"
      "base_rc t = (base_rc s)(trait_base (vo_trait v) := base_rc s (trait_base (vo_trait v)) + 1)"
    and live: "trait_live t (vo_trait v)"
    and pm: "\<And>i. paged_objs s i \<noteq> None \<Longrightarrow> paged_objs t i \<noteq> None"
    and ph: "\<And>i. phys_objs s i \<noteq> None \<Longrightarrow> phys_objs t i \<noteq> None" "\<And>i. phys_objs t i \<noteq> None \<Longrightarrow> i < next_obj t"
  shows "vmo_ok t"
proof -
  note fresh = vmo_tree_fresh [OF vmo_okD(1) [OF ok]]
  have pn: "p \<noteq> next_koid s" using fresh p by auto
  have "vmo_tree t" using vmo_tree_child [OF vmo_okD(1) [OF ok] nw p t(1,2) v] .
  moreover have "bases_ok t"
  proof -
    let ?u = "t\<lparr>vmos := (vmos s)(next_koid s \<mapsto> v)\<rparr>"
    have "heap_inv ?u" using inv by (simp add: heap_inv_def)
    moreover have "trait_live ?u (vo_trait v)"
      using live by (rule trait_live_mono) simp_all
    ultimately have "bases_ok ?u"
      using t(3,4) pm ph by (intro bases_ok_add [OF vmo_okD(2) [OF ok] fresh]) simp_all
    then show ?thesis
      by (rule bases_ok_same) (use inv p pn in \<open>auto simp: t(1)\<close>)
  qed
  ultimately show ?thesis by (simp add: vmo_ok_def)
qed

lemma phys_fresh: "bases_ok s \<Longrightarrow> phys_objs s i \<noteq> None \<Longrightarrow> i < Suc (next_obj s)"
  using bases_okD(2) [of s i] by simp

lemma vmo_ok_new_paged:
  fixes s :: "'a vm_state_scheme"
  assumes ok: "vmo_ok s" and nw: "next_koid s \<noteq> - 1"
  shows "vmo_ok (snd (new_paged_with_resizable r n s))"
proof -
  let ?s1 = "s\<lparr>next_koid := next_koid s + 1\<rparr>"
  have inv: "heap_inv ?s1" using vmo_okD(3) [OF ok] by (simp add: heap_inv_def)
  show ?thesis
  proof (cases "n \<le> length (avail_frames s)")
    case True
    let ?i = "next_obj s"
    define t where "t = snd (new_paged_with_resizable r n s)"
    have "heap_inv (snd (paged_new n ?s1))" by (rule heap_inv_new [OF inv])
    then have "heap_inv t"
      using True by (simp add: t_def new_paged_with_resizable_def new_koid_def sbind_def
        paged_new_eq [OF inv] vmo_alloc_def retain_base_def put_vmo_def heap_inv_def)
    moreover have t: "vmos t = (vmos s)(next_koid s \<mapsto> vmobject_init '''' r (Paged ?i) None)"
      "next_koid t = next_koid s + 1" "next_obj t = Suc ?i" "phys_objs t = phys_objs s"
      "base_rc t = (base_rc s)(?i := base_rc s ?i + 1)"
      "paged_objs t = (paged_objs s)(?i \<mapsto> paged_default\<lparr>pg_frames := take n (avail_frames s)\<rparr>)"
      using True by (simp_all add: t_def new_paged_with_resizable_def new_koid_def sbind_def
        paged_new_eq [OF inv] vmo_alloc_def retain_base_def put_vmo_def vmobject_init_def)
    ultimately have "vmo_ok t"
      using phys_fresh [OF vmo_okD(2) [OF ok]]
      by (intro vmo_ok_alloc_root [OF ok nw, where v = "vmobject_init '''' r (Paged ?i) None"])
        (auto simp: vmobject_init_def)
    then show ?thesis by (simp add: t_def)
  next
    case False
    have "vmo_ok (snd (Inl Panic :: unit zx, ?s1\<lparr>avail_frames := [], pmem := zero_all (avail_frames s) (pmem s)\<rparr>))"
      by (rule vmo_ok_good [OF vmo_ok_bump [OF ok nw]])
        (auto simp: trait_good_def heap_inv_alloc_fail
          intro!: trait_shapeI [where m = "zero_all (avail_frames s) (pmem s)" and av = "[]" and
              po = "paged_objs s" and ph = "phys_objs s"])
    with False show ?thesis
      by (simp add: new_paged_with_resizable_def new_koid_def sbind_def paged_new_eq [OF inv])
  qed
qed

lemma vmo_ok_new_physical:
  fixes s :: "'a vm_state_scheme"
  assumes ok: "vmo_ok s" and nw: "next_koid s \<noteq> - 1"
  shows "vmo_ok (snd (new_physical paddr n s))"
proof (cases "page_aligned paddr")
  case False
  then show ?thesis
    using vmo_ok_bump [OF ok nw] by (simp add: new_physical_def new_koid_def phys_new_def sbind_def)
next
  case True
  let ?i = "next_obj s"
  define t where "t = snd (new_physical paddr n s)"
  have t: "vmos t = (vmos s)(next_koid s \<mapsto> vmobject_init '''' False (Physical ?i) None)"
    "next_koid t = next_koid s + 1" "next_obj t = Suc ?i" "paged_objs t = paged_objs s"
    "avail_frames t = avail_frames s"
    "base_rc t = (base_rc s)(?i := base_rc s ?i + 1)"
    "phys_objs t = (phys_objs s)(?i \<mapsto> \<lparr>ph_paddr = paddr, ph_pages = n, ph_cache = Uncached\<rparr>)"
    using True by (simp_all add: t_def new_physical_def new_koid_def sbind_def phys_new_def
      vmo_alloc_def retain_base_def put_vmo_def vmobject_init_def)
  have "heap_inv t"
    using vmo_okD(3) [OF ok] heap_invD(1) [OF vmo_okD(3) [OF ok]]
    unfolding heap_inv_def t by (auto intro: less_SucI)
  then have "vmo_ok t"
    using t phys_fresh [OF vmo_okD(2) [OF ok]]
    by (intro vmo_ok_alloc_root [OF ok nw, where v = "vmobject_init '''' False (Physical ?i) None"])
      (auto simp: vmobject_init_def split: if_splits)
  then show ?thesis by (simp add: t_def)
qed

text \<open>Children: the list of the parent is pruned and extended.\<close>

lemma add_child_result:
  assumes "vmos s p = Some pv" and "p \<noteq> n" and "next_koid s = n"
  shows "sbind (add_child p n) (\<lambda>_. sret n) (vmo_alloc n v (s\<lparr>next_koid := n + 1\<rparr>)) =
    (Inr n, (vmo_alloc n v (s\<lparr>next_koid := n + 1\<rparr>))\<lparr>vmos := (vmos s)(n \<mapsto> v,
       p \<mapsto> pv\<lparr>vo_children := filter (\<lambda>c. c = n \<or> vmo_alive s c) (vo_children pv) @ [n]\<rparr>)\<rparr>)"
proof -
  have "vmo_alive (vmo_alloc n v (s\<lparr>next_koid := n + 1\<rparr>)) = (\<lambda>c. c = n \<or> vmo_alive s c)"
    by (rule ext) (auto simp: vmo_alive_def vmo_alloc_def retain_base_def put_vmo_def)
  then show ?thesis
    using assms
    by (simp add: add_child_def with_vmo_def sbind_def vmo_alloc_def retain_base_def put_vmo_def)
qed

lemma vmo_ok_create_slice:
  fixes s :: "'a vm_state_scheme"
  assumes ok: "vmo_ok s" and nw: "next_koid s \<noteq> - 1"
  shows "vmo_ok (snd (vmo_create_slice k off len s))"
proof (cases "\<exists>pv sz. vmos s k = Some pv \<and> slice_args pv off len s = Inr sz")
  case False
  then have "snd (vmo_create_slice k off len s) = s"
    by (auto simp: vmo_create_slice_def with_vmo_def sbind_def split: option.splits sum.splits)
  with ok show ?thesis by simp
next
  case True
  then obtain pv sz where pv: "vmos s k = Some pv" "slice_args pv off len s = Inr sz" by blast
  have kn: "k \<noteq> next_koid s" using vmo_tree_fresh [OF vmo_okD(1) [OF ok]] pv(1) by auto
  define v where "v = vmobject_init (vo_name pv) False (Slice (vo_trait pv) off sz) (Some k)"
  define t where "t = snd (vmo_create_slice k off len s)"
  have t: "t = (vmo_alloc (next_koid s) v (s\<lparr>next_koid := next_koid s + 1\<rparr>))
      \<lparr>vmos := (vmos s)(next_koid s \<mapsto> v,
       k \<mapsto> pv\<lparr>vo_children := filter (\<lambda>c. c = next_koid s \<or> vmo_alive s c) (vo_children pv) @ [next_koid s]\<rparr>)\<rparr>"
    using pv add_child_result [OF pv(1) kn refl, of v]
    by (simp add: t_def vmo_create_slice_def with_vmo_def sbind_def [of "slift _"] new_koid_def v_def)
  have live: "trait_live s (vo_trait pv)" using bases_okD(4) [OF vmo_okD(2) [OF ok] pv(1)] .
  have "heap_inv t" using vmo_okD(3) [OF ok]
    by (simp add: t vmo_alloc_def retain_base_def put_vmo_def heap_inv_def)
  moreover have "trait_live t (vo_trait v)"
    unfolding v_def vmobject_init_def t vmo_alloc_def retain_base_def put_vmo_def
    by simp (rule trait_live_mono [OF live]; simp)
  ultimately have "vmo_ok t"
    using pv(1) bases_okD(2) [OF vmo_okD(2) [OF ok]]
    by (intro vmo_ok_alloc_child [OF ok nw, where v = v and p = k])
      (auto simp: t v_def vmobject_init_def vmo_alloc_def retain_base_def put_vmo_def)
  then show ?thesis by (simp add: t_def)
qed

lemma trait_create_child_cases:
  fixes s u :: "'a vmo_state_scheme"
  assumes inv: "heap_inv s" and res: "trait_create_child t off len s = (r, u)"
  obtains (fail) f where "r = Inl f" and "u = s"
  | (ok) m fs where "r = Inr (Paged (next_obj s))" and "heap_inv u"
      and "u = s\<lparr>avail_frames := drop (pages len) (avail_frames s), pmem := m,
              paged_objs := (paged_objs s)(next_obj s \<mapsto> paged_default\<lparr>pg_frames := fs\<rparr>),
              next_obj := Suc (next_obj s)\<rparr>"
proof (cases t)
  case (Paged i)
  obtain q w where qw: "paged_create_child i off len s = (q, w)" by fastforce
  show ?thesis
  proof (cases "\<exists>pg. paged_objs s i = Some pg \<and> child_ready pg off len")
    case True
    then obtain pg where pg: "paged_objs s i = Some pg" "child_ready pg off len" by blast
    have invw: "heap_inv w" using heap_inv_create_child [OF inv, of i off len] qw by simp
    from inv pg show ?thesis
    proof (cases rule: paged_create_child_cases)
      case no_memory
      with res Paged show ?thesis by (intro fail) (auto simp: sbind_def)
    next
      case (created m fs)
      with res Paged qw invw show ?thesis by (intro ok [where m = m and fs = fs]) (auto simp: sbind_def)
    qed
  next
    case False
    then have "\<exists>f. paged_create_child i off len s = (Inl f, s)"
      by (auto simp: paged_create_child_def with_paged_def child_ready_def split: option.splits)
    with res Paged show ?thesis by (auto simp: sbind_def intro: fail)
  qed
next
  case (Physical i)
  with res show ?thesis by (intro fail) auto
next
  case (Slice p o' z)
  with res show ?thesis by (intro fail) auto
qed

lemma vmo_ok_create_child:
  fixes s :: "'a vm_state_scheme"
  assumes ok: "vmo_ok s" and nw: "next_koid s \<noteq> - 1"
  shows "vmo_ok (snd (vmo_create_child k resizable off len s))"
proof (cases "vmos s k")
  case None
  with ok show ?thesis by (simp add: vmo_create_child_def with_vmo_def)
next
  case (Some pv)
  let ?n = "next_koid s" and ?s1 = "s\<lparr>next_koid := next_koid s + 1\<rparr>"
  have kn: "k \<noteq> ?n" using vmo_tree_fresh [OF vmo_okD(1) [OF ok]] Some by auto
  obtain r u where ru: "trait_create_child (vo_trait pv) off len ?s1 = (r, u)" by fastforce
  have inv: "heap_inv ?s1" using vmo_okD(3) [OF ok] by (simp add: heap_inv_def)
  from inv ru show ?thesis
  proof (cases rule: trait_create_child_cases)
    case (fail f)
    with ru Some have "snd (vmo_create_child k resizable off len s) = ?s1"
      by (simp add: vmo_create_child_def with_vmo_def new_koid_def sbind_def)
    with vmo_ok_bump [OF ok nw] show ?thesis by simp
  next
    case c: (ok m fs)
    define v where "v = vmobject_init (vo_name pv) resizable (Paged (next_obj s)) (Some k)"
    define t where "t = snd (vmo_create_child k resizable off len s)"
    have alive: "vmo_alive (vmo_alloc ?n v u) = (\<lambda>c. c = ?n \<or> vmo_alive s c)"
      using c(3) by (intro ext) (auto simp: vmo_alive_def vmo_alloc_def retain_base_def put_vmo_def)
    have t: "t = (vmo_alloc ?n v u)\<lparr>vmos := (vmos s)(?n \<mapsto> v,
       k \<mapsto> pv\<lparr>vo_children := filter (\<lambda>c. c = ?n \<or> vmo_alive s c) (vo_children pv) @ [?n]\<rparr>)\<rparr>"
      using Some ru c kn alive unfolding t_def
      by (simp add: vmo_create_child_def with_vmo_def new_koid_def sbind_def v_def add_child_def
        vmo_alloc_def retain_base_def put_vmo_def)
    have "heap_inv t" using c(2)
      by (simp add: t vmo_alloc_def retain_base_def put_vmo_def heap_inv_def)
    then have "vmo_ok t"
      using Some c(3) phys_fresh [OF vmo_okD(2) [OF ok]]
      by (intro vmo_ok_alloc_child [OF ok nw, where v = v and p = k])
        (auto simp: t v_def vmobject_init_def vmo_alloc_def retain_base_def put_vmo_def)
    then show ?thesis by (simp add: t_def)
  qed
qed

lemma vmo_ok_drop: "vmo_ok s \<Longrightarrow> vmo_ok (vmo_drop k s)"
  by (simp add: vmo_ok_def vmo_drop_tree vmo_drop_bases)

subsection \<open>Methods of an existing object\<close>

lemma vmo_ok_write:
  assumes "vmo_ok s" shows "vmo_ok (snd (vmo_write k off data s))"
  using assms vmo_ok_good [OF assms trait_ops_good(1)]
  by (auto simp: vmo_write_def with_vmo_def split: option.splits)

lemma vmo_ok_set_len:
  assumes "vmo_ok s" shows "vmo_ok (snd (vmo_set_len k len s))"
  using assms vmo_ok_good [OF assms trait_ops_good(3)]
  by (auto simp: vmo_set_len_def with_vmo_def split: option.splits)

lemma vmo_ok_cache:
  assumes "vmo_ok s" shows "vmo_ok (snd (vmo_set_cache_policy k pol s))"
  using assms vmo_ok_good [OF assms trait_ops_good(6)]
  by (auto simp: vmo_set_cache_policy_def with_vmo_def split: option.splits)

lemma vmo_ok_append:
  assumes "vmo_ok s" shows "vmo_ok (snd (vmo_append_mapping k m s))"
proof (cases "vmos s k")
  case None
  with assms show ?thesis by (simp add: vmo_append_mapping_def with_vmo_def)
next
  case (Some v)
  have "vmo_ok (put_vmo k (v\<lparr>vo_mapping_count := c\<rparr>) s)" for c
    by (rule vmo_ok_put [OF assms Some]) (simp_all add: links_def)
  from vmo_ok_good [OF this trait_ops_good(4)] Some assms show ?thesis
    by (auto simp: vmo_append_mapping_def with_vmo_def sbind_def split: sum.splits)
qed

lemma vmo_ok_remove:
  assumes "vmo_ok s" shows "vmo_ok (snd (vmo_remove_mapping alive k m s))"
proof (cases "vmos s k")
  case None
  with assms show ?thesis by (simp add: vmo_remove_mapping_def with_vmo_def)
next
  case (Some v)
  have "vmo_ok (put_vmo k (v\<lparr>vo_mapping_count := c\<rparr>) s)" for c
    by (rule vmo_ok_put [OF assms Some]) (simp_all add: links_def)
  from vmo_ok_good [OF this trait_ops_good(5)] Some assms show ?thesis
    by (auto simp: vmo_remove_mapping_def with_vmo_def sbind_def split: sum.splits)
qed

lemma vmo_ok_content_field: "vmo_ok s \<Longrightarrow> vmo_ok (set_content_field k n s)"
  by (auto simp: set_content_field_def links_def intro: vmo_ok_put split: option.splits)

lemma vmo_ok_set_content:
  "vmo_ok s \<Longrightarrow> vmo_ok (snd (set_content_size k n s))"
  by (auto simp: set_content_size_def with_vmo_def links_def intro: vmo_ok_put split: option.splits)

lemma vmo_ok_resize:
  assumes "vmo_ok s"
  shows "vmo_ok (snd (set_content_size_and_resize k sz zu s))"
proof -
  have rs: "vmo_ok (snd (resize_for_content k len sz s))" for len
    using assms vmo_ok_set_len [OF assms, of k "roundup_pages sz"]
    by (auto simp: resize_for_content_def split: prod.splits sum.splits fault.splits)
  have tail: "vmo_ok (snd (sbind (if c then trait_zero t a b else sret ()) (\<lambda>_ s. (Inr n, set_content_field k n s)) u))"
    if "vmo_ok u" for c t a b n and u :: "'a vm_state_scheme"
    using that vmo_ok_good [OF that trait_ops_good(2), of t a b]
    by (auto simp: sbind_def vmo_ok_content_field split: prod.splits sum.splits)
  show ?thesis
  proof (cases "vmos s k")
    case None
    with assms show ?thesis by (simp add: set_content_size_and_resize_def with_vmo_def)
  next
    case (Some v)
    then show ?thesis
      unfolding set_content_size_and_resize_def with_vmo_def option.case
      by (auto simp: Let_def assms intro!: sbind_keeps [where P = vmo_ok] rs tail)
  qed
qed

subsection \<open>The step relation\<close>

text \<open>Creation needs a fresh object id: the 64-bit counter has not wrapped.\<close>

inductive vmo_step :: "'a vm_state_scheme \<Rightarrow> 'a vm_state_scheme \<Rightarrow> bool" where
  vs_paged: "next_koid s \<noteq> - 1 \<Longrightarrow> new_paged_with_resizable r n s = (res, t) \<Longrightarrow> vmo_step s t"
| vs_physical: "next_koid s \<noteq> - 1 \<Longrightarrow> new_physical pa n s = (res, t) \<Longrightarrow> vmo_step s t"
| vs_child: "next_koid s \<noteq> - 1 \<Longrightarrow> vmo_create_child k r off len s = (res, t) \<Longrightarrow> vmo_step s t"
| vs_slice: "next_koid s \<noteq> - 1 \<Longrightarrow> vmo_create_slice k off len s = (res, t) \<Longrightarrow> vmo_step s t"
| vs_write: "vmo_write k off data s = (r, t) \<Longrightarrow> vmo_step s t"
| vs_set_len: "vmo_set_len k len s = (r, t) \<Longrightarrow> vmo_step s t"
| vs_content: "set_content_size k n s = (r, t) \<Longrightarrow> vmo_step s t"
| vs_resize: "set_content_size_and_resize k n zu s = (res, t) \<Longrightarrow> vmo_step s t"
| vs_cache: "vmo_set_cache_policy k pol s = (r, t) \<Longrightarrow> vmo_step s t"
| vs_append: "vmo_append_mapping k m s = (r, t) \<Longrightarrow> vmo_step s t"
| vs_remove: "vmo_remove_mapping alive k m s = (r, t) \<Longrightarrow> vmo_step s t"
| vs_drop: "vmo_step s (vmo_drop k s)"

inductive vmo_reach :: "'a vm_state_scheme \<Rightarrow> 'a vm_state_scheme \<Rightarrow> bool" for s0 where
  vr_init: "vmo_reach s0 s0"
| vr_step: "vmo_reach s0 s \<Longrightarrow> vmo_step s t \<Longrightarrow> vmo_reach s0 t"

lemmas vmo_ok_ops =
  vmo_ok_new_paged vmo_ok_new_physical vmo_ok_create_child vmo_ok_create_slice vmo_ok_write
  vmo_ok_set_len vmo_ok_set_content vmo_ok_resize vmo_ok_cache vmo_ok_append vmo_ok_remove

lemma vmo_step_ok:
  assumes "vmo_step s t" and "vmo_ok s"
  shows "vmo_ok t"
  using assms
proof cases
  case (vs_paged r n res)
  then show ?thesis using vmo_ok_new_paged [OF assms(2), of r n] by simp
next
  case (vs_physical pa n res)
  then show ?thesis using vmo_ok_new_physical [OF assms(2), of pa n] by simp
next
  case (vs_child k r off len res)
  then show ?thesis using vmo_ok_create_child [OF assms(2), of k r off len] by simp
next
  case (vs_slice k off len res)
  then show ?thesis using vmo_ok_create_slice [OF assms(2), of k off len] by simp
next
  case (vs_write k off data r)
  then show ?thesis using vmo_ok_write [OF assms(2), of k off data] by simp
next
  case (vs_set_len k len r)
  then show ?thesis using vmo_ok_set_len [OF assms(2), of k len] by simp
next
  case (vs_content k n r)
  then show ?thesis using vmo_ok_set_content [OF assms(2), of k n] by simp
next
  case (vs_resize k n zu res)
  then show ?thesis using vmo_ok_resize [OF assms(2), of k n zu] by simp
next
  case (vs_cache k pol r)
  then show ?thesis using vmo_ok_cache [OF assms(2), of k pol] by simp
next
  case (vs_append k m r)
  then show ?thesis using vmo_ok_append [OF assms(2), of k m] by simp
next
  case (vs_remove alive k m r)
  then show ?thesis using vmo_ok_remove [OF assms(2), of alive k m] by simp
next
  case (vs_drop k)
  then show ?thesis using vmo_ok_drop [OF assms(2)] by simp
qed

lemma vmo_reach_ok: "vmo_reach s0 s \<Longrightarrow> vmo_ok s0 \<Longrightarrow> vmo_ok s"
  by (induction rule: vmo_reach.induct) (auto intro: vmo_step_ok)

definition vm_start :: "usize list \<Rightarrow> vm_state" where
  "vm_start frames =
     \<lparr>next_koid = init_koid, pmem = (\<lambda>_. 0), avail_frames = frames, host_map = (\<lambda>_. None),
      paged_objs = Map.empty, phys_objs = Map.empty, next_obj = 0, vmos = Map.empty, base_rc = (\<lambda>_. 0)\<rparr>"

lemma vmo_ok_start:
  "distinct frames \<Longrightarrow> \<forall>p \<in> set frames. frame_ok p \<Longrightarrow> vmo_ok (vm_start frames)"
  by (auto simp: vmo_ok_def vm_start_def vmo_tree_def bases_ok_def heap_inv_def holders_def)

lemma vmo_ok_boot: "vmo_ok (vm_start init_frames)"
  using set_init_frames by (intro vmo_ok_start) (simp_all add: distinct_init_frames)

subsection \<open>Properties\<close>



text \<open>C24. In every reachable state parent pointers and child lists agree, no child is listed twice,
  and a parent is always older than its children, so the parent relation has no cycle.\<close>

theorem vmo_tree_consistent:
  assumes "vmo_reach s0 s" and "vmo_ok s0" and "vmos s k = Some v"
  shows "distinct (vo_children v) \<and>
     (\<forall>p. vo_parent v = Some p \<longrightarrow> p < k) \<and>
     (\<forall>c w. vmos s c = Some w \<longrightarrow> (c \<in> set (vo_children v) \<longleftrightarrow> vo_parent w = Some k))"
proof -
  note tree = vmo_okD(1) [OF vmo_reach_ok [OF assms(1,2)]]
  note D = vmo_treeD [OF tree assms(3)]
  have "c \<in> set (vo_children v) \<longleftrightarrow> vo_parent w = Some k" if "vmos s c = Some w" for c w
    using D(5) [of c w] vmo_treeD(6) [OF tree that] that assms(3) by auto
  with D(2,4) show ?thesis by blast
qed

lemma vmo_tree_consistent_witness:
  "\<exists>t v. vmo_reach (vm_start init_frames) t \<and> vmos t 1024 = Some v \<and> distinct (vo_children v)"
proof -
  obtain r t where t: "new_physical 0 1 (vm_start init_frames) = (r, t)" by fastforce
  have nk: "next_koid (vm_start init_frames) = 1024" by (simp add: vm_start_def init_koid_def)
  have reach: "vmo_reach (vm_start init_frames) t"
    by (rule vr_step [OF vr_init]) (rule vs_physical [OF _ t], simp add: nk)
  obtain v where v: "vmos t 1024 = Some v"
    using t by (auto simp: new_physical_def new_koid_def phys_new_def sbind_def vm_start_def init_koid_def
      vmo_alloc_def retain_base_def put_vmo_def)
  show ?thesis using vmo_tree_consistent [OF reach vmo_ok_boot v] reach v by blast
qed

text \<open>Dropping a memory object hands its live children to its parent: each gets the parent as
  its own and appears in the parent's list, from which the dropped object is gone.\<close>

theorem vmo_drop_reparents:
  fixes s :: "'a vm_state_scheme"
  assumes "vmo_tree s" and "vmos s k = Some v" and "vo_parent v = Some p" and "vmos s p = Some pv"
  shows "vmos (vmo_drop k s) k = None \<and>
     (\<exists>pv'. vmos (vmo_drop k s) p = Some pv' \<and>
        set (vo_children pv') =
          {c \<in> set (vo_children pv) \<union> set (vo_children v). c \<noteq> k \<and> vmo_alive s c}) \<and>
     (\<forall>c w. c \<in> set (vo_children v) \<longrightarrow> vmos s c = Some w \<longrightarrow>
        (\<exists>w'. vmos (vmo_drop k s) c = Some w' \<and> vo_parent w' = Some p \<and> vo_trait w' = vo_trait w))"
proof -
  note D = vmo_treeD [OF assms(1)]
  have pk: "p \<noteq> k" using D(4) [OF assms(2,3)] by simp
  have pv_ch: "p \<notin> set (vo_children v)" "p \<notin> set (vo_children pv)" "k \<notin> set (vo_children v)"
    using D(5) [OF assms(2), of p pv] D(4) [OF assms(4), of k] D(4) [OF assms(2,3)]
      D(5) [OF assms(4), of p pv] D(4) [OF assms(4), of p]
      D(5) [OF assms(2), of k v] D(4) [OF assms(2), of k] assms(2,4) by auto
  obtain u :: "'a vm_state_scheme" where u:
    "\<And>c. vmos u c =
        (if c = k then None
         else if c = p then Some (pv\<lparr>vo_children := filter (\<lambda>c. c \<noteq> k \<and> vmo_alive s c) (vo_children pv @ vo_children v)\<rparr>)
         else if c \<in> set (vo_children v) then map_option (\<lambda>w. w\<lparr>vo_parent := Some p\<rparr>) (vmos s c)
         else vmos s c)"
    "vmos (vmo_drop k s) = (\<lambda>c. if c \<in> set (vo_children pv @ vo_children v)
        then map_option (\<lambda>w. w\<lparr>vo_children := filter (vmo_alive u) (vo_children w)\<rparr>) (vmos u c)
        else vmos u c)"
    by (rule vmo_drop_links [OF assms]) (rule that; assumption)
  have "vmos (vmo_drop k s) k = None" by (simp add: u)
  moreover have "vmos (vmo_drop k s) p = vmos u p" using pv_ch by (simp add: u(2))
  moreover have "\<exists>w'. vmos (vmo_drop k s) c = Some w' \<and> vo_parent w' = Some p \<and> vo_trait w' = vo_trait w"
    if "c \<in> set (vo_children v)" "vmos s c = Some w" for c w
    using that pv_ch by (auto simp: u(2) u(1) [of c])
  ultimately show ?thesis using pk by (auto simp: u(1) [of p])
qed

definition demo_family :: vm_state where
  "demo_family = (vm_start [])\<lparr>next_koid := 4,
     vmos := [1 \<mapsto> (vmobject_init ''a'' False (Physical 0) None)\<lparr>vo_children := [2]\<rparr>,
              2 \<mapsto> (vmobject_init ''b'' False (Physical 1) (Some 1))\<lparr>vo_children := [3]\<rparr>,
              3 \<mapsto> vmobject_init ''c'' False (Physical 2) (Some 2)]\<rparr>"

lemma vmo_drop_reparents_witness:
  "\<exists>w. vmos (vmo_drop 2 demo_family) 3 = Some w \<and> vo_parent w = Some 1"
proof -
  have tree: "vmo_tree demo_family"
    by (auto simp: vmo_tree_def demo_family_def vmobject_init_def split: if_splits)
  have "vmos demo_family 2 = Some ((vmobject_init ''b'' False (Physical 1) (Some 1))\<lparr>vo_children := [3]\<rparr>)"
    "vmos demo_family 1 = Some ((vmobject_init ''a'' False (Physical 0) None)\<lparr>vo_children := [2]\<rparr>)"
    "vmos demo_family 3 = Some (vmobject_init ''c'' False (Physical 2) (Some 2))"
    by (simp_all add: demo_family_def)
  with vmo_drop_reparents [OF tree this(1) _ this(2)] show ?thesis
    by (auto simp: vmobject_init_def)
qed

text \<open>A read through a slice is the read of its parent at the shifted offset, and a range that
  reaches the end of the slice is refused: the last byte of a slice cannot be read.\<close>

lemma slice_read:
  assumes "off + sz < usize_lim" and "offset + length buf < usize_lim"
  shows "trait_read (Slice p off sz) offset buf s =
     (if offset + length buf < sz then trait_read p (off + offset) buf s else Inl (Err OUT_OF_RANGE))"
  using assms by (auto simp: trait_read_slice add.commute simp del: trait_read.simps)

lemma slice_read_witness:
  "trait_read (Slice (Physical 0) 4096 4096) 4095 [0] (vm_start []) = Inl (Err OUT_OF_RANGE)"
  using slice_read [of 4096 4096 4095 "[0]" "Physical 0" "vm_start []"] by simp

text \<open>\<open>create_slice\<close> only makes slices that lie wholly inside the parent, at a page boundary, and
  never of a resizable object.\<close>

theorem create_slice_inside:
  assumes "vmo_create_slice k offset p_size s = (Inr c, t)" and "p_size < usize_lim"
    and "vmos s k = Some v" and "k \<noteq> next_koid s"
  shows "\<exists>w n. vmos t c = Some w \<and> vo_trait w = Slice (vo_trait v) offset (roundup_pages p_size) \<and>
     vo_parent w = Some k \<and> trait_len (vo_trait v) s = Inr n \<and> offset + roundup_pages p_size \<le> n \<and>
     p_size \<le> roundup_pages p_size \<and> page_aligned offset \<and> \<not> vo_resizable v"
proof -
  obtain sz where sz: "slice_args v offset p_size s = Inr sz"
    using assms(1,3) by (auto simp: vmo_create_slice_def with_vmo_def sbind_def split: sum.splits)
  have c: "c = next_koid s" "vmos t = (vmos s)(next_koid s \<mapsto> vmobject_init (vo_name v) False (Slice (vo_trait v) offset sz) (Some k),
       k \<mapsto> v\<lparr>vo_children := filter (\<lambda>c. c = next_koid s \<or> vmo_alive s c) (vo_children v) @ [next_koid s]\<rparr>)"
    using assms(1,3) sz add_child_result [OF assms(3,4) refl, of "vmobject_init (vo_name v) False (Slice (vo_trait v) offset sz) (Some k)"]
    by (auto simp: vmo_create_slice_def with_vmo_def sbind_def [of "slift _"] new_koid_def)
  from slice_args_ok [OF sz assms(2)] c assms(4) show ?thesis
    by (auto simp: vmobject_init_def)
qed

lemma create_slice_inside_witness:
  "\<exists>t w. vmo_create_slice 1 4096 4095 (demo_family\<lparr>phys_objs := [0 \<mapsto> \<lparr>ph_paddr = 8192, ph_pages = 2, ph_cache = Uncached\<rparr>]\<rparr>) = (Inr 4, t)
     \<and> vmos t 4 = Some w \<and> vo_trait w = Slice (Physical 0) 4096 4096"
proof -
  let ?s = "demo_family\<lparr>phys_objs := [0 \<mapsto> \<lparr>ph_paddr = 8192, ph_pages = 2, ph_cache = Uncached\<rparr>]\<rparr>"
  have v: "vmos ?s 1 = Some ((vmobject_init ''a'' False (Physical 0) None)\<lparr>vo_children := [2]\<rparr>)"
    by (simp add: demo_family_def)
  have ru: "roundup_pages 4095 = 4096" by (simp add: roundup_pages_def pages_eq)
  have args: "slice_args ((vmobject_init ''a'' False (Physical 0) None)\<lparr>vo_children := [2]\<rparr>) 4096 4095 ?s = Inr 4096"
    by (simp add: slice_args_def ru SLICE_SIZE_MAX_def get_phys_def phys_len_def vmobject_init_def
      rbind_eq_Inr page_aligned_iff umul_def)
  obtain t where new: "vmo_create_slice 1 4096 4095 ?s = (Inr 4, t)"
    using v args by (simp add: vmo_create_slice_def with_vmo_def sbind_def new_koid_def add_child_def
      vmo_alloc_def retain_base_def put_vmo_def demo_family_def)
  have "1 \<noteq> next_koid ?s" by (simp add: demo_family_def)
  from create_slice_inside [OF new _ v this] new ru show ?thesis
    by (auto simp: vmobject_init_def)
qed

end
