(* ===== verification/Vmar.thy ===== *)
theory Vmar
  imports Vmo_Life
begin

text \<open>
  Virtual memory address regions (\<^verbatim>\<open>zircon-object/src/vm/vmar.rs\<close>): a tree of regions in a store by
  object id, each with its child regions and its mappings, or destroyed. A mapping belongs to one
  region and is held by value; \<open>mp_id\<close> is the identity that the weak list of the memory object
  keeps. Every method of \<open>VmAddressRegion\<close> and of \<open>VmMapping\<close> is translated, with the overflow
  checks of its address arithmetic and its debug assertions.
\<close>

subsection \<open>State\<close>

record vm_mapping =
  mp_id :: nat
  mp_permissions :: mmu_flags
  mp_vmo :: koid
  mp_flags :: "mmu_flags list"
  mp_addr :: usize
  mp_size :: usize
  mp_vmo_offset :: usize

record vmar_inner =
  vin_children :: "koid list"
  vin_mappings :: "vm_mapping list"

record vmar =
  va_flags :: vmar_flags
  va_addr :: usize
  va_size :: usize
  va_parent :: "koid option"
  va_inner :: "vmar_inner option"

record vmar_state = vm_state +
  vmars :: "koid \<Rightarrow> vmar option"
  next_root :: nat
  next_mapping :: nat

definition put_vmar :: "koid \<Rightarrow> vmar \<Rightarrow> 'a vmar_state_scheme \<Rightarrow> 'a vmar_state_scheme" where
  "put_vmar k v s = s\<lparr>vmars := (vmars s)(k \<mapsto> v)\<rparr>"

definition get_vmar :: "koid \<Rightarrow> 'a vmar_state_scheme \<Rightarrow> vmar zx" where
  "get_vmar k s = ok_or NoRef (vmars s k)"

definition with_inner ::
  "koid \<Rightarrow> (vmar \<Rightarrow> vmar_inner \<Rightarrow> 'a vmar_state_scheme \<Rightarrow> 'b zx \<times> 'a vmar_state_scheme) \<Rightarrow>
   'a vmar_state_scheme \<Rightarrow> 'b zx \<times> 'a vmar_state_scheme" where
  \<comment> \<open>\<open>guard.as_mut().ok_or(ZxError::BAD_STATE)?\<close>\<close>
  "with_inner k f s =
     (case vmars s k of
        None \<Rightarrow> (Inl NoRef, s)
      | Some v \<Rightarrow> (case va_inner v of None \<Rightarrow> (Inl (Err BAD_STATE), s) | Some inn \<Rightarrow> f v inn s))"

definition put_inner :: "koid \<Rightarrow> vmar_inner option \<Rightarrow> 'a vmar_state_scheme \<Rightarrow> 'a vmar_state_scheme" where
  "put_inner k i s =
     (case vmars s k of None \<Rightarrow> s | Some v \<Rightarrow> put_vmar k (v\<lparr>va_inner := i\<rparr>) s)"

definition inner_default :: vmar_inner where
  "inner_default = \<lparr>vin_children = [], vin_mappings = []\<rparr>"

subsection \<open>Short-circuiting searches whose test may panic\<close>

primrec zx_any :: "('a \<Rightarrow> bool zx) \<Rightarrow> 'a list \<Rightarrow> bool zx" where
  "zx_any p [] = Inr False"
| "zx_any p (x # xs) = rbind (p x) (\<lambda>b. if b then Inr True else zx_any p xs)"

primrec zx_find :: "('a \<Rightarrow> bool zx) \<Rightarrow> 'a zx list \<Rightarrow> 'a option zx" where
  "zx_find p [] = Inr None"
| "zx_find p (c # cs) =
     rbind c (\<lambda>x. rbind (p x) (\<lambda>b. if b then Inr (Some x) else zx_find p cs))"

primrec zx_filter :: "('a \<Rightarrow> bool zx) \<Rightarrow> 'a list \<Rightarrow> 'a list zx" where
  "zx_filter p [] = Inr []"
| "zx_filter p (x # xs) =
     rbind (p x) (\<lambda>b. rbind (zx_filter p xs) (\<lambda>ys. Inr (if b then x # ys else ys)))"

subsection \<open>Ranges\<close>

definition range_overlap :: "usize \<Rightarrow> usize \<Rightarrow> usize \<Rightarrow> usize \<Rightarrow> bool zx" where
  \<comment> \<open>\<open>!(self.addr >= end || self.end_addr() <= begin)\<close>\<close>
  "range_overlap a sz b e =
     (if a \<ge> e then Inr False else rbind (uadd a sz) (\<lambda>en. Inr (\<not> en \<le> b)))"

definition range_within :: "usize \<Rightarrow> usize \<Rightarrow> usize \<Rightarrow> usize \<Rightarrow> bool zx" where
  "range_within a sz b e =
     (if b \<le> a then rbind (uadd a sz) (\<lambda>en. Inr (en \<le> e)) else Inr False)"

definition range_partial :: "usize \<Rightarrow> usize \<Rightarrow> usize \<Rightarrow> usize \<Rightarrow> bool zx" where
  "range_partial a sz b e =
     rbind (range_overlap a sz b e) (\<lambda>o1.
       if o1 then rbind (range_within a sz b e) (\<lambda>w. Inr (\<not> w)) else Inr False)"

definition range_contains :: "usize \<Rightarrow> usize \<Rightarrow> usize \<Rightarrow> bool zx" where
  "range_contains a sz v =
     (if a \<le> v then rbind (uadd a sz) (\<lambda>en. Inr (v < en)) else Inr False)"

definition vmar_overlap :: "'a vmar_state_scheme \<Rightarrow> usize \<Rightarrow> usize \<Rightarrow> koid \<Rightarrow> bool zx" where
  "vmar_overlap s b e c = rbind (get_vmar c s) (\<lambda>w. range_overlap (va_addr w) (va_size w) b e)"

definition vmar_within :: "'a vmar_state_scheme \<Rightarrow> usize \<Rightarrow> usize \<Rightarrow> koid \<Rightarrow> bool zx" where
  "vmar_within s b e c = rbind (get_vmar c s) (\<lambda>w. range_within (va_addr w) (va_size w) b e)"

definition vmar_partial :: "'a vmar_state_scheme \<Rightarrow> usize \<Rightarrow> usize \<Rightarrow> koid \<Rightarrow> bool zx" where
  "vmar_partial s b e c = rbind (get_vmar c s) (\<lambda>w. range_partial (va_addr w) (va_size w) b e)"

definition vmar_contains :: "usize \<Rightarrow> vmar \<Rightarrow> bool zx" where
  "vmar_contains a w = range_contains (va_addr w) (va_size w) a"

definition map_overlap :: "usize \<Rightarrow> usize \<Rightarrow> vm_mapping \<Rightarrow> bool zx" where
  "map_overlap b e m = range_overlap (mp_addr m) (mp_size m) b e"

definition map_within :: "usize \<Rightarrow> usize \<Rightarrow> vm_mapping \<Rightarrow> bool zx" where
  "map_within b e m = range_within (mp_addr m) (mp_size m) b e"

definition map_partial :: "usize \<Rightarrow> usize \<Rightarrow> vm_mapping \<Rightarrow> bool zx" where
  "map_partial b e m = range_partial (mp_addr m) (mp_size m) b e"

subsection \<open>Choosing an address\<close>

definition test_map ::
  "'a vmar_state_scheme \<Rightarrow> vmar \<Rightarrow> vmar_inner \<Rightarrow> usize \<Rightarrow> usize \<Rightarrow> usize \<Rightarrow> bool zx" where
  "test_map s v inn len align offset =
     rbind (check_aligned offset align) (\<lambda>oa. if \<not> oa then Inl Panic
     else rbind (check_aligned len align) (\<lambda>la. if \<not> la then Inl Panic
     else rbind (uadd (va_addr v) offset) (\<lambda>b.
          rbind (uadd b len) (\<lambda>e.
          rbind (uadd (va_addr v) (va_size v)) (\<lambda>lim.
            if e > lim then Inr False
            else rbind (zx_any (vmar_overlap s b e) (vin_children inn)) (\<lambda>oc.
              if oc then Inr False
              else rbind (zx_any (map_overlap b e) (vin_mappings inn)) (\<lambda>om. Inr (\<not> om))))))))"

definition end_offset :: "vmar \<Rightarrow> usize \<Rightarrow> usize \<Rightarrow> usize zx" where
  \<comment> \<open>\<open>map.end_addr() - self.addr\<close>\<close>
  "end_offset v a sz = rbind (uadd a sz) (\<lambda>en. usub en (va_addr v))"

definition find_free_area ::
  "'a vmar_state_scheme \<Rightarrow> vmar \<Rightarrow> vmar_inner \<Rightarrow> usize \<Rightarrow> usize \<Rightarrow> usize \<Rightarrow> usize option zx" where
  "find_free_area s v inn hint len align =
     rbind (check_aligned hint align) (\<lambda>ha. if \<not> ha then Inl Panic
     else rbind (check_aligned len align) (\<lambda>la. if \<not> la then Inl Panic
     else zx_find (test_map s v inn len align)
       ([Inr hint]
        @ map (\<lambda>c. rbind (get_vmar c s) (\<lambda>w. end_offset v (va_addr w) (va_size w))) (vin_children inn)
        @ map (\<lambda>m. end_offset v (mp_addr m) (mp_size m)) (vin_mappings inn))))"

definition determine_offset ::
  "'a vmar_state_scheme \<Rightarrow> vmar \<Rightarrow> vmar_inner \<Rightarrow> usize option \<Rightarrow> usize \<Rightarrow> usize \<Rightarrow> usize zx" where
  "determine_offset s v inn offset len align =
     rbind (check_aligned len align) (\<lambda>la.
       if \<not> la then Inl (Err INVALID_ARGS)
       else case offset of
         Some o1 \<Rightarrow>
           rbind (check_aligned o1 align) (\<lambda>oa.
             if \<not> oa then Inl (Err INVALID_ARGS)
             else rbind (test_map s v inn len align o1) (\<lambda>ok.
               if ok then Inr o1 else Inl (Err INVALID_ARGS)))
       | None \<Rightarrow>
           if len > va_size v then Inl (Err INVALID_ARGS)
           else rbind (find_free_area s v inn 0 len align) (\<lambda>r.
             case r of Some o1 \<Rightarrow> Inr o1 | None \<Rightarrow> Inl (Err NO_MEMORY)))"

subsection \<open>Creation\<close>

definition KERNEL_ASPACE_BASE :: u64 where "KERNEL_ASPACE_BASE = 0xffffff0200000000"
definition KERNEL_ASPACE_SIZE :: u64 where "KERNEL_ASPACE_SIZE = 0x0000008000000000"
definition USER_ASPACE_BASE :: u64 where "USER_ASPACE_BASE = 0"
definition USER_ASPACE_SIZE :: u64 where "USER_ASPACE_SIZE = push_bit 47 1 - 4096 - USER_ASPACE_BASE"

definition ROOT_SIZE :: usize where "ROOT_SIZE = 0x10000000000"
definition ROOT_BASE :: usize where "ROOT_BASE = 0x200000000"

definition new_root :: "'a vmar_state_scheme \<Rightarrow> koid zx \<times> 'a vmar_state_scheme" where
  "new_root s =
     (let i = next_root s; s1 = s\<lparr>next_root := (i + 1) mod usize_lim\<rparr>
      in case rbind (umul ROOT_SIZE i) (uadd ROOT_BASE) of
           Inl f \<Rightarrow> (Inl f, s1)
         | Inr a \<Rightarrow>
             let (k, s2) = new_koid s1
             in (Inr k, put_vmar k \<lparr>va_flags = VF_ROOT_FLAGS, va_addr = a, va_size = ROOT_SIZE,
                   va_parent = None, va_inner = Some inner_default\<rparr> s2))"

definition new_kernel :: "'a vmar_state_scheme \<Rightarrow> koid zx \<times> 'a vmar_state_scheme" where
  "new_kernel s =
     (let (k, s1) = new_koid s
      in (Inr k, put_vmar k \<lparr>va_flags = VF_ROOT_FLAGS, va_addr = unat KERNEL_ASPACE_BASE,
            va_size = unat KERNEL_ASPACE_SIZE, va_parent = None, va_inner = Some inner_default\<rparr> s1))"

definition allocate ::
  "koid \<Rightarrow> usize option \<Rightarrow> usize \<Rightarrow> vmar_flags \<Rightarrow> usize \<Rightarrow> 'a vmar_state_scheme \<Rightarrow>
   koid zx \<times> 'a vmar_state_scheme" where
  "allocate k offset len flags align =
     with_inner k (\<lambda>v inn.
       sbind (slift (\<lambda>s. determine_offset s v inn offset len align)) (\<lambda>o1 s.
         let (c, s1) = new_koid s
         in case uadd (va_addr v) o1 of
              Inl f \<Rightarrow> (Inl f, s1)
            | Inr a \<Rightarrow>
                (Inr c, put_inner k (Some (inn\<lparr>vin_children := vin_children inn @ [c]\<rparr>))
                   (put_vmar c \<lparr>va_flags = flags, va_addr = a, va_size = len, va_parent = Some k,
                      va_inner = Some inner_default\<rparr> s1))))"

definition allocate_at ::
  "koid \<Rightarrow> usize \<Rightarrow> usize \<Rightarrow> vmar_flags \<Rightarrow> usize \<Rightarrow> 'a vmar_state_scheme \<Rightarrow>
   koid zx \<times> 'a vmar_state_scheme" where
  "allocate_at k offset len flags align = allocate k (Some offset) len flags align"

subsection \<open>Mappings\<close>

definition mapping_new ::
  "usize \<Rightarrow> usize \<Rightarrow> koid \<Rightarrow> usize \<Rightarrow> mmu_flags \<Rightarrow> mmu_flags \<Rightarrow> 'a vmar_state_scheme \<Rightarrow>
   vm_mapping zx \<times> 'a vmar_state_scheme" where
  "mapping_new addr len vmo vmo_offset permissions flags s =
     (let m = \<lparr>mp_id = next_mapping s, mp_permissions = permissions, mp_vmo = vmo,
               mp_flags = replicate (pages len) flags, mp_addr = addr, mp_size = len,
               mp_vmo_offset = vmo_offset\<rparr>
      in sbind (vmo_append_mapping vmo (mp_id m)) (\<lambda>_. sret m)
           (s\<lparr>next_mapping := next_mapping s + 1\<rparr>))"

definition nth_flag :: "vm_mapping \<Rightarrow> nat \<Rightarrow> mmu_flags zx" where
  "nth_flag m i = (if i < length (mp_flags m) then Inr (mp_flags m ! i) else Inl Panic)"

definition map_page :: "vm_mapping \<Rightarrow> vmo_trait \<Rightarrow> nat \<Rightarrow> 'a vmar_state_scheme st_unit" where
  \<comment> \<open>one turn of the loop of \<open>VmMapping::map\<close>\<close>
  "map_page m t i =
     sbind (slift (\<lambda>s. rbind (uadd (mp_vmo_offset m div PAGE_SIZE) i) (\<lambda>idx.
              rbind (nth_flag m i) (\<lambda>fl.
              rbind (trait_committer t s idx fl) (\<lambda>paddr.
              rbind (umul i PAGE_SIZE) (\<lambda>d.
              rbind (uadd (mp_addr m) d) (\<lambda>va. Inr (va, paddr, fl)))))))) (\<lambda>(va, paddr, fl).
       pt_map va paddr fl)"

definition mapping_map :: "vm_mapping \<Rightarrow> 'a vmar_state_scheme st_unit" where
  "mapping_map m =
     with_vmo (mp_vmo m) (\<lambda>v.
       sfor (map_page m (vo_trait v)) [0..<mp_size m div PAGE_SIZE])"

definition mapping_unmap :: "vm_mapping \<Rightarrow> 'a vmar_state_scheme st_unit" where
  "mapping_unmap m = pt_unmap_cont (mp_addr m) (mp_size m div PAGE_SIZE)"

definition mapping_drop :: "vm_mapping \<Rightarrow> 'a vmar_state_scheme st_unit" where
  "mapping_drop m = mapping_unmap m"

definition is_valid_mapping_flags :: "vm_mapping \<Rightarrow> mmu_flags \<Rightarrow> bool" where
  "is_valid_mapping_flags m flags = flags_contains (mp_permissions m) (flags AND MMU_RXW)"

primrec mapping_protect ::
  "mmu_flags \<Rightarrow> nat list \<Rightarrow> vm_mapping \<Rightarrow> 'a vmar_state_scheme \<Rightarrow> vm_mapping zx \<times> 'a vmar_state_scheme" where
  \<comment> \<open>\<open>VmMapping::protect\<close> on the page indices of \<open>start_index..end_index\<close>\<close>
  "mapping_protect flags [] m = sret m"
| "mapping_protect flags (i # is) m =
     sbind (slift (\<lambda>_. nth_flag m i)) (\<lambda>fl.
       let fl' = (fl AND NOT MMU_RXW) OR (flags AND MMU_RXW)
       in sbind (slift (\<lambda>_. rbind (umul i PAGE_SIZE) (uadd (mp_addr m)))) (\<lambda>va.
          sbind (pt_protect va fl') (\<lambda>_.
            mapping_protect flags is (m\<lparr>mp_flags := (mp_flags m)[i := fl']\<rparr>))))"

definition mapping_get_flags :: "vm_mapping \<Rightarrow> usize \<Rightarrow> mmu_flags zx" where
  "mapping_get_flags m vaddr =
     rbind (range_contains (mp_addr m) (mp_size m) vaddr) (\<lambda>c.
       if c then nth_flag m ((vaddr - mp_addr m) div PAGE_SIZE) else Inl (Err NO_MEMORY))"

definition map_args ::
  "koid \<Rightarrow> usize \<Rightarrow> usize \<Rightarrow> mmu_flags \<Rightarrow> mmu_flags \<Rightarrow> bool \<Rightarrow> bool \<Rightarrow> 'a vmar_state_scheme \<Rightarrow> unit zx" where
  \<comment> \<open>the checks of \<open>map_ext\<close> before the region is locked\<close>
  "map_args vmo vmo_offset len permissions flags overwrite map_range s =
     (if \<not> page_aligned vmo_offset \<or> \<not> page_aligned len \<or> vmo_offset + len \<ge> usize_lim
      then Inl (Err INVALID_ARGS)
      else if \<not> flags_contains permissions (flags AND MMU_RXW) then Inl (Err ACCESS_DENIED)
      else rbind (vmo_len vmo s) (\<lambda>n.
        if vmo_offset > n \<or> len > n - vmo_offset then Inl (Err INVALID_ARGS)
        else if overwrite \<or> \<not> map_range then Inl (Err INVALID_ARGS)
        else Inr ()))"

definition vmo_map_flags :: "koid \<Rightarrow> mmu_flags \<Rightarrow> 'a vmar_state_scheme \<Rightarrow> mmu_flags zx" where
  "vmo_map_flags vmo flags s =
     rbind (get_vmo vmo s) (\<lambda>vo. rbind (trait_cache_policy (vo_trait vo) s) (\<lambda>pol.
       Inr (flags OR mmu_from_bits_truncate (of_nat (unat (cache_policy_code pol))))))"

definition map_ext ::
  "koid \<Rightarrow> usize option \<Rightarrow> koid \<Rightarrow> usize \<Rightarrow> usize \<Rightarrow> mmu_flags \<Rightarrow> mmu_flags \<Rightarrow> bool \<Rightarrow> bool \<Rightarrow>
   'a vmar_state_scheme \<Rightarrow> usize zx \<times> 'a vmar_state_scheme" where
  "map_ext k vmar_offset vmo vmo_offset len permissions flags overwrite map_range =
     sbind (slift (map_args vmo vmo_offset len permissions flags overwrite map_range)) (\<lambda>_.
     with_inner k (\<lambda>v inn.
       sbind (slift (\<lambda>s. determine_offset s v inn vmar_offset len PAGE_SIZE)) (\<lambda>o1.
       sbind (slift (\<lambda>_. uadd (va_addr v) o1)) (\<lambda>addr.
       sbind (slift (vmo_map_flags vmo flags)) (\<lambda>fl.
       sbind (slift (\<lambda>s. test_map s v inn len PAGE_SIZE o1)) (\<lambda>ok.
         if \<not> ok then sfail (Err NO_MEMORY)
         else sbind (mapping_new addr len vmo vmo_offset permissions fl) (\<lambda>m s.
           case mapping_map m s of
             (Inl (Err e), s1) \<Rightarrow> sbind (mapping_drop m) (\<lambda>_. sfail (Err e)) s1
           | (Inl f, s1) \<Rightarrow> (Inl f, s1)
           | (Inr _, s1) \<Rightarrow>
               (Inr addr, put_inner k (Some (inn\<lparr>vin_mappings := vin_mappings inn @ [m]\<rparr>)) s1))))))))"

definition vmar_map ::
  "koid \<Rightarrow> usize option \<Rightarrow> koid \<Rightarrow> usize \<Rightarrow> usize \<Rightarrow> mmu_flags \<Rightarrow> 'a vmar_state_scheme \<Rightarrow>
   usize zx \<times> 'a vmar_state_scheme" where
  "vmar_map k vmar_offset vmo vmo_offset len flags =
     map_ext k vmar_offset vmo vmo_offset len MMU_RXW flags False True"

definition vmar_map_at ::
  "koid \<Rightarrow> usize \<Rightarrow> koid \<Rightarrow> usize \<Rightarrow> usize \<Rightarrow> mmu_flags \<Rightarrow> 'a vmar_state_scheme \<Rightarrow>
   usize zx \<times> 'a vmar_state_scheme" where
  "vmar_map_at k vmar_offset vmo vmo_offset len flags = vmar_map k (Some vmar_offset) vmo vmo_offset len flags"

subsection \<open>Destruction\<close>

fun destroy_internal :: "nat \<Rightarrow> koid \<Rightarrow> 'a vmar_state_scheme st_unit" where
  \<comment> \<open>\<open>drain\<close> empties the list of children even when a child fails\<close>
  "destroy_internal 0 k s = (Inl NoFuel, s)"
| "destroy_internal (Suc n) k s =
     with_inner k (\<lambda>v inn s.
       sbind (sfor (destroy_internal n) (vin_children inn)) (\<lambda>_.
       sbind (sfor mapping_drop (vin_mappings inn)) (\<lambda>_ s1.
         (Inr (), put_inner k None s1)))
         (put_inner k (Some (inn\<lparr>vin_children := []\<rparr>)) s)) s"

definition destroy_fuel :: "'a vmar_state_scheme \<Rightarrow> nat" where
  "destroy_fuel s = Suc (unat (next_koid s))"

definition vmar_clear :: "koid \<Rightarrow> 'a vmar_state_scheme st_unit" where
  "vmar_clear k =
     with_inner k (\<lambda>v inn s.
       sbind (sfor (destroy_internal (destroy_fuel s)) (vin_children inn)) (\<lambda>_.
       sbind (sfor mapping_drop (vin_mappings inn)) (\<lambda>_ s1.
         (Inr (), put_inner k (Some inner_default) s1)))
         (put_inner k (Some (inn\<lparr>vin_children := []\<rparr>)) s))"

definition vmar_destroy :: "koid \<Rightarrow> 'a vmar_state_scheme st_unit" where
  "vmar_destroy k s =
     sbind (destroy_internal (destroy_fuel s) k) (\<lambda>_.
     sbind (slift (get_vmar k)) (\<lambda>v.
       case va_parent v of
         None \<Rightarrow> sret ()
       | Some p \<Rightarrow> with_inner p (\<lambda>_ pinn s1.
           (Inr (), put_inner p (Some (pinn\<lparr>vin_children := filter (\<lambda>c. c \<noteq> k) (vin_children pinn)\<rparr>)) s1)))) s"

definition vmar_unmap :: "koid \<Rightarrow> usize \<Rightarrow> usize \<Rightarrow> 'a vmar_state_scheme st_unit" where
  "vmar_unmap k addr len =
     (if \<not> page_aligned addr \<or> \<not> page_aligned len \<or> len = 0 then sfail (Err INVALID_ARGS)
      else with_inner k (\<lambda>v inn.
        sbind (slift (\<lambda>_. uadd addr len)) (\<lambda>e.
        sbind (slift (\<lambda>s. zx_any (vmar_partial s addr e) (vin_children inn))) (\<lambda>pc.
        if pc then sfail (Err INVALID_ARGS)
        else sbind (slift (\<lambda>_. zx_any (map_partial addr e) (vin_mappings inn))) (\<lambda>pm.
        if pm then sfail (Err INVALID_ARGS)
        else sbind (slift (\<lambda>_. zx_filter (map_within addr e) (vin_mappings inn))) (\<lambda>gone.
             sbind (slift (\<lambda>s. zx_filter (vmar_within s addr e) (vin_children inn))) (\<lambda>dead.
             sbind (sfor mapping_drop gone) (\<lambda>_ s.
               sfor (destroy_internal (destroy_fuel s)) dead
                 (put_inner k (Some \<lparr>vin_children = filter (\<lambda>c. c \<notin> set dead) (vin_children inn),
                    vin_mappings = filter (\<lambda>m. m \<notin> set gone) (vin_mappings inn)\<rparr>) s)))))))))"

subsection \<open>Protection\<close>

definition covered_len :: "usize \<Rightarrow> usize \<Rightarrow> vm_mapping list \<Rightarrow> usize zx" where
  \<comment> \<open>the fold over the mappings; \<open>saturating_sub\<close> is the subtraction of naturals\<close>
  "covered_len addr end_addr ms =
     fold (\<lambda>m acc. rbind acc (\<lambda>a. rbind (uadd (mp_addr m) (mp_size m)) (\<lambda>en.
              uadd a (min end_addr en - max addr (mp_addr m))))) ms (Inr 0)"

definition protect_range :: "usize \<Rightarrow> usize \<Rightarrow> vm_mapping \<Rightarrow> nat list zx" where
  "protect_range addr end_addr m =
     rbind (uadd (mp_addr m) (mp_size m)) (\<lambda>en.
     rbind (usub (min end_addr en) (mp_addr m)) (\<lambda>d.
       Inr [pages (max addr (mp_addr m) - mp_addr m) ..< pages d]))"

primrec protect_all ::
  "usize \<Rightarrow> usize \<Rightarrow> mmu_flags \<Rightarrow> vm_mapping list \<Rightarrow> 'a vmar_state_scheme \<Rightarrow>
   vm_mapping list zx \<times> 'a vmar_state_scheme" where
  "protect_all addr e flags [] = sret []"
| "protect_all addr e flags (m # ms) =
     sbind (slift (\<lambda>_. map_overlap addr e m)) (\<lambda>ov.
     sbind (if ov then sbind (slift (\<lambda>_. protect_range addr e m)) (\<lambda>is. mapping_protect flags is m)
            else sret m) (\<lambda>m'.
     sbind (protect_all addr e flags ms) (\<lambda>ms'. sret (m' # ms'))))"

definition vmar_protect :: "koid \<Rightarrow> usize \<Rightarrow> usize \<Rightarrow> mmu_flags \<Rightarrow> 'a vmar_state_scheme st_unit" where
  "vmar_protect k addr len flags =
     (if \<not> page_aligned addr \<or> \<not> page_aligned len then sfail (Err INVALID_ARGS)
      else with_inner k (\<lambda>v inn.
        sbind (slift (\<lambda>_. uadd addr len)) (\<lambda>e.
        sbind (slift (\<lambda>s. zx_any (vmar_overlap s addr e) (vin_children inn))) (\<lambda>oc.
        if oc then sfail (Err INVALID_ARGS)
        else sbind (slift (\<lambda>_. covered_len addr e (vin_mappings inn))) (\<lambda>n.
        if n \<noteq> len then sfail (Err NOT_FOUND)
        else sbind (slift (\<lambda>_. zx_any (\<lambda>m. rbind (map_overlap addr e m) (\<lambda>ov.
               Inr (ov \<and> \<not> is_valid_mapping_flags m flags))) (vin_mappings inn))) (\<lambda>bad.
        if bad then sfail (Err ACCESS_DENIED)
        else sbind (protect_all addr e flags (vin_mappings inn)) (\<lambda>ms s.
               (Inr (), put_inner k (Some (inn\<lparr>vin_mappings := ms\<rparr>)) s))))))))"

subsection \<open>Information\<close>

definition vmar_is_dead :: "koid \<Rightarrow> 'a vmar_state_scheme \<Rightarrow> bool zx" where
  "vmar_is_dead k s = rbind (get_vmar k s) (\<lambda>v. Inr (va_inner v = None))"

definition vmar_is_alive :: "koid \<Rightarrow> 'a vmar_state_scheme \<Rightarrow> bool zx" where
  "vmar_is_alive k s = rbind (vmar_is_dead k s) (\<lambda>d. Inr (\<not> d))"

definition vmar_addr :: "koid \<Rightarrow> 'a vmar_state_scheme \<Rightarrow> usize zx" where
  "vmar_addr k s = rbind (get_vmar k s) (\<lambda>v. Inr (va_addr v))"

record vmar_info =
  vri_base :: usize
  vri_len :: usize

definition vmar_get_info :: "koid \<Rightarrow> 'a vmar_state_scheme \<Rightarrow> vmar_info zx" where
  "vmar_get_info k s = rbind (get_vmar k s) (\<lambda>v. Inr \<lparr>vri_base = va_addr v, vri_len = va_size v\<rparr>)"

definition vmar_get_flags :: "koid \<Rightarrow> 'a vmar_state_scheme \<Rightarrow> vmar_flags zx" where
  "vmar_get_flags k s = rbind (get_vmar k s) (\<lambda>v. Inr (va_flags v))"

end
