(* ===== verification/Vmar_Space.thy ===== *)
theory Vmar_Space
  imports Vmar
begin

text \<open>
  The layout of an address space: the sub-regions and mappings of a region lie inside it and do not
  overlap, and every operation on regions keeps this, whatever its outcome. The search for a free
  area is complete: it fails only when no page-aligned offset fits.
\<close>

subsection \<open>Ranges\<close>

definition sep :: "usize \<times> usize \<Rightarrow> usize \<times> usize \<Rightarrow> bool" where
  "sep r q \<longleftrightarrow> fst r + snd r \<le> fst q \<or> fst q + snd q \<le> fst r"

definition inside :: "usize \<times> usize \<Rightarrow> usize \<times> usize \<Rightarrow> bool" where
  "inside r q \<longleftrightarrow> fst q \<le> fst r \<and> fst r + snd r \<le> fst q + snd q"

lemma sep_sym: "sep r q = sep q r"
  by (auto simp: sep_def)

primrec sep_list :: "(usize \<times> usize) list \<Rightarrow> bool" where
  "sep_list [] = True"
| "sep_list (r # rs) \<longleftrightarrow> (\<forall>q \<in> set rs. sep r q) \<and> sep_list rs"

lemma sep_list_append:
  "sep_list (xs @ ys) \<longleftrightarrow> sep_list xs \<and> sep_list ys \<and> (\<forall>x \<in> set xs. \<forall>y \<in> set ys. sep x y)"
  by (induction xs) auto

lemma sep_list_filter: "sep_list (map f xs) \<Longrightarrow> sep_list (map f (filter P xs))"
  by (induction xs) auto

lemma sep_list_nth: "sep_list xs \<Longrightarrow> i < j \<Longrightarrow> j < length xs \<Longrightarrow> sep (xs ! i) (xs ! j)"
proof (induction xs arbitrary: i j)
  case Nil
  then show ?case by simp
next
  case (Cons x xs)
  then show ?case by (cases i; cases j) auto
qed

definition vmar_range :: "'a vmar_state_scheme \<Rightarrow> koid \<Rightarrow> usize \<times> usize" where
  "vmar_range s c = (case vmars s c of None \<Rightarrow> (0, 0) | Some w \<Rightarrow> (va_addr w, va_size w))"

definition map_span :: "vm_mapping \<Rightarrow> usize \<times> usize" where
  "map_span m = (mp_addr m, mp_size m)"

definition sub_ranges :: "'a vmar_state_scheme \<Rightarrow> vmar_inner \<Rightarrow> (usize \<times> usize) list" where
  "sub_ranges s inn = map (vmar_range s) (vin_children inn) @ map map_span (vin_mappings inn)"

lemma range_overlap_False:
  "range_overlap a n b e = Inr False \<longleftrightarrow> e \<le> a \<or> a + n \<le> b \<and> a + n < usize_lim"
  by (auto simp: range_overlap_def rbind_eq_Inr)

lemma range_overlap_sep:
  "range_overlap a n b (b + l) = Inr False \<Longrightarrow> sep (b, l) (a, n)"
  by (auto simp: range_overlap_False sep_def)

lemma zx_any_False: "zx_any p xs = Inr False \<longleftrightarrow> (\<forall>x \<in> set xs. p x = Inr False)"
  by (induction xs) (auto simp: rbind_eq_Inr split: if_splits)

lemma zx_any_Inr: "(\<And>x. x \<in> set xs \<Longrightarrow> p x = Inr (q x)) \<Longrightarrow> zx_any p xs = Inr (\<exists>x \<in> set xs. q x)"
  by (induction xs) auto

lemma zx_filter_Inr: "zx_filter p xs = Inr ys \<Longrightarrow> ys = filter (\<lambda>x. p x = Inr True) xs"
  by (induction xs arbitrary: ys) (auto simp: rbind_eq_Inr)

lemma zx_find_Some: "zx_find p cs = Inr (Some x) \<Longrightarrow> Inr x \<in> set cs \<and> p x = Inr True"
  by (induction cs) (auto simp: rbind_eq_Inr split: if_splits)

text \<open>What a successful \<open>test_map\<close> establishes.\<close>

lemma test_map_True:
  assumes "test_map s v inn len align off = Inr True"
  shows "inside (va_addr v + off, len) (va_addr v, va_size v)"
    and "\<forall>r \<in> set (sub_ranges s inn). sep (va_addr v + off, len) r"
    and "va_addr v + off + len < usize_lim"
proof -
  from assms have t: "va_addr v + off + len < usize_lim" "va_addr v + off + len \<le> va_addr v + va_size v"
    "zx_any (vmar_overlap s (va_addr v + off) (va_addr v + off + len)) (vin_children inn) = Inr False"
    "zx_any (map_overlap (va_addr v + off) (va_addr v + off + len)) (vin_mappings inn) = Inr False"
    by (auto simp: test_map_def rbind_eq_Inr split: if_splits)
  show "inside (va_addr v + off, len) (va_addr v, va_size v)" using t(2) by (simp add: inside_def)
  show "va_addr v + off + len < usize_lim" by (rule t(1))
  have "sep (va_addr v + off, len) (vmar_range s c)" if c: "c \<in> set (vin_children inn)" for c
  proof -
    have "vmar_overlap s (va_addr v + off) (va_addr v + off + len) c = Inr False"
      using t(3) c by (simp add: zx_any_False)
    then obtain w where "vmars s c = Some w"
      "range_overlap (va_addr w) (va_size w) (va_addr v + off) (va_addr v + off + len) = Inr False"
      by (auto simp: vmar_overlap_def get_vmar_def rbind_eq_Inr ok_or_eq_Inr)
    then show ?thesis by (simp add: vmar_range_def range_overlap_sep)
  qed
  moreover have "sep (va_addr v + off, len) (map_span m)" if "m \<in> set (vin_mappings inn)" for m
    using t(4) that by (simp add: zx_any_False map_overlap_def map_span_def range_overlap_sep)
  ultimately show "\<forall>r \<in> set (sub_ranges s inn). sep (va_addr v + off, len) r"
    by (auto simp: sub_ranges_def)
qed

subsection \<open>The invariant\<close>

definition region_ok :: "'a vmar_state_scheme \<Rightarrow> koid \<Rightarrow> vmar \<Rightarrow> vmar_inner \<Rightarrow> bool" where
  "region_ok s k v inn \<longleftrightarrow>
     distinct (vin_children inn) \<and>
     (\<forall>c \<in> set (vin_children inn). k < c \<and> (\<exists>w. vmars s c = Some w \<and> va_parent w = Some k)) \<and>
     sep_list (sub_ranges s inn) \<and>
     (\<forall>r \<in> set (sub_ranges s inn). inside r (va_addr v, va_size v))"

definition space_inv :: "'a vmar_state_scheme \<Rightarrow> bool" where
  "space_inv s \<longleftrightarrow>
     (\<forall>k v. vmars s k = Some v \<longrightarrow> k < next_koid s \<and> (\<forall>inn. va_inner v = Some inn \<longrightarrow> region_ok s k v inn))"

lemma space_invD:
  assumes "space_inv s" and "vmars s k = Some v"
  shows "k < next_koid s" "\<And>inn. va_inner v = Some inn \<Longrightarrow> region_ok s k v inn"
  using assms unfolding space_inv_def by blast+

text \<open>The store after an update keeps address, size and parent of every region.\<close>

definition same_regions :: "'a vmar_state_scheme \<Rightarrow> 'a vmar_state_scheme \<Rightarrow> bool" where
  "same_regions s t \<longleftrightarrow> next_koid t = next_koid s \<and>
     (\<forall>k. map_option (\<lambda>v. (va_addr v, va_size v, va_parent v)) (vmars t k) =
          map_option (\<lambda>v. (va_addr v, va_size v, va_parent v)) (vmars s k))"

lemma same_regionsD:
  assumes "same_regions s t"
  shows "next_koid t = next_koid s" "vmar_range t = vmar_range s" "sub_ranges t = sub_ranges s"
    and "(\<exists>w. vmars t c = Some w \<and> va_parent w = p) \<longleftrightarrow> (\<exists>w. vmars s c = Some w \<and> va_parent w = p)"
proof -
  have *: "map_option (\<lambda>v. (va_addr v, va_size v, va_parent v)) (vmars t k) =
          map_option (\<lambda>v. (va_addr v, va_size v, va_parent v)) (vmars s k)" for k
    using assms by (simp add: same_regions_def)
  show "next_koid t = next_koid s" using assms by (simp add: same_regions_def)
  show r: "vmar_range t = vmar_range s"
  proof
    fix c show "vmar_range t c = vmar_range s c"
      using * [of c] by (cases "vmars s c"; cases "vmars t c") (auto simp: vmar_range_def)
  qed
  then show "sub_ranges t = sub_ranges s" by (simp add: sub_ranges_def fun_eq_iff)
  show "(\<exists>w. vmars t c = Some w \<and> va_parent w = p) \<longleftrightarrow> (\<exists>w. vmars s c = Some w \<and> va_parent w = p)"
    using * [of c] by (cases "vmars s c"; cases "vmars t c") auto
qed

lemma region_ok_same:
  assumes "same_regions s t" and "va_addr v' = va_addr v" and "va_size v' = va_size v"
  shows "region_ok t k v' inn = region_ok s k v inn"
  unfolding region_ok_def using same_regionsD [OF assms(1)] assms(2,3) by simp

text \<open>An inner part with fewer children and mappings is fine.\<close>

definition shrinks :: "vmar_inner \<Rightarrow> vmar_inner \<Rightarrow> bool" where
  "shrinks inn inn' \<longleftrightarrow>
     (\<exists>P. vin_children inn' = filter P (vin_children inn)) \<and>
     (\<exists>Q. map map_span (vin_mappings inn') = map map_span (filter Q (vin_mappings inn)))"

lemma region_ok_shrink:
  assumes "region_ok s k v inn" and "shrinks inn inn'"
  shows "region_ok s k v inn'"
proof -
  obtain P Q where PQ: "vin_children inn' = filter P (vin_children inn)"
    "map map_span (vin_mappings inn') = map map_span (filter Q (vin_mappings inn))"
    using assms(2) by (auto simp: shrinks_def)
  have sub: "set (sub_ranges s inn') \<subseteq> set (sub_ranges s inn)"
    using PQ by (auto simp: sub_ranges_def simp del: set_map simp flip: map_append)
      (auto)
  have "sep_list (sub_ranges s inn')"
    using assms(1) PQ unfolding region_ok_def sub_ranges_def
    by (auto simp: sep_list_append intro: sep_list_filter)
  with sub assms(1) PQ(1) show ?thesis unfolding region_ok_def by auto
qed

lemma put_inner_eq:
  "vmars s k = Some v \<Longrightarrow> put_inner k i s = s\<lparr>vmars := (vmars s)(k \<mapsto> v\<lparr>va_inner := i\<rparr>)\<rparr>"
  by (simp add: put_inner_def put_vmar_def)

lemma put_inner_same_regions: "same_regions s (put_inner k i s)"
  by (cases "vmars s k") (auto simp: same_regions_def put_inner_def put_vmar_def)

lemma space_inv_put_inner:
  assumes inv: "space_inv s"
    and new: "\<And>v inn. vmars s k = Some v \<Longrightarrow> i = Some inn \<Longrightarrow> region_ok s k v inn"
  shows "space_inv (put_inner k i s)"
proof (cases "vmars s k")
  case None
  with inv show ?thesis by (simp add: put_inner_def)
next
  case (Some v)
  note same = put_inner_same_regions [of s k i]
  show ?thesis
    unfolding space_inv_def
  proof (intro allI impI conjI)
    fix j w assume j: "vmars (put_inner k i s) j = Some w"
    then have "vmars s j \<noteq> None" by (auto simp: put_inner_eq [OF Some] Some split: if_splits)
    then show "j < next_koid (put_inner k i s)"
      using space_invD(1) [OF inv, of j] same_regionsD(1) [OF same] by auto
    fix inn assume inn: "va_inner w = Some inn"
    show "region_ok (put_inner k i s) j w inn"
    proof (cases "j = k")
      case True
      with j inn have "w = v\<lparr>va_inner := i\<rparr>" "i = Some inn" by (auto simp: put_inner_eq [OF Some])
      with new [OF Some] True region_ok_same [OF same, of w v j inn] show ?thesis by simp
    next
      case False
      with j have "vmars s j = Some w" by (simp add: put_inner_eq [OF Some])
      from space_invD(2) [OF inv this inn] region_ok_same [OF same, of w w j inn] show ?thesis by simp
    qed
  qed
qed

lemma space_inv_shrink:
  assumes "space_inv s" and "vmars s k = Some v" and "va_inner v = Some inn" and "shrinks inn inn'"
  shows "space_inv (put_inner k (Some inn') s)"
  by (rule space_inv_put_inner [OF assms(1)])
    (use assms space_invD(2) [OF assms(1,2,3)] region_ok_shrink in auto)

lemma space_inv_dead: "space_inv s \<Longrightarrow> space_inv (put_inner k None s)"
  by (rule space_inv_put_inner) auto

text \<open>Operations on other parts of the state.\<close>

lemma space_inv_frame:
  fixes s t :: "'a vmar_state_scheme"
  assumes "space_inv s" and "vmars t = vmars s" and "next_koid t = next_koid s"
  shows "space_inv t"
proof -
  have same: "same_regions s t" using assms by (simp add: same_regions_def)
  show ?thesis
    unfolding space_inv_def
  proof (intro allI impI conjI)
    fix k v assume k: "vmars t k = Some v"
    then have k': "vmars s k = Some v" using assms(2) by simp
    show "k < next_koid t" using space_invD(1) [OF assms(1) k'] assms(3) by simp
    show "region_ok t k v inn" if "va_inner v = Some inn" for inn
      using space_invD(2) [OF assms(1) k' that] region_ok_same [OF same, of v v k inn] by simp
  qed
qed

subsection \<open>Page-table operations\<close>

definition pt_only :: "'a hal_state_scheme \<Rightarrow> 'a hal_state_scheme \<Rightarrow> bool" where
  "pt_only s t \<longleftrightarrow> (\<exists>h. t = s\<lparr>host_map := h\<rparr>)"

lemma pt_only_refl [simp]: "pt_only s s"
  unfolding pt_only_def by (rule exI [of _ "host_map s"]) simp

lemma pt_only_set [simp]: "pt_only s (s\<lparr>host_map := h\<rparr>)"
  unfolding pt_only_def by blast

lemma pt_only_trans: "pt_only s t \<Longrightarrow> pt_only t u \<Longrightarrow> pt_only s u"
  unfolding pt_only_def by auto

lemma pt_only_vmars:
  fixes s t :: "'a vmar_state_scheme"
  assumes "pt_only s t"
  shows "vmars t = vmars s" "next_koid t = next_koid s" "vmos t = vmos s" "paged_objs t = paged_objs s"
    "phys_objs t = phys_objs s" "pmem t = pmem s"
  using assms by (auto simp: pt_only_def)

lemma pt_ops_only:
  "pt_only s (snd (pt_map va pa fl s))" "pt_only s (snd (pt_unmap_cont va n s))"
  "pt_only s (snd (pt_protect va fl s))"
  by (auto simp: pt_map_def pt_unmap_cont_def pt_protect_def split: sum.splits option.splits)

lemma sbind_pt_only:
  assumes "pt_only s (snd (m s))" and "\<And>x u. pt_only u (snd (f x u))"
  shows "pt_only s (snd (sbind m f s))"
  using assms(1) by (rule sbind_keeps) (use assms(2) pt_only_trans in blast)

lemma sfor_pt_only:
  assumes f: "\<And>i u. pt_only u (snd (f i u))"
  shows "pt_only s (snd (sfor f is s))"
proof -
  obtain r t where rt: "sfor f is s = (r, t)" by fastforce
  have "pt_only s t"
  proof (rule sfor_invariant [OF rt, where P = "pt_only s"])
    fix i u r u' assume "pt_only s u" "f i u = (r, u')"
    with f [of u i] show "pt_only s u'" by (auto intro: pt_only_trans)
  qed simp
  with rt show ?thesis by simp
qed

lemma map_page_pt_only: "pt_only s (snd (map_page m t i s))"
  unfolding map_page_def by (rule sbind_pt_only) (auto simp: pt_ops_only)

lemma mapping_map_pt_only: "pt_only s (snd (mapping_map m s))"
  by (auto simp: mapping_map_def with_vmo_def map_page_pt_only intro!: sfor_pt_only split: option.splits)

lemma mapping_drop_pt_only: "pt_only s (snd (mapping_drop m s))"
  by (simp add: mapping_drop_def mapping_unmap_def pt_ops_only)

lemma mapping_protect_pt_only: "pt_only s (snd (mapping_protect fl is m s))"
proof (induction "is" arbitrary: m s)
  case Nil
  show ?case by simp
next
  case (Cons i "is")
  show ?case unfolding mapping_protect.simps Let_def
    by (intro sbind_pt_only) (auto simp: pt_ops_only Cons)
qed

lemma protect_all_pt_only: "pt_only s (snd (protect_all a e fl ms s))"
proof (induction ms arbitrary: s)
  case Nil
  show ?case by simp
next
  case (Cons m ms)
  show ?case unfolding protect_all.simps
    by (intro sbind_pt_only) (auto simp: mapping_protect_pt_only Cons intro!: sbind_pt_only)
qed

lemma mapping_protect_span:
  "mapping_protect fl is m s = (Inr m', t) \<Longrightarrow> map_span m' = map_span m"
proof (induction "is" arbitrary: m s)
  case Nil
  then show ?case by simp
next
  case (Cons i "is")
  from Cons.prems obtain fl' u where "mapping_protect fl is (m\<lparr>mp_flags := fl'\<rparr>) u = (Inr m', t)"
    by (auto simp: sbind_eq_Inr Let_def)
  from Cons.IH [OF this] show ?case by (simp add: map_span_def)
qed

lemma protect_all_spans:
  fixes s :: "'a vmar_state_scheme"
  shows "protect_all a e fl ms s = (Inr ms', t) \<Longrightarrow> map map_span ms' = map map_span ms"
proof (induction ms arbitrary: s ms' t)
  case Nil
  then show ?case by simp
next
  case (Cons m ms)
  from Cons.prems obtain m' ms'' and u v :: "'a vmar_state_scheme"
    where "ms' = m' # ms''" "protect_all a e fl ms u = (Inr ms'', v)" "map_span m' = map_span m"
    by (auto simp: sbind_eq_Inr split: if_splits dest: mapping_protect_span)
  with Cons.IH show ?case by simp
qed

lemma append_mapping_frame:
  fixes s :: "'a vmar_state_scheme"
  shows "vmars (snd (vmo_append_mapping k m s)) = vmars s"
    "next_koid (snd (vmo_append_mapping k m s)) = next_koid s"
    "host_map (snd (vmo_append_mapping k m s)) = host_map s"
proof -
  have "vmars (snd (trait_append_mapping t m s)) = vmars s \<and>
      next_koid (snd (trait_append_mapping t m s)) = next_koid s \<and>
      host_map (snd (trait_append_mapping t m s)) = host_map s" for t and s :: "'a vmar_state_scheme"
    by (cases t) (auto simp: paged_append_mapping_def with_paged_def put_paged_def split: option.splits)
  then show "vmars (snd (vmo_append_mapping k m s)) = vmars s"
    "next_koid (snd (vmo_append_mapping k m s)) = next_koid s"
    "host_map (snd (vmo_append_mapping k m s)) = host_map s"
    by (auto simp: vmo_append_mapping_def with_vmo_def sbind_def put_vmo_def split: option.splits sum.splits)
qed

subsection \<open>Every operation keeps the layout\<close>

lemma space_inv_pt_only:
  fixes s t :: "'a vmar_state_scheme"
  shows "space_inv s \<Longrightarrow> pt_only s t \<Longrightarrow> space_inv t"
  using space_inv_frame pt_only_vmars by blast

lemma space_inv_sfor_drop:
  fixes s :: "'a vmar_state_scheme"
  shows "space_inv s \<Longrightarrow> space_inv (snd (sfor mapping_drop ms s))"
  by (erule space_inv_pt_only) (rule sfor_pt_only, rule mapping_drop_pt_only)

lemma space_inv_mapping_drop:
  fixes s :: "'a vmar_state_scheme"
  shows "space_inv s \<Longrightarrow> space_inv (snd (mapping_drop m s))"
  by (erule space_inv_pt_only) (rule mapping_drop_pt_only)

lemma region_ok_default [simp]: "region_ok s k v inner_default"
  by (simp add: region_ok_def sub_ranges_def inner_default_def)

lemma shrinks_refl [simp]: "shrinks inn inn"
proof -
  have "vin_children inn = filter (\<lambda>_. True) (vin_children inn)"
    "map map_span (vin_mappings inn) = map map_span (filter (\<lambda>_. True) (vin_mappings inn))" by simp_all
  then show ?thesis unfolding shrinks_def by blast
qed

lemma shrinksI:
  "vin_children inn' = filter P (vin_children inn) \<Longrightarrow> vin_mappings inn' = filter Q (vin_mappings inn) \<Longrightarrow>
     shrinks inn inn'"
  unfolding shrinks_def by auto

lemma shrinks_no_children: "shrinks inn (inn\<lparr>vin_children := []\<rparr>)"
proof -
  have "vin_children (inn\<lparr>vin_children := []\<rparr>) = filter (\<lambda>_. False) (vin_children inn)"
    "vin_mappings (inn\<lparr>vin_children := []\<rparr>) = filter (\<lambda>_. True) (vin_mappings inn)" by simp_all
  then show ?thesis by (rule shrinksI)
qed

lemma shrinks_default: "shrinks inn inner_default"
proof -
  have "vin_children inner_default = filter (\<lambda>_. False) (vin_children inn)"
    "vin_mappings inner_default = filter (\<lambda>_. False) (vin_mappings inn)" by (simp_all add: inner_default_def)
  then show ?thesis by (rule shrinksI)
qed

lemma sbind_space:
  assumes "space_inv (snd (m s))" and "\<And>x u. space_inv u \<Longrightarrow> space_inv (snd (f x u))"
  shows "space_inv (snd (sbind m f s))"
  using assms by (rule sbind_keeps)

lemma sfor_space:
  assumes "space_inv s" and "\<And>i u. space_inv u \<Longrightarrow> space_inv (snd (f i u))"
  shows "space_inv (snd (sfor f is s))"
proof -
  obtain r t where rt: "sfor f is s = (r, t)" by fastforce
  have "space_inv t"
  proof (rule sfor_invariant [OF rt, where P = space_inv, OF assms(1)])
    fix i u r u' assume "space_inv u" "f i u = (r, u')"
    with assms(2) [of u i] show "space_inv u'" by simp
  qed
  with rt show ?thesis by simp
qed

lemma space_inv_destroy_internal:
  fixes s :: "'a vmar_state_scheme"
  shows "space_inv s \<Longrightarrow> space_inv (snd (destroy_internal n k s))"
proof (induction n arbitrary: k s)
  case 0
  then show ?case by simp
next
  case (Suc n)
  show ?case
  proof (cases "\<exists>v inn. vmars s k = Some v \<and> va_inner v = Some inn")
    case False
    with Suc.prems show ?thesis by (auto simp: with_inner_def split: option.splits)
  next
    case True
    then obtain v inn where v: "vmars s k = Some v" "va_inner v = Some inn" by blast
    have "space_inv (put_inner k (Some (inn\<lparr>vin_children := []\<rparr>)) s)"
      using Suc.prems v shrinks_no_children by (rule space_inv_shrink)
    then show ?thesis
      using v by (simp add: with_inner_def)
        (rule sbind_space, rule sfor_space, assumption, rule Suc.IH, assumption,
         rule sbind_space, rule space_inv_sfor_drop, assumption, simp add: space_inv_dead)
  qed
qed

lemma space_inv_clear:
  fixes s :: "'a vmar_state_scheme"
  assumes inv: "space_inv s"
  shows "space_inv (snd (vmar_clear k s))"
proof (cases "\<exists>v inn. vmars s k = Some v \<and> va_inner v = Some inn")
  case False
  with inv show ?thesis by (auto simp: vmar_clear_def with_inner_def split: option.splits)
next
  case True
  then obtain v inn where v: "vmars s k = Some v" "va_inner v = Some inn" by blast
  have *: "space_inv (put_inner k (Some (inn\<lparr>vin_children := []\<rparr>)) s)"
    using inv v shrinks_no_children by (rule space_inv_shrink)
  have "space_inv (put_inner k (Some inner_default) u)" if "space_inv u" for u :: "'a vmar_state_scheme"
    by (rule space_inv_put_inner [OF that]) auto
  note default = this
  show ?thesis
    using v by (simp add: vmar_clear_def with_inner_def)
      (rule sbind_space, rule sfor_space, rule *, rule space_inv_destroy_internal, assumption,
       rule sbind_space, rule space_inv_sfor_drop, assumption, simp add: default)
qed

lemma space_inv_destroy:
  fixes s :: "'a vmar_state_scheme"
  assumes inv: "space_inv s"
  shows "space_inv (snd (vmar_destroy k s))"
proof -
  have unlist: "space_inv (snd (with_inner p (\<lambda>_ pinn s1.
      (Inr () :: unit zx, put_inner p (Some (pinn\<lparr>vin_children := filter P (vin_children pinn)\<rparr>)) s1)) u))"
    if u: "space_inv u" for p P and u :: "'a vmar_state_scheme"
  proof (cases "\<exists>v inn. vmars u p = Some v \<and> va_inner v = Some inn")
    case False
    with u show ?thesis by (auto simp: with_inner_def split: option.splits)
  next
    case True
    then obtain v inn where v: "vmars u p = Some v" "va_inner v = Some inn" by blast
    have "shrinks inn (inn\<lparr>vin_children := filter P (vin_children inn)\<rparr>)"
      by (rule shrinksI [where P = P and Q = "\<lambda>_. True"]) simp_all
    from space_inv_shrink [OF u v this] v show ?thesis by (simp add: with_inner_def)
  qed
  show ?thesis
    unfolding vmar_destroy_def
    by (intro sbind_space space_inv_destroy_internal inv) (auto split: option.splits intro!: unlist)
qed

lemma space_inv_unmap:
  fixes s :: "'a vmar_state_scheme"
  assumes inv: "space_inv s"
  shows "space_inv (snd (vmar_unmap k addr len s))"
proof (cases "\<exists>v inn. vmars s k = Some v \<and> va_inner v = Some inn")
  case False
  with inv show ?thesis by (auto simp: vmar_unmap_def with_inner_def split: option.splits)
next
  case True
  then obtain v inn where v: "vmars s k = Some v" "va_inner v = Some inn" by blast
  have body: "space_inv (snd (sbind (sfor mapping_drop gone) (\<lambda>_ s.
      sfor (destroy_internal (destroy_fuel s)) dead
        (put_inner k (Some \<lparr>vin_children = filter (\<lambda>c. c \<notin> set dead) (vin_children inn),
           vin_mappings = filter (\<lambda>m. m \<notin> set gone) (vin_mappings inn)\<rparr>) s)) s))" for gone dead
  proof -
    obtain r u where ru: "sfor mapping_drop gone s = (r, u)" by fastforce
    have "pt_only s (snd (sfor mapping_drop gone s))"
      by (rule sfor_pt_only) (rule mapping_drop_pt_only)
    then have "pt_only s u" using ru by simp
    then have u: "space_inv u" "vmars u = vmars s"
      using inv by (auto intro: space_inv_pt_only dest: pt_only_vmars)
    let ?i = "\<lparr>vin_children = filter (\<lambda>c. c \<notin> set dead) (vin_children inn),
           vin_mappings = filter (\<lambda>m. m \<notin> set gone) (vin_mappings inn)\<rparr>"
    have "shrinks inn ?i"
      by (rule shrinksI [where P = "\<lambda>c. c \<notin> set dead" and Q = "\<lambda>m. m \<notin> set gone"]) simp_all
    with u v have "space_inv (put_inner k (Some ?i) u)" by (intro space_inv_shrink [where inn = inn]) simp_all
    then have "space_inv (snd (sfor (destroy_internal f) dead (put_inner k (Some ?i) u)))" for f
      by (rule sfor_space) (rule space_inv_destroy_internal)
    with ru u(1) show ?thesis by (cases r) (simp_all add: sbind_def)
  qed
  show ?thesis
    using inv v
    by (auto simp: vmar_unmap_def with_inner_def sbind_def [of "slift _"] body split: sum.splits)
qed

lemma space_inv_protect:
  fixes s :: "'a vmar_state_scheme"
  assumes inv: "space_inv s"
  shows "space_inv (snd (vmar_protect k addr len fl s))"
proof (cases "\<exists>v inn. vmars s k = Some v \<and> va_inner v = Some inn")
  case False
  with inv show ?thesis by (auto simp: vmar_protect_def with_inner_def split: option.splits)
next
  case True
  then obtain v inn where v: "vmars s k = Some v" "va_inner v = Some inn" by blast
  have body: "space_inv (snd (sbind (protect_all a e fl (vin_mappings inn)) (\<lambda>ms s.
      (Inr () :: unit zx, put_inner k (Some (inn\<lparr>vin_mappings := ms\<rparr>)) s)) s))" for a e
  proof -
    obtain r u where ru: "protect_all a e fl (vin_mappings inn) s = (r, u)" by fastforce
    have u: "space_inv u" "vmars u = vmars s"
      using space_inv_pt_only [OF inv protect_all_pt_only] pt_only_vmars(1) [OF protect_all_pt_only] ru
      by (metis snd_conv)+
    show ?thesis
    proof (cases r)
      case (Inl f)
      with ru u(1) show ?thesis by (simp add: sbind_def)
    next
      case (Inr ms)
      have "shrinks inn (inn\<lparr>vin_mappings := ms\<rparr>)"
        using protect_all_spans [OF ru [unfolded Inr]] unfolding shrinks_def
        by (auto intro: exI [of _ "\<lambda>_. True"])
      with u v have "space_inv (put_inner k (Some (inn\<lparr>vin_mappings := ms\<rparr>)) u)"
        by (intro space_inv_shrink [where inn = inn]) simp_all
      with ru Inr show ?thesis by (simp add: sbind_def)
    qed
  qed
  show ?thesis
    using inv v
    by (auto simp: vmar_protect_def with_inner_def sbind_def [of "slift _"] body split: sum.splits)
qed

subsection \<open>Creation keeps the layout\<close>

lemma space_inv_new:
  fixes s t :: "'a vmar_state_scheme"
  assumes inv: "space_inv s" and nw: "next_koid s \<noteq> - 1"
    and t: "vmars t = (vmars s)(next_koid s \<mapsto> w)" "next_koid t = next_koid s + 1"
    and w: "va_inner w = Some inner_default"
  shows "space_inv t"
proof -
  let ?n = "next_koid s"
  have fresh: "vmars s ?n = None"
    using space_invD(1) [OF inv, of ?n] by (cases "vmars s ?n") auto
  show ?thesis
    unfolding space_inv_def
  proof (intro allI impI conjI)
    fix k v assume k: "vmars t k = Some v"
    then have "k \<le> ?n" using space_invD(1) [OF inv, of k v] by (auto simp: t split: if_splits)
    then show "k < next_koid t" using koid_step [OF nw] by (simp add: t(2))
    fix inn assume inn: "va_inner v = Some inn"
    show "region_ok t k v inn"
    proof (cases "k = ?n")
      case True
      with k inn w have "inn = inner_default" by (simp add: t)
      then show ?thesis by simp
    next
      case False
      with k have "vmars s k = Some v" by (simp add: t)
      from space_invD(2) [OF inv this inn] have ok: "region_ok s k v inn" .
      then have "c \<noteq> ?n" if "c \<in> set (vin_children inn)" for c
        using fresh that by (auto simp: region_ok_def)
      then have "sub_ranges t inn = sub_ranges s inn"
        "\<forall>c \<in> set (vin_children inn). vmars t c = vmars s c"
        by (auto simp: sub_ranges_def vmar_range_def t)
      with ok show ?thesis by (simp add: region_ok_def)
    qed
  qed
qed

lemma space_inv_bump:
  fixes s :: "'a vmar_state_scheme"
  assumes inv: "space_inv s" and nw: "next_koid s \<noteq> - 1"
  shows "space_inv (s\<lparr>next_koid := next_koid s + 1\<rparr>)"
proof -
  have "vmar_range (s\<lparr>next_koid := next_koid s + 1\<rparr>) = vmar_range s"
    by (rule ext) (simp add: vmar_range_def)
  then have "region_ok (s\<lparr>next_koid := next_koid s + 1\<rparr>) k v inn = region_ok s k v inn" for k v inn
    by (simp add: region_ok_def sub_ranges_def)
  with inv koid_step [OF nw] show ?thesis
    by (auto simp: space_inv_def order.strict_implies_order)
qed

lemma space_inv_allocate:
  fixes s :: "'a vmar_state_scheme"
  assumes inv: "space_inv s" and nw: "next_koid s \<noteq> - 1"
  shows "space_inv (snd (allocate k offset len fl align s))"
proof (cases "\<exists>v inn o1. vmars s k = Some v \<and> va_inner v = Some inn \<and>
    determine_offset s v inn offset len align = Inr o1")
  case False
  then have "snd (allocate k offset len fl align s) = s"
    by (auto simp: allocate_def with_inner_def sbind_def split: option.splits sum.splits)
  with inv show ?thesis by simp
next
  case True
  then obtain v inn o1 where v: "vmars s k = Some v" "va_inner v = Some inn"
    "determine_offset s v inn offset len align = Inr o1" by blast
  show ?thesis
  proof (cases "uadd (va_addr v) o1 :: usize zx")
    case (Inl f)
    with v space_inv_bump [OF inv nw] show ?thesis
      by (simp add: allocate_def with_inner_def sbind_def new_koid_def)
  next
    case (Inr a)
    then have a: "a = va_addr v + o1" by simp
    let ?n = "next_koid s"
    let ?w = "\<lparr>va_flags = fl, va_addr = a, va_size = len, va_parent = Some k, va_inner = Some inner_default\<rparr>"
    let ?s1 = "put_vmar ?n ?w (s\<lparr>next_koid := ?n + 1\<rparr>)"
    let ?inn = "inn\<lparr>vin_children := vin_children inn @ [?n]\<rparr>"
    have kn: "k < ?n" using space_invD(1) [OF inv v(1)] .
    have fresh: "vmars s ?n = None"
      using space_invD(1) [OF inv, of ?n] by (cases "vmars s ?n") auto
    have tm: "test_map s v inn len align o1 = Inr True"
      using v(3) by (auto simp: determine_offset_def rbind_eq_Inr find_free_area_def
        split: if_splits option.splits dest!: zx_find_Some)
    have ok: "region_ok s k v inn" using space_invD(2) [OF inv v(1,2)] .
    have nc: "?n \<notin> set (vin_children inn)" using ok fresh by (auto simp: region_ok_def)
    have s1: "space_inv ?s1"
      by (rule space_inv_new [OF inv nw, where w = ?w]) (simp_all add: put_vmar_def)
    have same: "sub_ranges ?s1 inn = sub_ranges s inn"
      using nc by (auto simp: sub_ranges_def vmar_range_def put_vmar_def)
    have nr: "vmar_range ?s1 ?n = (va_addr v + o1, len)" by (simp add: vmar_range_def put_vmar_def a)
    have sep: "\<forall>r \<in> set (sub_ranges s inn). sep (va_addr v + o1, len) r"
      and ins: "inside (va_addr v + o1, len) (va_addr v, va_size v)"
      using test_map_True [OF tm] by simp_all
    have "region_ok ?s1 k v ?inn"
    proof -
      note sub = sub_ranges_def [of ?s1 inn, symmetric]
      have "sep_list (map (vmar_range ?s1) (vin_children inn) @ map map_span (vin_mappings inn))"
        using ok unfolding sub same region_ok_def by blast
      moreover have "\<forall>r \<in> set (map (vmar_range ?s1) (vin_children inn) @ map map_span (vin_mappings inn)).
          sep (va_addr v + o1, len) r \<and> inside r (va_addr v, va_size v)"
        using ok sep unfolding sub same region_ok_def by blast
      moreover have "\<forall>c \<in> set (vin_children inn). k < c \<and> (\<exists>w. vmars ?s1 c = Some w \<and> va_parent w = Some k)"
        using ok nc by (auto simp: region_ok_def put_vmar_def)
      ultimately show ?thesis
        using ok nc kn nr ins
        by (auto simp: region_ok_def sub_ranges_def sep_list_append sep_sym put_vmar_def)
    qed
    then have "space_inv (put_inner k (Some ?inn) ?s1)"
      using v(1) kn by (intro space_inv_put_inner [OF s1]) (auto simp: put_vmar_def split: if_splits)
    moreover have "snd (allocate k offset len fl align s) = put_inner k (Some ?inn) ?s1"
      using v Inr by (simp add: allocate_def with_inner_def sbind_def new_koid_def uadd_def split: if_splits)
    ultimately show ?thesis by simp
  qed
qed

lemma mapping_new_result:
  assumes "mapping_new addr len vmo vo perm fl s = (Inr m, t)"
  shows "map_span m = (addr, len)" "mp_vmo m = vmo" "mp_vmo_offset m = vo" "mp_permissions m = perm"
    "mp_flags m = replicate (pages len) fl" "mp_id m = next_mapping s"
    "t = snd (vmo_append_mapping vmo (next_mapping s) (s\<lparr>next_mapping := next_mapping s + 1\<rparr>))"
  using assms by (auto simp: mapping_new_def Let_def sbind_eq_Inr map_span_def)

lemma mapping_new_frame:
  fixes s t :: "'a vmar_state_scheme"
  assumes "mapping_new addr len vmo vo perm fl s = (r, t)"
  shows "vmars t = vmars s" "next_koid t = next_koid s" "host_map t = host_map s"
proof -
  have "t = snd (vmo_append_mapping vmo (next_mapping s) (s\<lparr>next_mapping := next_mapping s + 1\<rparr>))"
    using assms by (auto simp: mapping_new_def Let_def sbind_def split: prod.splits sum.splits)
  then show "vmars t = vmars s" "next_koid t = next_koid s" "host_map t = host_map s"
    by (simp_all add: append_mapping_frame)
qed

lemma region_ok_add_mapping:
  assumes "region_ok s k v inn"
    and "test_map s v inn len al o1 = Inr True" and "map_span m = (va_addr v + o1, len)"
  shows "region_ok s k v (inn\<lparr>vin_mappings := vin_mappings inn @ [m]\<rparr>)"
  using assms(1,3) test_map_True [OF assms(2)]
  by (auto simp: region_ok_def sub_ranges_def sep_list_append sep_sym)

lemma space_inv_map_ext:
  fixes s :: "'a vmar_state_scheme"
  assumes inv: "space_inv s"
  shows "space_inv (snd (map_ext k vo vmo off len perm fl ov mr s))"
proof (cases "\<exists>v inn. vmars s k = Some v \<and> va_inner v = Some inn")
  case False
  with inv show ?thesis
    by (auto simp: map_ext_def with_inner_def sbind_def [of "slift _"] split: option.splits sum.splits)
next
  case True
  then obtain v inn where v: "vmars s k = Some v" "va_inner v = Some inn" by blast
  have body: "space_inv (snd (sbind (mapping_new addr len vmo off perm f) (\<lambda>m s.
           case mapping_map m s of
             (Inl (Err e), s1) \<Rightarrow> sbind (mapping_drop m) (\<lambda>_. sfail (Err e)) s1
           | (Inl f, s1) \<Rightarrow> (Inl f, s1)
           | (Inr _, s1) \<Rightarrow>
               (Inr addr, put_inner k (Some (inn\<lparr>vin_mappings := vin_mappings inn @ [m]\<rparr>)) s1)) s))"
    if tm: "test_map s v inn len 4096 o1 = Inr True" and a: "addr = va_addr v + o1" for o1 addr f
  proof -
    obtain r u where ru: "mapping_new addr len vmo off perm f s = (r, u)" by fastforce
    note fr = mapping_new_frame [OF ru]
    have u: "space_inv u" using space_inv_frame [OF inv fr(1,2)] .
    show ?thesis
    proof (cases r)
      case (Inl e)
      with ru u show ?thesis by (simp add: sbind_def)
    next
      case (Inr m)
      obtain q w where qw: "mapping_map m u = (q, w)" by fastforce
      have "pt_only u w" using mapping_map_pt_only [of u m] qw by simp
      then have w: "space_inv w" "vmars w = vmars u" "next_koid w = next_koid u"
        using u by (auto intro: space_inv_pt_only dest: pt_only_vmars)
      have fail: "space_inv (snd (sbind (mapping_drop m) (\<lambda>_. sfail (Err e)) w))" for e
        using w(1) by (intro sbind_space space_inv_mapping_drop) simp_all
      have "region_ok s k v (inn\<lparr>vin_mappings := vin_mappings inn @ [m]\<rparr>)"
        using region_ok_add_mapping [OF space_invD(2) [OF inv v] tm] mapping_new_result(1) [OF ru [unfolded Inr]] a
        by simp
      then have "region_ok w k v (inn\<lparr>vin_mappings := vin_mappings inn @ [m]\<rparr>)"
        using region_ok_same [of s w v v k] w fr by (simp add: same_regions_def)
      then have good: "space_inv (put_inner k (Some (inn\<lparr>vin_mappings := vin_mappings inn @ [m]\<rparr>)) w)"
        using v w fr by (intro space_inv_put_inner [OF w(1)]) auto
      from ru Inr qw fail w(1) good show ?thesis
        by (cases q rule: sum.exhaust) (auto simp: sbind_def [of "mapping_new _ _ _ _ _ _"] split: fault.splits)
    qed
  qed
  show ?thesis
    using inv v
    by (auto simp: map_ext_def with_inner_def sbind_def [of "slift _"] split: sum.splits intro!: body)
qed

lemma space_inv_new_root:
  fixes s :: "'a vmar_state_scheme"
  assumes inv: "space_inv s" and nw: "next_koid s \<noteq> - 1"
  shows "space_inv (snd (new_root s))"
proof (cases "rbind (umul ROOT_SIZE (next_root s)) (uadd ROOT_BASE) :: usize zx")
  case (Inl f)
  then have "snd (new_root s) = s\<lparr>next_root := (next_root s + 1) mod usize_lim\<rparr>"
    unfolding new_root_def Let_def by simp
  moreover have "space_inv (s\<lparr>next_root := (next_root s + 1) mod usize_lim\<rparr>)"
    by (rule space_inv_frame [OF inv]) simp_all
  ultimately show ?thesis by simp
next
  case (Inr a)
  let ?s1 = "s\<lparr>next_root := (next_root s + 1) mod usize_lim\<rparr>"
  have s1: "space_inv ?s1" by (rule space_inv_frame [OF inv]) simp_all
  have "snd (new_root s) = put_vmar (next_koid ?s1) \<lparr>va_flags = VF_ROOT_FLAGS, va_addr = a,
      va_size = ROOT_SIZE, va_parent = None, va_inner = Some inner_default\<rparr>
      (?s1\<lparr>next_koid := next_koid ?s1 + 1\<rparr>)"
    unfolding new_root_def Let_def Inr by (simp add: new_koid_def)
  moreover have "space_inv \<dots>"
    by (rule space_inv_new [OF s1, where w = "\<lparr>va_flags = VF_ROOT_FLAGS, va_addr = a,
      va_size = ROOT_SIZE, va_parent = None, va_inner = Some inner_default\<rparr>"])
      (use nw in \<open>simp_all add: put_vmar_def\<close>)
  ultimately show ?thesis by simp
qed

lemma space_inv_new_kernel:
  fixes s :: "'a vmar_state_scheme"
  assumes inv: "space_inv s" and nw: "next_koid s \<noteq> - 1"
  shows "space_inv (snd (new_kernel s))"
  by (rule space_inv_new [OF inv nw, where
      w = "\<lparr>va_flags = VF_ROOT_FLAGS, va_addr = unat KERNEL_ASPACE_BASE, va_size = unat KERNEL_ASPACE_SIZE,
            va_parent = None, va_inner = Some inner_default\<rparr>"])
    (simp_all add: new_kernel_def new_koid_def put_vmar_def)

subsection \<open>Reachable address spaces\<close>

inductive vmar_step :: "'a vmar_state_scheme \<Rightarrow> 'a vmar_state_scheme \<Rightarrow> bool" where
  va_root: "next_koid s \<noteq> - 1 \<Longrightarrow> new_root s = (r, t) \<Longrightarrow> vmar_step s t"
| va_kernel: "next_koid s \<noteq> - 1 \<Longrightarrow> new_kernel s = (r, t) \<Longrightarrow> vmar_step s t"
| va_allocate: "next_koid s \<noteq> - 1 \<Longrightarrow> allocate k o1 len fl al s = (r, t) \<Longrightarrow> vmar_step s t"
| va_map: "map_ext k o1 vmo off len perm fl ov mr s = (r, t) \<Longrightarrow> vmar_step s t"
| va_unmap: "vmar_unmap k a len s = (r, t) \<Longrightarrow> vmar_step s t"
| va_protect: "vmar_protect k a len fl s = (r, t) \<Longrightarrow> vmar_step s t"
| va_clear: "vmar_clear k s = (r, t) \<Longrightarrow> vmar_step s t"
| va_destroy: "vmar_destroy k s = (r, t) \<Longrightarrow> vmar_step s t"

inductive vmar_reach :: "'a vmar_state_scheme \<Rightarrow> 'a vmar_state_scheme \<Rightarrow> bool" for s0 where
  vmr_init: "vmar_reach s0 s0"
| vmr_step: "vmar_reach s0 s \<Longrightarrow> vmar_step s t \<Longrightarrow> vmar_reach s0 t"

inductive_cases vmar_stepE: "vmar_step s t"

lemma vmar_step_space:
  fixes s t :: "'a vmar_state_scheme"
  assumes "vmar_step s t" and "space_inv s"
  shows "space_inv t"
  using assms(1)
proof (rule vmar_stepE)
  fix r assume "next_koid s \<noteq> - 1" "new_root s = (r, t)"
  then show ?thesis using space_inv_new_root [OF assms(2)] by (metis snd_conv)
next
  fix r assume "next_koid s \<noteq> - 1" "new_kernel s = (r, t)"
  then show ?thesis using space_inv_new_kernel [OF assms(2)] by (metis snd_conv)
next
  fix k o1 len fl al r assume "next_koid s \<noteq> - 1" "allocate k o1 len fl al s = (r, t)"
  then show ?thesis using space_inv_allocate [OF assms(2)] by (metis snd_conv)
next
  fix k o1 vmo off len perm fl ov mr r assume "map_ext k o1 vmo off len perm fl ov mr s = (r, t)"
  then show ?thesis using space_inv_map_ext [OF assms(2)] by (metis snd_conv)
next
  fix k a len r assume "vmar_unmap k a len s = (r, t)"
  then show ?thesis using space_inv_unmap [OF assms(2)] by (metis snd_conv)
next
  fix k a len fl r assume "vmar_protect k a len fl s = (r, t)"
  then show ?thesis using space_inv_protect [OF assms(2)] by (metis snd_conv)
next
  fix k r assume "vmar_clear k s = (r, t)"
  then show ?thesis using space_inv_clear [OF assms(2)] by (metis snd_conv)
next
  fix k r assume "vmar_destroy k s = (r, t)"
  then show ?thesis using space_inv_destroy [OF assms(2)] by (metis snd_conv)
qed

lemma vmar_reach_space:
  fixes s0 s :: "'a vmar_state_scheme"
  shows "vmar_reach s0 s \<Longrightarrow> space_inv s0 \<Longrightarrow> space_inv s"
  by (induction rule: vmar_reach.induct) (auto intro: vmar_step_space)

end
