(* ===== verification/Vmar_Map.thy ===== *)
theory Vmar_Map
  imports Vmar_Space
begin

text \<open>
  Placing and mapping: the search for a free area finds one whenever one exists, a successful map
  installs exactly the frames of the memory object with the requested protection, a successful
  unmap leaves nothing mapped in the range.
\<close>

subsection \<open>The search for a free area\<close>

definition free_at :: "'a vmar_state_scheme \<Rightarrow> vmar \<Rightarrow> vmar_inner \<Rightarrow> usize \<Rightarrow> usize \<Rightarrow> bool" where
  "free_at s v inn len o1 \<longleftrightarrow>
     o1 + len \<le> va_size v \<and> (\<forall>r \<in> set (sub_ranges s inn). sep (va_addr v + o1, len) r)"

definition free_at_code :: "'a vmar_state_scheme \<Rightarrow> vmar \<Rightarrow> vmar_inner \<Rightarrow> usize \<Rightarrow> usize \<Rightarrow> bool" where
  "free_at_code s v inn len o1 \<longleftrightarrow>
     o1 + len \<le> va_size v \<and> list_all (sep (va_addr v + o1, len)) (sub_ranges s inn)"

lemma free_at_code_eq: "free_at_code = free_at"
  by (simp add: free_at_code_def free_at_def fun_eq_iff list_all_iff)

definition end_offsets :: "'a vmar_state_scheme \<Rightarrow> vmar \<Rightarrow> vmar_inner \<Rightarrow> usize list" where
  "end_offsets s v inn = map (\<lambda>r. fst r + snd r - va_addr v) (sub_ranges s inn)"

lemma range_overlap_total:
  "a + n < usize_lim \<Longrightarrow> range_overlap a n b (b + l) = Inr (\<not> sep (b, l) (a, n))"
  by (auto simp: range_overlap_def sep_def uadd_def)

lemma zx_find_total:
  "(\<And>x. x \<in> set xs \<Longrightarrow> p x = Inr (q x)) \<Longrightarrow> zx_find p (map Inr xs) = Inr (find q xs)"
  by (induction xs) auto

lemma child_range:
  assumes "region_ok s k v inn" and "c \<in> set (vin_children inn)"
  obtains w where "vmars s c = Some w" and "vmar_range s c = (va_addr w, va_size w)"
  using assms by (auto simp: region_ok_def vmar_range_def)

lemma sub_range_inside:
  assumes "region_ok s k v inn" and "r \<in> set (sub_ranges s inn)"
  shows "va_addr v \<le> fst r" "fst r + snd r \<le> va_addr v + va_size v"
  using assms by (auto simp: region_ok_def inside_def)

lemma test_map_total:
  assumes ok: "region_ok s k v inn" and lim: "va_addr v + va_size v < usize_lim"
    and al: "0 < align" "o1 mod align = 0" "len mod align = 0"
    and fit: "va_addr v + o1 + len < usize_lim"
  shows "test_map s v inn len align o1 = Inr (free_at s v inn len o1)"
proof -
  let ?b = "va_addr v + o1"
  have ch: "vmar_overlap s ?b (?b + len) c = Inr (\<not> sep (?b, len) (vmar_range s c))"
    if c: "c \<in> set (vin_children inn)" for c
  proof -
    obtain w where w: "vmars s c = Some w" "vmar_range s c = (va_addr w, va_size w)"
      using child_range [OF ok c] .
    have "vmar_range s c \<in> set (sub_ranges s inn)" using c by (simp add: sub_ranges_def)
    from sub_range_inside [OF ok this] lim w have "va_addr w + va_size w < usize_lim" by simp
    with w show ?thesis by (simp add: vmar_overlap_def get_vmar_def range_overlap_total)
  qed
  have mp: "map_overlap ?b (?b + len) m = Inr (\<not> sep (?b, len) (map_span m))"
    if m: "m \<in> set (vin_mappings inn)" for m
  proof -
    have "map_span m \<in> set (sub_ranges s inn)" using m by (simp add: sub_ranges_def)
    from sub_range_inside [OF ok this] lim have "mp_addr m + mp_size m < usize_lim"
      by (simp add: map_span_def)
    then show ?thesis by (simp add: map_overlap_def range_overlap_total map_span_def)
  qed
  have 1: "zx_any (vmar_overlap s ?b (?b + len)) (vin_children inn) =
      Inr (\<exists>c \<in> set (vin_children inn). \<not> sep (?b, len) (vmar_range s c))"
    using ch by (rule zx_any_Inr)
  have 2: "zx_any (map_overlap ?b (?b + len)) (vin_mappings inn) =
      Inr (\<exists>m \<in> set (vin_mappings inn). \<not> sep (?b, len) (map_span m))"
    using mp by (rule zx_any_Inr)
  have u: "uadd (va_addr v) o1 = (Inr ?b :: usize zx)" "uadd ?b len = (Inr (?b + len) :: usize zx)"
    "uadd (va_addr v) (va_size v) = (Inr (va_addr v + va_size v) :: usize zx)"
    using fit lim by simp_all
  show ?thesis
    using al 1 2 unfolding test_map_def u
    by (auto simp: check_aligned_def u free_at_def sub_ranges_def)
qed

lemma find_free_area_eq:
  assumes ok: "region_ok s k v inn" and lim: "va_addr v + va_size v + len < usize_lim"
    and al: "0 < align" "len mod align = 0" "\<forall>o1 \<in> set (end_offsets s v inn). o1 mod align = 0"
  shows "find_free_area s v inn 0 len align = Inr (find (free_at s v inn len) (0 # end_offsets s v inn))"
proof -
  have eo: "end_offset v (fst r) (snd r) = Inr (fst r + snd r - va_addr v)"
    if "r \<in> set (sub_ranges s inn)" for r
    using sub_range_inside [OF ok that] lim by (simp add: end_offset_def rbind_eq_Inr)
  have ch: "rbind (get_vmar c s) (\<lambda>w. end_offset v (va_addr w) (va_size w)) =
      Inr (fst (vmar_range s c) + snd (vmar_range s c) - va_addr v)" if c: "c \<in> set (vin_children inn)" for c
  proof -
    obtain w where w: "vmars s c = Some w" "vmar_range s c = (va_addr w, va_size w)"
      using child_range [OF ok c] .
    have "vmar_range s c \<in> set (sub_ranges s inn)" using c by (simp add: sub_ranges_def)
    from eo [OF this] w show ?thesis by (simp add: get_vmar_def)
  qed
  have mp: "end_offset v (mp_addr m) (mp_size m) = Inr (fst (map_span m) + snd (map_span m) - va_addr v)"
    if "m \<in> set (vin_mappings inn)" for m
    using eo [of "map_span m"] that by (simp add: sub_ranges_def map_span_def)
  have cands: "[Inr 0] @ map (\<lambda>c. rbind (get_vmar c s) (\<lambda>w. end_offset v (va_addr w) (va_size w))) (vin_children inn)
      @ map (\<lambda>m. end_offset v (mp_addr m) (mp_size m)) (vin_mappings inn) =
      map Inr (0 # end_offsets s v inn)"
    using ch mp by (simp add: end_offsets_def sub_ranges_def)
  have bound: "va_addr v + o1 + len < usize_lim" if "o1 \<in> set (0 # end_offsets s v inn)" for o1
    using that lim sub_range_inside [OF ok] by (fastforce simp: end_offsets_def)
  have "test_map s v inn len align o1 = Inr (free_at s v inn len o1)"
    if "o1 \<in> set (0 # end_offsets s v inn)" for o1
    using that al lim bound [OF that] by (intro test_map_total [OF ok]) auto
  then have "zx_find (test_map s v inn len align) (map Inr (0 # end_offsets s v inn)) =
      Inr (find (free_at s v inn len) (0 # end_offsets s v inn))"
    by (rule zx_find_total)
  then show ?thesis
    using al unfolding find_free_area_def cands by (simp add: check_aligned_def)
qed

lemma least_free_is_candidate:
  assumes ok: "region_ok s k v inn" and len: "0 < len" and free: "free_at s v inn len o1"
  shows "\<exists>o2 \<in> set (0 # end_offsets s v inn). free_at s v inn len o2"
proof -
  define m where "m = (LEAST o2. free_at s v inn len o2)"
  have m: "free_at s v inn len m" unfolding m_def using free by (rule LeastI)
  show ?thesis
  proof (cases m)
    case 0
    with m show ?thesis by auto
  next
    case (Suc n)
    then have "\<not> free_at s v inn len n" using not_less_Least [of n "free_at s v inn len"] m_def by simp
    with m Suc obtain r where r: "r \<in> set (sub_ranges s inn)" "\<not> sep (va_addr v + n, len) r"
      "sep (va_addr v + m, len) r"
      by (auto simp: free_at_def)
    then have "fst r + snd r = va_addr v + m" using Suc by (auto simp: sep_def)
    then have "m = fst r + snd r - va_addr v" by simp
    with r(1) have "m \<in> set (end_offsets s v inn)" by (simp add: end_offsets_def)
    with m show ?thesis by auto
  qed
qed

text \<open>C25. The brute-force search for a free area is complete: it returns an offset exactly when one
  exists, and the offset it returns is aligned and free. (The ends of the regions must be aligned:
  otherwise a debug assertion of the code fails.)\<close>

theorem find_free_area_complete:
  assumes "region_ok s k v inn" and "va_addr v + va_size v + len < usize_lim" and "0 < len"
    and "0 < align" and "len mod align = 0" and "\<forall>o1 \<in> set (end_offsets s v inn). o1 mod align = 0"
  shows "\<exists>r. find_free_area s v inn 0 len align = Inr r \<and>
     (r = None \<longleftrightarrow> (\<forall>o1. \<not> free_at s v inn len o1)) \<and>
     (\<forall>o1. r = Some o1 \<longrightarrow> free_at s v inn len o1 \<and> o1 mod align = 0)"
proof -
  define r where "r = find (free_at s v inn len) (0 # end_offsets s v inn)"
  have "r = None \<longleftrightarrow> (\<forall>o1. \<not> free_at s v inn len o1)"
    unfolding r_def find_None_iff_all using least_free_is_candidate [OF assms(1,3)] by blast
  moreover have "free_at s v inn len o1 \<and> o1 mod align = 0" if "r = Some o1" for o1
    using find_Some_in [OF that [unfolded r_def]] assms(6) by auto
  moreover have "find_free_area s v inn 0 len align = Inr r"
    unfolding r_def by (rule find_free_area_eq [OF assms(1,2,4,5,6)])
  ultimately show ?thesis by blast
qed

definition demo_region :: vmar where
  "demo_region = \<lparr>va_flags = VF_ROOT_FLAGS, va_addr = 65536, va_size = 65536, va_parent = None,
     va_inner = Some inner_default\<rparr>"

definition demo_inner :: vmar_inner where
  "demo_inner = \<lparr>vin_children = [], vin_mappings =
     [\<lparr>mp_id = 0, mp_permissions = MMU_RXW, mp_vmo = 0, mp_flags = [MMU_READ], mp_addr = 65536,
       mp_size = 4096, mp_vmo_offset = 0\<rparr>]\<rparr>"

definition vmar_start :: "usize list \<Rightarrow> vmar_state" where
  "vmar_start frames = vm_state.extend (vm_start frames)
     \<lparr>vmars = Map.empty, next_root = 0, next_mapping = 0\<rparr>"

lemma find_free_area_complete_witness:
  "\<exists>o1. find_free_area (vmar_start []) demo_region demo_inner 0 8192 4096 = Inr (Some o1) \<and>
     free_at (vmar_start []) demo_region demo_inner 8192 o1"
proof -
  have sub: "sub_ranges (vmar_start []) demo_inner = [(65536, 4096)]"
    by (simp add: sub_ranges_def demo_inner_def map_span_def)
  have "region_ok (vmar_start []) 1 demo_region demo_inner"
    unfolding region_ok_def sub by (simp add: demo_inner_def demo_region_def inside_def)
  moreover have "\<forall>o1 \<in> set (end_offsets (vmar_start []) demo_region demo_inner). o1 mod 4096 = 0"
    by (simp add: end_offsets_def sub demo_region_def)
  moreover have "free_at (vmar_start []) demo_region demo_inner 8192 4096"
    by (simp add: free_at_def sub demo_region_def sep_def)
  ultimately show ?thesis
    using find_free_area_complete [of "vmar_start []" 1 demo_region demo_inner 8192 4096]
    by (fastforce simp: demo_region_def)
qed

text \<open>When the alignment exceeds the page size the search panics as soon as it tries the end of
  a region that is not aligned to it, although a free area may exist.\<close>

theorem find_free_area_large_align_panics:
  "find_free_area (vmar_start []) demo_region demo_inner 0 8192 8192 = Inl Panic \<and>
   free_at (vmar_start []) demo_region demo_inner 8192 8192"
proof -
  have sub: "sub_ranges (vmar_start []) demo_inner = [(65536, 4096)]"
    by (simp add: sub_ranges_def demo_inner_def map_span_def)
  have "test_map (vmar_start []) demo_region demo_inner 8192 8192 0 = Inr False"
    by (simp add: test_map_def demo_inner_def demo_region_def check_aligned_def uadd_def map_overlap_def
      range_overlap_def)
  moreover have "test_map (vmar_start []) demo_region demo_inner 8192 8192 4096 = Inl Panic"
    by (simp add: test_map_def check_aligned_def)
  ultimately show ?thesis
    by (simp add: find_free_area_def check_aligned_def demo_inner_def demo_region_def end_offset_def
      uadd_def usub_def free_at_def sub sub_ranges_def sep_def map_span_def)
qed
subsection \<open>Mapping pages\<close>

lemma trait_committer_cong:
  "paged_objs t = paged_objs s \<Longrightarrow> phys_objs t = phys_objs s \<Longrightarrow>
     trait_committer tr t idx fl = trait_committer tr s idx fl"
  by (induction tr) (simp_all add: paged_commit_page_def get_paged_def get_phys_def)

lemma map_page_success:
  assumes "map_page m tr i u = (Inr (), w)"
  obtains pa fl where "trait_committer tr u (mp_vmo_offset m div 4096 + i) fl = Inr pa"
    and "nth_flag m i = Inr fl"
    and "w = u\<lparr>host_map := (host_map u)(mp_addr m + i * 4096 \<mapsto> (pa, to_mmap_prot fl))\<rparr>"
proof -
  from assms obtain va pa fl where *: "nth_flag m i = Inr fl"
    "trait_committer tr u (mp_vmo_offset m div 4096 + i) fl = Inr pa"
    "va = mp_addr m + i * 4096" "pt_map va pa fl u = (Inr (), w)"
    by (auto simp: map_page_def sbind_slift rbind_eq_Inr split: sum.splits)
  then have "w = u\<lparr>host_map := (host_map u)(mp_addr m + i * 4096 \<mapsto> (pa, to_mmap_prot fl))\<rparr>"
    by (auto simp: pt_map_def split: if_splits)
  with * that show ?thesis by blast
qed

lemma map_loop_result:
  fixes u w :: "'a vmar_state_scheme"
  assumes "sfor (map_page m tr) [0..<n] u = (Inr (), w)"
  shows "pt_only u w \<and>
     (\<forall>j < n. \<exists>pa fl. trait_committer tr u (mp_vmo_offset m div 4096 + j) fl = Inr pa \<and>
        nth_flag m j = Inr fl \<and> host_map w (mp_addr m + j * 4096) = Some (pa, to_mmap_prot fl)) \<and>
     (\<forall>a. (\<forall>j < n. a \<noteq> mp_addr m + j * 4096) \<longrightarrow> host_map w a = host_map u a)"
  using assms
proof (induction n arbitrary: w)
  case 0
  then show ?case by simp
next
  case (Suc n)
  from Suc.prems obtain x where x: "sfor (map_page m tr) [0..<n] u = (Inr (), x)"
    "map_page m tr n x = (Inr (), w)"
    by (auto simp: sfor_append sbind_eq_Inr)
  note IH = Suc.IH [OF x(1)]
  obtain pa fl where p: "trait_committer tr x (mp_vmo_offset m div 4096 + n) fl = Inr pa"
    "nth_flag m n = Inr fl"
    "w = x\<lparr>host_map := (host_map x)(mp_addr m + n * 4096 \<mapsto> (pa, to_mmap_prot fl))\<rparr>"
    using map_page_success [OF x(2)] .
  have "pt_only u x" using IH by blast
  then have same: "trait_committer tr x i f = trait_committer tr u i f" for i f
    by (intro trait_committer_cong) (simp_all add: pt_only_vmars)
  have "pt_only u w" using \<open>pt_only u x\<close> p(3) by (auto intro: pt_only_trans)
  moreover have "\<exists>pa fl. trait_committer tr u (mp_vmo_offset m div 4096 + j) fl = Inr pa \<and>
        nth_flag m j = Inr fl \<and> host_map w (mp_addr m + j * 4096) = Some (pa, to_mmap_prot fl)"
    if "j < Suc n" for j
  proof (cases "j = n")
    case True
    with p same show ?thesis by auto
  next
    case False
    with that IH p(3) show ?thesis by auto
  qed
  ultimately show ?case using IH p(3) by auto
qed

lemma map_ext_success:
  fixes s t :: "'a vmar_state_scheme"
  assumes "map_ext k vo vmo off len perm fl ov mr s = (Inr addr, t)"
  obtains v inn o1 m u w vob pol where "vmars s k = Some v" and "va_inner v = Some inn"
    and "map_args vmo off len perm fl ov mr s = Inr ()"
    and "test_map s v inn len 4096 o1 = Inr True" and "addr = va_addr v + o1"
    and "vmos s vmo = Some vob" and "trait_cache_policy (vo_trait vob) s = Inr pol"
    and "mapping_new addr len vmo off perm
           (fl OR mmu_from_bits_truncate (of_nat (unat (cache_policy_code pol)))) s = (Inr m, u)"
    and "mapping_map m u = (Inr (), w)"
    and "t = put_inner k (Some (inn\<lparr>vin_mappings := vin_mappings inn @ [m]\<rparr>)) w"
proof -
  from assms obtain v inn o1 f m u where *: "vmars s k = Some v" "va_inner v = Some inn"
    "map_args vmo off len perm fl ov mr s = Inr ()"
    "test_map s v inn len 4096 o1 = Inr True"
    "vmo_map_flags vmo fl s = Inr f"
    "mapping_new (va_addr v + o1) len vmo off perm f s = (Inr m, u)"
    "(case mapping_map m u of
             (Inl (Err e), s1) \<Rightarrow> sbind (mapping_drop m) (\<lambda>_. sfail (Err e)) s1
           | (Inl f, s1) \<Rightarrow> (Inl f, s1)
           | (Inr _, s1) \<Rightarrow>
               (Inr (va_addr v + o1), put_inner k (Some (inn\<lparr>vin_mappings := vin_mappings inn @ [m]\<rparr>)) s1))
     = (Inr addr, t)"
    by (auto simp: map_ext_def with_inner_def sbind_slift sbind_eq_Inr split: sum.splits option.splits if_splits)
  from *(7) obtain w where w: "mapping_map m u = (Inr (), w)" "addr = va_addr v + o1"
    "t = put_inner k (Some (inn\<lparr>vin_mappings := vin_mappings inn @ [m]\<rparr>)) w"
    by (auto simp: sbind_def split: prod.splits sum.splits fault.splits)
  from *(5) obtain vob pol where "vmos s vmo = Some vob" "trait_cache_policy (vo_trait vob) s = Inr pol"
    "f = fl OR mmu_from_bits_truncate (of_nat (unat (cache_policy_code pol)))"
    by (auto simp: vmo_map_flags_def rbind_eq_Inr get_vmo_def ok_or_eq_Inr)
  with * w that show ?thesis by blast
qed

lemma paged_commit_page_frames:
  fixes s t :: "'a vmo_state_scheme"
  shows "map_option pg_frames (paged_objs t i) = map_option pg_frames (paged_objs s i) \<Longrightarrow>
     paged_commit_page i idx fl t = paged_commit_page i idx fl s"
  by (cases "paged_objs t i"; cases "paged_objs s i") (auto simp: paged_commit_page_def get_paged_def)

lemma trait_committer_frames:
  fixes s t :: "'a vmo_state_scheme"
  assumes "\<And>i. map_option pg_frames (paged_objs t i) = map_option pg_frames (paged_objs s i)"
    and "phys_objs t = phys_objs s"
  shows "trait_committer tr t idx fl = trait_committer tr s idx fl"
  using assms(2) paged_commit_page_frames [OF assms(1)]
  by (induction tr) (simp_all add: get_phys_def)

lemma append_mapping_frames:
  fixes s :: "'a vmar_state_scheme"
  shows "map_option pg_frames (paged_objs (snd (vmo_append_mapping k m s)) i) =
      map_option pg_frames (paged_objs s i)"
    and "phys_objs (snd (vmo_append_mapping k m s)) = phys_objs s"
    and "map_option vo_trait (vmos (snd (vmo_append_mapping k m s)) j) = map_option vo_trait (vmos s j)"
proof -
  have *: "map_option pg_frames (paged_objs (snd (trait_append_mapping t m s)) i) = map_option pg_frames (paged_objs s i)
      \<and> phys_objs (snd (trait_append_mapping t m s)) = phys_objs s \<and> vmos (snd (trait_append_mapping t m s)) = vmos s"
    for t and s :: "'a vmar_state_scheme"
    by (cases t) (auto simp: paged_append_mapping_def with_paged_def put_paged_def split: option.splits)
  show "map_option pg_frames (paged_objs (snd (vmo_append_mapping k m s)) i) = map_option pg_frames (paged_objs s i)"
    "phys_objs (snd (vmo_append_mapping k m s)) = phys_objs s"
    "map_option vo_trait (vmos (snd (vmo_append_mapping k m s)) j) = map_option vo_trait (vmos s j)"
    using * by (auto simp: vmo_append_mapping_def with_vmo_def sbind_def put_vmo_def split: option.splits sum.splits)
qed

lemma pages_exact: "page_aligned len \<Longrightarrow> len < usize_lim \<Longrightarrow> pages len = len div 4096"
  by (rule pages_aligned)

lemma prot_ignores_cache:
  "to_mmap_prot (fl OR mmu_from_bits_truncate (of_nat (unat (cache_policy_code pol)))) = to_mmap_prot fl"
proof -
  have "(fl OR c) AND b = fl AND b" if "c AND b = 0" for fl c b :: u64
    using that by (simp add: bit.conj_disj_distrib2)
  moreover have "mmu_from_bits_truncate (of_nat (unat (cache_policy_code pol))) AND b = 0"
    if "b \<in> {MMU_READ, MMU_WRITE, MMU_EXECUTE}" for b
    using that by (cases pol) (auto simp: mmu_from_bits_truncate_def mmu_flag_defs)
  ultimately show ?thesis by (simp add: to_mmap_prot_def flags_contains_def)
qed

lemma map_ext_pages:
  fixes s t :: "'a vmar_state_scheme"
  assumes "map_ext k vo vmo off len perm fl ov mr s = (Inr addr, t)" and "vmos s vmo = Some vob"
  shows "(\<forall>j < len div 4096. \<exists>pa fl'. trait_committer (vo_trait vob) s (off div 4096 + j) fl' = Inr pa \<and>
       host_map t (addr + j * 4096) = Some (pa, to_mmap_prot fl)) \<and>
     (\<forall>a. (\<forall>j < len div 4096. a \<noteq> addr + j * 4096) \<longrightarrow> host_map t a = host_map s a)"
proof -
  obtain v inn o1 m u w pol where m:
    "mapping_new addr len vmo off perm (fl OR mmu_from_bits_truncate (of_nat (unat (cache_policy_code pol)))) s = (Inr m, u)"
    "mapping_map m u = (Inr (), w)"
    "t = put_inner k (Some (inn\<lparr>vin_mappings := vin_mappings inn @ [m]\<rparr>)) w"
    by (rule map_ext_success [OF assms(1)]) blast
  note R = mapping_new_result [OF m(1)]
  have u: "u = snd (vmo_append_mapping vmo (next_mapping s) (s\<lparr>next_mapping := next_mapping s + 1\<rparr>))"
    using R(7) .
  have sp: "mp_addr m = addr" "mp_size m = len" using R(1) by (simp_all add: map_span_def)
  have "map_option vo_trait (vmos u vmo) = Some (vo_trait vob)"
    using append_mapping_frames(3) [of vmo "next_mapping s" "s\<lparr>next_mapping := next_mapping s + 1\<rparr>" vmo] assms(2)
    by (simp add: u)
  then obtain vob' where vob': "vmos u vmo = Some vob'" "vo_trait vob' = vo_trait vob" by auto
  have loop: "sfor (map_page m (vo_trait vob)) [0..<len div 4096] u = (Inr (), w)"
    using m(2) vob' by (simp add: mapping_map_def with_vmo_def R(2) sp)
  have comm: "trait_committer tr u idx f = trait_committer tr s idx f" for tr idx f
    unfolding u by (rule trait_committer_frames) (simp_all add: append_mapping_frames)
  have ht: "host_map t = host_map w" unfolding m(3) by (simp add: put_inner_def put_vmar_def split: option.splits)
  have hu: "host_map u = host_map s" using mapping_new_frame(3) [OF m(1)] .
  have fl: "fl' = fl OR mmu_from_bits_truncate (of_nat (unat (cache_policy_code pol)))"
    if "nth_flag m j = Inr fl'" for j fl'
    using that R(5) by (auto simp: nth_flag_def split: if_splits)
  from map_loop_result [OF loop] show ?thesis
    unfolding ht R(3) sp comm hu using prot_ignores_cache fl by metis
qed

text \<open>C21. A successful \<open>map_ext\<close> maps page \<open>j\<close> of the mapping to frame \<open>vmo_offset / PAGE_SIZE + j\<close> of
  the paged memory object, with the requested protection and never more than the caller's
  permissions, and touches no other page of the address space.\<close>

theorem map_installs_frames:
  fixes s t :: "'a vmar_state_scheme"
  assumes "map_ext k vo vmo off len perm fl ov mr s = (Inr addr, t)" and "vmos s vmo = Some vob"
    and "vo_trait vob = Paged i" and "paged_objs s i = Some pg"
  shows "(\<forall>j < len div 4096. off div 4096 + j < length (pg_frames pg) \<and>
       host_map t (addr + j * 4096) = Some (pg_frames pg ! (off div 4096 + j), to_mmap_prot fl)) \<and>
     (\<forall>a. (\<forall>j < len div 4096. a \<noteq> addr + j * 4096) \<longrightarrow> host_map t a = host_map s a) \<and>
     to_mmap_prot fl \<subseteq> to_mmap_prot perm"
proof -
  have "map_args vmo off len perm fl ov mr s = Inr ()"
    by (rule map_ext_success [OF assms(1)]) blast
  then have perm: "flags_contains perm (fl AND MMU_RXW)" by (auto simp: map_args_def split: if_splits)
  have "flags_contains perm b" if "flags_contains fl b" "flags_contains MMU_RXW b" for b
    using perm that by (auto simp: flags_contains_bits bit_and_iff)
  then have "to_mmap_prot fl \<subseteq> to_mmap_prot perm"
    by (auto simp: to_mmap_prot_def flags_contains_def mmu_flag_defs split: if_splits)
  moreover have "off div 4096 + j < length (pg_frames pg) \<and>
       host_map t (addr + j * 4096) = Some (pg_frames pg ! (off div 4096 + j), to_mmap_prot fl)"
    if "j < len div 4096" for j
    using map_ext_pages [OF assms(1,2)] that assms(3,4)
    by (fastforce simp: paged_commit_page_def get_paged_def split: if_splits)
  ultimately show ?thesis using map_ext_pages [OF assms(1,2)] by blast
qed

text \<open>Mapping a slice ignores the slice's offset: page \<open>j\<close> of the mapping is the page of the
  parent at \<open>vmo_offset / PAGE_SIZE + j\<close>, while \<open>commit_page\<close> of the same slice returns the page
  \<open>slice offset / PAGE_SIZE\<close> further on.\<close>

theorem map_slice_ignores_offset:
  fixes s t :: "'a vmar_state_scheme"
  assumes "map_ext k vo vmo off len perm fl ov mr s = (Inr addr, t)" and "vmos s vmo = Some vob"
    and "vo_trait vob = Slice (Paged i) soff sz" and "paged_objs s i = Some pg" and "j < len div 4096"
  shows "map_option fst (host_map t (addr + j * 4096)) = Some (pg_frames pg ! (off div 4096 + j)) \<and>
     (off div 4096 + j + soff div 4096 < length (pg_frames pg) \<longrightarrow>
        off div 4096 + j + soff div 4096 < usize_lim \<longrightarrow>
        trait_commit_page (vo_trait vob) (off div 4096 + j) fl s =
          Inr (pg_frames pg ! (off div 4096 + j + soff div 4096)))"
  using map_ext_pages [OF assms(1,2)] assms(3-5)
  by (fastforce simp: paged_commit_page_def get_paged_def uadd_def split: if_splits)

definition demo_map_state :: "vmo_trait \<Rightarrow> vmar_state" where
  "demo_map_state tr = (vmar_start [])
     \<lparr>paged_objs := [0 \<mapsto> paged_default\<lparr>pg_frames := [4096, 8192, 12288]\<rparr>],
      vmos := [1 \<mapsto> vmobject_init ''vmo'' False tr None],
      vmars := [2 \<mapsto> \<lparr>va_flags = VF_ROOT_FLAGS, va_addr = ROOT_BASE, va_size = ROOT_SIZE, va_parent = None,
         va_inner = Some inner_default\<rparr>]\<rparr>"

lemmas demo_map_defs =
  demo_map_state_def vmar_start_def vm_start_def vm_state.defs map_ext_def map_args_def vmo_len_def get_vmo_def
  vmobject_init_def paged_len_def get_paged_def paged_default_def with_inner_def determine_offset_def
  test_map_def check_aligned_def inner_default_def vmo_map_flags_def paged_cache_policy_def mapping_new_def
  vmo_append_mapping_def with_vmo_def paged_append_mapping_def with_paged_def put_paged_def put_vmo_def
  mapping_map_def map_page_def nth_flag_def paged_commit_page_def pt_map_def put_inner_def put_vmar_def
  pages_eq page_aligned_iff umul_def uadd_def usub_def mmu_flag_defs flags_contains_def ROOT_BASE_def ROOT_SIZE_def
  sbind_slift Let_def

lemma demo_map_paged:
  obtains t where "map_ext 2 (Some 0) 1 4096 4096 MMU_RXW (MMU_READ OR MMU_WRITE) False True
    (demo_map_state (Paged 0)) = (Inr ROOT_BASE, t)"
  by (simp add: demo_map_defs sbind_def)

lemma demo_map_slice:
  obtains t where "map_ext 2 (Some 0) 1 0 4096 MMU_RXW (MMU_READ OR MMU_WRITE) False True
    (demo_map_state (Slice (Paged 0) 4096 8192)) = (Inr ROOT_BASE, t)"
  by (simp add: demo_map_defs sbind_def)

lemma map_installs_frames_witness:
  "\<exists>t. map_ext 2 (Some 0) 1 4096 4096 MMU_RXW (MMU_READ OR MMU_WRITE) False True
      (demo_map_state (Paged 0)) = (Inr ROOT_BASE, t) \<and>
     host_map t ROOT_BASE = Some (8192, {PROT_READ, PROT_WRITE})"
proof -
  obtain t where t: "map_ext 2 (Some 0) 1 4096 4096 MMU_RXW (MMU_READ OR MMU_WRITE) False True
      (demo_map_state (Paged 0)) = (Inr ROOT_BASE, t)"
    by (rule demo_map_paged)
  have "host_map t ROOT_BASE = Some (8192, to_mmap_prot (MMU_READ OR MMU_WRITE))"
    using map_installs_frames [OF t, of "vmobject_init ''vmo'' False (Paged 0) None" 0
      "paged_default\<lparr>pg_frames := [4096, 8192, 12288]\<rparr>"]
    by (simp add: demo_map_state_def vmobject_init_def)
  also have "to_mmap_prot (MMU_READ OR MMU_WRITE) = {PROT_READ, PROT_WRITE}"
    by (auto simp: to_mmap_prot_def flags_contains_def mmu_flag_defs)
  finally show ?thesis using t by blast
qed

lemma map_slice_ignores_offset_witness:
  "\<exists>t. map_ext 2 (Some 0) 1 0 4096 MMU_RXW (MMU_READ OR MMU_WRITE) False True
      (demo_map_state (Slice (Paged 0) 4096 8192)) = (Inr ROOT_BASE, t) \<and>
     map_option fst (host_map t ROOT_BASE) = Some 4096 \<and>
     trait_commit_page (Slice (Paged 0) 4096 8192) 0 MMU_READ (demo_map_state (Slice (Paged 0) 4096 8192)) = Inr 8192"
proof -
  obtain t where t: "map_ext 2 (Some 0) 1 0 4096 MMU_RXW (MMU_READ OR MMU_WRITE) False True
      (demo_map_state (Slice (Paged 0) 4096 8192)) = (Inr ROOT_BASE, t)"
    by (rule demo_map_slice)
  have "map_option fst (host_map t ROOT_BASE) = Some 4096"
    using map_slice_ignores_offset [OF t, of "vmobject_init ''vmo'' False (Slice (Paged 0) 4096 8192) None" 0
      4096 8192 "paged_default\<lparr>pg_frames := [4096, 8192, 12288]\<rparr>" 0]
    by (simp add: demo_map_state_def vmobject_init_def)
  moreover have "trait_commit_page (Slice (Paged 0) 4096 8192) 0 MMU_READ
      (demo_map_state (Slice (Paged 0) 4096 8192)) = Inr 8192"
    by (simp add: paged_commit_page_def get_paged_def demo_map_state_def uadd_def)
  ultimately show ?thesis using t by blast
qed

end
