(* ===== verification/Vmar_Destroy.thy ===== *)
theory Vmar_Destroy
  imports Vmar_Map
begin

text \<open>
  Unmapping and destruction. \<open>destroy_internal\<close> recurses over the tree of regions; the object ids,
  which grow from parent to child, bound its depth, so the fuel the operations pass is enough. A
  destroyed region and everything below it refuses every further operation.
\<close>

subsection \<open>The tree of live regions\<close>

definition is_dead :: "'a vmar_state_scheme \<Rightarrow> koid \<Rightarrow> bool" where
  "is_dead s k \<longleftrightarrow> (\<exists>v. vmars s k = Some v \<and> va_inner v = None)"

definition is_live :: "'a vmar_state_scheme \<Rightarrow> koid \<Rightarrow> bool" where
  "is_live s k \<longleftrightarrow> (\<exists>v inn. vmars s k = Some v \<and> va_inner v = Some inn)"

definition edge :: "'a vmar_state_scheme \<Rightarrow> koid \<Rightarrow> koid \<Rightarrow> bool" where
  "edge s x y \<longleftrightarrow> (\<exists>v inn. vmars s x = Some v \<and> va_inner v = Some inn \<and> y \<in> set (vin_children inn))"

definition mapping_ok :: "vm_mapping \<Rightarrow> bool" where
  "mapping_ok m \<longleftrightarrow> (mp_size m div 4096 = 0 \<or> page_aligned (mp_addr m)) \<and> mp_size m < usize_lim"

definition maps_ok :: "'a vmar_state_scheme \<Rightarrow> bool" where
  "maps_ok s \<longleftrightarrow> (\<forall>k v inn m. vmars s k = Some v \<longrightarrow> va_inner v = Some inn \<longrightarrow>
     m \<in> set (vin_mappings inn) \<longrightarrow> mapping_ok m)"

definition live_children :: "koid set \<Rightarrow> 'a vmar_state_scheme \<Rightarrow> bool" where
  "live_children X s \<longleftrightarrow> (\<forall>x y. edge s x y \<longrightarrow> is_live s y \<or> y \<in> X)"

lemma mapping_drop_ok:
  assumes "mapping_ok m"
  shows "mapping_drop m s = (Inr (), snd (mapping_drop m s))"
proof -
  have "4096 * (mp_size m div 4096) \<le> mp_size m" by simp
  then have "4096 * (mp_size m div 4096) < usize_lim" using assms unfolding mapping_ok_def by linarith
  then show ?thesis
    using assms by (auto simp: mapping_drop_def mapping_unmap_def pt_unmap_cont_def mapping_ok_def umul_def)
qed

lemma drop_all_ok:
  assumes "\<forall>m \<in> set ms. mapping_ok m"
  shows "sfor mapping_drop ms s = (Inr (), snd (sfor mapping_drop ms s))"
proof -
  have "\<exists>t. sfor mapping_drop ms s = (Inr (), t) \<and> True"
    by (rule sfor_all_ok) (use assms mapping_drop_ok in blast)+
  then show ?thesis by auto
qed

lemma edge_frame: "vmars t = vmars s \<Longrightarrow> edge t = edge s"
  by (simp add: edge_def fun_eq_iff)

lemma space_edge:
  assumes "space_inv s" and "edge s x y"
  shows "x < y" "\<exists>w. vmars s y = Some w \<and> va_parent w = Some x" "y < next_koid s"
proof -
  obtain v inn where v: "vmars s x = Some v" "va_inner v = Some inn" "y \<in> set (vin_children inn)"
    using assms(2) by (auto simp: edge_def)
  have "region_ok s x v inn" using space_invD(2) [OF assms(1) v(1,2)] .
  with v(3) show "x < y" "\<exists>w. vmars s y = Some w \<and> va_parent w = Some x" by (auto simp: region_ok_def)
  then show "y < next_koid s" using space_invD(1) [OF assms(1)] by auto
qed

text \<open>What a run of \<open>destroy_internal\<close> does to the store.\<close>

definition destroyed :: "koid \<Rightarrow> 'a vmar_state_scheme \<Rightarrow> 'a vmar_state_scheme \<Rightarrow> bool" where
  "destroyed k s t \<longleftrightarrow>
     is_dead t k \<and> next_koid t = next_koid s \<and>
     (\<forall>j. vmars t j = vmars s j \<or> is_dead t j) \<and>
     (\<forall>j. j \<noteq> k \<longrightarrow> (\<forall>x. \<not> edge s x j) \<longrightarrow> vmars t j = vmars s j) \<and>
     (\<forall>j. vmars t j \<noteq> vmars s j \<longrightarrow> (edge s)\<^sup>*\<^sup>* k j) \<and>
     (\<forall>x y. edge s x y \<longrightarrow> is_dead t x \<longrightarrow> is_dead t y)"

lemma maps_ok_mono:
  "maps_ok s \<Longrightarrow> (\<And>j. vmars t j = vmars s j \<or> is_dead t j) \<Longrightarrow> maps_ok t"
  unfolding maps_ok_def is_dead_def by (metis option.distinct(1) option.inject)

lemma edge_mono: "(\<And>j. vmars t j = vmars s j \<or> is_dead t j) \<Longrightarrow> edge t x y \<Longrightarrow> edge s x y"
  unfolding edge_def is_dead_def by (metis option.distinct(1) option.inject)

lemma live_not_dead: "is_live s k \<Longrightarrow> \<not> is_dead s k"
  by (auto simp: is_live_def is_dead_def)

lemma edge_live: "edge s x y \<Longrightarrow> is_live s x"
  by (auto simp: edge_def is_live_def)

lemma destroy_loop:
  fixes s :: "'a vmar_state_scheme"
  assumes IH: "\<And>c (u :: 'a vmar_state_scheme). space_inv u \<Longrightarrow> maps_ok u \<Longrightarrow> live_children {} u \<Longrightarrow> is_live u c \<Longrightarrow>
      unat (next_koid u) < n + unat c \<Longrightarrow>
      \<exists>t. destroy_internal n c u = (Inr (), t) \<and> live_children {c} t \<and> destroyed c u t"
    and "space_inv s" and "maps_ok s" and "live_children {} s" and "distinct cs"
    and "\<And>c. c \<in> set cs \<Longrightarrow> is_live s c \<and> (\<forall>x. \<not> edge s x c) \<and> unat (next_koid s) < n + unat c"
  shows "\<exists>t. sfor (destroy_internal n) cs s = (Inr (), t) \<and> live_children {} t \<and> next_koid t = next_koid s \<and>
      (\<forall>c \<in> set cs. is_dead t c) \<and> (\<forall>j. vmars t j = vmars s j \<or> is_dead t j) \<and>
      (\<forall>j. j \<notin> set cs \<longrightarrow> (\<forall>x. \<not> edge s x j) \<longrightarrow> vmars t j = vmars s j) \<and>
      (\<forall>j. vmars t j \<noteq> vmars s j \<longrightarrow> (\<exists>c \<in> set cs. (edge s)\<^sup>*\<^sup>* c j)) \<and>
      (\<forall>x y. edge s x y \<longrightarrow> is_dead t x \<longrightarrow> is_dead t y)"
  using assms(2-6)
proof (induction cs arbitrary: s)
  case Nil
  then show ?case by (auto dest: edge_live live_not_dead)
next
  case (Cons c cs)
  obtain u where u: "destroy_internal n c s = (Inr (), u)" "live_children {c} u" "destroyed c s u"
    using IH [of s c] Cons.prems by auto
  have d: "is_dead u c" "next_koid u = next_koid s" "\<And>j. vmars u j = vmars s j \<or> is_dead u j"
    "\<And>j. j \<noteq> c \<Longrightarrow> (\<forall>x. \<not> edge s x j) \<Longrightarrow> vmars u j = vmars s j"
    "\<And>x y. edge s x y \<Longrightarrow> is_dead u x \<Longrightarrow> is_dead u y"
    "\<And>j. vmars u j \<noteq> vmars s j \<Longrightarrow> (edge s)\<^sup>*\<^sup>* c j"
    using u(3) by (auto simp: destroyed_def)
  have sub: "edge s x y" if "edge u x y" for x y using edge_mono [OF d(3) that] .
  have "live_children {} u"
    unfolding live_children_def
  proof (intro allI impI)
    fix x y assume e: "edge u x y"
    then have "y \<noteq> c" using sub [OF e] Cons.prems(5) [of c] by auto
    with u(2) e show "is_live u y \<or> y \<in> {}" by (auto simp: live_children_def)
  qed
  moreover have "space_inv u"
    using space_inv_destroy_internal [OF Cons.prems(1), of n c] u(1) by simp
  moreover have "maps_ok u" using maps_ok_mono [OF Cons.prems(2)] d(3) by blast
  moreover have "distinct cs" using Cons.prems(4) by simp
  moreover have "is_live u j \<and> (\<forall>x. \<not> edge u x j) \<and> unat (next_koid u) < n + unat j" if j: "j \<in> set cs" for j
  proof -
    have "j \<noteq> c" using j Cons.prems(4) by auto
    with d(4) [of j] Cons.prems(5) [of j] j have "vmars u j = vmars s j" by simp
    with Cons.prems(5) [of j] j sub d(2) show ?thesis by (auto simp: is_live_def)
  qed
  ultimately obtain t where t: "sfor (destroy_internal n) cs u = (Inr (), t)" "live_children {} t"
    "next_koid t = next_koid u" "\<forall>c \<in> set cs. is_dead t c" "\<And>j. vmars t j = vmars u j \<or> is_dead t j"
    "\<And>j. j \<notin> set cs \<Longrightarrow> (\<forall>x. \<not> edge u x j) \<Longrightarrow> vmars t j = vmars u j"
    "\<And>x y. edge u x y \<Longrightarrow> is_dead t x \<Longrightarrow> is_dead t y"
    "\<And>j. vmars t j \<noteq> vmars u j \<Longrightarrow> \<exists>c \<in> set cs. (edge u)\<^sup>*\<^sup>* c j"
    using Cons.IH [of u] by blast
  have stay: "is_dead t j" if "is_dead u j" for j
    using t(5) [of j] that by (auto simp: is_dead_def)
  have "is_dead t y" if e: "edge s x y" "is_dead t x" for x y
  proof (cases "is_dead u x")
    case True
    then show ?thesis using d(5) [OF e(1)] stay by blast
  next
    case False
    then have "edge u x y" using d(3) [of x] e(1) by (auto simp: edge_def)
    then show ?thesis using t(7) e(2) by blast
  qed
  moreover have "vmars t j = vmars s j" if "j \<notin> set (c # cs)" "\<forall>x. \<not> edge s x j" for j
    using that t(6) [of j] d(4) [of j] sub by auto
  moreover have "vmars t j = vmars s j \<or> is_dead t j" for j
    using t(5) [of j] d(3) [of j] stay [of j] by auto
  moreover have "\<exists>c \<in> set (c # cs). (edge s)\<^sup>*\<^sup>* c j" if ne: "vmars t j \<noteq> vmars s j" for j
  proof (cases "vmars u j = vmars s j")
    case True
    then obtain c' where "c' \<in> set cs" "(edge u)\<^sup>*\<^sup>* c' j" using t(8) [of j] ne by auto
    moreover have "(edge u)\<^sup>*\<^sup>* \<le> (edge s)\<^sup>*\<^sup>*" by (rule rtranclp_mono) (use sub in blast)
    then have "(edge u)\<^sup>*\<^sup>* c' j \<Longrightarrow> (edge s)\<^sup>*\<^sup>* c' j" by (rule predicate2D)
    ultimately show ?thesis by auto
  next
    case False
    with d(6) show ?thesis by auto
  qed
  moreover have "sfor (destroy_internal n) (c # cs) s = (Inr (), t)"
    using u(1) t(1) by (simp add: sbind_Inr)
  ultimately show ?case using t(2-4) d(1,2) stay by (intro exI [of _ t]) auto
qed

lemma destroy_works:
  fixes s :: "'a vmar_state_scheme"
  assumes "space_inv s" and "maps_ok s" and "live_children {} s" and "is_live s k"
    and "unat (next_koid s) < n + unat k"
  shows "\<exists>t. destroy_internal n k s = (Inr (), t) \<and> live_children {k} t \<and> destroyed k s t"
  using assms
proof (induction n arbitrary: k s)
  case 0
  then obtain v where "vmars s k = Some v" by (auto simp: is_live_def)
  from space_invD(1) [OF 0(1) this] 0(5) show ?case by (simp add: word_less_nat_alt)
next
  case (Suc n)
  obtain v inn where v: "vmars s k = Some v" "va_inner v = Some inn"
    using Suc.prems(4) by (auto simp: is_live_def)
  let ?cs = "vin_children inn"
  let ?s1 = "put_inner k (Some (inn\<lparr>vin_children := []\<rparr>)) s"
  have s1: "vmars ?s1 = (vmars s)(k \<mapsto> v\<lparr>va_inner := Some (inn\<lparr>vin_children := []\<rparr>)\<rparr>)"
    "next_koid ?s1 = next_koid s"
    using v(1) by (simp_all add: put_inner_eq)
  have e1: "edge ?s1 x y \<longleftrightarrow> x \<noteq> k \<and> edge s x y" for x y
    by (auto simp: edge_def s1)
  have ek: "edge s k c \<longleftrightarrow> c \<in> set ?cs" for c using v by (simp add: edge_def)
  have kc: "k < c" if "c \<in> set ?cs" for c using space_edge(1) [OF Suc.prems(1)] ek that by blast
  have live1: "is_live ?s1 j = is_live s j" for j
    using v by (auto simp: is_live_def s1)
  have inv1: "space_inv ?s1" using Suc.prems(1) v shrinks_no_children by (rule space_inv_shrink)
  have maps1: "maps_ok ?s1"
    using Suc.prems(2) v unfolding maps_ok_def s1 by auto
  have ch1: "live_children {} ?s1" using Suc.prems(3) by (auto simp: live_children_def e1 live1)
  have each: "is_live ?s1 c \<and> (\<forall>x. \<not> edge ?s1 x c) \<and> unat (next_koid ?s1) < n + unat c"
    if c: "c \<in> set ?cs" for c
  proof -
    have "is_live s c" using Suc.prems(3) c ek by (auto simp: live_children_def)
    moreover have "x = k" if "edge s x c" for x
      using space_edge(2) [OF Suc.prems(1) that] space_edge(2) [OF Suc.prems(1), of k c] ek c by auto
    moreover have "unat k < unat c" using kc [OF c] by (simp add: word_less_nat_alt)
    ultimately show ?thesis using Suc.prems(5) by (auto simp: e1 live1 s1)
  qed
  have "distinct ?cs" using space_invD(2) [OF Suc.prems(1) v] by (simp add: region_ok_def)
  from destroy_loop [OF Suc.IH inv1 maps1 ch1 this each]
  obtain t1 where t1: "sfor (destroy_internal n) ?cs ?s1 = (Inr (), t1)" "live_children {} t1"
    "next_koid t1 = next_koid ?s1" "\<forall>c \<in> set ?cs. is_dead t1 c" "\<And>j. vmars t1 j = vmars ?s1 j \<or> is_dead t1 j"
    "\<And>j. j \<notin> set ?cs \<Longrightarrow> (\<forall>x. \<not> edge ?s1 x j) \<Longrightarrow> vmars t1 j = vmars ?s1 j"
    "\<And>x y. edge ?s1 x y \<Longrightarrow> is_dead t1 x \<Longrightarrow> is_dead t1 y"
    "\<And>j. vmars t1 j \<noteq> vmars ?s1 j \<Longrightarrow> \<exists>c \<in> set ?cs. (edge ?s1)\<^sup>*\<^sup>* c j"
    by blast
  have mp: "\<forall>m \<in> set (vin_mappings inn). mapping_ok m" using Suc.prems(2) v unfolding maps_ok_def by blast
  define t2 where "t2 = snd (sfor mapping_drop (vin_mappings inn) t1)"
  have "pt_only t1 t2" unfolding t2_def by (rule sfor_pt_only) (rule mapping_drop_pt_only)
  then have t2: "vmars t2 = vmars t1" "next_koid t2 = next_koid t1" by (simp_all add: pt_only_vmars)
  have drop: "sfor mapping_drop (vin_mappings inn) t1 = (Inr (), t2)"
    using drop_all_ok [OF mp, of t1] by (simp add: t2_def)
  obtain v1 where v1: "vmars t2 k = Some v1"
    using t1(5) [of k] by (auto simp: s1 t2 is_dead_def)
  define t where "t = put_inner k None t2"
  have vt: "vmars t = (vmars t1)(k \<mapsto> v1\<lparr>va_inner := None\<rparr>)" "next_koid t = next_koid s"
    using v1 t1(3) by (simp_all add: t_def put_inner_eq t2 s1)
  have run: "destroy_internal (Suc n) k s = (Inr (), t)"
    using v t1(1) drop by (simp add: with_inner_def sbind_def t_def)
  have dead: "is_dead t k" by (simp add: is_dead_def vt)
  have keep: "is_dead t j" if "is_dead t1 j" for j using that dead by (auto simp: is_dead_def vt)
  have "vmars t j = vmars s j \<or> is_dead t j" for j
    using t1(5) [of j] keep [of j] dead by (cases "j = k") (auto simp: vt s1)
  moreover have "vmars t j = vmars s j" if "j \<noteq> k" "\<forall>x. \<not> edge s x j" for j
    using t1(6) [of j] that ek [of j] by (auto simp: vt s1 e1)
  moreover have "is_dead t y" if e: "edge s x y" "is_dead t x" for x y
  proof (cases "x = k")
    case True
    with e(1) ek t1(4) keep show ?thesis by blast
  next
    case False
    then have "is_dead t1 x" using e(2) by (simp add: is_dead_def vt)
    with t1(7) [of x y] False e(1) keep show ?thesis by (simp add: e1)
  qed
  moreover have "(edge s)\<^sup>*\<^sup>* k j" if j: "vmars t j \<noteq> vmars s j" for j
  proof (cases "j = k")
    case False
    with j have "vmars t1 j \<noteq> vmars ?s1 j" by (simp add: vt s1)
    then obtain c where c: "c \<in> set ?cs" "(edge ?s1)\<^sup>*\<^sup>* c j" using t1(8) by blast
    have "(edge ?s1)\<^sup>*\<^sup>* \<le> (edge s)\<^sup>*\<^sup>*" by (rule rtranclp_mono) (auto simp: e1)
    then have "(edge s)\<^sup>*\<^sup>* c j" using c(2) by (rule predicate2D)
    moreover have "edge s k c" using c(1) ek by simp
    ultimately show ?thesis by (rule converse_rtranclp_into_rtranclp [rotated])
  qed simp
  ultimately have "destroyed k s t" using dead vt(2) by (auto simp: destroyed_def)
  moreover have "live_children {k} t"
  proof -
    have "is_live t y \<or> y = k" if "edge t x y" for x y
    proof -
      have "edge t1 x y" using that by (auto simp: edge_def vt split: if_splits)
      then have "is_live t1 y" using t1(2) by (auto simp: live_children_def)
      then show ?thesis by (auto simp: is_live_def vt)
    qed
    then show ?thesis by (auto simp: live_children_def)
  qed
  ultimately show ?case using run by blast
qed

subsection \<open>Destroying a region\<close>

lemma destroyed_descendants:
  assumes "destroyed k s t" and "(edge s)\<^sup>*\<^sup>* k j"
  shows "is_dead t j"
  using assms(2)
proof (induction rule: rtranclp_induct)
  case base
  show ?case using assms(1) by (simp add: destroyed_def)
next
  case (step y z)
  then show ?case using assms(1) by (auto simp: destroyed_def)
qed

lemma edge_path_le:
  assumes "space_inv s" and "(edge s)\<^sup>*\<^sup>* k j"
  shows "k \<le> j"
  using assms(2)
proof (induction rule: rtranclp_induct)
  case base
  show ?case by simp
next
  case (step y z)
  then show ?case using space_edge(1) [OF assms(1), of y z] by simp
qed

lemma destroy_root:
  fixes s :: "'a vmar_state_scheme"
  assumes "space_inv s" and "maps_ok s" and "live_children {} s" and "is_live s k"
  obtains t where "destroy_internal (destroy_fuel s) k s = (Inr (), t)" and "live_children {k} t"
    and "destroyed k s t" and "space_inv t"
proof -
  have "unat (next_koid s) < destroy_fuel s + unat k" by (simp add: destroy_fuel_def)
  from destroy_works [OF assms this] obtain t where t: "destroy_internal (destroy_fuel s) k s = (Inr (), t)"
    "live_children {k} t" "destroyed k s t" by blast
  moreover have "space_inv t"
    using space_inv_destroy_internal [OF assms(1), of "destroy_fuel s" k] t(1) by simp
  ultimately show ?thesis by (rule that)
qed

lemma same_regions_refl [simp]: "same_regions s s"
  by (simp add: same_regions_def)

lemma same_regions_trans: "same_regions s t \<Longrightarrow> same_regions t u \<Longrightarrow> same_regions s u"
  by (simp add: same_regions_def)

lemma same_regions_pt: "pt_only s t \<Longrightarrow> same_regions s t"
  by (simp add: same_regions_def pt_only_vmars)

lemma destroy_internal_keeps:
  fixes s :: "'a vmar_state_scheme"
  assumes put: "\<And>k i u. P u \<Longrightarrow> P (put_inner k i u)"
    and drop: "\<And>m u. P u \<Longrightarrow> P (snd (mapping_drop m u))"
  shows "P s \<Longrightarrow> P (snd (destroy_internal n k s))"
proof (induction n arbitrary: k s)
  case 0
  then show ?case by simp
next
  case (Suc n)
  have loop: "P (snd (sfor f is u))" if "P u" and "\<And>i u. P u \<Longrightarrow> P (snd (f i u))" for f "is" and u :: "'a vmar_state_scheme"
  proof -
    obtain r t where rt: "sfor f is u = (r, t)" by fastforce
    have "P t"
    proof (rule sfor_invariant [OF rt, where P = P, OF that(1)])
      fix i w r w' assume "P w" "f i w = (r, w')"
      with that(2) [of w i] show "P w'" by simp
    qed
    with rt show ?thesis by simp
  qed
  have tail: "P (snd (sbind (sfor mapping_drop ms) (\<lambda>_ s1. (Inr () :: unit zx, put_inner k None s1)) u))"
    if "P u" for ms u
    by (rule sbind_keeps [where P = P], rule loop [OF that drop], assumption) (simp add: put)
  have "P (snd (sbind (sfor (destroy_internal n) cs) (\<lambda>_. sbind (sfor mapping_drop ms) (\<lambda>_ s1.
      (Inr () :: unit zx, put_inner k None s1))) (put_inner k i s)))" for cs ms i
    by (rule sbind_keeps [where P = P], rule loop, rule put [OF Suc.prems], rule Suc.IH, assumption, rule tail)
  with Suc.prems show ?case by (auto simp: with_inner_def split: option.splits)
qed

lemma destroy_internal_regions:
  fixes s :: "'a vmar_state_scheme"
  shows "same_regions s (snd (destroy_internal n k s))"
  by (rule destroy_internal_keeps [where P = "same_regions s"])
    (auto intro: same_regions_trans put_inner_same_regions same_regions_pt mapping_drop_pt_only)

text \<open>Destruction only unmaps.\<close>

lemma mapping_drop_unmaps: "host_map s a = None \<Longrightarrow> host_map (snd (mapping_drop m s)) a = None"
  by (auto simp: mapping_drop_def mapping_unmap_def pt_unmap_cont_def split: sum.splits)

lemma put_inner_host [simp]: "host_map (put_inner k i s) = host_map s"
  by (simp add: put_inner_def put_vmar_def split: option.splits)

lemma destroy_internal_unmaps:
  fixes s :: "'a vmar_state_scheme"
  shows "host_map s a = None \<Longrightarrow> host_map (snd (destroy_internal n k s)) a = None"
  by (rule destroy_internal_keeps [where P = "\<lambda>s. host_map s a = None"]) (simp_all add: mapping_drop_unmaps)

lemma destroy_internal_older:
  fixes s :: "'a vmar_state_scheme"
  shows "space_inv s \<Longrightarrow> j < k \<Longrightarrow> vmars (snd (destroy_internal n k s)) j = vmars s j"
proof (induction n arbitrary: k s)
  case 0
  then show ?case by simp
next
  case (Suc n)
  show ?case
  proof (cases "\<exists>v inn. vmars s k = Some v \<and> va_inner v = Some inn")
    case False
    then show ?thesis by (auto simp: with_inner_def split: option.splits)
  next
    case True
    then obtain v inn where v: "vmars s k = Some v" "va_inner v = Some inn" by blast
    let ?P = "\<lambda>u. space_inv u \<and> vmars u j = vmars s j"
    have put: "vmars (put_inner k i u) j = vmars u j" for i and u :: "'a vmar_state_scheme"
      using Suc.prems(2) by (auto simp: put_inner_def put_vmar_def split: option.splits)
    have older: "j < c" if "c \<in> set (vin_children inn)" for c
      using space_invD(2) [OF Suc.prems(1) v] that Suc.prems(2) by (auto simp: region_ok_def)
    let ?s1 = "put_inner k (Some (inn\<lparr>vin_children := []\<rparr>)) s"
    have s1: "?P ?s1"
      using space_inv_shrink [OF Suc.prems(1) v shrinks_no_children] put by simp
    obtain r t where rt: "sfor (destroy_internal n) (vin_children inn) ?s1 = (r, t)" by fastforce
    have "?P t"
    proof (rule sfor_invariant [OF rt, where P = ?P, OF s1])
      fix c r and u u' :: "'a vmar_state_scheme" assume "c \<in> set (vin_children inn)" "?P u" "destroy_internal n c u = (r, u')"
      then show "?P u'"
        using Suc.IH [of u c] older space_inv_destroy_internal [of u n c] by (metis snd_conv)
    qed
    then have loop: "?P (snd (sfor (destroy_internal n) (vin_children inn) ?s1))" using rt by simp
    have "?P (snd (sbind (sfor (destroy_internal n) (vin_children inn)) (\<lambda>_.
        sbind (sfor mapping_drop (vin_mappings inn)) (\<lambda>_ s1. (Inr () :: unit zx, put_inner k None s1))) ?s1))"
    proof (rule sbind_keeps [where P = ?P], rule loop)
      fix x and u :: "'a vmar_state_scheme" assume u: "?P u"
      have "pt_only u (snd (sfor mapping_drop (vin_mappings inn) u))"
        by (rule sfor_pt_only) (rule mapping_drop_pt_only)
      then have "?P (snd (sfor mapping_drop (vin_mappings inn) u))"
        using u space_inv_pt_only pt_only_vmars(1) by metis
      then show "?P (snd (sbind (sfor mapping_drop (vin_mappings inn)) (\<lambda>_ s1.
          (Inr () :: unit zx, put_inner k None s1)) u))"
        by (rule sbind_keeps [where P = ?P]) (simp add: put space_inv_dead)
    qed
    with v show ?thesis by (simp add: with_inner_def)
  qed
qed

lemma destroy_result:
  fixes s t :: "'a vmar_state_scheme"
  assumes "vmars s k = Some v" and "va_parent v = Some p" and "p < k" and "space_inv s"
    and "destroy_internal (destroy_fuel s) k s = (Inr (), t)" and "destroyed k s t"
    and "vmars s p = Some pv" and "va_inner pv = Some pinn"
  shows "vmar_destroy k s = (Inr (), put_inner p (Some (pinn\<lparr>vin_children := filter (\<lambda>c. c \<noteq> k) (vin_children pinn)\<rparr>)) t)"
    and "vmars t p = Some pv"
proof -
  have "\<not> (edge s)\<^sup>*\<^sup>* k p" using edge_path_le [OF assms(4), of k p] assms(3) by auto
  then show tp: "vmars t p = Some pv" using assms(6,7) by (auto simp: destroyed_def)
  have "same_regions s t" using destroy_internal_regions [of s "destroy_fuel s" k] assms(5) by simp
  then have "\<exists>v'. vmars t k = Some v' \<and> va_parent v' = Some p"
    using same_regionsD(4) [of s t k "Some p"] assms(1,2) by auto
  then obtain v' where v': "vmars t k = Some v'" "va_parent v' = Some p" by blast
  show "vmar_destroy k s = (Inr (), put_inner p (Some (pinn\<lparr>vin_children := filter (\<lambda>c. c \<noteq> k) (vin_children pinn)\<rparr>)) t)"
    using assms(5,8) v' tp by (simp add: vmar_destroy_def sbind_Inr sbind_slift get_vmar_def with_inner_def)
qed

subsection \<open>Properties\<close>

text \<open>Destroying a live region whose parent is live succeeds with the fuel the model passes: the
  region and everything below it are dead, its parent no longer lists it, and every region that is
  neither below it nor its parent is untouched.\<close>

lemma vmar_destroy_subtree:
  fixes s :: "'a vmar_state_scheme"
  assumes "space_inv s" and "maps_ok s" and "live_children {} s" and "is_live s k"
    and "vmars s k = Some v" and "va_parent v = Some p" and "p < k" and "is_live s p"
  shows "\<exists>t. vmar_destroy k s = (Inr (), t) \<and>
     (\<forall>j. (edge s)\<^sup>*\<^sup>* k j \<longrightarrow> is_dead t j) \<and>
     (\<forall>j. \<not> (edge s)\<^sup>*\<^sup>* k j \<longrightarrow> j \<noteq> p \<longrightarrow> vmars t j = vmars s j) \<and>
     \<not> edge t p k \<and> live_children {} t \<and> space_inv t"
proof -
  obtain t0 where t0: "destroy_internal (destroy_fuel s) k s = (Inr (), t0)" "live_children {k} t0"
    "destroyed k s t0" "space_inv t0"
    using destroy_root [OF assms(1-4)] .
  obtain pv pinn where pv: "vmars s p = Some pv" "va_inner pv = Some pinn"
    using assms(8) by (auto simp: is_live_def)
  note R = destroy_result [OF assms(5-7,1) t0(1,3) pv]
  let ?pi = "pinn\<lparr>vin_children := filter (\<lambda>c. c \<noteq> k) (vin_children pinn)\<rparr>"
  let ?t = "put_inner p (Some ?pi) t0"
  have vt: "vmars ?t = (vmars t0)(p \<mapsto> pv\<lparr>va_inner := Some ?pi\<rparr>)" using R(2) by (simp add: put_inner_eq)
  have np: "\<not> (edge s)\<^sup>*\<^sup>* k p" using edge_path_le [OF assms(1), of k p] assms(7) by auto
  have edges: "edge ?t x y \<longleftrightarrow> edge t0 x y \<and> (x = p \<longrightarrow> y \<noteq> k)" for x y
    using R(2) pv(2) by (auto simp: edge_def vt)
  have liveness: "is_live ?t j = is_live t0 j" for j
    using R(2) pv(2) by (auto simp: is_live_def vt)
  have only_p: "x = p" if "edge t0 x k" for x
    using space_edge(2) [OF t0(4) that] same_regionsD(4) [of s t0 k "Some p"]
      destroy_internal_regions [of s "destroy_fuel s" k] t0(1) assms(5,6) by auto
  have "is_dead ?t j" if "(edge s)\<^sup>*\<^sup>* k j" for j
    using destroyed_descendants [OF t0(3) that] that np by (auto simp: is_dead_def vt)
  moreover have "vmars ?t j = vmars s j" if "\<not> (edge s)\<^sup>*\<^sup>* k j" "j \<noteq> p" for j
    using that t0(3) by (auto simp: vt destroyed_def)
  moreover have "\<not> edge ?t p k" by (simp add: edges)
  moreover have "live_children {} ?t"
    unfolding live_children_def
  proof (intro allI impI)
    fix x y assume e: "edge ?t x y"
    then have e0: "edge t0 x y" and "x = p \<longrightarrow> y \<noteq> k" by (simp_all add: edges)
    then have "y \<noteq> k" using only_p [of x] by auto
    then show "is_live ?t y \<or> y \<in> {}" using e0 t0(2) by (auto simp: live_children_def liveness)
  qed
  moreover have "space_inv ?t" using space_inv_destroy [OF assms(1), of k] R(1) by simp
  ultimately show ?thesis using R(1) by blast
qed

text \<open>A destroyed region refuses every operation with \<open>BAD_STATE\<close>, and nothing changes.\<close>

theorem dead_region_refuses:
  assumes "is_dead s k"
  shows "allocate k offset len fl align s = (Inl (Err BAD_STATE), s) \<and>
     vmar_clear k s = (Inl (Err BAD_STATE), s) \<and> vmar_destroy k s = (Inl (Err BAD_STATE), s) \<and>
     (map_args vmo off len perm mf ov mr s = Inr () \<longrightarrow>
        map_ext k offset vmo off len perm mf ov mr s = (Inl (Err BAD_STATE), s)) \<and>
     (page_aligned a \<longrightarrow> page_aligned len \<longrightarrow>
        vmar_protect k a len mf s = (Inl (Err BAD_STATE), s) \<and>
        (0 < len \<longrightarrow> vmar_unmap k a len s = (Inl (Err BAD_STATE), s)))"
proof -
  obtain v where "vmars s k = Some v" "va_inner v = None" using assms by (auto simp: is_dead_def)
  then have w: "with_inner k f s = (Inl (Err BAD_STATE), s)" for f :: "vmar \<Rightarrow> vmar_inner \<Rightarrow> 'a vmar_state_scheme \<Rightarrow> 'b zx \<times> 'a vmar_state_scheme"
    by (simp add: with_inner_def)
  show ?thesis
    using \<open>vmars s k = Some v\<close> \<open>va_inner v = None\<close>
    by (simp add: allocate_def vmar_clear_def vmar_destroy_def map_ext_def vmar_protect_def vmar_unmap_def
      destroy_fuel_def with_inner_def sbind_slift sbind_def)
qed

subsection \<open>Unmapping\<close>

lemma mapping_drop_clears:
  assumes "mapping_drop m s = (Inr (), t)" and "j < mp_size m div 4096"
  shows "host_map t (mp_addr m + j * 4096) = None"
proof -
  have "j * 4096 < 4096 * (mp_size m div 4096)" using assms(2) by linarith
  with assms show ?thesis
    by (auto simp: mapping_drop_def mapping_unmap_def pt_unmap_cont_def split: if_splits sum.splits)
qed

lemma drop_all_clears:
  fixes s t :: "'a vmar_state_scheme"
  assumes "sfor mapping_drop ms s = (Inr (), t)" and "m \<in> set ms" and "j < mp_size m div 4096"
  shows "host_map t (mp_addr m + j * 4096) = None"
  using assms(1,2)
proof (induction ms arbitrary: s)
  case Nil
  then show ?case by simp
next
  case (Cons m' ms)
  then obtain u :: "'a vmar_state_scheme" where
      u: "mapping_drop m' s = (Inr (), u)" "sfor mapping_drop ms u = (Inr (), t)"
    by (auto simp: sbind_eq_Inr)
  show ?case
  proof (cases "m \<in> set ms")
    case True
    then show ?thesis using Cons.IH u(2) by blast
  next
    case False
    then have "host_map u (mp_addr m + j * 4096) = None"
      using Cons.prems(2) mapping_drop_clears [OF _ assms(3)] u(1) by simp
    then show ?thesis
    proof (rule sfor_invariant [OF u(2), where P = "\<lambda>x. host_map x (mp_addr m + j * 4096) = None"])
      fix i r and x x' :: "'a vmar_state_scheme"
      assume "host_map x (mp_addr m + j * 4096) = None" "mapping_drop i x = (r, x')"
      then show "host_map x' (mp_addr m + j * 4096) = None"
        using mapping_drop_unmaps [of x "mp_addr m + j * 4096" i] by simp
    qed
  qed
qed

lemma range_within_True: "range_within a n b e = Inr True \<longleftrightarrow> b \<le> a \<and> a + n \<le> e \<and> a + n < usize_lim"
  by (auto simp: range_within_def rbind_eq_Inr)

lemma not_partial_sep:
  assumes "range_partial a n b e = Inr False" and "\<not> range_within a n b e = Inr True"
  shows "e \<le> a \<or> a + n \<le> b"
  using assms by (auto simp: range_partial_def range_overlap_def rbind_eq_Inr range_within_def split: if_splits)

lemma unmap_success:
  fixes s t :: "'a vmar_state_scheme"
  assumes "vmar_unmap k addr len s = (Inr (), t)"
  obtains v inn gone dead u where "vmars s k = Some v" and "va_inner v = Some inn"
    and "zx_any (map_partial addr (addr + len)) (vin_mappings inn) = Inr False"
    and "gone = filter (\<lambda>m. map_within addr (addr + len) m = Inr True) (vin_mappings inn)"
    and "dead = filter (\<lambda>c. vmar_within s addr (addr + len) c = Inr True) (vin_children inn)"
    and "sfor mapping_drop gone s = (Inr (), u)"
    and "sfor (destroy_internal (destroy_fuel u)) dead
           (put_inner k (Some \<lparr>vin_children = filter (\<lambda>c. c \<notin> set dead) (vin_children inn),
              vin_mappings = filter (\<lambda>m. m \<notin> set gone) (vin_mappings inn)\<rparr>) u) = (Inr (), t)"
  using assms
  by (auto simp: vmar_unmap_def with_inner_def sbind_slift sbind_eq_Inr split: if_splits sum.splits option.splits
      dest!: zx_filter_Inr)

text \<open>C32. After a successful \<open>unmap\<close> of a range no page of a removed mapping is mapped, the region
  keeps exactly the mappings outside the range, each of them disjoint from it, and the sub-regions
  within the range are no longer its children.\<close>

theorem vmar_unmap_range:
  fixes s t :: "'a vmar_state_scheme"
  assumes "space_inv s" and "vmar_unmap k addr len s = (Inr (), t)"
    and "vmars s k = Some v" and "va_inner v = Some inn"
  shows "\<exists>inn'. vmars t k = Some (v\<lparr>va_inner := Some inn'\<rparr>) \<and>
     vin_mappings inn' = filter (\<lambda>m. \<not> (addr \<le> mp_addr m \<and> mp_addr m + mp_size m \<le> addr + len)) (vin_mappings inn) \<and>
     (\<forall>m \<in> set (vin_mappings inn'). addr + len \<le> mp_addr m \<or> mp_addr m + mp_size m \<le> addr) \<and>
     (\<forall>c \<in> set (vin_children inn'). vmar_within s addr (addr + len) c \<noteq> Inr True) \<and>
     (\<forall>m \<in> set (vin_mappings inn). \<forall>j < mp_size m div 4096.
        addr \<le> mp_addr m \<and> mp_addr m + mp_size m \<le> addr + len \<longrightarrow> host_map t (mp_addr m + j * 4096) = None)"
proof -
  obtain gone dead u where g: "zx_any (map_partial addr (addr + len)) (vin_mappings inn) = Inr False"
    "gone = filter (\<lambda>m. map_within addr (addr + len) m = Inr True) (vin_mappings inn)"
    "dead = filter (\<lambda>c. vmar_within s addr (addr + len) c = Inr True) (vin_children inn)"
    "sfor mapping_drop gone s = (Inr (), u)"
    "sfor (destroy_internal (destroy_fuel u)) dead
           (put_inner k (Some \<lparr>vin_children = filter (\<lambda>c. c \<notin> set dead) (vin_children inn),
              vin_mappings = filter (\<lambda>m. m \<notin> set gone) (vin_mappings inn)\<rparr>) u) = (Inr (), t)"
    by (rule unmap_success [OF assms(2)]) (use assms(3,4) in auto)
  let ?i = "\<lparr>vin_children = filter (\<lambda>c. c \<notin> set dead) (vin_children inn),
              vin_mappings = filter (\<lambda>m. m \<notin> set gone) (vin_mappings inn)\<rparr>"
  let ?u1 = "put_inner k (Some ?i) u"
  have "pt_only s u" using sfor_pt_only [of mapping_drop s gone, OF mapping_drop_pt_only] g(4) by simp
  then have u: "vmars u = vmars s" "space_inv u" using assms(1) by (auto simp: pt_only_vmars intro: space_inv_pt_only)
  have "shrinks inn ?i"
    by (rule shrinksI [where P = "\<lambda>c. c \<notin> set dead" and Q = "\<lambda>m. m \<notin> set gone"]) simp_all
  then have u1: "space_inv ?u1" using u assms(3,4) by (intro space_inv_shrink [where inn = inn]) simp_all
  have k1: "vmars ?u1 k = Some (v\<lparr>va_inner := Some ?i\<rparr>)" using u(1) assms(3) by (simp add: put_inner_eq)
  have older: "k < c" if "c \<in> set dead" for c
    using that g(3) space_invD(2) [OF assms(1,3,4)] by (auto simp: region_ok_def)
  have "vmars t k = vmars ?u1 k \<and> space_inv t"
  proof (rule sfor_invariant [OF g(5), where P = "\<lambda>x. vmars x k = vmars ?u1 k \<and> space_inv x"])
    fix c r and x x' :: "'a vmar_state_scheme"
    assume "c \<in> set dead" "vmars x k = vmars ?u1 k \<and> space_inv x" "destroy_internal (destroy_fuel u) c x = (r, x')"
    then show "vmars x' k = vmars ?u1 k \<and> space_inv x'"
      using destroy_internal_older [of x k c "destroy_fuel u"] older space_inv_destroy_internal [of x "destroy_fuel u" c]
      by (metis snd_conv)
  qed (use u1 in simp)
  then have tk: "vmars t k = Some (v\<lparr>va_inner := Some ?i\<rparr>)" using k1 by simp
  have part: "range_partial (mp_addr m) (mp_size m) addr (addr + len) = Inr False" if "m \<in> set (vin_mappings inn)" for m
    using g(1) that by (simp add: zx_any_False map_partial_def)
  have within: "m \<in> set gone \<longleftrightarrow> addr \<le> mp_addr m \<and> mp_addr m + mp_size m \<le> addr + len"
    if m: "m \<in> set (vin_mappings inn)" for m
  proof -
    have "mp_addr m + mp_size m < usize_lim" if "addr \<le> mp_addr m" "mp_addr m + mp_size m \<le> addr + len"
      using assms(2) that by (auto simp: vmar_unmap_def with_inner_def sbind_slift assms(3,4) split: if_splits sum.splits)
    then show ?thesis using m g(2) by (auto simp: map_within_def range_within_True)
  qed
  have maps: "vin_mappings ?i = filter (\<lambda>m. \<not> (addr \<le> mp_addr m \<and> mp_addr m + mp_size m \<le> addr + len)) (vin_mappings inn)"
    using within by (auto intro: filter_cong)
  have apart: "addr + len \<le> mp_addr m \<or> mp_addr m + mp_size m \<le> addr" if "m \<in> set (vin_mappings ?i)" for m
  proof -
    have m: "m \<in> set (vin_mappings inn)" "m \<notin> set gone" using that by auto
    then have "\<not> range_within (mp_addr m) (mp_size m) addr (addr + len) = Inr True"
      using g(2) by (auto simp: map_within_def)
    from not_partial_sep [OF part [OF m(1)] this] show ?thesis .
  qed
  have clear: "host_map t (mp_addr m + j * 4096) = None" if "m \<in> set gone" "j < mp_size m div 4096" for m j
  proof -
    have "host_map ?u1 (mp_addr m + j * 4096) = None"
      using drop_all_clears [OF g(4) that] by simp
    then show ?thesis
    proof (rule sfor_invariant [OF g(5), where P = "\<lambda>x. host_map x (mp_addr m + j * 4096) = None"])
      fix c r and x x' :: "'a vmar_state_scheme"
      assume "host_map x (mp_addr m + j * 4096) = None" "destroy_internal (destroy_fuel u) c x = (r, x')"
      then show "host_map x' (mp_addr m + j * 4096) = None"
        using destroy_internal_unmaps [of x "mp_addr m + j * 4096" "destroy_fuel u" c] by simp
    qed
  qed
  show ?thesis
    by (rule exI [of _ ?i]) (use tk maps apart clear within g(3) in auto)
qed

text \<open>C9. In every reachable state the sub-regions and mappings of a live region lie inside it and
  no two of them overlap.\<close>

theorem vmar_layout:
  fixes s0 s :: "'a vmar_state_scheme"
  assumes "vmar_reach s0 s" and "space_inv s0" and "vmars s k = Some v" and "va_inner v = Some inn"
  shows "(\<forall>r \<in> set (sub_ranges s inn). inside r (va_addr v, va_size v)) \<and>
     (\<forall>i j. i < j \<longrightarrow> j < length (sub_ranges s inn) \<longrightarrow> sep (sub_ranges s inn ! i) (sub_ranges s inn ! j))"
  using space_invD(2) [OF vmar_reach_space [OF assms(1,2)] assms(3,4)] sep_list_nth
  unfolding region_ok_def by blast

subsection \<open>A concrete address space\<close>

definition demo_page :: vm_mapping where
  "demo_page = \<lparr>mp_id = 0, mp_permissions = MMU_RXW, mp_vmo = 5, mp_flags = [MMU_READ],
     mp_addr = 12288, mp_size = 4096, mp_vmo_offset = 0\<rparr>"

definition demo_root :: vmar where
  "demo_root = \<lparr>va_flags = VF_ROOT_FLAGS, va_addr = 4096, va_size = 65536, va_parent = None,
     va_inner = Some \<lparr>vin_children = [11], vin_mappings = [demo_page]\<rparr>\<rparr>"

definition demo_child :: vmar where
  "demo_child = \<lparr>va_flags = VF_ROOT_FLAGS, va_addr = 4096, va_size = 8192, va_parent = Some 10,
     va_inner = Some inner_default\<rparr>"

definition demo_space :: vmar_state where
  "demo_space = (vmar_start [])\<lparr>vmars := [10 \<mapsto> demo_root, 11 \<mapsto> demo_child],
     host_map := [12288 \<mapsto> (4096, {PROT_READ})]\<rparr>"

lemma demo_space_simps [simp]:
  "vmars demo_space = [10 \<mapsto> demo_root, 11 \<mapsto> demo_child]"
  "next_koid demo_space = 1024"
  "va_inner demo_root = Some \<lparr>vin_children = [11], vin_mappings = [demo_page]\<rparr>"
  "va_parent demo_child = Some 10"
  "va_inner demo_child = Some inner_default"
  "mp_addr demo_page = 12288"
  "mp_size demo_page = 4096"
  by (simp_all add: demo_space_def demo_root_def demo_child_def demo_page_def vmar_start_def vm_start_def
      vm_state.defs init_koid_def)

lemma demo_space_ranges:
  "sub_ranges demo_space \<lparr>vin_children = [11], vin_mappings = [demo_page]\<rparr> = [(4096, 8192), (12288, 4096)]"
  by (simp add: sub_ranges_def vmar_range_def map_span_def demo_child_def)

lemma demo_space_inv: "space_inv demo_space"
proof -
  have "region_ok demo_space 10 demo_root \<lparr>vin_children = [11], vin_mappings = [demo_page]\<rparr>"
    unfolding region_ok_def demo_space_ranges by (simp add: sep_def inside_def demo_root_def)
  moreover have "region_ok demo_space 11 demo_child inner_default"
    by (simp add: region_ok_def sub_ranges_def inner_default_def)
  ultimately show ?thesis by (auto simp: space_inv_def split: if_splits)
qed

lemma vmar_destroy_subtree_witness:
  "\<exists>t. vmar_destroy 11 demo_space = (Inr (), t) \<and> is_dead t 11 \<and> \<not> edge t 10 11"
proof -
  have "maps_ok demo_space"
    by (auto simp: maps_ok_def mapping_ok_def page_aligned_iff inner_default_def split: if_splits)
  moreover have "live_children {} demo_space"
    by (auto simp: live_children_def edge_def is_live_def inner_default_def split: if_splits)
  ultimately show ?thesis
    using vmar_destroy_subtree [OF demo_space_inv, of 11 demo_child 10] by (auto simp: is_live_def)
qed

lemma dead_region_refuses_witness:
  "vmar_clear 11 (put_inner 11 None demo_space) = (Inl (Err BAD_STATE), put_inner 11 None demo_space)"
  using dead_region_refuses [of "put_inner 11 None demo_space" 11 None 0 0 0]
  by (simp add: is_dead_def put_inner_def put_vmar_def)

lemma vmar_unmap_range_witness:
  "host_map (snd (vmar_unmap 10 12288 4096 demo_space)) 12288 = None \<and>
   host_map demo_space 12288 \<noteq> None"
proof -
  have "fst (vmar_unmap 10 12288 4096 demo_space) = Inr ()"
    by (simp add: vmar_unmap_def page_aligned_iff with_inner_def sbind_slift uadd_def vmar_partial_def get_vmar_def
        range_partial_def range_overlap_def range_within_def map_partial_def map_within_def vmar_within_def
        mapping_drop_def mapping_unmap_def pt_unmap_cont_def sbind_def demo_child_def umul_def)
  then have "vmar_unmap 10 12288 4096 demo_space = (Inr (), snd (vmar_unmap 10 12288 4096 demo_space))"
    by (simp add: prod_eq_iff)
  from vmar_unmap_range [OF demo_space_inv this, of demo_root "\<lparr>vin_children = [11], vin_mappings = [demo_page]\<rparr>"]
  have "host_map (snd (vmar_unmap 10 12288 4096 demo_space)) (12288 + 0 * 4096) = None" by fastforce
  then show ?thesis by (simp add: demo_space_def)
qed

lemma vmar_layout_witness:
  "\<exists>s. vmar_reach demo_space s \<and> vmars s 1024 \<noteq> None \<and>
     (\<forall>v inn. vmars s 1024 = Some v \<longrightarrow> va_inner v = Some inn \<longrightarrow>
        (\<forall>r \<in> set (sub_ranges s inn). inside r (va_addr v, va_size v)))"
proof -
  have r: "vmar_reach demo_space (snd (new_kernel demo_space))"
    by (rule vmr_step [OF vmr_init]) (rule va_kernel [OF _ prod.collapse [symmetric]], simp)
  have "vmars (snd (new_kernel demo_space)) 1024 \<noteq> None"
    by (simp add: new_kernel_def new_koid_def put_vmar_def)
  then show ?thesis using r vmar_layout [OF r demo_space_inv] by blast
qed

end
