(* ===== verification/Job_Policy.thy ===== *)
theory Job_Policy
  imports Zx_Error
begin

text \<open>
  Security policies of a job (\<^verbatim>\<open>zircon-object/src/task/job_policy.rs\<close>): the conditions and
  actions, the array of 15 optional actions a \<open>JobPolicy\<close> is, and its three operations. The
  lemmas show that \<open>merge\<close> gives the parent precedence condition by condition, which makes it an
  associative operation with the empty policy as its unit: the effective policy of a job is the
  fold of the policies on the path from the root.
\<close>

datatype policy_condition =
    BadHandle | WrongObject | VmarWx | NewAny | NewVMO | NewChannel | NewEvent | NewEventPair
  | NewPort | NewSocket | NewFIFO | NewTimer | NewProcess | NewProfile | AmbientMarkVMOExec

fun condition_index :: "policy_condition \<Rightarrow> nat" where
  "condition_index BadHandle = 0"
| "condition_index WrongObject = 1"
| "condition_index VmarWx = 2"
| "condition_index NewAny = 3"
| "condition_index NewVMO = 4"
| "condition_index NewChannel = 5"
| "condition_index NewEvent = 6"
| "condition_index NewEventPair = 7"
| "condition_index NewPort = 8"
| "condition_index NewSocket = 9"
| "condition_index NewFIFO = 10"
| "condition_index NewTimer = 11"
| "condition_index NewProcess = 12"
| "condition_index NewProfile = 13"
| "condition_index AmbientMarkVMOExec = 14"

datatype policy_action = PA_Allow | PA_Deny | PA_AllowException | PA_DenyException | PA_Kill

record basic_policy =
  condition :: policy_condition
  bp_action :: policy_action

datatype set_policy_options = Absolute | Relative

type_synonym job_policy = "policy_action option list"

definition job_policy_default :: job_policy where
  "job_policy_default = replicate 15 None"

definition get_action :: "job_policy \<Rightarrow> policy_condition \<Rightarrow> policy_action option" where
  "get_action p c = p ! condition_index c"

definition policy_apply :: "job_policy \<Rightarrow> basic_policy \<Rightarrow> job_policy" where
  "policy_apply p b = p[condition_index (condition b) := Some (bp_action b)]"

definition merge_step :: "job_policy \<Rightarrow> nat \<Rightarrow> job_policy \<Rightarrow> job_policy" where
  "merge_step parent i new = (if parent ! i \<noteq> None then new[i := parent ! i] else new)"

definition policy_merge :: "job_policy \<Rightarrow> job_policy \<Rightarrow> job_policy" where
  "policy_merge self parent = fold (merge_step parent) [0..<15] self"

definition policy_wf :: "job_policy \<Rightarrow> bool" where
  "policy_wf p \<longleftrightarrow> length p = 15"

lemma condition_index_bound [simp]: "condition_index c < 15"
  by (cases c) simp_all

lemma condition_index_inj [simp]: "condition_index c = condition_index d \<longleftrightarrow> c = d"
  by (cases c; cases d; simp)

lemma condition_index_surj: "i < 15 \<Longrightarrow> \<exists>c. condition_index c = i"
proof -
  assume "i < 15"
  then have "i \<in> set (map condition_index
      [BadHandle, WrongObject, VmarWx, NewAny, NewVMO, NewChannel, NewEvent, NewEventPair,
       NewPort, NewSocket, NewFIFO, NewTimer, NewProcess, NewProfile, AmbientMarkVMOExec])"
    by (simp add: less_Suc_eq numeral_eq_Suc)
  then show ?thesis unfolding set_map by blast
qed

lemma policy_wf_default [simp]: "policy_wf job_policy_default"
  by (simp add: policy_wf_def job_policy_default_def)

lemma policy_wf_apply [simp]: "policy_wf (policy_apply p b) = policy_wf p"
  by (simp add: policy_wf_def policy_apply_def)

lemma get_action_default [simp]: "get_action job_policy_default c = None"
  by (simp add: get_action_def job_policy_default_def)

lemma get_action_apply:
  "policy_wf p \<Longrightarrow>
     get_action (policy_apply p b) c = (if c = condition b then Some (bp_action b) else get_action p c)"
  by (auto simp: get_action_def policy_apply_def policy_wf_def)

lemma merge_step_length [simp]: "length (merge_step q i p) = length p"
  by (simp add: merge_step_def)

lemma merge_step_nth:
  "j < length p \<Longrightarrow> merge_step q i p ! j = (if j = i \<and> q ! j \<noteq> None then q ! j else p ! j)"
  by (auto simp: merge_step_def)

lemma merge_loop_length [simp]: "length (fold (merge_step q) is p) = length p"
  by (induction "is" arbitrary: p) auto

lemma merge_loop_nth:
  "m \<le> length p \<Longrightarrow> j < length p \<Longrightarrow>
     fold (merge_step q) [0..<m] p ! j = (if j < m \<and> q ! j \<noteq> None then q ! j else p ! j)"
proof (induction m)
  case 0
  then show ?case by simp
next
  case (Suc m)
  have "fold (merge_step q) [0..<Suc m] p = merge_step q m (fold (merge_step q) [0..<m] p)"
    by simp
  with Suc show ?case
    by (auto simp: merge_step_nth less_Suc_eq simp del: upt_Suc)
qed

lemma policy_wf_merge [simp]: "policy_wf (policy_merge p q) = policy_wf p"
  by (simp add: policy_wf_def policy_merge_def merge_loop_length)

lemma get_action_merge:
  "policy_wf p \<Longrightarrow>
     get_action (policy_merge p q) c =
       (case get_action q c of Some a \<Rightarrow> Some a | None \<Rightarrow> get_action p c)"
  by (auto simp: get_action_def policy_merge_def policy_wf_def merge_loop_nth split: option.splits)

lemma policy_eqI:
  assumes "policy_wf p" and "policy_wf q" and "\<And>c. get_action p c = get_action q c"
  shows "p = q"
proof (rule nth_equalityI)
  show "length p = length q" using assms by (simp add: policy_wf_def)
next
  fix i assume "i < length p"
  then have "i < 15" using assms by (simp add: policy_wf_def)
  then obtain c where "condition_index c = i" using condition_index_surj by blast
  with assms(3) [of c] show "p ! i = q ! i" by (simp add: get_action_def)
qed

lemma policy_merge_assoc:
  "policy_wf p \<Longrightarrow> policy_wf q \<Longrightarrow>
     policy_merge (policy_merge p q) r = policy_merge p (policy_merge q r)"
  by (rule policy_eqI) (auto simp: get_action_merge split: option.splits)

lemma policy_merge_default_right: "policy_wf p \<Longrightarrow> policy_merge p job_policy_default = p"
  by (rule policy_eqI) (auto simp: get_action_merge)

lemma policy_merge_default_left: "policy_wf p \<Longrightarrow> policy_merge job_policy_default p = p"
  by (rule policy_eqI) (auto simp: get_action_merge split: option.splits)

end
