(* ===== verification/Task_State.thy ===== *)
theory Task_State
  imports Vmar_Destroy Job_Policy
begin

text \<open>
  The state of the task objects: threads, processes and jobs (\<^verbatim>\<open>zircon-object/src/task/\<close>), each in
  a store by object id on top of the address spaces. An \<open>Arc\<close> of a task is its id. \<open>woken\<close> is the
  sequence of wakers the kernel has called and \<open>spawned\<close> the sequence of thread functions it has
  handed to the executor, which is not part of the repository.
\<close>

subsection \<open>Threads\<close>

datatype thread_state =
    TS_New | TS_Running | TS_Suspended | TS_Blocked | TS_Dying | TS_Dead
  | TS_BlockedException | TS_BlockedSleeping | TS_BlockedFutex | TS_BlockedPort | TS_BlockedChannel
  | TS_BlockedWaitOne | TS_BlockedWaitMany | TS_BlockedInterrupt | TS_BlockedPager

fun thread_state_code :: "thread_state \<Rightarrow> u32" where
  "thread_state_code TS_New = 0"
| "thread_state_code TS_Running = 1"
| "thread_state_code TS_Suspended = 2"
| "thread_state_code TS_Blocked = 3"
| "thread_state_code TS_Dying = 4"
| "thread_state_code TS_Dead = 5"
| "thread_state_code TS_BlockedException = 0x103"
| "thread_state_code TS_BlockedSleeping = 0x203"
| "thread_state_code TS_BlockedFutex = 0x303"
| "thread_state_code TS_BlockedPort = 0x403"
| "thread_state_code TS_BlockedChannel = 0x503"
| "thread_state_code TS_BlockedWaitOne = 0x603"
| "thread_state_code TS_BlockedWaitMany = 0x703"
| "thread_state_code TS_BlockedInterrupt = 0x803"
| "thread_state_code TS_BlockedPager = 0x903"

text \<open>
  The user context is a type of the crate \<open>trapframe\<close>: its general registers and the trap number are
  64-bit words; the ones the kernel names are below. Which general registers there are and in which
  order they lie in memory is the parameter \<open>layout\<close> of the operations that copy the whole
  structure; the initial context \<open>UserContext::default()\<close> is a parameter too.
\<close>

datatype reg =
    Rip | Rsp | Rdi | Rsi | Rax | Rcx | Rdx | R8 | R9 | Rflags | Fsbase | Gsbase | Trap_Num | Other_Reg nat

type_synonym user_context = "reg \<Rightarrow> u64"

type_synonym thread_flags = u64

definition TF_VCPU :: thread_flags where "TF_VCPU = 8"

record thread =
  th_base :: kobj_base
  th_proc :: koid
  th_context :: "user_context option"
  th_suspend_count :: usize
  th_waker :: "nat option"
  th_state :: thread_state
  th_first :: bool
  th_killed :: bool
  th_time :: nat
  th_flags :: thread_flags

subsection \<open>Processes\<close>

datatype proc_status = PS_Init | PS_Running | PS_Exited int

record process =
  pr_base :: kobj_base
  pr_job :: koid
  pr_policy :: job_policy
  pr_vmar :: koid
  pr_max_handle_id :: u32
  pr_status :: proc_status
  pr_handles :: "handle_value \<Rightarrow> handle option"
  pr_threads :: "koid list"

subsection \<open>Jobs\<close>

record job =
  jb_base :: kobj_base
  jb_parent :: "koid option"
  jb_parent_policy :: job_policy
  jb_policy :: job_policy
  jb_children :: "koid list"
  jb_processes :: "koid list"
  jb_killed :: bool

subsection \<open>The store\<close>

record task_state = vmar_state +
  jobs :: "koid \<Rightarrow> job option"
  procs :: "koid \<Rightarrow> process option"
  threads :: "koid \<Rightarrow> thread option"
  woken :: "nat list"
  spawned :: "koid list"

definition with_thread ::
  "koid \<Rightarrow> (thread \<Rightarrow> 'a task_state_scheme \<Rightarrow> 'b zx \<times> 'a task_state_scheme) \<Rightarrow>
   'a task_state_scheme \<Rightarrow> 'b zx \<times> 'a task_state_scheme" where
  "with_thread k f s = (case threads s k of None \<Rightarrow> (Inl NoRef, s) | Some th \<Rightarrow> f th s)"

definition with_proc ::
  "koid \<Rightarrow> (process \<Rightarrow> 'a task_state_scheme \<Rightarrow> 'b zx \<times> 'a task_state_scheme) \<Rightarrow>
   'a task_state_scheme \<Rightarrow> 'b zx \<times> 'a task_state_scheme" where
  "with_proc k f s = (case procs s k of None \<Rightarrow> (Inl NoRef, s) | Some p \<Rightarrow> f p s)"

definition with_job ::
  "koid \<Rightarrow> (job \<Rightarrow> 'a task_state_scheme \<Rightarrow> 'b zx \<times> 'a task_state_scheme) \<Rightarrow>
   'a task_state_scheme \<Rightarrow> 'b zx \<times> 'a task_state_scheme" where
  "with_job k f s = (case jobs s k of None \<Rightarrow> (Inl NoRef, s) | Some j \<Rightarrow> f j s)"

definition put_thread :: "koid \<Rightarrow> thread \<Rightarrow> 'a task_state_scheme \<Rightarrow> 'a task_state_scheme" where
  "put_thread k th s = s\<lparr>threads := (threads s)(k \<mapsto> th)\<rparr>"

definition put_proc :: "koid \<Rightarrow> process \<Rightarrow> 'a task_state_scheme \<Rightarrow> 'a task_state_scheme" where
  "put_proc k p s = s\<lparr>procs := (procs s)(k \<mapsto> p)\<rparr>"

definition put_job :: "koid \<Rightarrow> job \<Rightarrow> 'a task_state_scheme \<Rightarrow> 'a task_state_scheme" where
  "put_job k j s = s\<lparr>jobs := (jobs s)(k \<mapsto> j)\<rparr>"

definition get_thread :: "koid \<Rightarrow> 'a task_state_scheme \<Rightarrow> thread zx" where
  "get_thread k s = ok_or NoRef (threads s k)"

definition get_proc :: "koid \<Rightarrow> 'a task_state_scheme \<Rightarrow> process zx" where
  "get_proc k s = ok_or NoRef (procs s k)"

definition get_job :: "koid \<Rightarrow> 'a task_state_scheme \<Rightarrow> job zx" where
  "get_job k s = ok_or NoRef (jobs s k)"

definition wake :: "nat option \<Rightarrow> 'a task_state_scheme \<Rightarrow> 'a task_state_scheme" where
  \<comment> \<open>\<open>if let Some(waker) = inner.waker.take() { waker.wake(); }\<close>, the taken waker given\<close>
  "wake w s = (case w of None \<Rightarrow> s | Some i \<Rightarrow> s\<lparr>woken := woken s @ [i]\<rparr>)"

lemma put_simps [simp]:
  "threads (put_thread k th s) = (threads s)(k \<mapsto> th)" "procs (put_thread k th s) = procs s"
  "jobs (put_thread k th s) = jobs s" "next_koid (put_thread k th s) = next_koid s"
  "threads (put_proc k p s) = threads s" "procs (put_proc k p s) = (procs s)(k \<mapsto> p)"
  "jobs (put_proc k p s) = jobs s" "next_koid (put_proc k p s) = next_koid s"
  "threads (put_job k j s) = threads s" "procs (put_job k j s) = procs s"
  "jobs (put_job k j s) = (jobs s)(k \<mapsto> j)" "next_koid (put_job k j s) = next_koid s"
  "woken (put_thread k th s) = woken s" "woken (put_proc k p s) = woken s" "woken (put_job k j s) = woken s"
  "spawned (put_thread k th s) = spawned s" "spawned (put_proc k p s) = spawned s" "spawned (put_job k j s) = spawned s"
  by (simp_all add: put_thread_def put_proc_def put_job_def)

lemma wake_simps [simp]:
  "threads (wake w s) = threads s" "procs (wake w s) = procs s" "jobs (wake w s) = jobs s"
  "next_koid (wake w s) = next_koid s" "spawned (wake w s) = spawned s"
  "woken (wake w s) = woken s @ (case w of None \<Rightarrow> [] | Some i \<Rightarrow> [i])"
  by (simp_all add: wake_def split: option.split)


lemma thread_state_code_inj: "thread_state_code a = thread_state_code b \<longleftrightarrow> a = b"
  by (cases a; cases b; simp)

end
