(* ===== verification/Thread.thy ===== *)
theory Thread
  imports Task_State
begin

text \<open>
  Threads (\<^verbatim>\<open>zircon-object/src/task/thread.rs\<close> and \<^verbatim>\<open>thread/thread_state.rs\<close>). The state a thread
  stores is never \<open>Suspended\<close>: the state it reports is computed from the stored one, the number of
  suspend tokens and whether its context is at home. The runner of a thread takes the context
  away while user code runs (\<open>poll_run\<close>) and brings it back (\<open>end_running\<close>). The operation that
  removes a dropped \<open>CurrentThread\<close> from its process is in the theory of processes.
\<close>

subsection \<open>The reported state\<close>

definition reported_state :: "thread \<Rightarrow> thread_state" where
  "reported_state th =
     (if th_suspend_count th = 0 \<or> th_context th = None \<or> th_state th = TS_BlockedException
         \<or> th_state th = TS_Dying \<or> th_state th = TS_Dead
      then th_state th else TS_Suspended)"

definition change_state :: "thread_state \<Rightarrow> thread \<Rightarrow> thread" where
  "change_state st th = th\<lparr>th_state := st\<rparr>"

definition thread_init :: "kobj_base \<Rightarrow> koid \<Rightarrow> user_context \<Rightarrow> thread" where
  \<comment> \<open>\<open>Thread { base, proc, inner: ThreadInner { context: Some(..), ..Default::default() } }\<close>\<close>
  "thread_init b p cx =
     \<lparr>th_base = b, th_proc = p, th_context = Some cx, th_suspend_count = 0, th_waker = None,
      th_state = TS_New, th_first = False, th_killed = False, th_time = 0, th_flags = 0\<rparr>"

definition thread_proc :: "koid \<Rightarrow> 'a task_state_scheme \<Rightarrow> koid zx" where
  "thread_proc k s = rbind (get_thread k s) (\<lambda>th. Inr (th_proc th))"

definition thread_related_koid :: "koid \<Rightarrow> 'a task_state_scheme \<Rightarrow> koid zx" where
  "thread_related_koid k s = rbind (get_thread k s) (\<lambda>th. Inr (th_proc th))"

subsection \<open>Starting and stopping\<close>

definition start_context :: "u64 \<Rightarrow> u64 \<Rightarrow> u64 \<Rightarrow> u64 \<Rightarrow> user_context \<Rightarrow> user_context" where
  "start_context entry stack arg1 arg2 cx =
     cx(Rip := entry, Rsp := stack, Rdi := arg1, Rsi := arg2, Rflags := cx Rflags OR 0x3202)"

definition thread_start ::
  "koid \<Rightarrow> u64 \<Rightarrow> u64 \<Rightarrow> u64 \<Rightarrow> u64 \<Rightarrow> 'a task_state_scheme st_unit" where
  "thread_start k entry stack arg1 arg2 =
     with_thread k (\<lambda>th s.
       case th_context th of
         None \<Rightarrow> (Inl (Err BAD_STATE), s)
       | Some cx \<Rightarrow>
           (Inr (), (put_thread k (change_state TS_Running
              (th\<lparr>th_context := Some (start_context entry stack arg1 arg2 cx)\<rparr>)) s)
              \<lparr>spawned := spawned s @ [k]\<rparr>))"

definition thread_stop :: "bool \<Rightarrow> koid \<Rightarrow> 'a task_state_scheme st_unit" where
  "thread_stop killed k =
     with_thread k (\<lambda>th s.
       if th_state th = TS_Dead then (Inr (), s)
       else let th1 = (if killed then th\<lparr>th_killed := True\<rparr> else th)
            in if th_state th1 = TS_Dying then (Inr (), put_thread k th1 s)
               else (Inr (), wake (th_waker th1)
                      (put_thread k (change_state TS_Dying (th1\<lparr>th_waker := None\<rparr>)) s)))"

definition thread_kill :: "koid \<Rightarrow> 'a task_state_scheme st_unit" where
  "thread_kill k = thread_stop True k"

definition current_exit :: "koid \<Rightarrow> 'a task_state_scheme st_unit" where
  "current_exit k = thread_stop False k"

subsection \<open>Suspending and resuming\<close>

definition thread_suspend :: "koid \<Rightarrow> 'a task_state_scheme st_unit" where
  "thread_suspend k =
     with_thread k (\<lambda>th s. case uadd (th_suspend_count th) 1 of
         Inl f \<Rightarrow> (Inl f, s)
       | Inr n \<Rightarrow> (Inr (), put_thread k (th\<lparr>th_suspend_count := n\<rparr>) s))"

definition thread_resume :: "koid \<Rightarrow> 'a task_state_scheme st_unit" where
  "thread_resume k =
     with_thread k (\<lambda>th s.
       if th_suspend_count th = 0 then (Inl Panic, s)
       else let n = th_suspend_count th - 1
            in if n = 0
               then (Inr (), wake (th_waker th) (put_thread k (th\<lparr>th_suspend_count := n, th_waker := None\<rparr>) s))
               else (Inr (), put_thread k (th\<lparr>th_suspend_count := n\<rparr>) s))"

definition poll_run :: "koid \<Rightarrow> nat \<Rightarrow> 'a task_state_scheme \<Rightarrow> user_context option zx \<times> 'a task_state_scheme" where
  \<comment> \<open>one poll of \<open>RunnableChecker\<close>; \<open>None\<close> is \<open>Poll::Pending\<close>\<close>
  "poll_run k waker =
     with_thread k (\<lambda>th s.
       if reported_state th \<noteq> TS_Suspended
       then (case th_context th of
               None \<Rightarrow> (Inl Panic, s)
             | Some cx \<Rightarrow> (Inr (Some cx), put_thread k (th\<lparr>th_context := None\<rparr>) s))
       else (Inr None, put_thread k (th\<lparr>th_waker := Some waker\<rparr>) s))"

definition end_running :: "koid \<Rightarrow> user_context \<Rightarrow> 'a task_state_scheme st_unit" where
  "end_running k cx = with_thread k (\<lambda>th s. (Inr (), put_thread k (th\<lparr>th_context := Some cx\<rparr>) s))"

definition with_context ::
  "koid \<Rightarrow> (user_context \<Rightarrow> 'b \<times> user_context) \<Rightarrow> 'a task_state_scheme \<Rightarrow> 'b zx \<times> 'a task_state_scheme" where
  "with_context k f =
     with_thread k (\<lambda>th s. case th_context th of
         None \<Rightarrow> (Inl Panic, s)
       | Some cx \<Rightarrow> let (r, cx') = f cx in (Inr r, put_thread k (th\<lparr>th_context := Some cx'\<rparr>) s))"

subsection \<open>Reading and writing the registers\<close>

datatype state_kind = SK_General | SK_FS | SK_GS

fun state_kind_of :: "u32 \<Rightarrow> state_kind option" where
  "state_kind_of n = (if n = 0 then Some SK_General else if n = 6 then Some SK_FS
                      else if n = 7 then Some SK_GS else None)"

definition write_struct :: "u8 list \<Rightarrow> u8 list \<Rightarrow> (u8 list \<times> usize) zx" where
  \<comment> \<open>the value is given by its bytes in memory; the new buffer and the size\<close>
  "write_struct value buf =
     (if length buf < length value then Inl (Err BUFFER_TOO_SMALL)
      else Inr (splice_at buf 0 value, length value))"

definition read_struct :: "nat \<Rightarrow> u8 list \<Rightarrow> u8 list zx" where
  "read_struct sz buf = (if length buf < sz then Inl (Err BUFFER_TOO_SMALL) else Inr (take sz buf))"

definition reg_bytes :: "u64 \<Rightarrow> u8 list" where
  "reg_bytes v = le_bytes 8 (unat v)"

definition reg_of_bytes :: "u8 list \<Rightarrow> u64" where
  "reg_of_bytes bs = of_nat (le_nat bs)"

definition context_bytes :: "reg list \<Rightarrow> user_context \<Rightarrow> u8 list" where
  "context_bytes layout cx = concat (map (\<lambda>r. reg_bytes (cx r)) layout)"

primrec context_of_bytes :: "reg list \<Rightarrow> u8 list \<Rightarrow> user_context \<Rightarrow> user_context" where
  "context_of_bytes [] bs cx = cx"
| "context_of_bytes (r # rs) bs cx = (context_of_bytes rs (drop 8 bs) cx)(r := reg_of_bytes (take 8 bs))"

fun context_read :: "reg list \<Rightarrow> state_kind \<Rightarrow> user_context \<Rightarrow> u8 list \<Rightarrow> (u8 list \<times> usize) zx" where
  "context_read layout SK_General cx buf = write_struct (context_bytes layout cx) buf"
| "context_read layout SK_FS cx buf = write_struct (reg_bytes (cx Fsbase)) buf"
| "context_read layout SK_GS cx buf = write_struct (reg_bytes (cx Gsbase)) buf"

fun context_write :: "reg list \<Rightarrow> state_kind \<Rightarrow> u8 list \<Rightarrow> user_context \<Rightarrow> user_context zx" where
  "context_write layout SK_General buf cx =
     rbind (read_struct (8 * length layout) buf) (\<lambda>bs. Inr (context_of_bytes layout bs cx))"
| "context_write layout SK_FS buf cx = rbind (read_struct 8 buf) (\<lambda>bs. Inr (cx(Fsbase := reg_of_bytes bs)))"
| "context_write layout SK_GS buf cx = rbind (read_struct 8 buf) (\<lambda>bs. Inr (cx(Gsbase := reg_of_bytes bs)))"

definition thread_read_state ::
  "reg list \<Rightarrow> koid \<Rightarrow> state_kind \<Rightarrow> u8 list \<Rightarrow> 'a task_state_scheme \<Rightarrow> (u8 list \<times> usize) zx" where
  "thread_read_state layout k kind buf s =
     rbind (get_thread k s) (\<lambda>th.
       if reported_state th \<noteq> TS_BlockedException \<and> reported_state th \<noteq> TS_Suspended
       then Inl (Err BAD_STATE)
       else rbind (ok_or (Err BAD_STATE) (th_context th)) (\<lambda>cx. context_read layout kind cx buf))"

definition thread_write_state ::
  "reg list \<Rightarrow> koid \<Rightarrow> state_kind \<Rightarrow> u8 list \<Rightarrow> 'a task_state_scheme st_unit" where
  "thread_write_state layout k kind buf =
     with_thread k (\<lambda>th s.
       if reported_state th \<noteq> TS_BlockedException \<and> reported_state th \<noteq> TS_Suspended
       then (Inl (Err BAD_STATE), s)
       else case rbind (ok_or (Err BAD_STATE) (th_context th)) (context_write layout kind buf) of
              Inl f \<Rightarrow> (Inl f, s)
            | Inr cx \<Rightarrow> (Inr (), put_thread k (th\<lparr>th_context := Some cx\<rparr>) s))"

subsection \<open>Accounting and flags\<close>

definition thread_get_info :: "koid \<Rightarrow> 'a task_state_scheme \<Rightarrow> u32 zx" where
  "thread_get_info k s = rbind (get_thread k s) (\<lambda>th. Inr (thread_state_code (reported_state th)))"

definition thread_get_state :: "koid \<Rightarrow> 'a task_state_scheme \<Rightarrow> thread_state zx" where
  "thread_get_state k s = rbind (get_thread k s) (\<lambda>th. Inr (reported_state th))"

definition time_add :: "koid \<Rightarrow> nat \<Rightarrow> 'a task_state_scheme st_unit" where
  "time_add k t =
     with_thread k (\<lambda>th s. if th_time th + t < 2 ^ 128
       then (Inr (), put_thread k (th\<lparr>th_time := th_time th + t\<rparr>) s) else (Inl Panic, s))"

definition get_time :: "koid \<Rightarrow> 'a task_state_scheme \<Rightarrow> u64 zx" where
  "get_time k s = rbind (get_thread k s) (\<lambda>th. Inr (of_nat (th_time th)))"

definition set_first_thread :: "koid \<Rightarrow> 'a task_state_scheme st_unit" where
  "set_first_thread k = with_thread k (\<lambda>th s. (Inr (), put_thread k (th\<lparr>th_first := True\<rparr>) s))"

definition is_first_thread :: "koid \<Rightarrow> 'a task_state_scheme \<Rightarrow> bool zx" where
  "is_first_thread k s = rbind (get_thread k s) (\<lambda>th. Inr (th_first th))"

definition thread_get_flags :: "koid \<Rightarrow> 'a task_state_scheme \<Rightarrow> thread_flags zx" where
  "thread_get_flags k s = rbind (get_thread k s) (\<lambda>th. Inr (th_flags th))"

definition update_flags :: "koid \<Rightarrow> (thread_flags \<Rightarrow> thread_flags) \<Rightarrow> 'a task_state_scheme st_unit" where
  "update_flags k f = with_thread k (\<lambda>th s. (Inr (), put_thread k (th\<lparr>th_flags := f (th_flags th)\<rparr>) s))"

definition set_base_reg :: "reg \<Rightarrow> koid \<Rightarrow> u64 \<Rightarrow> 'a task_state_scheme st_unit" where
  "set_base_reg r k v =
     with_thread k (\<lambda>th s. case th_context th of
         None \<Rightarrow> (Inl (Err BAD_STATE), s)
       | Some cx \<Rightarrow> (Inr (), put_thread k (th\<lparr>th_context := Some (cx(r := v))\<rparr>) s))"

definition set_fsbase :: "koid \<Rightarrow> u64 \<Rightarrow> 'a task_state_scheme st_unit" where
  "set_fsbase k v = set_base_reg Fsbase k v"

definition set_gsbase :: "koid \<Rightarrow> u64 \<Rightarrow> 'a task_state_scheme st_unit" where
  "set_gsbase k v = set_base_reg Gsbase k v"

end
