(* ===== verification/Task.thy ===== *)
theory Task
  imports Thread
begin

text \<open>
  Processes and jobs (\<^verbatim>\<open>zircon-object/src/task/process.rs\<close>, \<^verbatim>\<open>job.rs\<close> and \<^verbatim>\<open>mod.rs\<close>). A process
  owns a handle table, its threads and an address space; a job owns processes and child jobs.
  Killing goes down the tree of jobs, termination goes up: the last thread to leave terminates its
  process, the last process or child to leave a killed job terminates the job. Both recursions
  carry fuel; object ids grow from parent to child, so the fuel passed is enough.

  A handle that leaves a table drops a reference to its object. What the drop of the last
  reference does is the operation \<open>vmo_drop\<close>, \<open>job_drop\<close> or \<open>channel_drop\<close> of the object's theory.
\<close>

subsection \<open>The handle table\<close>

definition table_add :: "handle \<Rightarrow> process \<Rightarrow> handle_value zx \<times> process" where
  \<comment> \<open>the shift drops the high bits silently, the increment is checked\<close>
  "table_add h p =
     (let key = push_bit 2 (pr_max_handle_id p) OR 3
      in if pr_max_handle_id p = - 1 then (Inl Panic, p)
         else (Inr key, p\<lparr>pr_max_handle_id := pr_max_handle_id p + 1, pr_handles := (pr_handles p)(key \<mapsto> h)\<rparr>))"

definition table_remove :: "handle_value \<Rightarrow> process \<Rightarrow> handle zx \<times> process" where
  "table_remove v p =
     (case pr_handles p v of
        None \<Rightarrow> (Inl (Err BAD_HANDLE), p)
      | Some h \<Rightarrow> (Inr h, p\<lparr>pr_handles := (pr_handles p)(v := None)\<rparr>))"

definition table_get :: "handle_value \<Rightarrow> process \<Rightarrow> handle zx" where
  "table_get v p = ok_or (Err BAD_HANDLE) (pr_handles p v)"

primrec table_add_all :: "handle list \<Rightarrow> process \<Rightarrow> handle_value list zx \<times> process" where
  "table_add_all [] p = (Inr [], p)"
| "table_add_all (h # hs) p =
     (case table_add h p of
        (Inl f, p1) \<Rightarrow> (Inl f, p1)
      | (Inr v, p1) \<Rightarrow> (case table_add_all hs p1 of (Inl f, p2) \<Rightarrow> (Inl f, p2) | (Inr vs, p2) \<Rightarrow> (Inr (v # vs), p2)))"

primrec table_remove_all :: "handle_value list \<Rightarrow> process \<Rightarrow> handle list zx \<times> process" where
  \<comment> \<open>\<open>collect\<close> stops at the first error; the handles taken before it are dropped\<close>
  "table_remove_all [] p = (Inr [], p)"
| "table_remove_all (v # vs) p =
     (case table_remove v p of
        (Inl f, p1) \<Rightarrow> (Inl f, p1)
      | (Inr h, p1) \<Rightarrow> (case table_remove_all vs p1 of (Inl f, p2) \<Rightarrow> (Inl f, p2) | (Inr hs, p2) \<Rightarrow> (Inr (h # hs), p2)))"

definition contains_thread :: "koid \<Rightarrow> process \<Rightarrow> bool" where
  "contains_thread t p \<longleftrightarrow> t \<in> set (pr_threads p)"

definition on_table :: "koid \<Rightarrow> (process \<Rightarrow> 'b zx \<times> process) \<Rightarrow> 'a task_state_scheme \<Rightarrow> 'b zx \<times> 'a task_state_scheme" where
  \<comment> \<open>\<open>self.inner.lock()\<close> and one operation of the inner table\<close>
  "on_table k f = with_proc k (\<lambda>p s. let (r, p') = f p in (r, put_proc k p' s))"

definition process_add_handle :: "koid \<Rightarrow> handle \<Rightarrow> 'a task_state_scheme \<Rightarrow> handle_value zx \<times> 'a task_state_scheme" where
  "process_add_handle k h = on_table k (table_add h)"

definition process_add_handles :: "koid \<Rightarrow> handle list \<Rightarrow> 'a task_state_scheme \<Rightarrow> handle_value list zx \<times> 'a task_state_scheme" where
  "process_add_handles k hs = on_table k (table_add_all hs)"

definition process_remove_handle :: "koid \<Rightarrow> handle_value \<Rightarrow> 'a task_state_scheme \<Rightarrow> handle zx \<times> 'a task_state_scheme" where
  "process_remove_handle k v = on_table k (table_remove v)"

definition process_remove_handles :: "koid \<Rightarrow> handle_value list \<Rightarrow> 'a task_state_scheme \<Rightarrow> handle list zx \<times> 'a task_state_scheme" where
  "process_remove_handles k vs = on_table k (table_remove_all vs)"

definition process_get_handle :: "koid \<Rightarrow> handle_value \<Rightarrow> 'a task_state_scheme \<Rightarrow> handle zx" where
  "process_get_handle k v s = rbind (get_proc k s) (table_get v)"

definition downcast_or_wrong :: "obj_type \<Rightarrow> handle \<Rightarrow> koid zx" where
  "downcast_or_wrong t h = ok_or (Err WRONG_TYPE) (downcast t (object h))"

definition get_object :: "obj_type \<Rightarrow> koid \<Rightarrow> handle_value \<Rightarrow> 'a task_state_scheme \<Rightarrow> koid zx" where
  "get_object t k v s = rbind (process_get_handle k v s) (downcast_or_wrong t)"

definition get_object_with_rights ::
  "obj_type \<Rightarrow> koid \<Rightarrow> handle_value \<Rightarrow> rights \<Rightarrow> 'a task_state_scheme \<Rightarrow> koid zx" where
  "get_object_with_rights t k v desired s =
     rbind (process_get_handle k v s) (\<lambda>h. rbind (downcast_or_wrong t h) (\<lambda>o1.
       if flags_contains (rights h) desired then Inr o1 else Inl (Err ACCESS_DENIED)))"

definition get_object_and_rights ::
  "obj_type \<Rightarrow> koid \<Rightarrow> handle_value \<Rightarrow> 'a task_state_scheme \<Rightarrow> (koid \<times> rights) zx" where
  "get_object_and_rights t k v s =
     rbind (process_get_handle k v s) (\<lambda>h. rbind (downcast_or_wrong t h) (\<lambda>o1. Inr (o1, rights h)))"

definition remove_object ::
  "obj_type \<Rightarrow> koid \<Rightarrow> handle_value \<Rightarrow> 'a task_state_scheme \<Rightarrow> koid zx \<times> 'a task_state_scheme" where
  "remove_object t k v = sbind (process_remove_handle k v) (\<lambda>h. slift (\<lambda>_. downcast_or_wrong t h))"

subsection \<open>Jobs\<close>

definition job_root :: "'a task_state_scheme \<Rightarrow> koid zx \<times> 'a task_state_scheme" where
  "job_root s =
     (let (b, s1) = kobject_base_new s
      in (Inr (base_id b), put_job (base_id b) \<lparr>jb_base = b, jb_parent = None, jb_parent_policy = job_policy_default,
            jb_policy = job_policy_default, jb_children = [], jb_processes = [], jb_killed = False\<rparr> s1))"

definition job_create_child :: "koid \<Rightarrow> 'a task_state_scheme \<Rightarrow> koid zx \<times> 'a task_state_scheme" where
  "job_create_child k =
     with_job k (\<lambda>j s.
       if jb_killed j then (Inl (Err BAD_STATE), s)
       else let (b, s1) = kobject_base_new s; c = base_id b
            in (Inr c, put_job k (j\<lparr>jb_children := jb_children j @ [c]\<rparr>)
                 (put_job c \<lparr>jb_base = b, jb_parent = Some k,
                    jb_parent_policy = policy_merge (jb_policy j) (jb_parent_policy j),
                    jb_policy = job_policy_default, jb_children = [], jb_processes = [], jb_killed = False\<rparr> s1)))"

definition job_vacant :: "job \<Rightarrow> bool" where
  "job_vacant j \<longleftrightarrow> jb_processes j = [] \<and> jb_children j = []"

definition detach_child :: "koid \<Rightarrow> koid \<Rightarrow> 'a task_state_scheme \<Rightarrow> bool zx \<times> 'a task_state_scheme" where
  \<comment> \<open>\<open>remove_child\<close> up to the test whether the job terminates now\<close>
  "detach_child k c =
     with_job k (\<lambda>j s.
       let j' = j\<lparr>jb_children := filter (\<lambda>x. x \<noteq> c) (jb_children j)\<rparr>
       in (Inr (jb_killed j' \<and> job_vacant j'), put_job k j' s))"

primrec job_terminate :: "nat \<Rightarrow> koid \<Rightarrow> 'a task_state_scheme st_unit" where
  "job_terminate 0 k s = (Inl NoFuel, s)"
| "job_terminate (Suc n) k s =
     with_job k (\<lambda>j. case jb_parent j of
         None \<Rightarrow> sret ()
       | Some p \<Rightarrow> sbind (detach_child p k) (\<lambda>fin. if fin then job_terminate n p else sret ())) s"

definition task_fuel :: "'a task_state_scheme \<Rightarrow> nat" where
  "task_fuel s = Suc (unat (next_koid s))"

definition remove_child :: "koid \<Rightarrow> koid \<Rightarrow> 'a task_state_scheme st_unit" where
  "remove_child k c =
     sbind (detach_child k c) (\<lambda>fin s. if fin then job_terminate (task_fuel s) k s else (Inr (), s))"

definition job_effective_policy :: "koid \<Rightarrow> 'a task_state_scheme \<Rightarrow> job_policy zx" where
  "job_effective_policy k s = rbind (get_job k s) (\<lambda>j. Inr (policy_merge (jb_policy j) (jb_parent_policy j)))"

definition job_get_parent :: "koid \<Rightarrow> 'a task_state_scheme \<Rightarrow> koid option zx" where
  "job_get_parent k s = rbind (get_job k s) (\<lambda>j. Inr (jb_parent j))"

primrec apply_policies ::
  "set_policy_options \<Rightarrow> job_policy \<Rightarrow> basic_policy list \<Rightarrow> job_policy \<Rightarrow> unit zx \<times> job_policy" where
  "apply_policies opt parent [] pol = (Inr (), pol)"
| "apply_policies opt parent (b # bs) pol =
     (if get_action parent (condition b) \<noteq> None
      then (case opt of Absolute \<Rightarrow> (Inl (Err ALREADY_EXISTS), pol)
                      | Relative \<Rightarrow> apply_policies opt parent bs pol)
      else apply_policies opt parent bs (policy_apply pol b))"

definition set_policy_basic ::
  "koid \<Rightarrow> set_policy_options \<Rightarrow> basic_policy list \<Rightarrow> 'a task_state_scheme st_unit" where
  "set_policy_basic k opt bs =
     with_job k (\<lambda>j s.
       if \<not> job_vacant j then (Inl (Err BAD_STATE), s)
       else let (r, pol) = apply_policies opt (jb_parent_policy j) bs (jb_policy j)
            in (r, put_job k (j\<lparr>jb_policy := pol\<rparr>) s))"

definition job_add_process :: "koid \<Rightarrow> koid \<Rightarrow> 'a task_state_scheme st_unit" where
  "job_add_process k p =
     with_job k (\<lambda>j s.
       if jb_killed j then (Inl (Err BAD_STATE), s)
       else (Inr (), put_job k (j\<lparr>jb_processes := jb_processes j @ [p]\<rparr>) s))"

definition job_remove_process :: "koid \<Rightarrow> koid \<Rightarrow> 'a task_state_scheme st_unit" where
  "job_remove_process k p =
     with_job k (\<lambda>j s.
       let j' = j\<lparr>jb_processes := filter (\<lambda>x. x \<noteq> p) (jb_processes j)\<rparr>; s1 = put_job k j' s
       in if jb_killed j' \<and> job_vacant j' then job_terminate (task_fuel s1) k s1 else (Inr (), s1))"

definition check_root_job :: "koid \<Rightarrow> 'a task_state_scheme \<Rightarrow> unit zx" where
  "check_root_job k s =
     rbind (get_job k s) (\<lambda>j. if jb_parent j \<noteq> None then Inl (Err ACCESS_DENIED) else Inr ())"

definition job_process_ids :: "koid \<Rightarrow> 'a task_state_scheme \<Rightarrow> koid list zx" where
  "job_process_ids k s = rbind (get_job k s) (\<lambda>j. Inr (jb_processes j))"

definition job_children_ids :: "koid \<Rightarrow> 'a task_state_scheme \<Rightarrow> koid list zx" where
  "job_children_ids k s = rbind (get_job k s) (\<lambda>j. Inr (filter (\<lambda>c. jobs s c \<noteq> None) (jb_children j)))"

definition job_is_empty :: "koid \<Rightarrow> 'a task_state_scheme \<Rightarrow> bool zx" where
  "job_is_empty k s = rbind (get_job k s) (\<lambda>j. Inr (job_vacant j))"

definition job_get_child :: "koid \<Rightarrow> koid \<Rightarrow> 'a task_state_scheme \<Rightarrow> kobj_ref zx" where
  "job_get_child k i s =
     rbind (get_job k s) (\<lambda>j.
       if i \<in> set (jb_children j) \<and> jobs s i \<noteq> None then Inr (KObj T_Job i)
       else if i \<in> set (jb_processes j) then Inr (KObj T_Process i)
       else Inl (Err NOT_FOUND))"

definition job_related_koid :: "koid \<Rightarrow> 'a task_state_scheme \<Rightarrow> koid zx" where
  "job_related_koid k s =
     rbind (get_job k s) (\<lambda>j. Inr (case jb_parent j of None \<Rightarrow> 0 | Some p \<Rightarrow> p))"

definition job_drop :: "koid \<Rightarrow> 'a task_state_scheme st_unit" where
  "job_drop k s =
     sbind (job_terminate (task_fuel s) k) (\<lambda>_ s1. (Inr (), s1\<lparr>jobs := (jobs s1)(k := None)\<rparr>)) s"

subsection \<open>Processes\<close>

definition TASK_RETCODE_SYSCALL_KILL :: int where
  "TASK_RETCODE_SYSCALL_KILL = - 1028"

definition process_create :: "koid \<Rightarrow> string \<Rightarrow> 'a task_state_scheme \<Rightarrow> koid zx \<times> 'a task_state_scheme" where
  "process_create j nm =
     with_job j (\<lambda>jb s.
       let (b, s1) = kobject_base_with_name nm s; k = base_id b
       in case new_root s1 of
            (Inl f, s2) \<Rightarrow> (Inl f, s2)
          | (Inr v, s2) \<Rightarrow>
              (let s3 = put_proc k \<lparr>pr_base = b, pr_job = j,
                          pr_policy = policy_merge (jb_policy jb) (jb_parent_policy jb), pr_vmar = v,
                          pr_max_handle_id = 0, pr_status = PS_Init, pr_handles = Map.empty, pr_threads = []\<rparr> s2
               in case job_add_process j k s3 of
                    (Inl f, s4) \<Rightarrow> (Inl f, s4\<lparr>procs := (procs s4)(k := None), vmars := (vmars s4)(v := None)\<rparr>)
                  | (Inr _, s4) \<Rightarrow> (Inr k, s4)))"

definition process_terminate :: "koid \<Rightarrow> 'a task_state_scheme st_unit" where
  "process_terminate k =
     with_proc k (\<lambda>p s.
       let p' = (case pr_status p of PS_Exited _ \<Rightarrow> p | _ \<Rightarrow> p\<lparr>pr_status := PS_Exited 0\<rparr>)
       in job_remove_process (pr_job p) k (put_proc k p' s))"

definition clear_handles :: "koid \<Rightarrow> 'a task_state_scheme st_unit" where
  "clear_handles k = with_proc k (\<lambda>p s. (Inr (), put_proc k (p\<lparr>pr_handles := Map.empty\<rparr>) s))"

definition process_exit :: "int \<Rightarrow> koid \<Rightarrow> 'a task_state_scheme st_unit" where
  "process_exit retcode k =
     with_proc k (\<lambda>p s. case pr_status p of
         PS_Exited _ \<Rightarrow> (Inr (), s)
       | _ \<Rightarrow>
           let s1 = put_proc k (p\<lparr>pr_status := PS_Exited retcode\<rparr>) s
           in if pr_threads p = [] then sbind (clear_handles k) (\<lambda>_. process_terminate k) s1
              else sbind (sfor thread_kill (pr_threads p)) (\<lambda>_. clear_handles k) s1)"

definition process_kill :: "koid \<Rightarrow> 'a task_state_scheme st_unit" where
  "process_kill = process_exit TASK_RETCODE_SYSCALL_KILL"

definition add_thread :: "koid \<Rightarrow> koid \<Rightarrow> 'a task_state_scheme st_unit" where
  "add_thread k t =
     with_proc k (\<lambda>p s. case pr_status p of
         PS_Exited _ \<Rightarrow> (Inl (Err BAD_STATE), s)
       | _ \<Rightarrow> (Inr (), put_proc k (p\<lparr>pr_threads := pr_threads p @ [t]\<rparr>) s))"

definition remove_thread :: "koid \<Rightarrow> koid \<Rightarrow> 'a task_state_scheme st_unit" where
  "remove_thread k t =
     with_proc k (\<lambda>p s.
       let p' = p\<lparr>pr_threads := filter (\<lambda>x. x \<noteq> t) (pr_threads p)\<rparr>; s1 = put_proc k p' s
       in if pr_threads p' = [] then process_terminate k s1 else (Inr (), s1))"

definition current_thread_drop :: "koid \<Rightarrow> 'a task_state_scheme st_unit" where
  "current_thread_drop t =
     with_thread t (\<lambda>th s. remove_thread (th_proc th) t (put_thread t (change_state TS_Dead th) s))"

definition thread_create ::
  "user_context \<Rightarrow> koid \<Rightarrow> string \<Rightarrow> 'a task_state_scheme \<Rightarrow> koid zx \<times> 'a task_state_scheme" where
  "thread_create cx0 k nm s =
     (let (b, s1) = kobject_base_with_name nm s; t = base_id b; s2 = put_thread t (thread_init b k cx0) s1
      in case add_thread k t s2 of
           (Inl f, s3) \<Rightarrow> (Inl f, s3\<lparr>threads := (threads s3)(t := None)\<rparr>)
         | (Inr _, s3) \<Rightarrow> (Inr t, s3))"

definition start_arg :: "handle option \<Rightarrow> process \<Rightarrow> handle_value zx \<times> process" where
  "start_arg arg1 p = (case arg1 of None \<Rightarrow> (Inr INVALID_HANDLE, p) | Some h \<Rightarrow> table_add h p)"

definition process_start ::
  "koid \<Rightarrow> koid \<Rightarrow> u64 \<Rightarrow> u64 \<Rightarrow> handle option \<Rightarrow> u64 \<Rightarrow> 'a task_state_scheme st_unit" where
  "process_start k t entry stack arg1 arg2 =
     with_proc k (\<lambda>p s.
       if \<not> contains_thread t p then (Inl (Err ACCESS_DENIED), s)
       else if pr_status p \<noteq> PS_Init then (Inl (Err BAD_STATE), s)
       else (case start_arg arg1 (p\<lparr>pr_status := PS_Running\<rparr>) of
           (Inl f, p1) \<Rightarrow> (Inl f, put_proc k p1 s)
         | (Inr v, p1) \<Rightarrow>
             sbind (set_first_thread t) (\<lambda>_ s1.
               case thread_start t entry stack (ucast v) arg2 s1 of
                 (Inl f, s2) \<Rightarrow>
                   (Inl f, if v \<noteq> INVALID_HANDLE then snd (process_remove_handle k v s2) else s2)
               | (Inr _, s2) \<Rightarrow> (Inr (), s2)) (put_proc k p1 s)))"

definition check_policy :: "koid \<Rightarrow> policy_condition \<Rightarrow> 'a task_state_scheme \<Rightarrow> unit zx" where
  "check_policy k c s =
     rbind (get_proc k s) (\<lambda>p.
       case (case get_action (pr_policy p) c of None \<Rightarrow> PA_Allow | Some a \<Rightarrow> a) of
         PA_Allow \<Rightarrow> Inr () | PA_Deny \<Rightarrow> Inl (Err ACCESS_DENIED) | _ \<Rightarrow> Inl Panic)"

definition process_status :: "koid \<Rightarrow> 'a task_state_scheme \<Rightarrow> proc_status zx" where
  "process_status k s = rbind (get_proc k s) (\<lambda>p. Inr (pr_status p))"

definition process_vmar :: "koid \<Rightarrow> 'a task_state_scheme \<Rightarrow> koid zx" where
  "process_vmar k s = rbind (get_proc k s) (\<lambda>p. Inr (pr_vmar p))"

definition process_job :: "koid \<Rightarrow> 'a task_state_scheme \<Rightarrow> koid zx" where
  "process_job k s = rbind (get_proc k s) (\<lambda>p. Inr (pr_job p))"

definition process_related_koid :: "koid \<Rightarrow> 'a task_state_scheme \<Rightarrow> koid zx" where
  "process_related_koid k s = rbind (get_proc k s) (\<lambda>p. Inr (pr_job p))"

definition thread_ids :: "koid \<Rightarrow> 'a task_state_scheme \<Rightarrow> koid list zx" where
  "thread_ids k s = rbind (get_proc k s) (\<lambda>p. Inr (pr_threads p))"

definition process_get_child :: "koid \<Rightarrow> koid \<Rightarrow> 'a task_state_scheme \<Rightarrow> kobj_ref zx" where
  "process_get_child k i s =
     rbind (get_proc k s) (\<lambda>p.
       if i \<in> set (pr_threads p) then Inr (KObj T_Thread i) else Inl (Err NOT_FOUND))"

record process_info =
  pi_return_code :: int
  pi_started :: bool
  pi_has_exited :: bool

fun status_info :: "proc_status \<Rightarrow> process_info" where
  "status_info PS_Init = \<lparr>pi_return_code = 0, pi_started = False, pi_has_exited = False\<rparr>"
| "status_info PS_Running = \<lparr>pi_return_code = 0, pi_started = True, pi_has_exited = False\<rparr>"
| "status_info (PS_Exited ret) = \<lparr>pi_return_code = ret, pi_started = True, pi_has_exited = True\<rparr>"

definition process_get_info :: "koid \<Rightarrow> 'a task_state_scheme \<Rightarrow> process_info zx" where
  "process_get_info k s = rbind (get_proc k s) (\<lambda>p. Inr (status_info (pr_status p)))"

definition poll_end :: "koid \<Rightarrow> nat \<Rightarrow> 'a task_state_scheme \<Rightarrow> int option zx \<times> 'a task_state_scheme" where
  \<comment> \<open>one poll of \<open>ProcessEndFuture\<close>, which wakes itself while the process runs\<close>
  "poll_end k waker =
     with_proc k (\<lambda>p s. case pr_status p of
         PS_Exited code \<Rightarrow> (Inr (Some code), s)
       | _ \<Rightarrow> (Inr None, wake (Some waker) s))"

definition process_suspend :: "koid \<Rightarrow> 'a task_state_scheme st_unit" where
  "process_suspend k = with_proc k (\<lambda>p. sfor thread_suspend (pr_threads p))"

definition process_resume :: "koid \<Rightarrow> 'a task_state_scheme st_unit" where
  "process_resume k = with_proc k (\<lambda>p. sfor thread_resume (pr_threads p))"

subsection \<open>Killing a job\<close>

fun job_kill :: "nat \<Rightarrow> koid \<Rightarrow> 'a task_state_scheme st_unit" where
  "job_kill 0 k s = (Inl NoFuel, s)"
| "job_kill (Suc n) k s =
     with_job k (\<lambda>j s.
       if jb_killed j then (Inr (), s)
       else let s1 = put_job k (j\<lparr>jb_killed := True\<rparr>) s
            in if jb_children j = [] \<and> jb_processes j = [] then job_terminate (task_fuel s1) k s1
               else sbind (sfor (\<lambda>c u. if jobs u c = None then (Inr (), u) else job_kill n c u) (jb_children j))
                      (\<lambda>_. sfor process_kill (jb_processes j)) s1) s"

definition job_suspend :: "koid \<Rightarrow> 'a task_state_scheme st_unit" where
  "job_suspend k s = (Inl Panic, s)"

definition job_resume :: "koid \<Rightarrow> 'a task_state_scheme st_unit" where
  "job_resume k s = (Inl Panic, s)"

end
