(* ===== verification/Task_Inv.thy ===== *)
theory Task_Inv
  imports Task
begin

text \<open>
  The invariant of the tree of jobs and processes, and its preservation by every operation. The
  sets \<open>X\<close> and \<open>Y\<close> are the jobs and processes whose removal from their owner is under way.
\<close>

subsection \<open>The invariant\<close>

definition exited :: "process \<Rightarrow> bool" where
  "exited p \<longleftrightarrow> (\<exists>c. pr_status p = PS_Exited c)"

definition child_ok :: "koid set \<Rightarrow> 'a task_state_scheme \<Rightarrow> koid \<Rightarrow> koid \<Rightarrow> bool" where
  "child_ok X s k c \<longleftrightarrow>
     (\<exists>cj. jobs s c = Some cj \<and> jb_parent cj = Some k \<and> (jb_killed cj \<and> job_vacant cj \<longrightarrow> c \<in> X))"

definition member_ok :: "koid set \<Rightarrow> 'a task_state_scheme \<Rightarrow> koid \<Rightarrow> koid \<Rightarrow> bool" where
  "member_ok Y s k q \<longleftrightarrow>
     (\<exists>p. procs s q = Some p \<and> pr_job p = k \<and> (exited p \<and> pr_threads p = [] \<longrightarrow> q \<in> Y))"

definition job_ok :: "koid set \<Rightarrow> koid set \<Rightarrow> 'a task_state_scheme \<Rightarrow> koid \<Rightarrow> job \<Rightarrow> bool" where
  "job_ok X Y s k j \<longleftrightarrow>
     k < next_koid s \<and> distinct (jb_children j) \<and> distinct (jb_processes j) \<and>
     (\<forall>c \<in> set (jb_children j). child_ok X s k c) \<and>
     (\<forall>q \<in> set (jb_processes j). member_ok Y s k q) \<and>
     (\<forall>p. jb_parent j = Some p \<longrightarrow> p < k \<and>
        (\<exists>pj. jobs s p = Some pj \<and> (\<not> jb_killed j \<longrightarrow> k \<in> set (jb_children pj) \<union> X)))"

definition proc_ok :: "'a task_state_scheme \<Rightarrow> koid \<Rightarrow> process \<Rightarrow> bool" where
  "proc_ok s k p \<longleftrightarrow>
     k < next_koid s \<and> distinct (pr_threads p) \<and>
     (\<forall>t \<in> set (pr_threads p). \<exists>th. threads s t = Some th \<and> th_proc th = k) \<and>
     (\<exists>j. jobs s (pr_job p) = Some j \<and> (\<not> exited p \<longrightarrow> k \<in> set (jb_processes j)))"

definition task_inv_x :: "koid set \<Rightarrow> koid set \<Rightarrow> 'a task_state_scheme \<Rightarrow> bool" where
  "task_inv_x X Y s \<longleftrightarrow>
     (\<forall>k j. jobs s k = Some j \<longrightarrow> job_ok X Y s k j) \<and>
     (\<forall>k p. procs s k = Some p \<longrightarrow> proc_ok s k p) \<and>
     (\<forall>t th. threads s t = Some th \<longrightarrow> t < next_koid s)"

abbreviation task_inv :: "'a task_state_scheme \<Rightarrow> bool" where
  "task_inv \<equiv> task_inv_x {} {}"

lemma task_invD:
  assumes "task_inv_x X Y s"
  shows "\<And>k j. jobs s k = Some j \<Longrightarrow> job_ok X Y s k j"
    and "\<And>k p. procs s k = Some p \<Longrightarrow> proc_ok s k p"
    and "\<And>t th. threads s t = Some th \<Longrightarrow> t < next_koid s"
  using assms unfolding task_inv_x_def by blast+

lemma task_inv_mono:
  "task_inv_x X Y s \<Longrightarrow> X \<subseteq> X' \<Longrightarrow> Y \<subseteq> Y' \<Longrightarrow> task_inv_x X' Y' s"
  unfolding task_inv_x_def job_ok_def child_ok_def member_ok_def by blast

lemma listed_child:
  assumes "task_inv_x X Y s" and "jobs s k = Some j" and "c \<in> set (jb_children j)"
  obtains cj where "jobs s c = Some cj" and "jb_parent cj = Some k" and "k < c"
    and "jb_killed cj \<Longrightarrow> job_vacant cj \<Longrightarrow> c \<in> X"
proof -
  obtain cj where cj: "jobs s c = Some cj" "jb_parent cj = Some k" "jb_killed cj \<and> job_vacant cj \<longrightarrow> c \<in> X"
    using task_invD(1) [OF assms(1,2)] assms(3) unfolding job_ok_def child_ok_def by blast
  moreover have "k < c" using task_invD(1) [OF assms(1) cj(1)] cj(2) by (simp add: job_ok_def)
  ultimately show ?thesis using that by blast
qed

lemma listed_process:
  assumes "task_inv_x X Y s" and "jobs s k = Some j" and "q \<in> set (jb_processes j)"
  obtains p where "procs s q = Some p" and "pr_job p = k"
    and "exited p \<Longrightarrow> pr_threads p = [] \<Longrightarrow> q \<in> Y"
  using task_invD(1) [OF assms(1,2)] assms(3) unfolding job_ok_def member_ok_def by blast

lemma parent_of:
  assumes "task_inv_x X Y s" and "jobs s k = Some j" and "jb_parent j = Some p"
  obtains pj where "jobs s p = Some pj" and "p < k" and "\<not> jb_killed j \<Longrightarrow> k \<in> set (jb_children pj) \<union> X"
  using task_invD(1) [OF assms(1,2)] assms(3) unfolding job_ok_def by blast

lemma one_parent:
  assumes "task_inv_x X Y s" and "jobs s k = Some j" and "jobs s x = Some i"
    and "c \<in> set (jb_children j)" and "c \<in> set (jb_children i)"
  shows "x = k"
proof -
  obtain cj where "jobs s c = Some cj" "jb_parent cj = Some k" by (rule listed_child [OF assms(1,2,4)])
  moreover obtain cj' where "jobs s c = Some cj'" "jb_parent cj' = Some x" by (rule listed_child [OF assms(1,3,5)])
  ultimately show ?thesis by simp
qed

lemma one_owner:
  assumes "task_inv_x X Y s" and "jobs s k = Some j" and "jobs s x = Some i"
    and "q \<in> set (jb_processes j)" and "q \<in> set (jb_processes i)"
  shows "x = k"
proof -
  obtain p where "procs s q = Some p" "pr_job p = k" by (rule listed_process [OF assms(1,2,4)])
  moreover obtain p' where "procs s q = Some p'" "pr_job p' = x" by (rule listed_process [OF assms(1,3,5)])
  ultimately show ?thesis by simp
qed

lemma job_of:
  assumes "task_inv_x X Y s" and "procs s k = Some p"
  obtains j where "jobs s (pr_job p) = Some j" and "\<not> exited p \<Longrightarrow> k \<in> set (jb_processes j)"
  using task_invD(2) [OF assms] by (auto simp: proc_ok_def)

subsection \<open>Updates that keep the tree\<close>

text \<open>The invariant only reads these fields.\<close>

lemma task_inv_cong:
  fixes s t :: "'a task_state_scheme"
  assumes "jobs t = jobs s" and "procs t = procs s"
    and "\<And>x. map_option th_proc (threads t x) = map_option th_proc (threads s x)"
    and "next_koid t = next_koid s"
  shows "task_inv_x X Y t = task_inv_x X Y s"
proof -
  have th: "(\<exists>th. threads t x = Some th \<and> th_proc th = k) \<longleftrightarrow> (\<exists>th. threads s x = Some th \<and> th_proc th = k)" for x k
    using assms(3) [of x] by (cases "threads t x"; cases "threads s x") auto
  have dom: "(\<exists>th. threads t x = Some th) \<longleftrightarrow> (\<exists>th. threads s x = Some th)" for x
    using assms(3) [of x] by (cases "threads t x"; cases "threads s x") auto
  have "proc_ok t k p = proc_ok s k p" for k p
    unfolding proc_ok_def th assms(1,4) ..
  moreover have "job_ok X Y t k j = job_ok X Y s k j" for k j
    unfolding job_ok_def child_ok_def member_ok_def assms(1,2,4) ..
  ultimately show ?thesis unfolding task_inv_x_def assms(1,2,4) using dom by blast
qed

text \<open>
  A job is replaced by one with the same parent, fewer children and processes, and the same or a
  raised killed flag. Only the job itself can become ripe for removal from its parent.
\<close>

lemma put_job_inv:
  fixes s :: "'a task_state_scheme"
  assumes I: "task_inv_x X Y s" and j: "jobs s k = Some j"
    and same: "jb_parent j' = jb_parent j" "jb_killed j \<longrightarrow> jb_killed j'"
    and ch: "set (jb_children j') \<subseteq> set (jb_children j)" "distinct (jb_children j')"
    and pr: "set (jb_processes j') \<subseteq> set (jb_processes j)" "distinct (jb_processes j')"
    and goneC: "\<And>c cj. c \<in> set (jb_children j) - set (jb_children j') \<Longrightarrow> jobs s c = Some cj \<Longrightarrow> jb_killed cj \<or> c \<in> X'"
    and goneP: "\<And>q p. q \<in> set (jb_processes j) - set (jb_processes j') \<Longrightarrow> procs s q = Some p \<Longrightarrow> exited p"
    and X': "X - {k} - (set (jb_children j) - set (jb_children j')) \<subseteq> X'"
      "jb_killed j' \<Longrightarrow> job_vacant j' \<Longrightarrow> k \<in> X'" "\<not> jb_killed j' \<Longrightarrow> k \<in> X \<Longrightarrow> k \<in> X'"
    and Y': "Y - (set (jb_processes j) - set (jb_processes j')) \<subseteq> Y'"
  shows "task_inv_x X' Y' (put_job k j' s)"
proof -
  note D = task_invD [OF I]
  have unique: "c \<notin> set (jb_children jb)" if "jobs s x = Some jb" "x \<noteq> k" "c \<in> set (jb_children j)" for x jb c
    using one_parent [OF I j that(1,3)] that(2) by blast
  have uniqueP: "q \<notin> set (jb_processes jb)" if "jobs s x = Some jb" "x \<noteq> k" "q \<in> set (jb_processes j)" for x jb q
    using one_owner [OF I j that(1,3)] that(2) by blast
  have jok: "job_ok X' Y' (put_job k j' s) x jb" if x: "jobs (put_job k j' s) x = Some jb" for x jb
  proof -
    obtain jb0 where jb0: "jobs s x = Some jb0" "jb_parent jb = jb_parent jb0"
      "set (jb_children jb) \<subseteq> set (jb_children jb0)" "distinct (jb_children jb)"
      "set (jb_processes jb) \<subseteq> set (jb_processes jb0)" "distinct (jb_processes jb)"
      "jb_killed jb0 \<longrightarrow> jb_killed jb"
    proof (cases "x = k")
      case True
      show ?thesis by (rule that [of j]) (use x j True same ch pr in auto)
    next
      case False
      then have jx: "jobs s x = Some jb" using x by simp
      have "distinct (jb_children jb)" "distinct (jb_processes jb)"
        using D(1) [OF jx] unfolding job_ok_def by blast+
      then show ?thesis by (intro that [of jb]) (use jx in auto)
    qed
    note ok = D(1) [OF jb0(1)]
    have keptC: "c \<in> set (jb_children j) - set (jb_children j') \<Longrightarrow> c \<notin> set (jb_children jb)" for c
      using unique [of x jb c] x j jb0 by (cases "x = k") auto
    have "child_ok X' (put_job k j' s) x c" if c: "c \<in> set (jb_children jb)" for c
    proof -
      obtain cj where cj: "jobs s c = Some cj" "jb_parent cj = Some x" "jb_killed cj \<and> job_vacant cj \<longrightarrow> c \<in> X"
        using listed_child [OF I jb0(1)] c jb0(3) by blast
      show ?thesis
        using cj X' keptC [of c] c j same by (cases "c = k") (auto simp: child_ok_def)
    qed
    moreover have "member_ok Y' (put_job k j' s) x q" if q: "q \<in> set (jb_processes jb)" for q
    proof -
      have n: "q \<notin> set (jb_processes j) - set (jb_processes j')"
        using q uniqueP [of x jb q] x j by (cases "x = k") auto
      obtain p where "procs s q = Some p" "pr_job p = x" "exited p \<Longrightarrow> pr_threads p = [] \<Longrightarrow> q \<in> Y"
        using listed_process [OF I jb0(1)] q jb0(5) by blast
      then show ?thesis using n Y' by (auto simp: member_ok_def)
    qed
    moreover have "p < x \<and> (\<exists>pj. jobs (put_job k j' s) p = Some pj \<and> (\<not> jb_killed jb \<longrightarrow> x \<in> set (jb_children pj) \<union> X'))"
      if p: "jb_parent jb = Some p" for p
    proof -
      have p0: "jb_parent jb0 = Some p" using p jb0(2) by simp
      obtain pj where pj: "p < x" "jobs s p = Some pj" "\<not> jb_killed jb0 \<longrightarrow> x \<in> set (jb_children pj) \<union> X"
        using parent_of [OF I jb0(1) p0] by blast
      have keep: "x \<in> X'" if "x \<in> X" "\<not> jb_killed jb" "x \<notin> set (jb_children j) - set (jb_children j')"
        using X' that x by (cases "x = k") auto
      show ?thesis
      proof (cases "p = k")
        case True
        have "x \<in> set (jb_children j') \<union> X'" if "\<not> jb_killed jb"
          using that pj True j goneC [of x jb0] jb0(1,7) keep by auto
        then show ?thesis using pj True by auto
      next
        case False
        have "x \<in> set (jb_children pj) \<union> X'" if nk: "\<not> jb_killed jb"
        proof (cases "x \<in> set (jb_children pj)")
          case False
          then have "x \<in> X" using nk pj jb0(7) by auto
          then show ?thesis using keep [OF _ nk] goneC [of x jb0] jb0(1,7) nk by blast
        qed simp
        then show ?thesis using pj False by auto
      qed
    qed
    moreover have "x < next_koid (put_job k j' s)" using ok by (simp add: job_ok_def)
    ultimately show ?thesis using jb0(4,6) unfolding job_ok_def by blast
  qed
  have pok: "proc_ok (put_job k j' s) q p" if q: "procs s q = Some p" for q p
  proof -
    obtain jp where jp: "jobs s (pr_job p) = Some jp" "\<not> exited p \<Longrightarrow> q \<in> set (jb_processes jp)"
      by (rule job_of [OF I q]) blast
    have "\<exists>jq. jobs (put_job k j' s) (pr_job p) = Some jq \<and> (\<not> exited p \<longrightarrow> q \<in> set (jb_processes jq))"
      using jp j goneP [of q p] q by (cases "pr_job p = k") auto
    then show ?thesis using D(2) [OF q] by (simp add: proc_ok_def)
  qed
  show ?thesis using jok pok D(3) unfolding task_inv_x_def by simp
qed

lemma put_proc_inv:
  fixes s :: "'a task_state_scheme"
  assumes I: "task_inv_x X Y s" and p: "procs s k = Some p"
    and same: "pr_job p' = pr_job p" "exited p \<Longrightarrow> exited p'"
    and th: "set (pr_threads p') \<subseteq> set (pr_threads p)" "distinct (pr_threads p')"
    and Y': "Y \<subseteq> Y'" "exited p' \<Longrightarrow> pr_threads p' = [] \<Longrightarrow> k \<in> Y'"
  shows "task_inv_x X Y' (put_proc k p' s)"
proof -
  note D = task_invD [OF I]
  have "member_ok Y' (put_proc k p' s) x q" if "member_ok Y s x q" for x q
    using that p same Y' by (auto simp: member_ok_def)
  moreover have "child_ok X (put_proc k p' s) x c = child_ok X s x c" for x c by (simp add: child_ok_def)
  ultimately have "job_ok X Y' (put_proc k p' s) x j" if "jobs s x = Some j" for x j
    using D(1) [OF that] by (simp add: job_ok_def)
  moreover have "proc_ok (put_proc k p' s) q pr" if q: "procs (put_proc k p' s) q = Some pr" for q pr
  proof (cases "q = k")
    case True
    then show ?thesis using D(2) [OF p] q same th unfolding proc_ok_def by auto
  next
    case False
    then show ?thesis using D(2) [of q pr] q by (simp add: proc_ok_def)
  qed
  ultimately show ?thesis using D(3) unfolding task_inv_x_def by simp
qed

text \<open>Changes of threads that keep their process.\<close>

definition threads_only :: "'a task_state_scheme \<Rightarrow> 'a task_state_scheme \<Rightarrow> bool" where
  "threads_only s t \<longleftrightarrow> jobs t = jobs s \<and> procs t = procs s \<and> next_koid t = next_koid s \<and>
     (\<forall>x. map_option th_proc (threads t x) = map_option th_proc (threads s x))"

lemma threads_only_refl [simp]: "threads_only s s"
  by (simp add: threads_only_def)

lemma threads_only_trans: "threads_only s t \<Longrightarrow> threads_only t u \<Longrightarrow> threads_only s u"
  by (simp add: threads_only_def)

lemma threads_only_inv:
  fixes s t :: "'a task_state_scheme"
  shows "threads_only s t \<Longrightarrow> task_inv_x X Y t = task_inv_x X Y s"
  by (intro task_inv_cong) (simp_all add: threads_only_def)

lemma threads_only_put:
  "threads s k = Some th \<Longrightarrow> th_proc th' = th_proc th \<Longrightarrow> threads_only s (put_thread k th' s)"
  by (simp add: threads_only_def)

lemma threads_only_wake [simp]: "threads_only s (wake w t) = threads_only s t"
  by (simp add: threads_only_def)

lemmas thread_ops =
  thread_start_def thread_stop_def thread_kill_def current_exit_def thread_suspend_def thread_resume_def
  poll_run_def end_running_def with_context_def thread_write_state_def time_add_def set_first_thread_def
  update_flags_def set_base_reg_def set_fsbase_def set_gsbase_def with_thread_def change_state_def Let_def

lemma thread_ops_only:
  fixes s :: "'a task_state_scheme"
  shows "threads_only s (snd (thread_start k e st a1 a2 s))" "threads_only s (snd (thread_stop b k s))"
    "threads_only s (snd (thread_kill k s))" "threads_only s (snd (current_exit k s))"
    "threads_only s (snd (thread_suspend k s))" "threads_only s (snd (thread_resume k s))"
    "threads_only s (snd (poll_run k w s))" "threads_only s (snd (end_running k cx s))"
    "threads_only s (snd (with_context k f s))" "threads_only s (snd (thread_write_state lay k kind buf s))"
    "threads_only s (snd (time_add k d s))" "threads_only s (snd (set_first_thread k s))"
    "threads_only s (snd (update_flags k g s))" "threads_only s (snd (set_base_reg r k v s))"
  by (auto simp: thread_ops threads_only_def split: option.splits sum.splits prod.splits)

lemma sfor_threads_only:
  fixes s :: "'a task_state_scheme"
  assumes "\<And>i u. threads_only u (snd (f i (u :: 'a task_state_scheme)))"
  shows "threads_only s (snd (sfor f ks s))"
proof (rule sfor_invariant [OF prod.collapse [symmetric], where P = "threads_only s"])
  fix i r and u u' :: "'a task_state_scheme"
  assume "threads_only s u" "f i u = (r, u')"
  then show "threads_only s u'" using assms [of u i] by (auto intro: threads_only_trans)
qed simp

subsection \<open>Termination goes up\<close>

text \<open>What termination may change: child lists, which only lose entries.\<close>

definition reaps :: "'a task_state_scheme \<Rightarrow> 'a task_state_scheme \<Rightarrow> bool" where
  "reaps s t \<longleftrightarrow> procs t = procs s \<and> threads t = threads s \<and> next_koid t = next_koid s \<and>
     (\<forall>k. (jobs s k = None \<longrightarrow> jobs t k = None) \<and>
          (\<forall>j. jobs s k = Some j \<longrightarrow>
             (\<exists>cs. jobs t k = Some (j\<lparr>jb_children := cs\<rparr>) \<and> set cs \<subseteq> set (jb_children j))))"

lemma reaps_refl [simp]: "reaps s s"
  unfolding reaps_def
proof (intro conjI allI impI)
  fix k j assume "jobs s k = Some j"
  then show "\<exists>cs. jobs s k = Some (j\<lparr>jb_children := cs\<rparr>) \<and> set cs \<subseteq> set (jb_children j)"
    by (intro exI [of _ "jb_children j"]) simp
qed simp_all

lemma reapsD:
  assumes "reaps s t" and "jobs s k = Some j"
  obtains cs where "jobs t k = Some (j\<lparr>jb_children := cs\<rparr>)" and "set cs \<subseteq> set (jb_children j)"
  using assms unfolding reaps_def by blast

lemma reaps_trans:
  assumes "reaps s t" and "reaps t u"
  shows "reaps s u"
proof -
  have "\<exists>cs. jobs u k = Some (j\<lparr>jb_children := cs\<rparr>) \<and> set cs \<subseteq> set (jb_children j)" if j: "jobs s k = Some j" for k j
  proof -
    obtain cs where cs: "jobs t k = Some (j\<lparr>jb_children := cs\<rparr>)" "set cs \<subseteq> set (jb_children j)"
      by (rule reapsD [OF assms(1) j])
    obtain cs' where "jobs u k = Some (j\<lparr>jb_children := cs, jb_children := cs'\<rparr>)" "set cs' \<subseteq> set cs"
      by (rule reapsD [OF assms(2) cs(1)]) simp
    then show ?thesis using cs(2) by (intro exI [of _ cs']) auto
  qed
  then show ?thesis using assms unfolding reaps_def by simp
qed

lemma drop_exempt:
  fixes s :: "'a task_state_scheme"
  assumes I: "task_inv_x (insert k X) Y s" and j: "jobs s k = Some j" "jb_killed j"
    and un: "\<And>p pj. jobs s p = Some pj \<Longrightarrow> k \<notin> set (jb_children pj)"
  shows "task_inv_x X Y s"
proof -
  have "job_ok X Y s x jb" if x: "jobs s x = Some jb" for x jb
  proof -
    have "child_ok X s x c" if "c \<in> set (jb_children jb)" for c
      using listed_child [OF I x that] un [OF x] that unfolding child_ok_def by (metis insertE)
    moreover have "p < x \<and> (\<exists>pj. jobs s p = Some pj \<and> (\<not> jb_killed jb \<longrightarrow> x \<in> set (jb_children pj) \<union> X))"
      if "jb_parent jb = Some p" for p
      using parent_of [OF I x that] j x by (metis Un_insert_right insertE option.inject)
    ultimately show ?thesis using task_invD(1) [OF I x] unfolding job_ok_def by blast
  qed
  then show ?thesis using task_invD(2,3) [OF I] unfolding task_inv_x_def by blast
qed

lemma detach_child_inv:
  fixes s :: "'a task_state_scheme"
  assumes I: "task_inv_x (insert k X) Y s" and j: "jobs s k = Some j" and kj: "jb_killed j \<or> k \<in> X"
    and p: "jobs s p = Some pj" and par: "jb_parent j = Some p"
  shows "\<exists>t. detach_child p k s = (Inr (jb_killed pj \<and> jb_processes pj = [] \<and> set (jb_children pj) \<subseteq> {k}), t) \<and>
     task_inv_x (if jb_killed pj \<and> jb_processes pj = [] \<and> set (jb_children pj) \<subseteq> {k} then insert p X else X) Y t \<and>
     reaps s t"
proof -
  let ?pj = "pj\<lparr>jb_children := filter (\<lambda>x. x \<noteq> k) (jb_children pj)\<rparr>"
  let ?t = "put_job p ?pj s"
  let ?fin = "jb_killed pj \<and> jb_processes pj = [] \<and> set (jb_children pj) \<subseteq> {k}"
  let ?X = "if ?fin then insert p X else X"
  have vac: "jb_killed ?pj \<and> job_vacant ?pj \<longleftrightarrow> ?fin" by (auto simp: job_vacant_def filter_empty_conv)
  have pk: "p \<noteq> k" using parent_of [OF I j par] by auto
  have P: "distinct (jb_children pj)" "distinct (jb_processes pj)"
    using task_invD(1) [OF I p] by (simp_all add: job_ok_def)
  have gone: "jb_killed cj \<or> c \<in> insert k ?X" if "c \<in> set (jb_children pj) - set (jb_children ?pj)" for c cj
    using that by auto
  have "task_inv_x (insert k ?X) Y ?t"
    by (rule put_job_inv [OF I p]) (use P vac gone pk in auto)
  moreover have "task_inv_x ?X Y ?t" if kd: "jb_killed j"
  proof (rule drop_exempt [OF \<open>task_inv_x (insert k ?X) Y ?t\<close>, of j])
    fix x pj' assume x: "jobs ?t x = Some pj'"
    show "k \<notin> set (jb_children pj')"
    proof (cases "x = p")
      case False
      then have xs: "jobs s x = Some pj'" using x by simp
      show ?thesis
      proof
        assume k: "k \<in> set (jb_children pj')"
        obtain cj where "jobs s k = Some cj" "jb_parent cj = Some x" by (rule listed_child [OF I xs k])
        then show False using j par False by simp
      qed
    qed (use x in auto)
  qed (use j pk kd in auto)
  moreover have "reaps s ?t"
    unfolding reaps_def
  proof (intro conjI allI impI)
    fix x jb assume "jobs s x = Some jb"
    then show "\<exists>cs. jobs ?t x = Some (jb\<lparr>jb_children := cs\<rparr>) \<and> set cs \<subseteq> set (jb_children jb)"
      using p by (cases "x = p") (auto intro: exI [of _ "jb_children jb"])
  qed (use p in auto)
  moreover have ins: "insert k ?X = ?X" if "k \<in> X" using that by auto
  have "task_inv_x ?X Y ?t"
  proof (cases "jb_killed j")
    case False
    then have "insert k ?X = ?X" using kj ins by blast
    then show ?thesis using \<open>task_inv_x (insert k ?X) Y ?t\<close> by (simp only:)
  qed fact
  note fin = this \<open>reaps s ?t\<close>
  have "detach_child p k s = (Inr (jb_killed ?pj \<and> job_vacant ?pj), ?t)"
    using p by (simp add: detach_child_def with_job_def Let_def)
  then have "detach_child p k s = (Inr ?fin, ?t)" unfolding vac .
  then show ?thesis using fin by (intro exI [of _ ?t] conjI)
qed

lemma job_terminate_inv:
  fixes s :: "'a task_state_scheme"
  assumes "task_inv_x (insert k X) Y s" and "jobs s k = Some j" and "jb_killed j" and "unat k < n"
  shows "\<exists>t. job_terminate n k s = (Inr (), t) \<and> task_inv_x X Y t \<and> reaps s t"
  using assms
proof (induction n arbitrary: k s j)
  case 0
  then show ?case by simp
next
  case (Suc n)
  show ?case
  proof (cases "jb_parent j")
    case None
    have "k \<notin> set (jb_children pj)" if p: "jobs s p = Some pj" for p pj
    proof
      assume k: "k \<in> set (jb_children pj)"
      obtain cj where "jobs s k = Some cj" "jb_parent cj = Some p" by (rule listed_child [OF Suc.prems(1) p k])
      then show False using Suc.prems(2) None by simp
    qed
    then have "task_inv_x X Y s" using drop_exempt Suc.prems by blast
    then show ?thesis using Suc.prems None by (simp add: with_job_def)
  next
    case (Some p)
    obtain pj where pj: "jobs s p = Some pj" "p < k" by (rule parent_of [OF Suc.prems(1,2) Some])
    let ?fin = "jb_killed pj \<and> jb_processes pj = [] \<and> set (jb_children pj) \<subseteq> {k}"
    obtain t where t: "detach_child p k s = (Inr ?fin, t)" "task_inv_x (if ?fin then insert p X else X) Y t" "reaps s t"
      using detach_child_inv [OF Suc.prems(1,2) disjI1 [OF Suc.prems(3)] pj(1) Some] by blast
    show ?thesis
    proof (cases ?fin)
      case True
      obtain cs where cs: "jobs t p = Some (pj\<lparr>jb_children := cs\<rparr>)" by (rule reapsD [OF t(3) pj(1)])
      have "unat p < n" using pj(2) Suc.prems(4) by (simp add: word_less_nat_alt)
      then obtain u where "job_terminate n p t = (Inr (), u)" "task_inv_x X Y u" "reaps t u"
        using Suc.IH [of p t "pj\<lparr>jb_children := cs\<rparr>"] t(2) True cs by auto
      then show ?thesis
        using Suc.prems(2) Some t True reaps_trans [OF t(3)] by (auto simp: with_job_def sbind_Inr)
    next
      case False
      have "detach_child p k s = (Inr False, t)" "task_inv_x X Y t"
        using t(1,2) unfolding if_not_P [OF False] using False by (simp_all only:)
      then show ?thesis using Suc.prems(2) Some t(3) by (simp add: with_job_def sbind_def)
    qed
  qed
qed

lemma task_fuel_enough: "unat k < task_fuel s" if "task_inv_x X Y s" "jobs s k = Some j"
  using task_invD(1) [OF that] by (simp add: job_ok_def task_fuel_def word_less_nat_alt)

subsection \<open>What no operation on the tree undoes\<close>

definition job_evolves :: "job \<Rightarrow> job \<Rightarrow> bool" where
  "job_evolves j j' \<longleftrightarrow> jb_parent j' = jb_parent j \<and> (jb_killed j \<longrightarrow> jb_killed j') \<and>
     set (jb_children j') \<subseteq> set (jb_children j) \<and> set (jb_processes j') \<subseteq> set (jb_processes j)"

definition proc_evolves :: "process \<Rightarrow> process \<Rightarrow> bool" where
  "proc_evolves p p' \<longleftrightarrow> pr_job p' = pr_job p \<and> (exited p \<longrightarrow> exited p') \<and> pr_threads p' = pr_threads p"

definition evolves :: "'a task_state_scheme \<Rightarrow> 'a task_state_scheme \<Rightarrow> bool" where
  "evolves s t \<longleftrightarrow> next_koid t = next_koid s \<and> rel_fun (=) (rel_option job_evolves) (jobs s) (jobs t) \<and>
     rel_fun (=) (rel_option proc_evolves) (procs s) (procs t)"

lemma job_evolves_refl [simp]: "job_evolves j j"
  by (simp add: job_evolves_def)

lemma proc_evolves_refl [simp]: "proc_evolves p p"
  by (simp add: proc_evolves_def)

lemma evolves_refl [simp]: "evolves s s"
  by (auto simp: evolves_def rel_fun_def intro!: option.rel_refl)

lemma evolves_trans:
  assumes "evolves s t" and "evolves t u"
  shows "evolves s u"
proof -
  have "rel_option job_evolves (jobs s k) (jobs u k)" for k
    using assms by (cases "jobs s k"; cases "jobs t k"; cases "jobs u k")
      (force simp: evolves_def rel_fun_def job_evolves_def dest!: spec [of _ k])+
  moreover have "rel_option proc_evolves (procs s k) (procs u k)" for k
    using assms by (cases "procs s k"; cases "procs t k"; cases "procs u k")
      (force simp: evolves_def rel_fun_def proc_evolves_def dest!: spec [of _ k])+
  ultimately show ?thesis using assms by (simp add: evolves_def rel_fun_def)
qed

lemma evolves_job:
  assumes "evolves s t" and "jobs s k = Some j"
  obtains j' where "jobs t k = Some j'" and "job_evolves j j'"
  using assms by (auto simp: evolves_def rel_fun_def option_rel_Some1 dest!: spec [of _ k])

lemma evolves_proc:
  assumes "evolves s t" and "procs s k = Some p"
  obtains p' where "procs t k = Some p'" and "proc_evolves p p'"
  using assms by (auto simp: evolves_def rel_fun_def option_rel_Some1 dest!: spec [of _ k])

lemma evolves_job_back:
  assumes "evolves s t" and "jobs t k = Some j'"
  obtains j where "jobs s k = Some j" and "job_evolves j j'"
  using assms by (auto simp: evolves_def rel_fun_def option_rel_Some2 dest!: spec [of _ k])

lemma evolves_proc_back:
  assumes "evolves s t" and "procs t k = Some p'"
  obtains p where "procs s k = Some p" and "proc_evolves p p'"
  using assms by (auto simp: evolves_def rel_fun_def option_rel_Some2 dest!: spec [of _ k])

lemma evolves_none: "evolves s t \<Longrightarrow> jobs t k = None \<longleftrightarrow> jobs s k = None"
  by (cases "jobs s k"; cases "jobs t k") (force simp: evolves_def rel_fun_def dest!: spec [of _ k])+

lemma reaps_evolves:
  assumes "reaps s t"
  shows "evolves s t"
proof -
  have "rel_option job_evolves (jobs s k) (jobs t k)" for k
  proof (cases "jobs s k")
    case (Some j)
    obtain cs where "jobs t k = Some (j\<lparr>jb_children := cs\<rparr>)" "set cs \<subseteq> set (jb_children j)"
      by (rule reapsD [OF assms Some])
    then show ?thesis using Some by (simp add: job_evolves_def)
  qed (use assms in \<open>simp add: reaps_def\<close>)
  moreover have "procs t = procs s" "next_koid t = next_koid s" using assms by (simp_all add: reaps_def)
  ultimately show ?thesis by (auto simp: evolves_def rel_fun_def intro!: option.rel_refl)
qed

lemma threads_only_evolves:
  fixes s t :: "'a task_state_scheme"
  shows "threads_only s t \<Longrightarrow> evolves s t"
  by (auto simp: evolves_def threads_only_def rel_fun_def intro!: option.rel_refl)

lemma put_job_evolves: "jobs s k = Some j \<Longrightarrow> job_evolves j j' \<Longrightarrow> evolves s (put_job k j' s)"
  by (auto simp: evolves_def rel_fun_def intro!: option.rel_refl)

lemma put_proc_evolves: "procs s k = Some p \<Longrightarrow> proc_evolves p p' \<Longrightarrow> evolves s (put_proc k p' s)"
  by (auto simp: evolves_def rel_fun_def intro!: option.rel_refl)

subsection \<open>Processes leave their job\<close>

lemma job_remove_process_inv:
  fixes s :: "'a task_state_scheme"
  assumes I: "task_inv_x {} {q} s" and p: "procs s q = Some p" "exited p" and j: "jobs s (pr_job p) = Some j"
  shows "\<exists>t. job_remove_process (pr_job p) q s = (Inr (), t) \<and> task_inv t \<and> evolves s t \<and>
     procs t = procs s \<and> threads t = threads s \<and> (\<forall>k i. jobs t k = Some i \<longrightarrow> q \<notin> set (jb_processes i))"
proof -
  let ?k = "pr_job p"
  let ?j = "j\<lparr>jb_processes := filter (\<lambda>x. x \<noteq> q) (jb_processes j)\<rparr>"
  let ?u = "put_job ?k ?j s"
  let ?fin = "jb_killed ?j \<and> job_vacant ?j"
  have J: "distinct (jb_children j)" "distinct (jb_processes j)"
    using task_invD(1) [OF I j] by (simp_all add: job_ok_def)
  have Iu: "task_inv_x (if ?fin then {?k} else {}) {q} ?u"
    by (rule put_job_inv [OF I j]) (use J p in \<open>auto simp: job_vacant_def\<close>)
  have gone: "q \<notin> set (jb_processes i)" if i: "jobs ?u x = Some i" for x i
  proof
    assume q: "q \<in> set (jb_processes i)"
    obtain p' where "procs ?u q = Some p'" "pr_job p' = x" by (rule listed_process [OF Iu i q])
    then have "x = ?k" using p by simp
    then show False using i q by auto
  qed
  have "task_inv_x (if ?fin then {?k} else {}) {} ?u"
  proof -
    have "job_ok X {} ?u x i" if "jobs ?u x = Some i" "job_ok X {q} ?u x i" for X x i
      using that(2) gone [OF that(1)] unfolding job_ok_def member_ok_def by blast
    then show ?thesis using Iu unfolding task_inv_x_def by blast
  qed
  note Iv = this
  have ev: "evolves s ?u" by (rule put_job_evolves [OF j]) (auto simp: job_evolves_def)
  have run: "job_remove_process ?k q s = (if ?fin then job_terminate (task_fuel ?u) ?k ?u else (Inr (), ?u))"
    using j by (simp add: job_remove_process_def with_job_def Let_def)
  show ?thesis
  proof (cases ?fin)
    case True
    have jk: "jobs ?u ?k = Some ?j" by simp
    have "unat ?k < task_fuel ?u" by (rule task_fuel_enough [OF Iv jk])
    then obtain t where t: "job_terminate (task_fuel ?u) ?k ?u = (Inr (), t)" "task_inv t" "reaps ?u t"
      using job_terminate_inv [of ?k "{}" "{}" ?u ?j "task_fuel ?u"] Iv True jk by auto
    have "q \<notin> set (jb_processes i)" if tx: "jobs t x = Some i" for x i
    proof -
      obtain i' where i': "jobs ?u x = Some i'" "job_evolves i' i" by (rule evolves_job_back [OF reaps_evolves [OF t(3)] tx])
      then show ?thesis using gone [OF i'(1)] by (auto simp: job_evolves_def)
    qed
    moreover have "procs t = procs s" "threads t = threads s" using t(3) by (simp_all add: reaps_def)
    ultimately show ?thesis
      using run True t evolves_trans [OF ev reaps_evolves [OF t(3)]] by auto
  next
    case False
    have "task_inv ?u" using Iv unfolding if_not_P [OF False] .
    then show ?thesis using run ev gone unfolding if_not_P [OF False] by (intro exI [of _ ?u]) simp
  qed
qed

lemma process_terminate_inv:
  fixes s :: "'a task_state_scheme"
  assumes I: "task_inv_x {} {k} s" and p: "procs s k = Some p" "pr_threads p = []"
  shows "\<exists>t. process_terminate k s = (Inr (), t) \<and> task_inv t \<and> evolves s t \<and> threads t = threads s \<and>
     procs t = (procs s)(k \<mapsto> p\<lparr>pr_status := (if exited p then pr_status p else PS_Exited 0)\<rparr>) \<and>
     (\<forall>x i. jobs t x = Some i \<longrightarrow> k \<notin> set (jb_processes i))"
proof -
  let ?p = "p\<lparr>pr_status := (if exited p then pr_status p else PS_Exited 0)\<rparr>"
  let ?u = "put_proc k ?p s"
  have ex: "exited ?p" by (auto simp: exited_def)
  have Iu: "task_inv_x {} {k} ?u"
    by (rule put_proc_inv [OF I p(1)]) (use ex p(2) in auto)
  obtain j where j: "jobs s (pr_job p) = Some j" by (rule job_of [OF I p(1)])
  have ev: "evolves s ?u" by (rule put_proc_evolves [OF p(1)]) (use ex in \<open>simp add: proc_evolves_def\<close>)
  obtain t where t: "job_remove_process (pr_job p) k ?u = (Inr (), t)" "task_inv t" "evolves ?u t"
    "procs t = procs ?u" "threads t = threads ?u" "\<forall>x i. jobs t x = Some i \<longrightarrow> k \<notin> set (jb_processes i)"
    using job_remove_process_inv [OF Iu, of ?p j] ex j by auto
  have "process_terminate k s = job_remove_process (pr_job p) k ?u"
    using p(1) by (auto simp: process_terminate_def with_proc_def exited_def Let_def split: proc_status.splits)
  then show ?thesis using t evolves_trans [OF ev t(3)] by auto
qed

lemma clear_handles_inv:
  fixes s :: "'a task_state_scheme"
  assumes I: "task_inv_x X Y s" and p: "procs s k = Some p" "exited p \<Longrightarrow> pr_threads p = [] \<Longrightarrow> k \<in> Y"
  shows "clear_handles k s = (Inr (), put_proc k (p\<lparr>pr_handles := Map.empty\<rparr>) s)"
    "task_inv_x X Y (put_proc k (p\<lparr>pr_handles := Map.empty\<rparr>) s)"
    "evolves s (put_proc k (p\<lparr>pr_handles := Map.empty\<rparr>) s)"
proof -
  show "clear_handles k s = (Inr (), put_proc k (p\<lparr>pr_handles := Map.empty\<rparr>) s)"
    using p(1) by (simp add: clear_handles_def with_proc_def)
  have "distinct (pr_threads p)" using task_invD(2) [OF I p(1)] by (simp add: proc_ok_def)
  then show "task_inv_x X Y (put_proc k (p\<lparr>pr_handles := Map.empty\<rparr>) s)"
    by (intro put_proc_inv [OF I p(1)]) (use p(2) in \<open>simp_all add: exited_def\<close>)
  show "evolves s (put_proc k (p\<lparr>pr_handles := Map.empty\<rparr>) s)"
    by (rule put_proc_evolves [OF p(1)]) (simp add: proc_evolves_def exited_def)
qed

text \<open>Killing the threads of a process succeeds and makes each of them dying.\<close>

definition doomed :: "'a task_state_scheme \<Rightarrow> koid \<Rightarrow> bool" where
  "doomed s t \<longleftrightarrow> (\<exists>th. threads s t = Some th \<and>
     (th_state th = TS_Dead \<or> th_state th = TS_Dying \<and> th_killed th))"

lemma thread_kill_ok:
  fixes s :: "'a task_state_scheme"
  assumes "threads s k = Some th"
  shows "\<exists>t. thread_kill k s = (Inr (), t) \<and> threads_only s t \<and> doomed t k \<and> (\<forall>x. doomed s x \<longrightarrow> doomed t x)"
  using assms
  by (auto simp: thread_kill_def thread_stop_def with_thread_def Let_def change_state_def doomed_def threads_only_def)

lemma kill_threads_ok:
  fixes s :: "'a task_state_scheme"
  assumes "\<forall>k \<in> set ks. \<exists>th. threads s k = Some th"
  shows "\<exists>t. sfor thread_kill ks s = (Inr (), t) \<and> threads_only s t \<and>
     (\<forall>k \<in> set ks. doomed t k) \<and> (\<forall>x. doomed s x \<longrightarrow> doomed t x)"
  using assms
proof (induction ks arbitrary: s)
  case Nil
  then show ?case by simp
next
  case (Cons k ks)
  then obtain th where "threads s k = Some th" by auto
  then obtain u where u: "thread_kill k s = (Inr (), u)" "threads_only s u" "doomed u k" "\<forall>x. doomed s x \<longrightarrow> doomed u x"
    using thread_kill_ok by blast
  have "\<forall>x \<in> set ks. \<exists>th. threads u x = Some th"
  proof
    fix x assume "x \<in> set ks"
    then obtain th where "threads s x = Some th" using Cons.prems by auto
    moreover have "map_option th_proc (threads u x) = map_option th_proc (threads s x)"
      using u(2) unfolding threads_only_def by blast
    ultimately show "\<exists>th. threads u x = Some th" by auto
  qed
  then obtain t where t: "sfor thread_kill ks u = (Inr (), t)" "threads_only u t" "\<forall>k \<in> set ks. doomed t k"
    "\<forall>x. doomed u x \<longrightarrow> doomed t x"
    using Cons.IH [of u] by blast
  then show ?case using u threads_only_trans [OF u(2) t(2)] by (intro exI [of _ t]) (auto simp: sbind_def)
qed

lemma process_exit_inv:
  fixes s :: "'a task_state_scheme"
  assumes I: "task_inv s" and p: "procs s k = Some p"
  shows "\<exists>t. process_exit c k s = (Inr (), t) \<and> task_inv t \<and> evolves s t \<and>
     (\<not> exited p \<longrightarrow> (\<exists>p'. procs t k = Some p' \<and> pr_status p' = PS_Exited c \<and> pr_handles p' = Map.empty \<and>
        (\<forall>x \<in> set (pr_threads p). doomed t x) \<and>
        (pr_threads p = [] \<longrightarrow> (\<forall>x i. jobs t x = Some i \<longrightarrow> k \<notin> set (jb_processes i)))))"
proof (cases "exited p")
  case True
  then show ?thesis using p I by (auto simp: process_exit_def with_proc_def exited_def)
next
  case nex: False
  let ?p = "p\<lparr>pr_status := PS_Exited c\<rparr>"
  let ?u = "put_proc k ?p s"
  have P: "distinct (pr_threads p)" "\<forall>x \<in> set (pr_threads p). \<exists>th. threads s x = Some th"
    using task_invD(2) [OF I p] by (auto simp: proc_ok_def)
  have run: "process_exit c k s =
     (if pr_threads p = [] then sbind (clear_handles k) (\<lambda>_. process_terminate k) ?u
      else sbind (sfor thread_kill (pr_threads p)) (\<lambda>_. clear_handles k) ?u)"
    using p nex by (auto simp: process_exit_def with_proc_def exited_def Let_def split: proc_status.splits)
  have ex: "exited ?p" by (simp add: exited_def)
  have ev: "evolves s ?u" by (rule put_proc_evolves [OF p]) (simp add: proc_evolves_def exited_def)
  show ?thesis
  proof (cases "pr_threads p = []")
    case True
    have Iu: "task_inv_x {} {k} ?u"
      by (rule put_proc_inv [OF I p]) (use ex P in auto)
    let ?p2 = "?p\<lparr>pr_handles := Map.empty\<rparr>"
    let ?w = "put_proc k ?p2 ?u"
    have pu: "procs ?u k = Some ?p" by simp
    note cl = clear_handles_inv [OF Iu pu, simplified]
    have pw: "procs ?w k = Some ?p2" "pr_threads ?p2 = []" using True by simp_all
    obtain t where t: "process_terminate k ?w = (Inr (), t)" "task_inv t" "evolves ?w t"
      "procs t = (procs ?w)(k \<mapsto> ?p2\<lparr>pr_status := (if exited ?p2 then pr_status ?p2 else PS_Exited 0)\<rparr>)"
      "\<forall>x i. jobs t x = Some i \<longrightarrow> k \<notin> set (jb_processes i)"
      using process_terminate_inv [OF cl(2) pw] by blast
    have "process_exit c k s = (Inr (), t)"
      using run True cl(1) t(1) by (simp add: sbind_def)
    moreover have "evolves s t" by (rule evolves_trans [OF ev evolves_trans [OF cl(3) t(3)]])
    moreover have "exited ?p2" by (simp add: exited_def)
    ultimately show ?thesis using t True by auto
  next
    case False
    have Iu: "task_inv ?u"
      by (rule put_proc_inv [OF I p]) (use ex P False in auto)
    have tu: "\<forall>x \<in> set (pr_threads p). \<exists>th. threads ?u x = Some th" using P(2) by simp
    obtain w where w: "sfor thread_kill (pr_threads p) ?u = (Inr (), w)" "threads_only ?u w"
      "\<forall>x \<in> set (pr_threads p). doomed w x"
      using kill_threads_ok [OF tu] by blast
    have Iw: "task_inv w" using threads_only_inv [OF w(2)] Iu by blast
    have pw: "procs w k = Some ?p" using w(2) by (simp add: threads_only_def)
    have ne: "exited ?p \<Longrightarrow> pr_threads ?p = [] \<Longrightarrow> k \<in> {}" using False by simp
    note cl = clear_handles_inv [OF Iw pw ne]
    let ?t = "put_proc k (?p\<lparr>pr_handles := Map.empty\<rparr>) w"
    have "process_exit c k s = (Inr (), ?t)"
      using run False w(1) cl(1) by (simp add: sbind_def)
    moreover have "evolves s ?t"
      by (rule evolves_trans [OF ev evolves_trans [OF threads_only_evolves [OF w(2)] cl(3)]])
    moreover have "doomed ?t x" if "x \<in> set (pr_threads p)" for x
      using w(3) that by (simp add: doomed_def)
    ultimately show ?thesis using cl(2) False by auto
  qed
qed

end
