(* ===== verification/Task_Ops.thy ===== *)
theory Task_Ops
  imports Task_Inv
begin

text \<open>
  Every operation on jobs, processes and threads keeps the invariant of the tree of tasks, the kill
  of a whole subtree (in \<open>Job_Kill\<close>) excepted.
\<close>

subsection \<open>Growing the tree\<close>

lemma task_inv_grow:
  fixes s t :: "'a task_state_scheme"
  assumes I: "task_inv_x X Y s" and "jobs t = jobs s" "procs t = procs s" "threads t = threads s"
    and le: "next_koid s \<le> next_koid t"
  shows "task_inv_x X Y t"
proof -
  have lt: "k < next_koid t" if "k < next_koid s" for k using that le by simp
  have "child_ok X t x c = child_ok X s x c" "member_ok Y t x c = member_ok Y s x c" for x c
    using assms(2-4) by (simp_all add: child_ok_def member_ok_def)
  then have "job_ok X Y t k j" if "jobs s k = Some j" for k j
    using task_invD(1) [OF I that] assms(2) lt [of k] unfolding job_ok_def by simp
  moreover have "proc_ok t k p" if "procs s k = Some p" for k p
    using task_invD(2) [OF I that] assms(2-4) lt [of k] unfolding proc_ok_def by simp
  ultimately show ?thesis
    using task_invD(3) [OF I] assms(2-4) lt unfolding task_inv_x_def by auto
qed

lemma add_job_inv:
  fixes s :: "'a task_state_scheme"
  assumes I: "task_inv s" and c: "jobs s c = None" "c < next_koid s"
    and cj: "jb_children cj = []" "jb_processes cj = []" "\<not> jb_killed cj"
    and par: "jb_parent cj = Some k" "k < c" and j: "jobs s k = Some j"
  shows "task_inv (put_job k (j\<lparr>jb_children := jb_children j @ [c]\<rparr>) (put_job c cj s))"
proof -
  let ?j = "j\<lparr>jb_children := jb_children j @ [c]\<rparr>"
  let ?t = "put_job k ?j (put_job c cj s)"
  have kc: "k \<noteq> c" using par(2) by simp
  have fresh: "c \<notin> set (jb_children i)" if "jobs s x = Some i" for x i
    using listed_child [OF I that] c(1) by (metis option.distinct(1))
  have kid: "child_ok {} ?t x y" if "child_ok {} s x y" for x y
    using that c(1) j by (auto simp: child_ok_def job_vacant_def)
  have mem: "member_ok {} ?t x q = member_ok {} s x q" for x q by (simp add: member_ok_def)
  have up: "p < x \<and> (\<exists>pj. jobs ?t p = Some pj \<and> (\<not> b \<longrightarrow> x \<in> set (jb_children pj) \<union> {}))"
    if "p < x" "\<exists>pj. jobs s p = Some pj \<and> (\<not> b \<longrightarrow> x \<in> set (jb_children pj) \<union> {})" for p x b
    using that c(1) j kc by (cases "p = k") auto
  have jok: "job_ok {} {} ?t x i" if x: "jobs ?t x = Some i" for x i
  proof -
    consider "x = c" "i = cj" | "x = k" "i = ?j" | "x \<noteq> c" "x \<noteq> k" "jobs s x = Some i"
      using x kc by (auto split: if_splits)
    then show ?thesis
    proof cases
      case 1
      then show ?thesis using c cj par kc by (auto simp: job_ok_def)
    next
      case 2
      have "child_ok {} ?t k c" using par(1) cj(3) kc by (simp add: child_ok_def)
      then show ?thesis
        using 2 task_invD(1) [OF I j] fresh [OF j] kid up unfolding job_ok_def mem by auto
    next
      case 3
      then show ?thesis using task_invD(1) [OF I 3(3)] kid up unfolding job_ok_def mem by auto
    qed
  qed
  have "proc_ok ?t q p" if "procs s q = Some p" for q p
    using task_invD(2) [OF I that] c(1) j by (auto simp: proc_ok_def)
  then show ?thesis using jok task_invD(3) [OF I] unfolding task_inv_x_def by simp
qed

lemma add_root_inv:
  fixes s :: "'a task_state_scheme"
  assumes I: "task_inv s" and c: "jobs s c = None" "c < next_koid s"
    and cj: "jb_children cj = []" "jb_processes cj = []" "jb_parent cj = None"
  shows "task_inv (put_job c cj s)"
proof -
  let ?t = "put_job c cj s"
  have kid: "child_ok {} ?t x y" if "child_ok {} s x y" for x y
    using that c(1) by (auto simp: child_ok_def)
  have mem: "member_ok {} ?t x q = member_ok {} s x q" for x q by (simp add: member_ok_def)
  have up: "p < x \<and> (\<exists>pj. jobs ?t p = Some pj \<and> (\<not> b \<longrightarrow> x \<in> set (jb_children pj) \<union> {}))"
    if "p < x" "\<exists>pj. jobs s p = Some pj \<and> (\<not> b \<longrightarrow> x \<in> set (jb_children pj) \<union> {})" for p x b
    using that c(1) by (cases "p = c") auto
  have "job_ok {} {} ?t x i" if x: "jobs ?t x = Some i" for x i
  proof (cases "x = c")
    case True
    then show ?thesis using x c cj by (auto simp: job_ok_def)
  next
    case False
    then have "jobs s x = Some i" using x by simp
    then show ?thesis using task_invD(1) [OF I, of x i] kid up unfolding job_ok_def mem by auto
  qed
  moreover have "proc_ok ?t q p" if "procs s q = Some p" for q p
    using task_invD(2) [OF I that] c(1) by (auto simp: proc_ok_def)
  ultimately show ?thesis using task_invD(3) [OF I] unfolding task_inv_x_def by simp
qed

lemma add_process_inv:
  fixes s :: "'a task_state_scheme"
  assumes I: "task_inv s" and q: "procs s q = None" "q < next_koid s"
    and p: "pr_threads p = []" "\<not> exited p" "pr_job p = k" and j: "jobs s k = Some j"
  shows "task_inv (put_job k (j\<lparr>jb_processes := jb_processes j @ [q]\<rparr>) (put_proc q p s))"
proof -
  let ?j = "j\<lparr>jb_processes := jb_processes j @ [q]\<rparr>"
  let ?t = "put_job k ?j (put_proc q p s)"
  have fresh: "q \<notin> set (jb_processes i)" if "jobs s x = Some i" for x i
    using listed_process [OF I that] q(1) by (metis option.distinct(1))
  have mem: "member_ok {} ?t x y" if "member_ok {} s x y" for x y
    using that q(1) by (auto simp: member_ok_def)
  have kid: "child_ok {} ?t x y" if "child_ok {} s x y" for x y
    using that j by (auto simp: child_ok_def job_vacant_def)
  have up: "p < x \<and> (\<exists>pj. jobs ?t p = Some pj \<and> (\<not> b \<longrightarrow> x \<in> set (jb_children pj) \<union> {}))"
    if "p < x" "\<exists>pj. jobs s p = Some pj \<and> (\<not> b \<longrightarrow> x \<in> set (jb_children pj) \<union> {})" for p x b
    using that j by (cases "p = k") auto
  have jok: "job_ok {} {} ?t x i" if x: "jobs ?t x = Some i" for x i
  proof (cases "x = k")
    case True
    have "member_ok {} ?t k q" using p by (simp add: member_ok_def)
    then show ?thesis
      using True x task_invD(1) [OF I j] fresh [OF j] mem kid up unfolding job_ok_def by auto
  next
    case False
    then have "jobs s x = Some i" using x by simp
    then show ?thesis using task_invD(1) [OF I, of x i] mem kid up unfolding job_ok_def by auto
  qed
  have "proc_ok ?t y pr" if "procs ?t y = Some pr" for y pr
  proof (cases "y = q")
    case True
    then show ?thesis using that q p by (auto simp: proc_ok_def)
  next
    case False
    then show ?thesis using that task_invD(2) [OF I, of y pr] j by (auto simp: proc_ok_def)
  qed
  then show ?thesis using jok task_invD(3) [OF I] unfolding task_inv_x_def by simp
qed

subsection \<open>The operations keep the invariant\<close>

lemma task_inv_koid:
  fixes s :: "'a task_state_scheme"
  assumes "task_inv s" and "next_koid s \<noteq> - 1"
  shows "task_inv (s\<lparr>next_koid := next_koid s + 1\<rparr>)" "next_koid s < next_koid s + 1"
    "jobs s (next_koid s) = None" "procs s (next_koid s) = None" "threads s (next_koid s) = None"
proof -
  show lt: "next_koid s < next_koid s + 1" using koid_step [OF assms(2)] by simp
  show "task_inv (s\<lparr>next_koid := next_koid s + 1\<rparr>)"
    by (rule task_inv_grow [OF assms(1)]) (use lt in auto)
  show "jobs s (next_koid s) = None" "procs s (next_koid s) = None" "threads s (next_koid s) = None"
    using task_invD [OF assms(1), of "next_koid s"] unfolding job_ok_def proc_ok_def
    by (meson not_None_eq order_less_irrefl)+
qed

lemma job_root_inv:
  fixes s :: "'a task_state_scheme"
  assumes "task_inv s" and "next_koid s \<noteq> - 1"
  shows "task_inv (snd (job_root s))"
  using task_inv_koid [OF assms] by (auto simp: job_root_def kobject_base_new_def new_koid_def Let_def intro: add_root_inv)

lemma job_create_child_inv:
  fixes s :: "'a task_state_scheme"
  assumes I: "task_inv s" and n: "next_koid s \<noteq> - 1"
  shows "task_inv (snd (job_create_child k s))"
proof (cases "jobs s k")
  case None
  then show ?thesis using I by (simp add: job_create_child_def with_job_def)
next
  case (Some j)
  have "k < next_koid s" using task_invD(1) [OF I Some] by (simp add: job_ok_def)
  then show ?thesis
    using I Some task_inv_koid [OF I n]
    by (auto simp: job_create_child_def with_job_def kobject_base_new_def new_koid_def Let_def intro!: add_job_inv)
qed

lemma put_job_fields_inv:
  fixes s :: "'a task_state_scheme"
  assumes I: "task_inv_x X Y s" and j: "jobs s k = Some j"
    and same: "jb_parent j' = jb_parent j" "jb_children j' = jb_children j"
      "jb_processes j' = jb_processes j" "jb_killed j' = jb_killed j"
  shows "task_inv_x X Y (put_job k j' s)"
proof -
  let ?t = "put_job k j' s"
  have kid: "child_ok X ?t x c = child_ok X s x c" for x c
    using j same by (auto simp: child_ok_def job_vacant_def)
  have mem: "member_ok Y ?t x q = member_ok Y s x q" for x q by (simp add: member_ok_def)
  have up: "(\<exists>pj. jobs ?t p = Some pj \<and> (b \<longrightarrow> x \<in> set (jb_children pj) \<union> X)) \<longleftrightarrow>
     (\<exists>pj. jobs s p = Some pj \<and> (b \<longrightarrow> x \<in> set (jb_children pj) \<union> X))" for p x b
    using j same by auto
  have "job_ok X Y ?t x i" if x: "jobs ?t x = Some i" for x i
  proof (cases "x = k")
    case True
    then show ?thesis using x task_invD(1) [OF I j] same unfolding job_ok_def kid mem up by auto
  next
    case False
    then show ?thesis using x task_invD(1) [OF I, of x i] unfolding job_ok_def kid mem up by auto
  qed
  moreover have "proc_ok ?t q p" if "procs s q = Some p" for q p
    using task_invD(2) [OF I that] j same by (auto simp: proc_ok_def)
  ultimately show ?thesis using task_invD(3) [OF I] unfolding task_inv_x_def by simp
qed

lemma set_policy_inv:
  fixes s :: "'a task_state_scheme"
  assumes I: "task_inv s"
  shows "task_inv (snd (set_policy_basic k opt bs s))"
  using put_job_fields_inv [OF I] I
  by (auto simp: set_policy_basic_def with_job_def split_beta split: option.split)

lemma on_table_inv:
  fixes s :: "'a task_state_scheme"
  assumes I: "task_inv_x X Y s"
    and f: "\<And>p. pr_job (snd (f p)) = pr_job p" "\<And>p. pr_status (snd (f p)) = pr_status p"
      "\<And>p. pr_threads (snd (f p)) = pr_threads p"
  shows "task_inv_x X Y (snd (on_table k f s))"
proof (cases "procs s k")
  case None
  then show ?thesis using I by (simp add: on_table_def with_proc_def)
next
  case (Some p)
  let ?t = "put_proc k (snd (f p)) s"
  have ex: "exited (snd (f p)) = exited p" by (simp add: exited_def f)
  have "member_ok Y ?t x q = member_ok Y s x q" for x q
    using Some ex f by (auto simp: member_ok_def)
  moreover have "child_ok X ?t x c = child_ok X s x c" for x c by (simp add: child_ok_def)
  ultimately have "job_ok X Y ?t x j = job_ok X Y s x j" for x j by (simp add: job_ok_def)
  moreover have "proc_ok ?t q pr" if q: "procs ?t q = Some pr" for q pr
  proof (cases "q = k")
    case True
    then have pr: "pr = snd (f p)" using q by simp
    show ?thesis using task_invD(2) [OF I Some] True ex f unfolding pr proc_ok_def by simp
  next
    case False
    then have "procs s q = Some pr" using q by simp
    then show ?thesis using task_invD(2) [OF I, of q pr] by (simp add: proc_ok_def)
  qed
  ultimately have "task_inv_x X Y ?t" using task_invD(1,3) [OF I] unfolding task_inv_x_def by simp
  then show ?thesis using Some by (simp add: on_table_def with_proc_def split_beta)
qed

lemma table_fields [simp]:
  "pr_job (snd (table_add h p)) = pr_job p" "pr_status (snd (table_add h p)) = pr_status p"
  "pr_threads (snd (table_add h p)) = pr_threads p"
  "pr_job (snd (table_remove v p)) = pr_job p" "pr_status (snd (table_remove v p)) = pr_status p"
  "pr_threads (snd (table_remove v p)) = pr_threads p"
  by (simp_all add: table_add_def table_remove_def Let_def split: option.split)

lemma table_all_fields [simp]:
  "pr_job (snd (table_add_all hs p)) = pr_job p" "pr_status (snd (table_add_all hs p)) = pr_status p"
  "pr_threads (snd (table_add_all hs p)) = pr_threads p"
proof -
  have "pr_job (snd (table_add_all hs p)) = pr_job p \<and> pr_status (snd (table_add_all hs p)) = pr_status p \<and>
     pr_threads (snd (table_add_all hs p)) = pr_threads p"
  proof (induction hs arbitrary: p)
    case (Cons h hs)
    obtain r u where u: "table_add h p = (r, u)" by fastforce
    obtain r' u' where u': "table_add_all hs u = (r', u')" by fastforce
    show ?case
      using Cons [of u] table_fields(1-3) [of h p] u u'
      by (cases r; cases r') simp_all
  qed simp
  then show "pr_job (snd (table_add_all hs p)) = pr_job p" "pr_status (snd (table_add_all hs p)) = pr_status p"
    "pr_threads (snd (table_add_all hs p)) = pr_threads p" by blast+
qed

lemma table_remove_all_fields [simp]:
  "pr_job (snd (table_remove_all vs p)) = pr_job p" "pr_status (snd (table_remove_all vs p)) = pr_status p"
  "pr_threads (snd (table_remove_all vs p)) = pr_threads p"
proof -
  have "pr_job (snd (table_remove_all vs p)) = pr_job p \<and> pr_status (snd (table_remove_all vs p)) = pr_status p \<and>
     pr_threads (snd (table_remove_all vs p)) = pr_threads p"
  proof (induction vs arbitrary: p)
    case (Cons v vs)
    obtain r u where u: "table_remove v p = (r, u)" by fastforce
    obtain r' u' where u': "table_remove_all vs u = (r', u')" by fastforce
    show ?case
      using Cons [of u] table_fields(4-6) [of v p] u u'
      by (cases r; cases r') simp_all
  qed simp
  then show "pr_job (snd (table_remove_all vs p)) = pr_job p" "pr_status (snd (table_remove_all vs p)) = pr_status p"
    "pr_threads (snd (table_remove_all vs p)) = pr_threads p" by blast+
qed

lemma table_ops_inv:
  fixes s :: "'a task_state_scheme"
  assumes "task_inv_x X Y s"
  shows "task_inv_x X Y (snd (process_add_handle k h s))" "task_inv_x X Y (snd (process_add_handles k hs s))"
    "task_inv_x X Y (snd (process_remove_handle k v s))" "task_inv_x X Y (snd (process_remove_handles k vs s))"
    "task_inv_x X Y (snd (remove_object ot k v s))"
  unfolding process_add_handle_def process_add_handles_def process_remove_handle_def process_remove_handles_def
    remove_object_def
  by (auto intro!: on_table_inv sbind_keeps [where P = "task_inv_x X Y"] assms)

lemma new_root_frame:
  fixes s :: "'a task_state_scheme"
  assumes "new_root s = (r, t)"
  shows "jobs t = jobs s" "procs t = procs s" "threads t = threads s"
    "next_koid t = next_koid s \<or> next_koid t = next_koid s + 1"
  using assms
  by (auto simp: new_root_def Let_def new_koid_def put_vmar_def split: sum.splits)

lemma process_create_inv:
  fixes s :: "'a task_state_scheme"
  assumes I: "task_inv s" and n: "next_koid s \<noteq> - 1" "next_koid s + 1 \<noteq> - 1"
  shows "task_inv (snd (process_create j nm s))"
proof (cases "jobs s j")
  case None
  then show ?thesis using I by (simp add: process_create_def with_job_def)
next
  case (Some jb)
  let ?k = "next_koid s"
  let ?s1 = "s\<lparr>next_koid := ?k + 1\<rparr>"
  note F = task_inv_koid [OF I n(1)]
  obtain r s2 where r: "new_root ?s1 = (r, s2)" by fastforce
  note R = new_root_frame [OF r]
  have le: "next_koid ?s1 \<le> next_koid s2" "?k < next_koid s2"
    using R(4) koid_step [OF n(2), of "?k + 1"] koid_step [OF n(2), of ?k] F(2)
    by (auto simp: order_less_imp_le)
  have I2: "task_inv s2" by (rule task_inv_grow [OF F(1)]) (use R le in auto)
  have nm: "kobject_base_with_name nm s = (\<lparr>base_id = ?k, base_name = nm\<rparr>, ?s1)"
    by (simp add: kobject_base_with_name_def new_koid_def)
  show ?thesis
  proof (cases r)
    case (Inl f)
    then show ?thesis using Some r I2 by (simp add: process_create_def with_job_def nm Let_def)
  next
    case (Inr v)
    let ?p = "\<lparr>pr_base = \<lparr>base_id = ?k, base_name = nm\<rparr>, pr_job = j,
                pr_policy = policy_merge (jb_policy jb) (jb_parent_policy jb), pr_vmar = v,
                pr_max_handle_id = 0, pr_status = PS_Init, pr_handles = Map.empty, pr_threads = []\<rparr>"
    have "procs s2 ?k = None" using R F(4) by simp
    moreover have "jobs s2 j = Some jb" using R Some by simp
    ultimately have "task_inv (put_job j (jb\<lparr>jb_processes := jb_processes jb @ [?k]\<rparr>) (put_proc ?k ?p s2))"
      using le by (intro add_process_inv I2) (simp_all add: exited_def)
    moreover have "task_inv (put_proc ?k ?p s2\<lparr>procs := (procs (put_proc ?k ?p s2))(?k := None),
        vmars := (vmars (put_proc ?k ?p s2))(v := None)\<rparr>)"
      by (rule task_inv_grow [OF I2]) (use R F(4) in auto)
    ultimately show ?thesis
      using Some Inr r R by (simp add: process_create_def with_job_def nm Let_def job_add_process_def split: if_splits)
  qed
qed

lemma put_thread_inv:
  fixes s :: "'a task_state_scheme"
  assumes I: "task_inv_x X Y s" and "threads s t = None" and "t < next_koid s"
  shows "task_inv_x X Y (put_thread t th s)"
proof -
  have "proc_ok (put_thread t th s) k p" if "procs s k = Some p" for k p
    using task_invD(2) [OF I that] assms(2) unfolding proc_ok_def by fastforce
  moreover have "job_ok X Y (put_thread t th s) k j = job_ok X Y s k j" for k j
    by (simp add: job_ok_def child_ok_def member_ok_def)
  ultimately show ?thesis using task_invD(1,3) [OF I] assms(3) unfolding task_inv_x_def by auto
qed

lemma put_threads_inv:
  fixes s :: "'a task_state_scheme"
  assumes I: "task_inv_x X Y s" and p: "procs s k = Some p"
    and same: "pr_job p' = pr_job p" "pr_status p' = pr_status p"
    and th: "distinct (pr_threads p')" "\<forall>t \<in> set (pr_threads p'). \<exists>th. threads s t = Some th \<and> th_proc th = k"
    and Y': "Y \<subseteq> Y'" "exited p' \<Longrightarrow> pr_threads p' = [] \<Longrightarrow> k \<in> Y'"
  shows "task_inv_x X Y' (put_proc k p' s)"
proof -
  have ex: "exited p' = exited p" using same by (simp add: exited_def)
  have "member_ok Y' (put_proc k p' s) x q" if "member_ok Y s x q" for x q
    using that p same Y' by (auto simp: member_ok_def)
  moreover have "child_ok X (put_proc k p' s) x c = child_ok X s x c" for x c by (simp add: child_ok_def)
  ultimately have "job_ok X Y' (put_proc k p' s) x j" if "jobs s x = Some j" for x j
    using task_invD(1) [OF I that] by (simp add: job_ok_def)
  moreover have "proc_ok (put_proc k p' s) q pr" if q: "procs (put_proc k p' s) q = Some pr" for q pr
  proof (cases "q = k")
    case True
    then have pr: "pr = p'" using q by simp
    show ?thesis using task_invD(2) [OF I p] True same th ex unfolding pr proc_ok_def by simp
  next
    case False
    then show ?thesis using task_invD(2) [OF I, of q pr] q by (simp add: proc_ok_def)
  qed
  ultimately show ?thesis using task_invD(3) [OF I] unfolding task_inv_x_def by simp
qed

lemma thread_create_inv:
  fixes s :: "'a task_state_scheme"
  assumes I: "task_inv s" and n: "next_koid s \<noteq> - 1"
  shows "task_inv (snd (thread_create cx0 k nm s))"
proof -
  let ?t = "next_koid s"
  let ?s1 = "s\<lparr>next_koid := ?t + 1\<rparr>"
  let ?th = "thread_init \<lparr>base_id = ?t, base_name = nm\<rparr> k cx0"
  let ?u = "put_thread ?t ?th ?s1"
  note F = task_inv_koid [OF I n]
  have Iu: "task_inv ?u" by (rule put_thread_inv [OF F(1)]) (use F in simp_all)
  have drop: "task_inv (?u\<lparr>threads := (threads ?u)(?t := None)\<rparr>)"
    by (rule task_inv_grow [OF F(1)]) (use F in auto)
  have add: "task_inv (put_proc k (p\<lparr>pr_threads := pr_threads p @ [?t]\<rparr>) ?u)" if p: "procs s k = Some p" for p
  proof -
    have pu: "procs ?u k = Some p" using p by simp
    have P: "distinct (pr_threads p)" "\<forall>t \<in> set (pr_threads p). \<exists>th. threads ?u t = Some th \<and> th_proc th = k"
      using task_invD(2) [OF Iu pu] by (simp_all add: proc_ok_def)
    have "?t \<notin> set (pr_threads p)" using task_invD(2) [OF I p] F(5) by (auto simp: proc_ok_def)
    then show ?thesis
      by (intro put_threads_inv [OF Iu pu]) (use P in \<open>auto simp: thread_init_def\<close>)
  qed
  show ?thesis
    using drop add
    by (auto simp: thread_create_def kobject_base_with_name_def new_koid_def add_thread_def with_proc_def Let_def
        split: option.splits proc_status.splits)
qed

lemma remove_thread_inv:
  fixes s :: "'a task_state_scheme"
  assumes I: "task_inv s" and p: "procs s k = Some p"
  shows "\<exists>t. remove_thread k x s = (Inr (), t) \<and> task_inv t \<and> threads t = threads s \<and>
     (\<exists>p'. procs t k = Some p' \<and> pr_threads p' = filter (\<lambda>y. y \<noteq> x) (pr_threads p) \<and>
        pr_handles p' = pr_handles p \<and> pr_job p' = pr_job p \<and>
        (pr_threads p' = [] \<longrightarrow> pr_status p' = (if exited p then pr_status p else PS_Exited 0) \<and>
           (\<forall>y i. jobs t y = Some i \<longrightarrow> k \<notin> set (jb_processes i))) \<and>
        (pr_threads p' \<noteq> [] \<longrightarrow> pr_status p' = pr_status p \<and> jobs t = jobs s))"
proof -
  let ?p = "p\<lparr>pr_threads := filter (\<lambda>y. y \<noteq> x) (pr_threads p)\<rparr>"
  let ?u = "put_proc k ?p s"
  have P: "distinct (pr_threads p)" "\<forall>t \<in> set (pr_threads p). \<exists>th. threads s t = Some th \<and> th_proc th = k"
    using task_invD(2) [OF I p] by (simp_all add: proc_ok_def)
  have run: "remove_thread k x s = (if pr_threads ?p = [] then process_terminate k ?u else (Inr (), ?u))"
    using p by (simp add: remove_thread_def with_proc_def Let_def)
  have pu: "procs ?u k = Some ?p" by simp
  show ?thesis
  proof (cases "pr_threads ?p = []")
    case True
    have Iu: "task_inv_x {} {k} ?u" by (rule put_threads_inv [OF I p]) (use P in auto)
    have ex: "exited ?p = exited p" by (simp add: exited_def)
    from process_terminate_inv [OF Iu pu True] show ?thesis using run True ex by auto
  next
    case False
    have "task_inv ?u" by (rule put_threads_inv [OF I p]) (use P False in auto)
    then show ?thesis using run False by simp
  qed
qed

lemma current_thread_drop_inv:
  fixes s :: "'a task_state_scheme"
  assumes I: "task_inv s" and th: "threads s x = Some th"
  shows "task_inv (snd (current_thread_drop x s))"
proof -
  let ?u = "put_thread x (change_state TS_Dead th) s"
  have only: "threads_only s ?u" by (rule threads_only_put [OF th]) (simp add: change_state_def)
  then have Iu: "task_inv ?u" using threads_only_inv [OF only] I by blast
  have run: "current_thread_drop x s = remove_thread (th_proc th) x ?u"
    using th by (simp add: current_thread_drop_def with_thread_def)
  show ?thesis
  proof (cases "procs ?u (th_proc th)")
    case None
    then show ?thesis using run Iu by (simp add: remove_thread_def with_proc_def)
  next
    case (Some p)
    from remove_thread_inv [OF Iu Some, of x] show ?thesis using run by auto
  qed
qed

subsection \<open>Dropping, starting, suspending\<close>

lemma job_drop_inv:
  fixes s :: "'a task_state_scheme"
  assumes I: "task_inv s" and j: "jobs s k = Some j"
    and last: "\<And>c cj. jobs s c = Some cj \<Longrightarrow> jb_parent cj \<noteq> Some k" "\<And>q p. procs s q = Some p \<Longrightarrow> pr_job p \<noteq> k"
  shows "\<exists>t. job_drop k s = (Inr (), t) \<and> task_inv t \<and> jobs t k = None \<and>
     (\<forall>x i. jobs t x = Some i \<longrightarrow> k \<notin> set (jb_children i))"
proof -
  have IX: "task_inv_x {k} {} s" by (rule task_inv_mono [OF I]) auto
  have "\<exists>t. job_terminate (task_fuel s) k s = (Inr (), t) \<and> task_inv_x {k} {} t \<and> reaps s t \<and>
     (\<forall>x i. jobs t x = Some i \<longrightarrow> k \<notin> set (jb_children i))"
  proof (cases "jb_parent j")
    case None
    have "k \<notin> set (jb_children i)" if x: "jobs s x = Some i" for x i
    proof
      assume "k \<in> set (jb_children i)"
      then obtain cj where "jobs s k = Some cj" "jb_parent cj = Some x" by (rule listed_child [OF I x])
      then show False using j None by simp
    qed
    then show ?thesis using j None IX by (simp add: task_fuel_def with_job_def)
  next
    case (Some p)
    obtain pj where pj: "jobs s p = Some pj" "p < k" by (rule parent_of [OF I j Some])
    let ?fin = "jb_killed pj \<and> jb_processes pj = [] \<and> set (jb_children pj) \<subseteq> {k}"
    have IX': "task_inv_x (insert k {k}) {} s" using IX by simp
    obtain u where u: "detach_child p k s = (Inr ?fin, u)" "task_inv_x (if ?fin then insert p {k} else {k}) {} u" "reaps s u"
      using detach_child_inv [OF IX' j disjI2 pj(1) Some] by blast
    have du: "u = put_job p (pj\<lparr>jb_children := filter (\<lambda>x. x \<noteq> k) (jb_children pj)\<rparr>) s"
      using u(1) pj(1) by (simp add: detach_child_def with_job_def Let_def)
    have gone: "k \<notin> set (jb_children i)" if x: "jobs u x = Some i" for x i
    proof (cases "x = p")
      case False
      then have xs: "jobs s x = Some i" using x by (simp add: du)
      show ?thesis
      proof
        assume "k \<in> set (jb_children i)"
        then obtain cj where "jobs s k = Some cj" "jb_parent cj = Some x" by (rule listed_child [OF I xs])
        then show False using j Some False by simp
      qed
    qed (use x in \<open>auto simp: du\<close>)
    have run: "job_terminate (task_fuel s) k s = (if ?fin then job_terminate (unat (next_koid s)) p u else (Inr (), u))"
      using j Some u(1) by (simp add: task_fuel_def with_job_def sbind_def)
    show ?thesis
    proof (cases ?fin)
      case True
      obtain cs where cs: "jobs u p = Some (pj\<lparr>jb_children := cs\<rparr>)" by (rule reapsD [OF u(3) pj(1)])
      have "k < next_koid s" using task_invD(1) [OF I j] by (simp add: job_ok_def)
      then have "unat p < unat (next_koid s)" using pj(2) by (simp add: word_less_nat_alt)
      then obtain t where t: "job_terminate (unat (next_koid s)) p u = (Inr (), t)" "task_inv_x {k} {} t" "reaps u t"
        using job_terminate_inv [of p "{k}" "{}" u "pj\<lparr>jb_children := cs\<rparr>"] u(2) True cs by auto
      have "k \<notin> set (jb_children i)" if tx: "jobs t x = Some i" for x i
      proof -
        obtain i' where i': "jobs u x = Some i'" "job_evolves i' i" by (rule evolves_job_back [OF reaps_evolves [OF t(3)] tx])
        then show ?thesis using gone [OF i'(1)] by (auto simp: job_evolves_def)
      qed
      then show ?thesis using run True t reaps_trans [OF u(3) t(3)] by auto
    next
      case False
      have "task_inv_x {k} {} u" using u(2) unfolding if_not_P [OF False] .
      then show ?thesis using run u(3) gone unfolding if_not_P [OF False] by blast
    qed
  qed
  then obtain t where t: "job_terminate (task_fuel s) k s = (Inr (), t)" "task_inv_x {k} {} t" "reaps s t"
    "\<forall>x i. jobs t x = Some i \<longrightarrow> k \<notin> set (jb_children i)" by blast
  let ?t = "t\<lparr>jobs := (jobs t)(k := None)\<rparr>"
  note ev = reaps_evolves [OF t(3)]
  have orphan: "jb_parent i \<noteq> Some k" if tx: "jobs t x = Some i" for x i
  proof -
    obtain i' where "jobs s x = Some i'" "job_evolves i' i" by (rule evolves_job_back [OF ev tx])
    then show ?thesis using last(1) [of x i'] by (simp add: job_evolves_def)
  qed
  have jok: "job_ok {} {} ?t x i" if x: "jobs ?t x = Some i" for x i
  proof -
    have xt: "jobs t x = Some i" "x \<noteq> k" using x by (auto split: if_splits)
    have "child_ok {} ?t x c" if c: "c \<in> set (jb_children i)" for c
    proof -
      have ck: "c \<noteq> k" using t(4) xt(1) c by blast
      obtain cj where "jobs t c = Some cj" "jb_parent cj = Some x" "jb_killed cj \<Longrightarrow> job_vacant cj \<Longrightarrow> c \<in> {k}"
        using listed_child [OF t(2) xt(1) c] by blast
      then show ?thesis using ck by (auto simp: child_ok_def)
    qed
    moreover have "member_ok {} ?t x q = member_ok {} t x q" for q by (simp add: member_ok_def)
    moreover have "p < x \<and> (\<exists>pj. jobs ?t p = Some pj \<and> (\<not> jb_killed i \<longrightarrow> x \<in> set (jb_children pj) \<union> {}))"
      if p: "jb_parent i = Some p" for p
    proof -
      have "p \<noteq> k" using orphan [OF xt(1)] p by auto
      moreover obtain pj where "jobs t p = Some pj" "p < x" "\<not> jb_killed i \<Longrightarrow> x \<in> set (jb_children pj) \<union> {k}"
        using parent_of [OF t(2) xt(1) p] by blast
      ultimately show ?thesis using xt(2) by auto
    qed
    ultimately show ?thesis using task_invD(1) [OF t(2) xt(1)] unfolding job_ok_def by simp
  qed
  have pok: "proc_ok ?t q p" if q: "procs t q = Some p" for q p
  proof -
    have "procs s q = Some p" using q t(3) by (simp add: reaps_def)
    then have "pr_job p \<noteq> k" by (rule last(2))
    then show ?thesis using task_invD(2) [OF t(2) q] by (simp add: proc_ok_def)
  qed
  have "task_inv ?t" using jok pok task_invD(3) [OF t(2)] unfolding task_inv_x_def by simp
  moreover have "job_drop k s = (Inr (), ?t)" using t(1) by (simp add: job_drop_def sbind_def)
  ultimately show ?thesis using t(4) by auto
qed

lemma start_arg_fields:
  "pr_job (snd (start_arg a p)) = pr_job p" "pr_status (snd (start_arg a p)) = pr_status p"
  "pr_threads (snd (start_arg a p)) = pr_threads p"
  by (simp_all add: start_arg_def split: option.split)

lemma process_start_inv:
  fixes s :: "'a task_state_scheme"
  assumes I: "task_inv s"
  shows "task_inv (snd (process_start k x e st arg1 arg2 s))"
proof (cases "procs s k")
  case None
  then show ?thesis using I by (simp add: process_start_def with_proc_def)
next
  case (Some p)
  show ?thesis
  proof (cases "contains_thread x p \<and> pr_status p = PS_Init")
    case False
    then show ?thesis using Some I by (auto simp: process_start_def with_proc_def)
  next
    case True
    let ?p0 = "p\<lparr>pr_status := PS_Running\<rparr>"
    obtain r p1 where p1: "start_arg arg1 ?p0 = (r, p1)" by fastforce
    have same: "pr_job p1 = pr_job p" "pr_status p1 = PS_Running" "pr_threads p1 = pr_threads p"
    proof -
      have "pr_job p1 = pr_job ?p0 \<and> pr_status p1 = pr_status ?p0 \<and> pr_threads p1 = pr_threads ?p0"
        using p1 start_arg_fields [of arg1 ?p0] by simp
      then show "pr_job p1 = pr_job p" "pr_status p1 = PS_Running" "pr_threads p1 = pr_threads p" by simp_all
    qed
    have nex: "\<not> exited p" "\<not> exited p1" using True same by (auto simp: exited_def)
    let ?u = "put_proc k p1 s"
    have I0: "task_inv ?u"
      by (rule put_proc_inv [OF I Some])
        (use task_invD(2) [OF I Some] same nex in \<open>auto simp: proc_ok_def\<close>)
    have I1: "task_inv (snd (set_first_thread x ?u))"
      using threads_only_inv [OF thread_ops_only(12) [of ?u x]] I0 by blast
    have I2: "task_inv (snd (thread_start x e st a arg2 v))" if "task_inv v" for a and v :: "'a task_state_scheme"
      using threads_only_inv [OF thread_ops_only(1) [of v x e st a arg2]] that by blast
    show ?thesis
    proof (cases r)
      case (Inl f)
      then show ?thesis using True Some p1 I0 by (simp add: process_start_def with_proc_def)
    next
      case (Inr v)
      have "task_inv (snd (sbind (set_first_thread x) (\<lambda>_ s1.
               case thread_start x e st (ucast v) arg2 s1 of
                 (Inl f, s2) \<Rightarrow> (Inl f, if v \<noteq> INVALID_HANDLE then snd (process_remove_handle k v s2) else s2)
               | (Inr _, s2) \<Rightarrow> (Inr (), s2)) ?u))"
      proof (rule sbind_keeps [where P = task_inv])
        show "task_inv (snd (set_first_thread x ?u))" by (rule I1)
      next
        fix w and s1 :: "'a task_state_scheme"
        assume "task_inv s1"
        then have "task_inv (snd (thread_start x e st (ucast v) arg2 s1))" by (rule I2)
        then show "task_inv (snd (case thread_start x e st (ucast v) arg2 s1 of
                 (Inl f, s2) \<Rightarrow> (Inl f, if v \<noteq> INVALID_HANDLE then snd (process_remove_handle k v s2) else s2)
               | (Inr _, s2) \<Rightarrow> (Inr (), s2)))"
          using table_ops_inv(3) by (auto split: prod.splits sum.splits)
      qed
      then show ?thesis using True Some p1 Inr by (simp add: process_start_def with_proc_def)
    qed
  qed
qed

lemma process_suspend_inv:
  fixes s :: "'a task_state_scheme"
  assumes "task_inv s"
  shows "task_inv (snd (process_suspend k s))" "task_inv (snd (process_resume k s))"
proof -
  have "threads_only s (snd (sfor thread_suspend ks s))" "threads_only s (snd (sfor thread_resume ks s))" for ks
    by (rule sfor_threads_only, rule thread_ops_only)+
  then have "task_inv (snd (sfor thread_suspend ks s))" "task_inv (snd (sfor thread_resume ks s))" for ks
    using threads_only_inv assms by blast+
  then show "task_inv (snd (process_suspend k s))" "task_inv (snd (process_resume k s))"
    using assms by (simp_all add: process_suspend_def process_resume_def with_proc_def split: option.split)
qed

end
