(* ===== verification/Job_Kill.thy ===== *)
theory Job_Kill
  imports Task_Ops
begin

text \<open>
  Killing a job: with the fuel its callers pass the recursion never runs out, and it leaves no live
  job and no running process below. The closure of the killed jobs is an invariant of every
  operation, so that a kill is final.
\<close>

subsection \<open>Killed jobs have killed subtrees\<close>

definition kill_closed :: "koid set \<Rightarrow> 'a task_state_scheme \<Rightarrow> bool" where
  "kill_closed K s \<longleftrightarrow>
     (\<forall>c cj p pj. jobs s c = Some cj \<longrightarrow> jb_parent cj = Some p \<longrightarrow> jobs s p = Some pj \<longrightarrow>
        jb_killed pj \<longrightarrow> p \<notin> K \<longrightarrow> jb_killed cj) \<and>
     (\<forall>q p j. procs s q = Some p \<longrightarrow> jobs s (pr_job p) = Some j \<longrightarrow> jb_killed j \<longrightarrow> pr_job p \<notin> K \<longrightarrow> exited p)"

definition killed_map :: "'a task_state_scheme \<Rightarrow> koid \<Rightarrow> bool option" where
  "killed_map s k = map_option jb_killed (jobs s k)"

lemma killed_map_eq:
  "killed_map t = killed_map s \<Longrightarrow> jobs t k = Some j' \<Longrightarrow> jobs s k = Some j \<Longrightarrow> jb_killed j' = jb_killed j"
  by (drule fun_cong [where x = k]) (simp add: killed_map_def)

lemma kill_closed_evolves:
  fixes s t :: "'a task_state_scheme"
  assumes C: "kill_closed K s" and ev: "evolves s t" and km: "killed_map t = killed_map s"
  shows "kill_closed K t"
  unfolding kill_closed_def
proof (intro conjI allI impI)
  fix c cj p pj
  assume t: "jobs t c = Some cj" "jb_parent cj = Some p" "jobs t p = Some pj" "jb_killed pj" "p \<notin> K"
  obtain cj0 where c0: "jobs s c = Some cj0" "job_evolves cj0 cj" by (rule evolves_job_back [OF ev t(1)])
  obtain pj0 where p0: "jobs s p = Some pj0" "job_evolves pj0 pj" by (rule evolves_job_back [OF ev t(3)])
  have "jb_killed pj0" using killed_map_eq [OF km t(3) p0(1)] t(4) by simp
  moreover have "jb_parent cj0 = Some p" using c0(2) t(2) by (simp add: job_evolves_def)
  ultimately have "jb_killed cj0" using C c0(1) p0(1) t(5) unfolding kill_closed_def by blast
  then show "jb_killed cj" using c0(2) by (simp add: job_evolves_def)
next
  fix q p j
  assume t: "procs t q = Some p" "jobs t (pr_job p) = Some j" "jb_killed j" "pr_job p \<notin> K"
  obtain p0 where p0: "procs s q = Some p0" "proc_evolves p0 p" by (rule evolves_proc_back [OF ev t(1)])
  obtain j0 where j0: "jobs s (pr_job p) = Some j0" by (rule evolves_job_back [OF ev t(2)])
  have "jb_killed j0" using killed_map_eq [OF km t(2) j0] t(3) by simp
  then have "exited p0" using C p0 j0 t(4) unfolding kill_closed_def proc_evolves_def by metis
  then show "exited p" using p0(2) by (simp add: proc_evolves_def)
qed

lemma killed_map_put_job:
  "jobs s k = Some j \<Longrightarrow> jb_killed j' = jb_killed j \<Longrightarrow> killed_map (put_job k j' s) = killed_map s"
  by (auto simp: killed_map_def fun_eq_iff)

lemma killed_map_frame: "jobs t = jobs s \<Longrightarrow> killed_map t = killed_map s"
  by (simp add: killed_map_def fun_eq_iff)

lemma killed_map_put [simp]:
  "killed_map (put_proc k p s) = killed_map s" "killed_map (put_thread k th s) = killed_map s"
  by (rule killed_map_frame, simp)+

lemma killed_map_terminate:
  fixes s :: "'a task_state_scheme"
  shows "killed_map (snd (job_terminate n k s)) = killed_map s"
proof (induction n arbitrary: k s)
  case (Suc n)
  show ?case
  proof (cases "jobs s k")
    case (Some j)
    show ?thesis
    proof (cases "jb_parent j")
      case (Some p)
      have "killed_map (snd (sbind (detach_child p k) (\<lambda>fin. if fin then job_terminate n p else sret ()) s)) = killed_map s"
      proof (rule sbind_keeps [where P = "\<lambda>t. killed_map t = killed_map s"])
        show "killed_map (snd (detach_child p k s)) = killed_map s"
          by (auto simp: detach_child_def with_job_def Let_def killed_map_put_job split: option.split)
      qed (use Suc in auto)
      then show ?thesis using \<open>jobs s k = Some j\<close> Some by (simp add: with_job_def)
    qed (use Some in \<open>simp add: with_job_def\<close>)
  qed (simp add: with_job_def)
qed simp

lemma killed_map_process_terminate:
  fixes s :: "'a task_state_scheme"
  shows "killed_map (snd (process_terminate k s)) = killed_map s"
proof -
  have *: "killed_map (snd (job_remove_process j q u)) = killed_map u" for j q and u :: "'a task_state_scheme"
  proof (cases "jobs u j")
    case (Some jb)
    let ?v = "put_job j (jb\<lparr>jb_processes := filter (\<lambda>x. x \<noteq> q) (jb_processes jb)\<rparr>) u"
    have "killed_map ?v = killed_map u" by (rule killed_map_put_job [OF Some]) simp
    then show ?thesis
      using Some killed_map_terminate [of "task_fuel ?v" j ?v] by (simp add: job_remove_process_def with_job_def Let_def)
  qed (simp add: job_remove_process_def with_job_def)
  show ?thesis
    by (simp add: process_terminate_def with_proc_def Let_def * split: option.split)
qed

lemma killed_map_exit:
  fixes s :: "'a task_state_scheme"
  shows "killed_map (snd (process_exit c k s)) = killed_map s"
proof -
  let ?P = "\<lambda>t :: 'a task_state_scheme. killed_map t = killed_map s"
  have clear: "killed_map (snd (clear_handles k u)) = killed_map u" for u :: "'a task_state_scheme"
    by (simp add: clear_handles_def with_proc_def split: option.split)
  have kill: "killed_map (snd (sfor thread_kill ks u)) = killed_map u" for ks and u :: "'a task_state_scheme"
  proof -
    have "threads_only u (snd (sfor thread_kill ks u))" by (rule sfor_threads_only, rule thread_ops_only)
    then show ?thesis by (intro killed_map_frame) (simp add: threads_only_def)
  qed
  have "?P (snd (sbind (clear_handles k) (\<lambda>_. process_terminate k) u))"
    "?P (snd (sbind (sfor thread_kill ks) (\<lambda>_. clear_handles k) u))" if "?P u" for ks u
    by (rule sbind_keeps [where P = ?P]; simp add: that clear kill killed_map_process_terminate)+
  then show ?thesis
    by (auto simp: process_exit_def with_proc_def Let_def split: option.split proc_status.split)
qed

subsection \<open>The kill\<close>

lemma job_kill_inv:
  fixes s :: "'a task_state_scheme"
  assumes "task_inv s" and "kill_closed K s" and "jobs s k = Some j" and "unat (next_koid s) - unat k < n"
  shows "\<exists>t. job_kill n k s = (Inr (), t) \<and> (task_inv t \<and> kill_closed K t) \<and> evolves s t \<and>
     (\<exists>j'. jobs t k = Some j' \<and> jb_killed j')"
  using assms
proof (induction n arbitrary: k s j K)
  case 0
  then show ?case by simp
next
  case (Suc n)
  note I = Suc.prems(1) and C = Suc.prems(2) and j = Suc.prems(3)
  let ?goal = "\<lambda>t. (task_inv t \<and> kill_closed K t) \<and> evolves s t \<and> (\<exists>j'. jobs t k = Some j' \<and> jb_killed j')"
  show ?case
  proof (cases "jb_killed j")
    case True
    then show ?thesis using I C j by (simp add: with_job_def)
  next
    case alive: False
    let ?j = "j\<lparr>jb_killed := True\<rparr>"
    let ?u = "put_job k ?j s"
    have J: "distinct (jb_children j)" "distinct (jb_processes j)" "k < next_koid s"
      using task_invD(1) [OF I j] by (simp_all add: job_ok_def)
    have Iu: "task_inv_x (if job_vacant j then {k} else {}) {} ?u"
      by (rule put_job_inv [OF I j]) (use J in \<open>auto simp: job_vacant_def\<close>)
    have evu: "evolves s ?u" by (rule put_job_evolves [OF j]) (simp add: job_evolves_def)
    have Cu: "kill_closed (insert k K) ?u"
    proof -
      have "jb_killed cj" if "jobs ?u c = Some cj" "jb_parent cj = Some p" "jobs ?u p = Some pj" "jb_killed pj" "p \<notin> insert k K" for c cj p pj
        using C that j unfolding kill_closed_def by (auto split: if_splits)
      moreover have "exited p" if "procs ?u q = Some p" "jobs ?u (pr_job p) = Some i" "jb_killed i" "pr_job p \<notin> insert k K" for q p i
        using C that unfolding kill_closed_def by auto
      ultimately show ?thesis unfolding kill_closed_def by blast
    qed
    \<comment> \<open>once the children and processes of \<open>j\<close> are dealt with, \<open>k\<close> is no exception any more\<close>
    have close: "kill_closed K t" if t: "kill_closed (insert k K) t" "evolves ?u t"
      "\<forall>c \<in> set (jb_children j). \<exists>cj. jobs t c = Some cj \<and> jb_killed cj"
      "\<forall>q \<in> set (jb_processes j). \<exists>p. procs t q = Some p \<and> exited p" for t
    proof -
      have evt: "evolves s t" by (rule evolves_trans [OF evu t(2)])
      have "jb_killed cj" if c: "jobs t c = Some cj" "jb_parent cj = Some k" for c cj
      proof -
        obtain c0 where c0: "jobs s c = Some c0" "job_evolves c0 cj" by (rule evolves_job_back [OF evt c(1)])
        then have par: "jb_parent c0 = Some k" using c(2) by (simp add: job_evolves_def)
        show ?thesis
        proof (cases "jb_killed c0")
          case False
          obtain pj where "jobs s k = Some pj" "c \<in> set (jb_children pj) \<union> {}"
            using parent_of [OF I c0(1) par] False by blast
          then show ?thesis using t(3) j c(1) by auto
        qed (use c0(2) in \<open>simp add: job_evolves_def\<close>)
      qed
      moreover have "exited p" if q: "procs t q = Some p" "pr_job p = k" for q p
      proof -
        obtain p0 where p0: "procs s q = Some p0" "proc_evolves p0 p" by (rule evolves_proc_back [OF evt q(1)])
        show ?thesis
        proof (cases "exited p0")
          case False
          have "pr_job p0 = k" using p0(2) q(2) by (simp add: proc_evolves_def)
          moreover obtain jb where "jobs s (pr_job p0) = Some jb" "q \<in> set (jb_processes jb)"
            using job_of [OF I p0(1)] False by blast
          ultimately show ?thesis using t(4) j q(1) by auto
        qed (use p0(2) in \<open>simp add: proc_evolves_def\<close>)
      qed
      ultimately show ?thesis using t(1) unfolding kill_closed_def by blast
    qed
    show ?thesis
    proof (cases "job_vacant j")
      case True
      then have e: "jb_children j = []" "jb_processes j = []" by (simp_all add: job_vacant_def)
      have Iu': "task_inv_x {k} {} ?u" using Iu True by simp
      have "unat k < task_fuel ?u" using task_fuel_enough [OF Iu', of k ?j] by simp
      then obtain t where t: "job_terminate (task_fuel ?u) k ?u = (Inr (), t)" "task_inv t" "reaps ?u t"
        using job_terminate_inv [of k "{}" "{}" ?u ?j "task_fuel ?u"] Iu' by auto
      have ev: "evolves ?u t" by (rule reaps_evolves [OF t(3)])
      have "killed_map t = killed_map ?u" using killed_map_terminate [of "task_fuel ?u" k ?u] t(1) by simp
      then have "kill_closed (insert k K) t" by (rule kill_closed_evolves [OF Cu ev])
      then have "kill_closed K t" using close [of t] ev e by simp
      moreover obtain j' where "jobs t k = Some j'" "job_evolves ?j j'" by (rule evolves_job [OF ev, of k ?j]) simp
      ultimately have "?goal t" using t(2) evolves_trans [OF evu ev] by (auto simp: job_evolves_def)
      then show ?thesis using t(1) j alive e by (intro exI [of _ t]) (simp add: with_job_def Let_def)
    next
      case False
      let ?P = "\<lambda>v. task_inv v \<and> kill_closed (insert k K) v \<and> evolves ?u v"
      let ?kill = "\<lambda>c v. if jobs v c = None then (Inr (), v) else job_kill n c v"
      have P0: "?P ?u" using Iu Cu False by simp
      have "\<exists>v. sfor ?kill (jb_children j) ?u = (Inr (), v) \<and> ?P v \<and> evolves ?u v \<and>
        (\<forall>c \<in> set (jb_children j). \<exists>cj. jobs v c = Some cj \<and> jb_killed cj)"
      proof (rule sfor_collect [where P = ?P and R = evolves and Q = "\<lambda>c v. \<exists>cj. jobs v c = Some cj \<and> jb_killed cj", OF P0])
        fix c and v :: "'a task_state_scheme"
        assume c: "c \<in> set (jb_children j)" and v: "?P v"
        obtain cj where cj: "jobs s c = Some cj" "k < c" using listed_child [OF I j c] by blast
        then have "jobs ?u c = Some cj" by auto
        then obtain cv where cv: "jobs v c = Some cv" using v evolves_job [of ?u v c cj] by blast
        have nv: "next_koid v = next_koid s" using v by (simp add: evolves_def)
        have "unat k < unat c" "unat k < unat (next_koid s)" using cj(2) J(3) by (simp_all add: word_less_nat_alt)
        then have "unat (next_koid s) - unat c < unat (next_koid s) - unat k" by (rule diff_less_mono2)
        then have "unat (next_koid v) - unat c < n" unfolding nv using Suc.prems(4) by simp
        then obtain w where "job_kill n c v = (Inr (), w)" "task_inv w \<and> kill_closed (insert k K) w" "evolves v w"
          "\<exists>j'. jobs w c = Some j' \<and> jb_killed j'"
          using Suc.IH [of v "insert k K" c cv] v cv by blast
        then show "\<exists>w. ?kill c v = (Inr (), w) \<and> ?P w \<and> evolves v w \<and> (\<exists>cj. jobs w c = Some cj \<and> jb_killed cj)"
          using v cv evolves_trans [of ?u v w] by (intro exI [of _ w]) simp
      next
        fix c and v w :: "'a task_state_scheme"
        assume "evolves v w" "\<exists>cj. jobs v c = Some cj \<and> jb_killed cj"
        then show "\<exists>cj. jobs w c = Some cj \<and> jb_killed cj" using evolves_job [of v w c] unfolding job_evolves_def by blast
      qed (auto intro: evolves_trans)
      then obtain v where v: "sfor ?kill (jb_children j) ?u = (Inr (), v)" "?P v"
        "\<forall>c \<in> set (jb_children j). \<exists>cj. jobs v c = Some cj \<and> jb_killed cj" by blast
      have "\<exists>t. sfor process_kill (jb_processes j) v = (Inr (), t) \<and> ?P t \<and> evolves v t \<and>
        (\<forall>q \<in> set (jb_processes j). \<exists>p. procs t q = Some p \<and> exited p)"
      proof (rule sfor_collect [where P = ?P and R = evolves and Q = "\<lambda>q t. \<exists>p. procs t q = Some p \<and> exited p", OF v(2)])
        fix q and w :: "'a task_state_scheme"
        assume q: "q \<in> set (jb_processes j)" and w: "?P w"
        obtain p where "procs s q = Some p" using listed_process [OF I j q] by blast
        then have "procs ?u q = Some p" by simp
        then obtain pw where pw: "procs w q = Some pw" using w evolves_proc [of ?u w q p] by blast
        obtain x where x: "process_kill q w = (Inr (), x)" "task_inv x" "evolves w x"
          "\<not> exited pw \<longrightarrow> (\<exists>p'. procs x q = Some p' \<and> pr_status p' = PS_Exited TASK_RETCODE_SYSCALL_KILL)"
          using process_exit_inv [of w q pw TASK_RETCODE_SYSCALL_KILL] w pw unfolding process_kill_def by blast
        have "killed_map x = killed_map w" using killed_map_exit [of TASK_RETCODE_SYSCALL_KILL q w] x(1)
          by (simp add: process_kill_def)
        then have "kill_closed (insert k K) x" using kill_closed_evolves [of "insert k K" w x] w x(3) by blast
        moreover have "\<exists>p. procs x q = Some p \<and> exited p"
          using x(4) evolves_proc [OF x(3) pw] unfolding exited_def proc_evolves_def by metis
        ultimately show "\<exists>x. process_kill q w = (Inr (), x) \<and> ?P x \<and> evolves w x \<and> (\<exists>p. procs x q = Some p \<and> exited p)"
          using x(1-3) w evolves_trans [of ?u w x] by (intro exI [of _ x]) simp
      next
        fix q and w x :: "'a task_state_scheme"
        assume "evolves w x" "\<exists>p. procs w q = Some p \<and> exited p"
        then show "\<exists>p. procs x q = Some p \<and> exited p" using evolves_proc [of w x q] unfolding proc_evolves_def by blast
      qed (auto intro: evolves_trans)
      then obtain t where t: "sfor process_kill (jb_processes j) v = (Inr (), t)" "?P t" "evolves v t"
        "\<forall>q \<in> set (jb_processes j). \<exists>p. procs t q = Some p \<and> exited p" by blast
      have "\<forall>c \<in> set (jb_children j). \<exists>cj. jobs t c = Some cj \<and> jb_killed cj"
        using v(3) evolves_job [OF t(3)] unfolding job_evolves_def by metis
      then have "kill_closed K t" using close [of t] t(2,4) by blast
      moreover obtain j' where "jobs t k = Some j'" "job_evolves ?j j'"
        using t(2) evolves_job [of ?u t k ?j] by auto
      ultimately have "?goal t" using t(2) evolves_trans [OF evu, of t] by (auto simp: job_evolves_def)
      moreover have "job_kill (Suc n) k s = (Inr (), t)"
        using j alive False v(1) t(1) by (auto simp: with_job_def Let_def job_vacant_def sbind_def)
      ultimately show ?thesis by blast
    qed
  qed
qed

end
