(* ===== verification/Task_Reach.thy ===== *)
theory Task_Reach
  imports Job_Kill
begin

text \<open>
  The reachable states of the task objects: every operation of jobs, processes and threads is a
  step, and every reachable state satisfies the invariant of the tree and the closure of the
  killed jobs. The step relation excludes the wrap-around of the object ids and the second drop
  of a thread.
\<close>

subsection \<open>Operations that kill no job\<close>

definition kill_frame :: "'a task_state_scheme \<Rightarrow> 'a task_state_scheme \<Rightarrow> bool" where
  "kill_frame s t \<longleftrightarrow>
     (\<forall>c j'. jobs t c = Some j' \<longrightarrow> (\<exists>j. jobs s c = Some j \<and> jb_parent j' = jb_parent j \<and> jb_killed j' = jb_killed j)) \<and>
     (\<forall>q p'. procs t q = Some p' \<longrightarrow> (\<exists>p. procs s q = Some p \<and> pr_job p' = pr_job p \<and> (exited p \<longrightarrow> exited p')))"

lemma kill_frame_refl [simp]: "kill_frame s s"
  by (simp add: kill_frame_def)

lemma kill_frameD:
  assumes "kill_frame s t"
  shows "\<And>c j'. jobs t c = Some j' \<Longrightarrow> \<exists>j. jobs s c = Some j \<and> jb_parent j' = jb_parent j \<and> jb_killed j' = jb_killed j"
    and "\<And>q p'. procs t q = Some p' \<Longrightarrow> \<exists>p. procs s q = Some p \<and> pr_job p' = pr_job p \<and> (exited p \<longrightarrow> exited p')"
  using assms unfolding kill_frame_def by blast+

lemma kill_frame_trans:
  assumes "kill_frame s t" and "kill_frame t u"
  shows "kill_frame s u"
proof -
  have "\<exists>j. jobs s c = Some j \<and> jb_parent j' = jb_parent j \<and> jb_killed j' = jb_killed j" if u: "jobs u c = Some j'" for c j'
  proof -
    obtain i where i: "jobs t c = Some i" "jb_parent j' = jb_parent i" "jb_killed j' = jb_killed i"
      using kill_frameD(1) [OF assms(2) u] by blast
    then show ?thesis using kill_frameD(1) [OF assms(1) i(1)] by simp
  qed
  moreover have "\<exists>p. procs s q = Some p \<and> pr_job p' = pr_job p \<and> (exited p \<longrightarrow> exited p')" if u: "procs u q = Some p'" for q p'
  proof -
    obtain i where i: "procs t q = Some i" "pr_job p' = pr_job i" "exited i \<longrightarrow> exited p'"
      using kill_frameD(2) [OF assms(2) u] by blast
    then show ?thesis using kill_frameD(2) [OF assms(1) i(1)] by auto
  qed
  ultimately show ?thesis unfolding kill_frame_def by blast
qed

lemma kill_frame_closed:
  fixes s t :: "'a task_state_scheme"
  assumes C: "kill_closed K s" and F: "kill_frame s t"
  shows "kill_closed K t"
  unfolding kill_closed_def
proof (intro conjI allI impI)
  fix c cj p pj
  assume t: "jobs t c = Some cj" "jb_parent cj = Some p" "jobs t p = Some pj" "jb_killed pj" "p \<notin> K"
  obtain c0 where "jobs s c = Some c0" "jb_parent cj = jb_parent c0" "jb_killed cj = jb_killed c0"
    using F t(1) unfolding kill_frame_def by blast
  moreover obtain p0 where "jobs s p = Some p0" "jb_killed pj = jb_killed p0"
    using F t(3) unfolding kill_frame_def by blast
  ultimately show "jb_killed cj" using C t unfolding kill_closed_def by metis
next
  fix q p j
  assume t: "procs t q = Some p" "jobs t (pr_job p) = Some j" "jb_killed j" "pr_job p \<notin> K"
  obtain p0 where p0: "procs s q = Some p0" "pr_job p = pr_job p0" "exited p0 \<longrightarrow> exited p"
    using F t(1) unfolding kill_frame_def by blast
  moreover obtain j0 where "jobs s (pr_job p) = Some j0" "jb_killed j = jb_killed j0"
    using F t(2) unfolding kill_frame_def by blast
  ultimately show "exited p" using C t unfolding kill_closed_def by metis
qed

lemma kill_frame_put_job:
  "jobs s k = Some j \<Longrightarrow> jb_parent j' = jb_parent j \<Longrightarrow> jb_killed j' = jb_killed j \<Longrightarrow> kill_frame s (put_job k j' s)"
  by (simp add: kill_frame_def)

lemma kill_frame_put_proc:
  "procs s k = Some p \<Longrightarrow> pr_job p' = pr_job p \<Longrightarrow> (exited p \<Longrightarrow> exited p') \<Longrightarrow> kill_frame s (put_proc k p' s)"
  by (simp add: kill_frame_def)

lemma kill_frame_same: "jobs t = jobs s \<Longrightarrow> procs t = procs s \<Longrightarrow> kill_frame s t"
  by (simp add: kill_frame_def)

lemma kill_frame_threads: "threads_only s t \<Longrightarrow> kill_frame s t"
  by (simp add: threads_only_def kill_frame_def)

lemma kill_frame_sbind:
  assumes "kill_frame s (snd (m s))" and "\<And>x u. kill_frame u (snd (f x u))"
  shows "kill_frame s (snd (sbind m f s))"
  by (rule sbind_keeps [where P = "kill_frame s"]) (use assms kill_frame_trans in blast)+

lemma kill_frame_detach: "kill_frame s (snd (detach_child p k s))"
  by (auto simp: detach_child_def with_job_def Let_def intro!: kill_frame_put_job split: option.split)

lemma kill_frame_terminate:
  fixes s :: "'a task_state_scheme"
  shows "kill_frame s (snd (job_terminate n k s))"
proof (induction n arbitrary: k s)
  case (Suc n)
  show ?case
    by (auto simp: with_job_def split: option.split intro!: kill_frame_sbind kill_frame_detach Suc)
qed simp

lemma kill_frame_remove_process:
  fixes s :: "'a task_state_scheme"
  shows "kill_frame s (snd (job_remove_process k q s))"
  by (auto simp: job_remove_process_def with_job_def Let_def split: option.split
      intro!: kill_frame_trans [OF kill_frame_put_job kill_frame_terminate] kill_frame_put_job)

lemma kill_frame_process_terminate:
  fixes s :: "'a task_state_scheme"
  shows "kill_frame s (snd (process_terminate k s))"
proof (cases "procs s k")
  case None
  then show ?thesis by (simp add: process_terminate_def with_proc_def)
next
  case (Some p)
  let ?p = "case pr_status p of PS_Exited _ \<Rightarrow> p | _ \<Rightarrow> p\<lparr>pr_status := PS_Exited 0\<rparr>"
  have "kill_frame s (put_proc k ?p s)"
    by (rule kill_frame_put_proc [OF Some]) (auto simp: exited_def split: proc_status.split)
  then show ?thesis
    using Some kill_frame_trans [OF _ kill_frame_remove_process] by (simp add: process_terminate_def with_proc_def Let_def)
qed

lemma kill_frame_clear: "kill_frame s (snd (clear_handles k s))"
  by (auto simp: clear_handles_def with_proc_def exited_def intro!: kill_frame_put_proc split: option.split)

lemma kill_frame_exit:
  fixes s :: "'a task_state_scheme"
  shows "kill_frame s (snd (process_exit c k s))"
proof (cases "procs s k")
  case None
  then show ?thesis by (simp add: process_exit_def with_proc_def)
next
  case (Some p)
  let ?u = "put_proc k (p\<lparr>pr_status := PS_Exited c\<rparr>) s"
  have u: "kill_frame s ?u" by (rule kill_frame_put_proc [OF Some]) (simp_all add: exited_def)
  have th: "kill_frame v (snd (sfor thread_kill ks v))" for ks and v :: "'a task_state_scheme"
    by (rule kill_frame_threads, rule sfor_threads_only, rule thread_ops_only)
  have "kill_frame ?u (snd (sbind (clear_handles k) (\<lambda>_. process_terminate k) ?u))"
    "kill_frame ?u (snd (sbind (sfor thread_kill (pr_threads p)) (\<lambda>_. clear_handles k) ?u))"
    by (rule kill_frame_sbind; rule kill_frame_clear kill_frame_process_terminate th)+
  then show ?thesis
    using Some kill_frame_trans [OF u] by (auto simp: process_exit_def with_proc_def Let_def split: proc_status.split)
qed

lemma kill_frame_remove_thread:
  fixes s :: "'a task_state_scheme"
  shows "kill_frame s (snd (remove_thread k x s))"
proof (cases "procs s k")
  case None
  then show ?thesis by (simp add: remove_thread_def with_proc_def)
next
  case (Some p)
  have "kill_frame s (put_proc k (p\<lparr>pr_threads := filter (\<lambda>y. y \<noteq> x) (pr_threads p)\<rparr>) s)"
    by (rule kill_frame_put_proc [OF Some]) (simp_all add: exited_def)
  then show ?thesis
    using Some kill_frame_trans [OF _ kill_frame_process_terminate]
    by (auto simp: remove_thread_def with_proc_def Let_def simp del: filter_empty_conv)
qed

lemma kill_frame_thread_drop:
  fixes s :: "'a task_state_scheme"
  shows "kill_frame s (snd (current_thread_drop x s))"
  by (auto simp: current_thread_drop_def with_thread_def split: option.split
      intro!: kill_frame_trans [OF kill_frame_same kill_frame_remove_thread])

lemma kill_frame_on_table:
  assumes "\<And>p. pr_job (snd (f p)) = pr_job p" and "\<And>p. pr_status (snd (f p)) = pr_status p"
  shows "kill_frame s (snd (on_table k f s))"
  by (auto simp: on_table_def with_proc_def split_beta exited_def assms intro!: kill_frame_put_proc split: option.split)

lemma kill_frame_table_ops:
  "kill_frame s (snd (process_add_handle k h s))" "kill_frame s (snd (process_add_handles k hs s))"
  "kill_frame s (snd (process_remove_handle k v s))" "kill_frame s (snd (process_remove_handles k vs s))"
  "kill_frame s (snd (remove_object ot k v s))"
  unfolding process_add_handle_def process_add_handles_def process_remove_handle_def process_remove_handles_def
    remove_object_def
  by (auto intro!: kill_frame_on_table kill_frame_sbind)

lemma kill_frame_set_policy: "kill_frame s (snd (set_policy_basic k opt bs s))"
  by (auto simp: set_policy_basic_def with_job_def split_beta intro!: kill_frame_put_job split: option.split)

lemma kill_frame_drop:
  fixes s :: "'a task_state_scheme"
  shows "kill_frame s (snd (job_drop k s))"
  unfolding job_drop_def
proof (rule kill_frame_sbind [OF kill_frame_terminate])
  fix x and u :: "'a task_state_scheme"
  show "kill_frame u (snd (Inr (), u\<lparr>jobs := (jobs u)(k := None)\<rparr>))" by (simp add: kill_frame_def)
qed

lemma kill_frame_start:
  fixes s :: "'a task_state_scheme"
  shows "kill_frame s (snd (process_start k x e st arg1 arg2 s))"
proof (cases "procs s k")
  case None
  then show ?thesis by (simp add: process_start_def with_proc_def)
next
  case (Some p)
  show ?thesis
  proof (cases "contains_thread x p \<and> pr_status p = PS_Init")
    case False
    then show ?thesis using Some by (auto simp: process_start_def with_proc_def)
  next
    case True
    let ?p0 = "p\<lparr>pr_status := PS_Running\<rparr>"
    obtain r p1 where p1: "start_arg arg1 ?p0 = (r, p1)" by fastforce
    have u: "kill_frame s (put_proc k p1 s)"
      by (rule kill_frame_put_proc [OF Some]) (use p1 start_arg_fields [of arg1 ?p0] True in \<open>simp_all add: exited_def\<close>)
    have start: "kill_frame v (snd (thread_start x e st a arg2 v))" for a and v :: "'a task_state_scheme"
      by (rule kill_frame_threads, rule thread_ops_only)
    have "kill_frame v (snd (case thread_start x e st a arg2 v of
        (Inl f, s2) \<Rightarrow> (Inl f, if w \<noteq> INVALID_HANDLE then snd (process_remove_handle k w s2) else s2)
      | (Inr _, s2) \<Rightarrow> (Inr (), s2)))" for a w and v :: "'a task_state_scheme"
      using start [of v a] kill_frame_trans [OF _ kill_frame_table_ops(3)]
      by (auto split: prod.splits sum.splits)
    moreover have "kill_frame v (snd (set_first_thread x v))" for v :: "'a task_state_scheme"
      by (rule kill_frame_threads, rule thread_ops_only)
    ultimately have "kill_frame v (snd (sbind (set_first_thread x) (\<lambda>_ s1.
        case thread_start x e st a arg2 s1 of
          (Inl f, s2) \<Rightarrow> (Inl f, if w \<noteq> INVALID_HANDLE then snd (process_remove_handle k w s2) else s2)
        | (Inr _, s2) \<Rightarrow> (Inr (), s2)) v))" for a w and v :: "'a task_state_scheme"
      by (intro kill_frame_sbind)
    then show ?thesis
      using True Some p1 u kill_frame_trans [OF u] by (auto simp: process_start_def with_proc_def split: sum.split)
  qed
qed

lemma kill_frame_suspend:
  fixes s :: "'a task_state_scheme"
  shows "kill_frame s (snd (process_suspend k s))" "kill_frame s (snd (process_resume k s))"
proof -
  have "kill_frame s (snd (sfor thread_suspend ks s))" "kill_frame s (snd (sfor thread_resume ks s))" for ks
    by (rule kill_frame_threads, rule sfor_threads_only, rule thread_ops_only)+
  then show "kill_frame s (snd (process_suspend k s))" "kill_frame s (snd (process_resume k s))"
    by (simp_all add: process_suspend_def process_resume_def with_proc_def split: option.split)
qed

subsection \<open>Reachable states\<close>

definition task_wf :: "'a task_state_scheme \<Rightarrow> bool" where
  "task_wf s \<longleftrightarrow> task_inv s \<and> kill_closed {} s"

inductive task_step :: "'a task_state_scheme \<Rightarrow> 'a task_state_scheme \<Rightarrow> bool" where
  ts_root: "next_koid s \<noteq> - 1 \<Longrightarrow> job_root s = (r, t) \<Longrightarrow> task_step s t"
| ts_child: "next_koid s \<noteq> - 1 \<Longrightarrow> job_create_child k s = (r, t) \<Longrightarrow> task_step s t"
| ts_policy: "set_policy_basic k opt bs s = (r, t) \<Longrightarrow> task_step s t"
| ts_job_kill: "job_kill (task_fuel s) k s = (r, t) \<Longrightarrow> task_step s t"
| ts_job_drop: "jobs s k \<noteq> None \<Longrightarrow> \<forall>c cj. jobs s c = Some cj \<longrightarrow> jb_parent cj \<noteq> Some k \<Longrightarrow>
     \<forall>q p. procs s q = Some p \<longrightarrow> pr_job p \<noteq> k \<Longrightarrow> job_drop k s = (r, t) \<Longrightarrow> task_step s t"
| ts_process: "next_koid s \<noteq> - 1 \<Longrightarrow> next_koid s + 1 \<noteq> - 1 \<Longrightarrow> process_create j nm s = (r', t) \<Longrightarrow> task_step s t"
| ts_start: "process_start k x e st arg1 arg2 s = (r, t) \<Longrightarrow> task_step s t"
| ts_exit: "process_exit c k s = (r, t) \<Longrightarrow> task_step s t"
| ts_psuspend: "process_suspend k s = (r, t) \<Longrightarrow> task_step s t"
| ts_presume: "process_resume k s = (r, t) \<Longrightarrow> task_step s t"
| ts_add: "process_add_handles k hs s = (rs, t) \<Longrightarrow> task_step s t"
| ts_remove: "process_remove_handles k vs s = (rh, t) \<Longrightarrow> task_step s t"
| ts_thread: "next_koid s \<noteq> - 1 \<Longrightarrow> thread_create cx k nm s = (rk, t) \<Longrightarrow> task_step s t"
| ts_drop: "threads s x \<noteq> None \<Longrightarrow> current_thread_drop x s = (r, t) \<Longrightarrow> task_step s t"
| ts_tstart: "thread_start x e st a1 a2 s = (r, t) \<Longrightarrow> task_step s t"
| ts_stop: "thread_stop b x s = (r, t) \<Longrightarrow> task_step s t"
| ts_suspend: "thread_suspend x s = (r, t) \<Longrightarrow> task_step s t"
| ts_resume: "thread_resume x s = (r, t) \<Longrightarrow> task_step s t"
| ts_poll: "poll_run x w s = (rc, t) \<Longrightarrow> task_step s t"
| ts_end: "end_running x cx s = (r, t) \<Longrightarrow> task_step s t"
| ts_write: "thread_write_state lay x kind buf s = (r, t) \<Longrightarrow> task_step s t"

inductive task_reach :: "'a task_state_scheme \<Rightarrow> 'a task_state_scheme \<Rightarrow> bool" for s0 where
  tr_init: "task_reach s0 s0"
| tr_step: "task_reach s0 s \<Longrightarrow> task_step s t \<Longrightarrow> task_reach s0 t"

lemma task_wf_frame:
  fixes s :: "'a task_state_scheme"
  shows "task_wf s \<Longrightarrow> task_inv (snd m) \<Longrightarrow> kill_frame s (snd m) \<Longrightarrow> m = (r, t) \<Longrightarrow> task_wf t"
  using kill_frame_closed unfolding task_wf_def by auto

lemma task_wf_threads:
  fixes s :: "'a task_state_scheme"
  assumes "task_wf s" and "threads_only s (snd m)" and "m = (r, t)"
  shows "task_wf t"
proof (rule task_wf_frame [OF assms(1) _ kill_frame_threads [OF assms(2)] assms(3)])
  show "task_inv (snd m)" using threads_only_inv [OF assms(2)] assms(1) unfolding task_wf_def by blast
qed

lemma kill_closed_root:
  fixes s :: "'a task_state_scheme"
  assumes "task_wf s" and n: "next_koid s \<noteq> - 1"
  shows "kill_closed {} (snd (job_root s))"
proof -
  have I: "task_inv s" and C: "kill_closed {} s" using assms(1) by (simp_all add: task_wf_def)
  have fresh: "jobs s (next_koid s) = None" "procs s (next_koid s) = None" using task_inv_koid [OF I n] by simp_all
  then have "jb_parent j \<noteq> Some (next_koid s)" if "jobs s c = Some j" for c j
    using parent_of [OF I that] by (metis option.distinct(1))
  moreover have "pr_job p \<noteq> next_koid s" if "procs s q = Some p" for q p
    using job_of [OF I that] fresh by (metis option.distinct(1))
  ultimately show ?thesis
    using C unfolding kill_closed_def by (auto simp: job_root_def kobject_base_new_def new_koid_def)
qed

lemma kill_closed_child:
  fixes s :: "'a task_state_scheme"
  assumes "task_wf s" and n: "next_koid s \<noteq> - 1"
  shows "kill_closed {} (snd (job_create_child k s))"
proof (cases "\<exists>j. jobs s k = Some j \<and> \<not> jb_killed j")
  case False
  then show ?thesis using assms(1) by (auto simp: task_wf_def job_create_child_def with_job_def split: option.split)
next
  case True
  then obtain j where j: "jobs s k = Some j" "\<not> jb_killed j" by blast
  have I: "task_inv s" and C: "kill_closed {} s" using assms(1) by (simp_all add: task_wf_def)
  have fresh: "jobs s (next_koid s) = None" using task_inv_koid [OF I n] by simp
  then have "jb_parent i \<noteq> Some (next_koid s)" if "jobs s c = Some i" for c i
    using parent_of [OF I that] by (metis option.distinct(1))
  moreover have "pr_job p \<noteq> next_koid s" if "procs s q = Some p" for q p
    using job_of [OF I that] fresh by (metis option.distinct(1))
  moreover have "k \<noteq> next_koid s" using j fresh by auto
  ultimately show ?thesis
    using C j unfolding kill_closed_def
    by (auto simp: job_create_child_def with_job_def kobject_base_new_def new_koid_def Let_def)
qed

lemma kill_closed_process:
  fixes s :: "'a task_state_scheme"
  assumes "task_wf s" and n: "next_koid s \<noteq> - 1"
  shows "kill_closed {} (snd (process_create j nm s))"
proof (cases "jobs s j")
  case None
  then show ?thesis using assms(1) by (simp add: task_wf_def process_create_def with_job_def)
next
  case (Some jb)
  have I: "task_inv s" and C: "kill_closed {} s" using assms(1) by (simp_all add: task_wf_def)
  let ?k = "next_koid s"
  obtain r s2 where r: "new_root (s\<lparr>next_koid := ?k + 1\<rparr>) = (r, s2)" by fastforce
  note R = new_root_frame [OF r]
  have C2: "kill_closed {} s2" by (rule kill_frame_closed [OF C kill_frame_same]) (use R in simp_all)
  have keep: "kill_closed {} (put_job j (jb\<lparr>jb_processes := ps\<rparr>) (put_proc ?k p s2))"
    if "\<not> jb_killed jb" "pr_job p = j" for p ps
    using C2 that Some R unfolding kill_closed_def by auto
  have drop: "kill_closed {} (put_proc ?k p s2\<lparr>procs := (procs (put_proc ?k p s2))(?k := None), vmars := vs\<rparr>)" for p vs
    by (rule kill_frame_closed [OF C]) (use R in \<open>simp add: kill_frame_def\<close>)
  show ?thesis
    using Some r C2 R keep drop
    by (auto simp: process_create_def with_job_def kobject_base_with_name_def new_koid_def Let_def job_add_process_def
        split: sum.split)
qed

lemma kill_closed_job_kill:
  fixes s :: "'a task_state_scheme"
  assumes "task_wf s" and "jobs s k = Some j"
  shows "\<exists>t. job_kill (task_fuel s) k s = (Inr (), t) \<and> task_wf t \<and> evolves s t \<and> (\<exists>j'. jobs t k = Some j' \<and> jb_killed j')"
  using job_kill_inv [of s "{}" k j "task_fuel s"] assms by (auto simp: task_wf_def task_fuel_def)

lemma task_step_wf:
  fixes s t :: "'a task_state_scheme"
  assumes "task_step s t" and wf: "task_wf s"
  shows "task_wf t"
proof -
  have I: "task_inv s" using wf by (simp add: task_wf_def)
  note T = thread_ops_only [of s]
  from assms(1) show ?thesis
  proof cases
    case (ts_root r)
    then show ?thesis using job_root_inv [OF I] kill_closed_root [OF wf] by (simp add: task_wf_def)
  next
    case (ts_child k r)
    then show ?thesis using job_create_child_inv [OF I, of k] kill_closed_child [OF wf, of k] by (simp add: task_wf_def)
  next
    case (ts_policy k opt bs r)
    show ?thesis by (rule task_wf_frame [OF wf set_policy_inv [OF I] kill_frame_set_policy ts_policy])
  next
    case (ts_job_kill k r)
    then show ?thesis using kill_closed_job_kill [OF wf, of k] wf
      by (cases "jobs s k") (auto simp: task_fuel_def with_job_def)
  next
    case (ts_job_drop k r)
    obtain j where j: "jobs s k = Some j" using ts_job_drop(1) by auto
    have "task_inv (snd (job_drop k s))" using job_drop_inv [OF I j] ts_job_drop(2,3) by auto
    then show ?thesis by (rule task_wf_frame [OF wf _ kill_frame_drop ts_job_drop(4)])
  next
    case (ts_process j nm r')
    then show ?thesis using process_create_inv [OF I, of j nm] kill_closed_process [OF wf, of j nm] by (simp add: task_wf_def)
  next
    case (ts_start k x e st arg1 arg2 r)
    show ?thesis by (rule task_wf_frame [OF wf process_start_inv [OF I] kill_frame_start ts_start])
  next
    case (ts_exit c k r)
    have "task_inv (snd (process_exit c k s))"
    proof (cases "procs s k")
      case None
      then show ?thesis using I by (simp add: process_exit_def with_proc_def)
    next
      case (Some p)
      then show ?thesis using process_exit_inv [OF I Some, of c] by auto
    qed
    then show ?thesis by (rule task_wf_frame [OF wf _ kill_frame_exit ts_exit])
  next
    case (ts_psuspend k r)
    show ?thesis by (rule task_wf_frame [OF wf process_suspend_inv(1) [OF I] kill_frame_suspend(1) ts_psuspend])
  next
    case (ts_presume k r)
    show ?thesis by (rule task_wf_frame [OF wf process_suspend_inv(2) [OF I] kill_frame_suspend(2) ts_presume])
  next
    case (ts_add k hs rs)
    show ?thesis by (rule task_wf_frame [OF wf table_ops_inv(2) [OF I] kill_frame_table_ops(2) ts_add])
  next
    case (ts_remove k vs rh)
    show ?thesis by (rule task_wf_frame [OF wf table_ops_inv(4) [OF I] kill_frame_table_ops(4) ts_remove])
  next
    case (ts_thread cx k nm rk)
    have "kill_frame s (snd (thread_create cx k nm s))"
      by (auto simp: thread_create_def kobject_base_with_name_def new_koid_def add_thread_def with_proc_def Let_def
          kill_frame_def exited_def split: option.splits proc_status.splits)
    then show ?thesis by (rule task_wf_frame [OF wf thread_create_inv [OF I ts_thread(1)] _ ts_thread(2)])
  next
    case (ts_drop x r)
    then obtain th where "threads s x = Some th" by auto
    from current_thread_drop_inv [OF I this] show ?thesis
      by (rule task_wf_frame [OF wf _ kill_frame_thread_drop ts_drop(2)])
  next
    case (ts_tstart x e st a1 a2 r)
    show ?thesis by (rule task_wf_threads [OF wf T(1) ts_tstart])
  next
    case (ts_stop b x r)
    show ?thesis by (rule task_wf_threads [OF wf T(2) ts_stop])
  next
    case (ts_suspend x r)
    show ?thesis by (rule task_wf_threads [OF wf T(5) ts_suspend])
  next
    case (ts_resume x r)
    show ?thesis by (rule task_wf_threads [OF wf T(6) ts_resume])
  next
    case (ts_poll x w rc)
    show ?thesis by (rule task_wf_threads [OF wf T(7) ts_poll])
  next
    case (ts_end x cx r)
    show ?thesis by (rule task_wf_threads [OF wf T(8) ts_end])
  next
    case (ts_write lay x kind buf r)
    show ?thesis by (rule task_wf_threads [OF wf T(10) ts_write])
  qed
qed

lemma task_reach_wf:
  fixes s0 s :: "'a task_state_scheme"
  shows "task_reach s0 s \<Longrightarrow> task_wf s0 \<Longrightarrow> task_wf s"
  by (induction rule: task_reach.induct) (auto intro: task_step_wf)

end
