(* ===== verification/Handle_Table.thy ===== *)
theory Handle_Table
  imports Task_Reach
begin

text \<open>
  The handle table of a process as an interface: a client sees a partial map from handle values to
  handles, to which adding a handle gives a fresh value and from which removing one takes exactly
  that entry. The bulk operations that messages are moved with are proved correct against the
  interface; the interpretation at the end discharges the laws for the code's table. Its values
  are \<open>(id << 2) | 3\<close> in 32 bits, so the table keeps its promise for \<open>2 ^ 30\<close> insertions; what the
  next one does is shown in \<open>Task_Behaviour\<close>.
\<close>

subsection \<open>Bulk operations\<close>

primrec st_map :: "('a \<Rightarrow> 't \<Rightarrow> ('e + 'b) \<times> 't) \<Rightarrow> 'a list \<Rightarrow> 't \<Rightarrow> ('e + 'b list) \<times> 't" where
  "st_map f [] t = (Inr [], t)"
| "st_map f (x # xs) t =
     (case f x t of
        (Inl e, t1) \<Rightarrow> (Inl e, t1)
      | (Inr y, t1) \<Rightarrow> (case st_map f xs t1 of (Inl e, t2) \<Rightarrow> (Inl e, t2) | (Inr ys, t2) \<Rightarrow> (Inr (y # ys), t2)))"

lemma table_add_all_st_map: "table_add_all hs p = st_map table_add hs p"
  by (induction hs arbitrary: p) (auto split: prod.split sum.split)

lemma table_remove_all_st_map: "table_remove_all vs p = st_map table_remove vs p"
  by (induction vs arbitrary: p) (auto split: prod.split sum.split)

subsection \<open>The interface\<close>

text \<open>The first interface is what a table promises that hands out values; the second adds the removal.\<close>

locale handle_alloc =
  fixes lookup :: "'t \<Rightarrow> 'v \<Rightarrow> 'h option"
    and add :: "'h \<Rightarrow> 't \<Rightarrow> ('e + 'v) \<times> 't"
    and ok :: "'t \<Rightarrow> bool"
    and room :: "'t \<Rightarrow> nat"
  assumes add_ok: "ok t \<Longrightarrow> 0 < room t \<Longrightarrow>
      \<exists>v t'. add h t = (Inr v, t') \<and> lookup t v = None \<and> lookup t' = (lookup t)(v \<mapsto> h) \<and> ok t' \<and> room t' = room t - 1"
begin

lemma add_all:
  assumes "ok t" and "length hs \<le> room t"
  shows "\<exists>vs t'. st_map add hs t = (Inr vs, t') \<and> ok t' \<and> room t' = room t - length hs \<and>
     length vs = length hs \<and> distinct vs \<and> (\<forall>v \<in> set vs. lookup t v = None) \<and>
     lookup t' = lookup t ++ map_of (zip vs hs)"
  using assms
proof (induction hs arbitrary: t)
  case Nil
  then show ?case by simp
next
  case (Cons h hs)
  obtain v u where u: "add h t = (Inr v, u)" "lookup t v = None" "lookup u = (lookup t)(v \<mapsto> h)" "ok u" "room u = room t - 1"
    using add_ok [of t h] Cons.prems by auto
  have "length hs \<le> room u" using u(5) Cons.prems(2) by simp
  then obtain vs w where w: "st_map add hs u = (Inr vs, w)" "ok w" "room w = room u - length hs" "length vs = length hs"
    "distinct vs" "\<forall>x \<in> set vs. lookup u x = None" "lookup w = lookup u ++ map_of (zip vs hs)"
    using Cons.IH [OF u(4)] by blast
  have v: "v \<notin> set vs" using w(6) u(3) by auto
  have none: "\<forall>x \<in> set (v # vs). lookup t x = None" using w(6) u(2,3) v by (metis fun_upd_other set_ConsD)
  have look: "lookup w = lookup t ++ map_of (zip (v # vs) (h # hs))"
  proof
    fix x
    have "map_of (zip vs hs) v = None" using v w(4) by (simp add: map_of_zip_is_None)
    then show "lookup w x = (lookup t ++ map_of (zip (v # vs) (h # hs))) x"
      using w(7) u(3) by (auto simp: map_add_def split: option.split)
  qed
  have "room w = room t - length (h # hs)" "length (v # vs) = length (h # hs)" "distinct (v # vs)"
    using w(3-5) u(5) v by simp_all
  moreover have "st_map add (h # hs) t = (Inr (v # vs), w)" using u(1) w(1) by simp
  ultimately show ?case using w(2) none look by blast
qed

end

locale handle_space = handle_alloc lookup add ok room
  for lookup :: "'t \<Rightarrow> 'v \<Rightarrow> 'h option"
    and add :: "'h \<Rightarrow> 't \<Rightarrow> ('e + 'v) \<times> 't"
    and ok :: "'t \<Rightarrow> bool"
    and room :: "'t \<Rightarrow> nat" +
  fixes remove :: "'v \<Rightarrow> 't \<Rightarrow> ('e + 'h) \<times> 't"
    and bad :: 'e
  assumes remove_ok: "ok t \<Longrightarrow> lookup t v = Some h \<Longrightarrow>
      \<exists>t'. remove v t = (Inr h, t') \<and> lookup t' = (lookup t)(v := None) \<and> ok t' \<and> room t' = room t"
    and remove_bad: "lookup t v = None \<Longrightarrow> remove v t = (Inl bad, t)"
begin

lemma remove_all:
  assumes "ok t" and "distinct vs" and "map (lookup t) vs = map Some hs"
  shows "\<exists>t'. st_map remove vs t = (Inr hs, t') \<and> ok t' \<and> room t' = room t \<and>
     (\<forall>v. lookup t' v = (if v \<in> set vs then None else lookup t v))"
  using assms
proof (induction vs arbitrary: t hs)
  case Nil
  then show ?case by simp
next
  case (Cons v vs)
  then obtain h hs' where hs: "hs = h # hs'" "lookup t v = Some h" "map (lookup t) vs = map Some hs'" by (cases hs) auto
  obtain u where u: "remove v t = (Inr h, u)" "lookup u = (lookup t)(v := None)" "ok u" "room u = room t"
    using remove_ok [OF Cons.prems(1) hs(2)] by blast
  have "map (lookup u) vs = map (lookup t) vs" using u(2) Cons.prems(2) by (intro map_cong) auto
  then have "map (lookup u) vs = map Some hs'" using hs(3) by simp
  then obtain w where "st_map remove vs u = (Inr hs', w)" "ok w" "room w = room u"
    "\<forall>x. lookup w x = (if x \<in> set vs then None else lookup u x)"
    using Cons.IH [of u hs'] u(3) Cons.prems(2) by auto
  then show ?case using u hs(1) by auto
qed

lemma remove_all_bad:
  assumes "ok t" and "v \<in> set vs" and "lookup t v = None"
  shows "\<exists>t'. st_map remove vs t = (Inl bad, t')"
  using assms
proof (induction vs arbitrary: t)
  case (Cons x vs)
  show ?case
  proof (cases "lookup t x")
    case None
    then show ?thesis by (simp add: remove_bad)
  next
    case (Some h)
    obtain u where u: "remove x t = (Inr h, u)" "lookup u = (lookup t)(x := None)" "ok u"
      using remove_ok [OF Cons.prems(1) Some] by blast
    have "v \<in> set vs" "lookup u v = None" using Cons.prems u(2) Some by auto
    then show ?thesis using Cons.IH [of u] u by auto
  qed
qed simp

lemma move:
  assumes "ok t" and "distinct vs" and "map (lookup t) vs = map Some hs" and "ok d" and "length hs \<le> room d"
  shows "\<exists>t' ws d'. st_map remove vs t = (Inr hs, t') \<and> st_map add hs d = (Inr ws, d') \<and>
     map (lookup d') ws = map Some hs \<and> (\<forall>v \<in> set vs. lookup t' v = None) \<and>
     (\<forall>w. w \<notin> set ws \<longrightarrow> lookup d' w = lookup d w) \<and> (\<forall>w \<in> set ws. lookup d w = None)"
proof -
  obtain t' where t': "st_map remove vs t = (Inr hs, t')" "\<forall>v. lookup t' v = (if v \<in> set vs then None else lookup t v)"
    using remove_all [OF assms(1-3)] by blast
  obtain ws d' where d': "st_map add hs d = (Inr ws, d')" "length ws = length hs" "distinct ws"
    "\<forall>w \<in> set ws. lookup d w = None" "lookup d' = lookup d ++ map_of (zip ws hs)"
    using add_all [OF assms(4,5)] by blast
  have "map_of (zip ws hs) (ws ! i) = Some (hs ! i)" if "i < length ws" for i
    using that d'(2,3) by (simp add: map_of_zip_nth)
  then have "map (lookup d') ws = map Some hs"
    using d'(2,5) by (intro nth_equalityI) (simp_all add: map_add_def)
  moreover have "lookup d' w = lookup d w" if "w \<notin> set ws" for w
    using that d'(2,5) by (simp add: map_add_def map_of_zip_is_None [THEN iffD2])
  ultimately show ?thesis using t' d'(1,4) by auto
qed

end

subsection \<open>The code's table\<close>

lemma handle_key: "push_bit 2 (i :: u32) OR 3 = 4 * i + 3"
proof -
  have "bit (3 :: u32) n \<longleftrightarrow> n < 2" for n
  proof -
    have "(3 :: u32) = mask 2" by (simp add: mask_eq_exp_minus_1)
    then have "bit (3 :: u32) n \<longleftrightarrow> possible_bit TYPE(u32) n \<and> n < 2" by (simp only: bit_mask_iff)
    then show ?thesis by auto
  qed
  then have "push_bit 2 i + 3 = push_bit 2 i OR 3"
    by (intro disjunctive_add) (auto simp: bit_push_bit_iff)
  moreover have "push_bit 2 i = 4 * i" by (simp add: push_bit_eq_mult mult.commute)
  ultimately show ?thesis by simp
qed

lemma unat_handle_key: "unat (4 * i + 3 :: u32) = 4 * unat i + 3" if "unat i < 2 ^ 30"
proof -
  have "4 * unat i < 2 ^ 32" using that by simp
  then have a: "unat (4 * i) = 4 * unat i" by (simp add: unat_word_ariths)
  have "unat (4 * i) + unat (3 :: u32) < 2 ^ LENGTH(32)" unfolding a using that by simp
  then have "unat (4 * i + 3) = unat (4 * i) + unat (3 :: u32)" by (rule unat_add_lem [THEN iffD1])
  then show ?thesis by (simp add: a)
qed

definition table_ok :: "process \<Rightarrow> bool" where
  "table_ok p \<longleftrightarrow> unat (pr_max_handle_id p) \<le> 2 ^ 30 \<and>
     (\<forall>v. pr_handles p v \<noteq> None \<longrightarrow> unat v < 4 * unat (pr_max_handle_id p))"

definition table_room :: "process \<Rightarrow> nat" where
  "table_room p = 2 ^ 30 - unat (pr_max_handle_id p)"

interpretation ht: handle_space pr_handles table_add table_ok table_room table_remove "Err BAD_HANDLE"
proof
  fix p :: process and h
  assume ok: "table_ok p" and room: "0 < table_room p"
  let ?i = "pr_max_handle_id p"
  let ?v = "4 * ?i + 3"
  have i: "unat ?i < 2 ^ 30" using room by (simp add: table_room_def)
  note v = unat_handle_key [OF i]
  have free: "pr_handles p ?v = None"
  proof (rule ccontr)
    assume "pr_handles p ?v \<noteq> None"
    then show False using ok v unfolding table_ok_def by fastforce
  qed
  have "unat (- 1 :: u32) = 4294967295" by (simp add: unsigned_minus_1_eq_mask mask_eq_exp_minus_1)
  then have "?i \<noteq> - 1" using i by auto
  have next': "unat (?i + 1) = unat ?i + 1" using i by (simp add: unat_word_ariths)
  have "table_ok (p\<lparr>pr_max_handle_id := ?i + 1, pr_handles := (pr_handles p)(?v \<mapsto> h)\<rparr>)"
    unfolding table_ok_def
  proof (intro conjI allI impI)
    fix w
    assume "pr_handles (p\<lparr>pr_max_handle_id := ?i + 1, pr_handles := (pr_handles p)(?v \<mapsto> h)\<rparr>) w \<noteq> None"
    then have "w = ?v \<or> pr_handles p w \<noteq> None" by (auto split: if_splits)
    then have "w = ?v \<or> unat w < 4 * unat ?i" using ok by (auto simp: table_ok_def)
    then have "unat w < 4 * unat (?i + 1)" using v next' by auto
    then show "unat w < 4 * unat (pr_max_handle_id (p\<lparr>pr_max_handle_id := ?i + 1, pr_handles := (pr_handles p)(?v \<mapsto> h)\<rparr>))"
      by simp
  qed (use i next' in simp)
  then show "\<exists>v p'. table_add h p = (Inr v, p') \<and> pr_handles p v = None \<and>
      pr_handles p' = (pr_handles p)(v \<mapsto> h) \<and> table_ok p' \<and> table_room p' = table_room p - 1"
    using free next' \<open>?i \<noteq> - 1\<close> by (simp add: table_add_def handle_key Let_def table_room_def)
next
  fix p :: process and v h
  assume "table_ok p" "pr_handles p v = Some h"
  then show "\<exists>p'. table_remove v p = (Inr h, p') \<and> pr_handles p' = (pr_handles p)(v := None) \<and>
      table_ok p' \<and> table_room p' = table_room p"
    by (simp add: table_remove_def table_ok_def table_room_def)
next
  fix p :: process and v
  assume "pr_handles p v = None"
  then show "table_remove v p = (Inl (Err BAD_HANDLE), p)" by (simp add: table_remove_def)
qed

end
