(* ===== verification/Task_Props.thy ===== *)
theory Task_Props
  imports Handle_Table
begin

text \<open>
  The properties of jobs, processes, threads and handle tables, on the reachable states of the
  task objects, each with a concrete instance.
\<close>

subsection \<open>A concrete family of tasks\<close>

definition task_start :: task_state where
  "task_start = vmar_state.extend (vmar_start [])
     \<lparr>jobs = Map.empty, procs = Map.empty, threads = Map.empty, woken = [], spawned = []\<rparr>"

lemma task_start_simps [simp]:
  "jobs task_start = Map.empty" "procs task_start = Map.empty" "threads task_start = Map.empty"
  "next_koid task_start = 1024" "woken task_start = []"
  by (simp_all add: task_start_def vmar_start_def vm_start_def vm_state.defs vmar_state.defs init_koid_def)

lemma task_start_wf: "task_wf task_start"
  by (simp add: task_wf_def task_inv_x_def kill_closed_def)

text \<open>The root job 1 has a child job 2, whose process 3 has the threads 4 and 5.\<close>

definition demo_thread :: "thread" where
  "demo_thread = thread_init \<lparr>base_id = 4, base_name = ''t''\<rparr> 3 (\<lambda>_. 0)"

definition demo_process :: process where
  "demo_process = \<lparr>pr_base = \<lparr>base_id = 3, base_name = ''p''\<rparr>, pr_job = 2, pr_policy = job_policy_default,
     pr_vmar = 6, pr_max_handle_id = 1, pr_status = PS_Init,
     pr_handles = [3 \<mapsto> handle_new (KObj T_Job 2) R_DEFAULT_JOB], pr_threads = [4]\<rparr>"

definition demo_root_job :: job where
  "demo_root_job = \<lparr>jb_base = \<lparr>base_id = 1, base_name = ''''\<rparr>, jb_parent = None, jb_parent_policy = job_policy_default,
     jb_policy = policy_apply job_policy_default \<lparr>condition = NewChannel, bp_action = PA_Deny\<rparr>,
     jb_children = [2], jb_processes = [], jb_killed = False\<rparr>"

definition demo_child_job :: job where
  "demo_child_job = \<lparr>jb_base = \<lparr>base_id = 2, base_name = ''''\<rparr>, jb_parent = Some 1,
     jb_parent_policy = policy_apply job_policy_default \<lparr>condition = NewChannel, bp_action = PA_Deny\<rparr>,
     jb_policy = job_policy_default, jb_children = [], jb_processes = [3], jb_killed = False\<rparr>"

definition demo_tasks :: task_state where
  "demo_tasks = task_start\<lparr>jobs := [1 \<mapsto> demo_root_job, 2 \<mapsto> demo_child_job], procs := [3 \<mapsto> demo_process],
     threads := [4 \<mapsto> demo_thread]\<rparr>"

lemma demo_tasks_simps [simp]:
  "jobs demo_tasks = [1 \<mapsto> demo_root_job, 2 \<mapsto> demo_child_job]" "procs demo_tasks = [3 \<mapsto> demo_process]"
  "threads demo_tasks = [4 \<mapsto> demo_thread]" "next_koid demo_tasks = 1024"
  "jb_parent demo_root_job = None" "jb_parent demo_child_job = Some 1" "jb_children demo_root_job = [2]"
  "jb_children demo_child_job = []" "jb_processes demo_root_job = []" "jb_processes demo_child_job = [3]"
  "\<not> jb_killed demo_root_job" "\<not> jb_killed demo_child_job" "pr_job demo_process = 2" "pr_threads demo_process = [4]"
  "pr_status demo_process = PS_Init" "th_proc demo_thread = 3" "th_context demo_thread = Some (\<lambda>_. 0)"
  "th_state demo_thread = TS_New" "th_suspend_count demo_thread = 0" "th_waker demo_thread = None"
  by (simp_all add: demo_tasks_def demo_root_job_def demo_child_job_def demo_process_def demo_thread_def thread_init_def)

lemma demo_not_exited [simp]: "\<not> exited demo_process"
  by (simp add: exited_def)

lemma demo_tasks_wf: "task_wf demo_tasks"
proof -
  have "job_ok {} {} demo_tasks 1 demo_root_job"
    by (simp add: job_ok_def child_ok_def)
  moreover have "job_ok {} {} demo_tasks 2 demo_child_job"
    by (simp add: job_ok_def member_ok_def)
  moreover have "proc_ok demo_tasks 3 demo_process"
    by (simp add: proc_ok_def)
  ultimately show ?thesis
    by (auto simp: task_wf_def task_inv_x_def kill_closed_def split: if_splits)
qed

subsection \<open>The tree of tasks\<close>



definition under :: "'a task_state_scheme \<Rightarrow> koid \<Rightarrow> koid \<Rightarrow> bool" where
  "under s x y \<longleftrightarrow> (\<exists>j. jobs s x = Some j \<and> jb_parent j = Some y)"

lemma under_killed:
  assumes C: "kill_closed {} t" and U: "(under t)\<^sup>*\<^sup>* x k" and k: "jobs t k = Some j" "jb_killed j"
  shows "\<exists>i. jobs t x = Some i \<and> jb_killed i"
  using U k
proof (induction rule: converse_rtranclp_induct)
  case base
  then show ?case by blast
next
  case (step x y)
  then obtain i where i: "jobs t y = Some i" "jb_killed i" by blast
  obtain cj where "jobs t x = Some cj" "jb_parent cj = Some y" using step.hyps(1) by (auto simp: under_def)
  then show ?case using C i unfolding kill_closed_def by blast
qed

text \<open>C4. Killing a job in a reachable state always succeeds, with the fuel the model passes, and when
  it returns every job below it, however deep, is killed, and every process in one of them has
  exited.\<close>

theorem job_kill_subtree:
  fixes s0 s :: "'a task_state_scheme"
  assumes "task_reach s0 s" and "task_wf s0" and "jobs s k = Some j"
  shows "\<exists>t. job_kill (task_fuel s) k s = (Inr (), t) \<and>
     (\<forall>x. (under s)\<^sup>*\<^sup>* x k \<longrightarrow> (\<exists>i. jobs t x = Some i \<and> jb_killed i)) \<and>
     (\<forall>q p. procs s q = Some p \<longrightarrow> (under s)\<^sup>*\<^sup>* (pr_job p) k \<longrightarrow> (\<exists>p'. procs t q = Some p' \<and> exited p'))"
proof -
  have wf: "task_wf s" by (rule task_reach_wf [OF assms(1,2)])
  obtain t j' where t: "job_kill (task_fuel s) k s = (Inr (), t)" "task_wf t" "evolves s t"
    "jobs t k = Some j'" "jb_killed j'"
    using kill_closed_job_kill [OF wf assms(3)] by blast
  have C: "kill_closed {} t" using t(2) by (simp add: task_wf_def)
  have step: "under t x y" if u: "under s x y" for x y
  proof -
    obtain i where i: "jobs s x = Some i" "jb_parent i = Some y" using u by (auto simp: under_def)
    obtain i' where "jobs t x = Some i'" "job_evolves i i'" by (rule evolves_job [OF t(3) i(1)])
    then show ?thesis using i(2) by (simp add: under_def job_evolves_def)
  qed
  have U: "(under t)\<^sup>*\<^sup>* x k" if "(under s)\<^sup>*\<^sup>* x k" for x
    using that step mono_rtranclp [of "under s" "under t"] by blast
  have "\<exists>p'. procs t q = Some p' \<and> exited p'" if q: "procs s q = Some p" "(under s)\<^sup>*\<^sup>* (pr_job p) k" for q p
  proof -
    obtain p' where p': "procs t q = Some p'" "proc_evolves p p'" by (rule evolves_proc [OF t(3) q(1)])
    then have "pr_job p' = pr_job p" by (simp add: proc_evolves_def)
    then show ?thesis using C p'(1) under_killed [OF C U [OF q(2)] t(4,5)] unfolding kill_closed_def by auto
  qed
  then show ?thesis using t(1) under_killed [OF C U t(4,5)] by blast
qed

lemma job_kill_subtree_witness:
  "\<exists>t. job_kill (task_fuel demo_tasks) 1 demo_tasks = (Inr (), t) \<and>
     (\<exists>p'. procs t 3 = Some p' \<and> exited p') \<and> (\<exists>i. jobs t 2 = Some i \<and> jb_killed i)"
proof -
  have "(under demo_tasks)\<^sup>*\<^sup>* 2 1" by (rule r_into_rtranclp) (simp add: under_def)
  then show ?thesis
    using job_kill_subtree [OF tr_init demo_tasks_wf, of 1 demo_root_job] by auto
qed

text \<open>C15. A kill is final: in every reachable state a killed job has only killed jobs and exited
  processes below it, and it refuses new children and new processes with \<open>BAD_STATE\<close>.\<close>

theorem killed_is_final:
  assumes "task_reach s0 s" and "task_wf s0" and "jobs s k = Some j" and "jb_killed j"
  shows "(\<forall>x. (under s)\<^sup>*\<^sup>* x k \<longrightarrow> (\<exists>i. jobs s x = Some i \<and> jb_killed i)) \<and>
     (\<forall>q p. procs s q = Some p \<longrightarrow> (under s)\<^sup>*\<^sup>* (pr_job p) k \<longrightarrow> exited p) \<and>
     job_create_child k s = (Inl (Err BAD_STATE), s) \<and> job_add_process k q s = (Inl (Err BAD_STATE), s)"
proof -
  have C: "kill_closed {} s" using task_reach_wf [OF assms(1,2)] by (simp add: task_wf_def)
  have "exited p" if "procs s q = Some p" "(under s)\<^sup>*\<^sup>* (pr_job p) k" for q p
    using C that(1) under_killed [OF C that(2) assms(3,4)] unfolding kill_closed_def by auto
  then show ?thesis
    using under_killed [OF C _ assms(3,4)] assms(3,4)
    by (auto simp: job_create_child_def job_add_process_def with_job_def)
qed

lemma killed_is_final_witness:
  "\<exists>s. task_reach demo_tasks s \<and> job_create_child 1 s = (Inl (Err BAD_STATE), s)"
proof -
  obtain t j' where t: "job_kill (task_fuel demo_tasks) 1 demo_tasks = (Inr (), t)" "jobs t 1 = Some j'" "jb_killed j'"
    using kill_closed_job_kill [OF demo_tasks_wf, of 1 demo_root_job] by auto
  have r: "task_reach demo_tasks t" by (rule tr_step [OF tr_init ts_job_kill [OF t(1)]])
  show ?thesis using r killed_is_final [OF r demo_tasks_wf t(2,3)] by blast
qed

end
