(* ===== verification/Task_Behaviour.thy ===== *)
theory Task_Behaviour
  imports Task_Props
begin

text \<open>
  What single operations of tasks do: exit of a process, the last thread leaving, policy
  inheritance, waking of suspended runners, registers, starting, and the handle table.
\<close>

subsection \<open>Exit\<close>

text \<open>Exiting a running process in a reachable state succeeds, records the return code, empties the
  handle table and makes every thread of the process dying; when it has no threads it leaves its
  job at once.\<close>

theorem process_exit_stops:
  fixes s0 s :: "'a task_state_scheme"
  assumes "task_reach s0 s" and "task_wf s0" and "procs s k = Some p" and "\<not> exited p"
  shows "\<exists>t p'. process_exit c k s = (Inr (), t) \<and> procs t k = Some p' \<and> pr_status p' = PS_Exited c \<and>
     pr_handles p' = Map.empty \<and>
     (\<forall>x \<in> set (pr_threads p). \<exists>th. threads t x = Some th \<and> th_state th \<in> {TS_Dying, TS_Dead}) \<and>
     (pr_threads p = [] \<longrightarrow> (\<forall>x i. jobs t x = Some i \<longrightarrow> k \<notin> set (jb_processes i)))"
proof -
  have I: "task_inv s" using task_reach_wf [OF assms(1,2)] by (simp add: task_wf_def)
  obtain t p' where t: "process_exit c k s = (Inr (), t)" "procs t k = Some p'" "pr_status p' = PS_Exited c"
    "pr_handles p' = Map.empty" "\<forall>x \<in> set (pr_threads p). doomed t x"
    "pr_threads p = [] \<longrightarrow> (\<forall>x i. jobs t x = Some i \<longrightarrow> k \<notin> set (jb_processes i))"
    using process_exit_inv [OF I assms(3), of c] assms(4) by auto
  have "\<exists>th. threads t x = Some th \<and> th_state th \<in> {TS_Dying, TS_Dead}" if "x \<in> set (pr_threads p)" for x
    using t(5) that by (auto simp: doomed_def)
  then show ?thesis using t by blast
qed

lemma process_exit_stops_witness:
  "\<exists>t th. process_exit 7 3 demo_tasks = (Inr (), t) \<and> threads t 4 = Some th \<and> th_state th \<in> {TS_Dying, TS_Dead}"
  using process_exit_stops [OF tr_init demo_tasks_wf, of 3 demo_process 7] by auto

text \<open>When the last thread of a process is dropped, the process has exited (with code 0 unless it
  had a return code already) and no job lists it any more.\<close>

theorem last_thread_leaves:
  fixes s0 s :: "'a task_state_scheme"
  assumes "task_reach s0 s" and "task_wf s0" and "threads s x = Some th" and "procs s (th_proc th) = Some p"
    and "set (pr_threads p) \<subseteq> {x}"
  shows "\<exists>t p'. current_thread_drop x s = (Inr (), t) \<and> procs t (th_proc th) = Some p' \<and> pr_threads p' = [] \<and>
     pr_status p' = (if exited p then pr_status p else PS_Exited 0) \<and>
     map_option th_state (threads t x) = Some TS_Dead \<and>
     (\<forall>y i. jobs t y = Some i \<longrightarrow> th_proc th \<notin> set (jb_processes i))"
proof -
  have I: "task_inv s" using task_reach_wf [OF assms(1,2)] by (simp add: task_wf_def)
  let ?u = "put_thread x (change_state TS_Dead th) s"
  have only: "threads_only s ?u" by (rule threads_only_put [OF assms(3)]) (simp add: change_state_def)
  then have Iu: "task_inv ?u" using threads_only_inv [OF only] I by blast
  have run: "current_thread_drop x s = remove_thread (th_proc th) x ?u"
    using assms(3) by (simp add: current_thread_drop_def with_thread_def)
  have "filter (\<lambda>y. y \<noteq> x) (pr_threads p) = []" using assms(5) by (auto simp: filter_empty_conv)
  then show ?thesis
    using remove_thread_inv [OF Iu, of "th_proc th" p x] assms(4) run by (auto simp: change_state_def)
qed

lemma last_thread_leaves_witness:
  "\<exists>t p'. current_thread_drop 4 demo_tasks = (Inr (), t) \<and> procs t 3 = Some p' \<and> pr_status p' = PS_Exited 0"
  using last_thread_leaves [OF tr_init demo_tasks_wf, of 4 demo_thread demo_process] by auto

subsection \<open>Policies\<close>

lemma apply_policies_wf: "policy_wf (snd (apply_policies opt q bs p)) = policy_wf p"
  by (induction bs arbitrary: p) (auto split: set_policy_options.split)



text \<open>\<open>set_policy_basic\<close> with the option \<open>Absolute\<close> is not atomic: when a later policy conflicts with
  the parent's, the call fails and the policies before it stay set.\<close>

theorem set_policy_absolute_partial:
  "apply_policies Absolute (policy_apply job_policy_default \<lparr>condition = NewChannel, bp_action = PA_Deny\<rparr>)
      [\<lparr>condition = NewVMO, bp_action = PA_Kill\<rparr>, \<lparr>condition = NewChannel, bp_action = PA_Allow\<rparr>] job_policy_default =
     (Inl (Err ALREADY_EXISTS), policy_apply job_policy_default \<lparr>condition = NewVMO, bp_action = PA_Kill\<rparr>)"
  by (simp add: get_action_apply)

subsection \<open>Suspended threads\<close>



text \<open>\<open>start\<close> does not look at the state of the thread: a thread that is dying, or dead, but has its
  context, is set running again and handed to the executor.\<close>

theorem start_revives:
  fixes s :: "'a task_state_scheme"
  assumes "threads s k = Some th" and "th_context th = Some cx"
  shows "\<exists>t th'. thread_start k entry stack a1 a2 s = (Inr (), t) \<and> threads t k = Some th' \<and>
     th_state th' = TS_Running \<and> spawned t = spawned s @ [k] \<and> th_killed th' = th_killed th \<and>
     (\<exists>cx'. th_context th' = Some cx' \<and> cx' Rip = entry \<and> cx' Rsp = stack \<and> cx' Rdi = a1 \<and> cx' Rsi = a2)"
  using assms by (simp add: thread_start_def with_thread_def change_state_def start_context_def)

lemma start_revives_witness:
  "\<exists>t u th'. thread_kill 4 demo_tasks = (Inr (), t) \<and> map_option th_state (threads t 4) = Some TS_Dying \<and>
     thread_start 4 1 2 3 4 t = (Inr (), u) \<and> threads u 4 = Some th' \<and> th_state th' = TS_Running"
proof -
  obtain t where t: "thread_kill 4 demo_tasks = (Inr (), t)"
    "threads t 4 = Some (change_state TS_Dying (demo_thread\<lparr>th_killed := True, th_waker := None\<rparr>))"
    by (simp add: thread_kill_def thread_stop_def with_thread_def)
  then show ?thesis
    using start_revives [of t 4 "change_state TS_Dying (demo_thread\<lparr>th_killed := True, th_waker := None\<rparr>)" "\<lambda>_. 0" 1 2 3 4]
    by (auto simp: change_state_def)
qed

subsection \<open>Registers\<close>

lemma reg_of_reg_bytes [simp]: "reg_of_bytes (reg_bytes v) = v"
proof -
  have "unat v < 256 ^ 8" using unsigned_less [of v] by simp
  then show ?thesis by (simp add: reg_of_bytes_def reg_bytes_def le_nat_le_bytes)
qed

lemma length_reg_bytes [simp]: "length (reg_bytes v) = 8"
  by (simp add: reg_bytes_def)

lemma length_context_bytes [simp]: "length (context_bytes layout cx) = 8 * length layout"
  by (induction layout) (simp_all add: context_bytes_def)

lemma context_of_context_bytes:
  "context_of_bytes layout (context_bytes layout cx) cx' r = (if r \<in> set layout then cx r else cx' r)"
  by (induction layout) (auto simp: context_bytes_def)

lemma read_write_struct:
  "write_struct v buf = Inr (out, n) \<Longrightarrow> n = length v \<and> take (length v) out = v \<and> length out = length buf"
proof -
  assume w: "write_struct v buf = Inr (out, n)"
  then have "length v \<le> length buf" "out = splice_at buf 0 v" "n = length v"
    by (auto simp: write_struct_def split: if_splits)
  then show ?thesis using length_splice_at [of 0 v buf] splice_at_read [of 0 v buf] by simp
qed

definition kind_regs :: "reg list \<Rightarrow> state_kind \<Rightarrow> reg set" where
  "kind_regs layout kind = (case kind of SK_General \<Rightarrow> set layout | SK_FS \<Rightarrow> {Fsbase} | SK_GS \<Rightarrow> {Gsbase})"

text \<open>C30. The registers read from one stopped thread and written to another arrive unchanged: exactly
  the registers of the requested kind are copied, in whatever order the layout of the register
  structure has them.\<close>

theorem registers_roundtrip:
  fixes s t :: "'a task_state_scheme"
  assumes "thread_read_state layout a kind buf s = Inr (out, n)"
    and "thread_write_state layout b kind out s = (Inr (), t)" and "threads s a = Some ta" and "threads s b = Some tb"
  shows "\<exists>ca cb cb'. th_context ta = Some ca \<and> th_context tb = Some cb \<and>
     threads t b = Some (tb\<lparr>th_context := Some cb'\<rparr>) \<and>
     (\<forall>r. cb' r = (if r \<in> kind_regs layout kind then ca r else cb r)) \<and>
     n \<le> length buf \<and> length out = length buf"
proof -
  obtain ca where ca: "th_context ta = Some ca" "context_read layout kind ca buf = Inr (out, n)"
    using assms(1,3) by (auto simp: thread_read_state_def get_thread_def ok_or_def rbind_eq_Inr split: if_splits option.splits)
  obtain cb cb' where cb: "th_context tb = Some cb" "context_write layout kind out cb = Inr cb'"
    "t = put_thread b (tb\<lparr>th_context := Some cb'\<rparr>) s"
    using assms(2,4) by (auto simp: thread_write_state_def with_thread_def ok_or_def split: if_splits option.splits sum.splits)
  have "(\<forall>r. cb' r = (if r \<in> kind_regs layout kind then ca r else cb r)) \<and> n \<le> length buf \<and> length out = length buf"
  proof (cases kind)
    case SK_General
    have w: "write_struct (context_bytes layout ca) buf = Inr (out, n)" using ca(2) SK_General by simp
    note R = read_write_struct [OF w]
    have le: "8 * length layout \<le> length buf" using w by (simp add: write_struct_def split: if_splits)
    have "cb' = context_of_bytes layout (context_bytes layout ca) cb"
      using cb(2) SK_General R by (auto simp: read_struct_def split: if_splits)
    then show ?thesis using R le SK_General by (simp add: context_of_context_bytes kind_regs_def)
  next
    case SK_FS
    have w: "write_struct (reg_bytes (ca Fsbase)) buf = Inr (out, n)" using ca(2) SK_FS by simp
    note R = read_write_struct [OF w]
    have le: "8 \<le> length buf" using w by (simp add: write_struct_def split: if_splits)
    have "cb' = cb(Fsbase := ca Fsbase)"
      using cb(2) SK_FS R by (auto simp: read_struct_def split: if_splits)
    then show ?thesis using R le SK_FS by (simp add: kind_regs_def)
  next
    case SK_GS
    have w: "write_struct (reg_bytes (ca Gsbase)) buf = Inr (out, n)" using ca(2) SK_GS by simp
    note R = read_write_struct [OF w]
    have le: "8 \<le> length buf" using w by (simp add: write_struct_def split: if_splits)
    have "cb' = cb(Gsbase := ca Gsbase)"
      using cb(2) SK_GS R by (auto simp: read_struct_def split: if_splits)
    then show ?thesis using R le SK_GS by (simp add: kind_regs_def)
  qed
  moreover have "threads t b = Some (tb\<lparr>th_context := Some cb'\<rparr>)" by (simp add: cb(3))
  ultimately show ?thesis using ca(1) cb(1) by blast
qed

lemma registers_roundtrip_witness:
  "\<exists>(s :: task_state) out t cb'. thread_read_state [Rip, Fsbase] 4 SK_General (replicate 16 0) s = Inr (out, 16) \<and>
     thread_write_state [Rip, Fsbase] 4 SK_General out s = (Inr (), t) \<and>
     map_option th_context (threads t 4) = Some (Some cb') \<and> cb' Rip = 0"
proof -
  let ?th = "demo_thread\<lparr>th_suspend_count := 1\<rparr>"
  let ?s = "put_thread 4 ?th demo_tasks"
  let ?out = "splice_at (replicate 16 0) 0 (context_bytes [Rip, Fsbase] (\<lambda>_. 0))"
  have r: "thread_read_state [Rip, Fsbase] 4 SK_General (replicate 16 0) ?s = Inr (?out, 16)"
    by (simp add: thread_read_state_def get_thread_def reported_state_def write_struct_def)
  obtain t where w: "thread_write_state [Rip, Fsbase] 4 SK_General ?out ?s = (Inr (), t)"
    by (simp add: thread_write_state_def with_thread_def reported_state_def read_struct_def)
  have "\<exists>cb'. map_option th_context (threads t 4) = Some (Some cb') \<and> cb' Rip = 0"
    using registers_roundtrip [OF r w, of ?th ?th] by auto
  then show ?thesis using r w by blast
qed

subsection \<open>Starting a process\<close>

text \<open>When the first thread of a process cannot start, because a runner holds its context, the
  handle given to the new process is taken back, but the process stays \<open>Running\<close>: a second
  \<open>start\<close> fails with \<open>BAD_STATE\<close> for ever.\<close>

lemma failed_start_leaves_running:
  fixes s :: "'a task_state_scheme"
  assumes "procs s k = Some p" and "x \<in> set (pr_threads p)" and "pr_status p = PS_Init" and "table_ok p"
    and "0 < table_room p" and "threads s x = Some th" and "th_context th = None"
  shows "\<exists>t p'. process_start k x entry stack (Some h) a2 s = (Inl (Err BAD_STATE), t) \<and>
     procs t k = Some p' \<and> pr_status p' = PS_Running \<and> pr_handles p' = pr_handles p \<and>
     process_start k x entry' stack' h' a2' t = (Inl (Err BAD_STATE), t)"
proof -
  let ?p0 = "p\<lparr>pr_status := PS_Running\<rparr>"
  have "table_ok ?p0" "0 < table_room ?p0" using assms(4,5) by (simp_all add: table_ok_def table_room_def)
  then obtain v p1 where p1: "table_add h ?p0 = (Inr v, p1)" "pr_handles p v = None" "pr_handles p1 = (pr_handles p)(v \<mapsto> h)"
    using ht.add_ok [of ?p0 h] by auto
  have same: "pr_status p1 = PS_Running" "pr_threads p1 = pr_threads p" using table_fields(1-3) [of h ?p0] p1(1) by simp_all
  have v: "v \<noteq> INVALID_HANDLE"
  proof
    assume v: "v = INVALID_HANDLE"
    have "unat (pr_max_handle_id ?p0) < 2 ^ 30" using assms(5) by (simp add: table_room_def)
    then have "unat v = 4 * unat (pr_max_handle_id ?p0) + 3"
      using p1(1) unat_handle_key by (auto simp: table_add_def handle_key Let_def split: if_splits)
    then show False using v by (simp add: INVALID_HANDLE_def)
  qed
  let ?u = "put_thread x (th\<lparr>th_first := True\<rparr>) (put_proc k p1 s)"
  let ?p2 = "p1\<lparr>pr_handles := (pr_handles p1)(v := None)\<rparr>"
  have start: "thread_start x entry stack (ucast v) a2 ?u = (Inl (Err BAD_STATE), ?u)"
    using assms(7) by (simp add: thread_start_def with_thread_def)
  have "process_remove_handle k v ?u = (Inr h, put_proc k ?p2 ?u)"
    using p1(3) by (simp add: process_remove_handle_def on_table_def with_proc_def table_remove_def)
  then have run: "process_start k x entry stack (Some h) a2 s = (Inl (Err BAD_STATE), put_proc k ?p2 ?u)"
    using assms(1-3,6) p1(1) v start
    by (simp add: process_start_def with_proc_def contains_thread_def start_arg_def set_first_thread_def with_thread_def
        sbind_def)
  have "pr_handles ?p2 = pr_handles p" using p1(2,3) by auto
  then show ?thesis
    using run same assms(2) by (auto simp: process_start_def with_proc_def contains_thread_def)
qed

lemma demo_table: "table_ok demo_process" "0 < table_room demo_process"
  by (auto simp: table_ok_def table_room_def demo_process_def)

lemma failed_start_leaves_running_witness:
  "\<exists>(s :: task_state) t p'. process_start 3 4 1 2 (Some (handle_new (KObj T_Job 1) 0)) 3 s = (Inl (Err BAD_STATE), t) \<and>
     procs t 3 = Some p' \<and> pr_status p' = PS_Running"
proof -
  let ?s = "put_thread 4 (demo_thread\<lparr>th_context := None\<rparr>) demo_tasks"
  show ?thesis
    using failed_start_leaves_running [of ?s 3 demo_process 4 "demo_thread\<lparr>th_context := None\<rparr>" 1 2 "handle_new (KObj T_Job 1) 0" 3]
      demo_table by fastforce
qed

subsection \<open>Handles\<close>

text \<open>A table that has given out fewer than \<open>2 ^ 30\<close> handles gives a new handle a value that is not
  in use, finds the handle under it, and changes no other entry.\<close>

theorem add_handle_fresh:
  fixes s :: "'a task_state_scheme"
  assumes "procs s k = Some p" and "table_ok p" and "unat (pr_max_handle_id p) < 2 ^ 30"
  shows "\<exists>v t. process_add_handle k h s = (Inr v, t) \<and> process_get_handle k v s = Inl (Err BAD_HANDLE) \<and>
     process_get_handle k v t = Inr h \<and> (\<forall>w. w \<noteq> v \<longrightarrow> process_get_handle k w t = process_get_handle k w s)"
proof -
  have "0 < table_room p" using assms(3) by (simp add: table_room_def)
  from ht.add_ok [OF assms(2) this, of h] show ?thesis
    using assms(1)
    by (auto simp: process_add_handle_def on_table_def with_proc_def process_get_handle_def get_proc_def table_get_def)
qed

lemma add_handle_fresh_witness:
  "\<exists>v t. process_add_handle 3 (handle_new (KObj T_Job 1) 0) demo_tasks = (Inr v, t) \<and>
     process_get_handle 3 v t = Inr (handle_new (KObj T_Job 1) 0)"
  using add_handle_fresh [of demo_tasks 3 demo_process "handle_new (KObj T_Job 1) 0"] demo_table
  by (auto simp: table_room_def)

text \<open>Handles moved from one process to another, as a message moves them, arrive complete and in
  order under fresh values, are gone from the sender, and leave every other handle of the receiver
  alone.\<close>

lemma handles_move:
  fixes s :: "'a task_state_scheme"
  assumes "procs s a = Some pa" and "procs s b = Some pb" and "a \<noteq> b" and "table_ok pa" and "table_ok pb"
    and "distinct vs" and "map (pr_handles pa) vs = map Some hs" and "length hs \<le> table_room pb"
  shows "\<exists>t ws u. process_remove_handles a vs s = (Inr hs, t) \<and> process_add_handles b hs t = (Inr ws, u) \<and>
     map (\<lambda>w. process_get_handle b w u) ws = map Inr hs \<and>
     (\<forall>v \<in> set vs. process_get_handle a v u = Inl (Err BAD_HANDLE)) \<and>
     (\<forall>w. w \<notin> set ws \<longrightarrow> process_get_handle b w u = process_get_handle b w s)"
proof -
  obtain pa' ws pb' where m: "table_remove_all vs pa = (Inr hs, pa')" "table_add_all hs pb = (Inr ws, pb')"
    "map (pr_handles pb') ws = map Some hs" "\<forall>v \<in> set vs. pr_handles pa' v = None"
    "\<forall>w. w \<notin> set ws \<longrightarrow> pr_handles pb' w = pr_handles pb w"
    using ht.move [OF assms(4,6,7,5,8)] unfolding table_add_all_st_map table_remove_all_st_map by blast
  let ?t = "put_proc a pa' s"
  let ?u = "put_proc b pb' ?t"
  have get: "process_get_handle b w ?u = ok_or (Err BAD_HANDLE) (pr_handles pb' w)" for w
    by (simp add: process_get_handle_def get_proc_def table_get_def)
  have "map (\<lambda>w. ok_or (Err BAD_HANDLE) (pr_handles pb' w)) ws = map (ok_or (Err BAD_HANDLE)) (map (pr_handles pb') ws)"
    by simp
  also have "\<dots> = map Inr hs" unfolding m(3) by (simp add: o_def)
  finally have "map (\<lambda>w. process_get_handle b w ?u) ws = map Inr hs" by (simp add: get)
  moreover have "process_remove_handles a vs s = (Inr hs, ?t)" "process_add_handles b hs ?t = (Inr ws, ?u)"
    using assms(1-3) m(1,2)
    by (simp_all add: process_remove_handles_def process_add_handles_def on_table_def with_proc_def)
  ultimately show ?thesis
    using assms(1-3) m(4,5)
    by (intro exI [of _ ?t] exI [of _ ws] exI [of _ ?u]) (simp add: process_get_handle_def get_proc_def table_get_def)
qed

text \<open>After \<open>2 ^ 30\<close> handles the values repeat: the table gives out the value of the very first
  handle again and overwrites it if it is still in use.\<close>

theorem handle_value_reused:
  assumes "unat (pr_max_handle_id p) = 2 ^ 30"
  shows "\<exists>p'. table_add h p = (Inr 3, p') \<and> pr_handles p' = (pr_handles p)(3 \<mapsto> h)"
proof -
  have i: "pr_max_handle_id p = 2 ^ 30" using assms by (simp add: word_unat_eq_iff)
  have key: "push_bit 2 (2 ^ 30 :: u32) OR 3 = 3" unfolding handle_key word_unat_eq_iff by simp
  show ?thesis unfolding table_add_def Let_def i key by simp
qed

lemma handles_move_witness:
  "\<exists>(s :: task_state) t ws u. process_remove_handles 3 [3] s = (Inr [handle_new (KObj T_Job 2) R_DEFAULT_JOB], t) \<and>
     process_add_handles 7 [handle_new (KObj T_Job 2) R_DEFAULT_JOB] t = (Inr ws, u) \<and>
     map (\<lambda>w. process_get_handle 7 w u) ws = [Inr (handle_new (KObj T_Job 2) R_DEFAULT_JOB)]"
proof -
  let ?s = "put_proc 7 (demo_process\<lparr>pr_max_handle_id := 5\<rparr>) demo_tasks"
  have h: "map (pr_handles demo_process) [3] = map Some [handle_new (KObj T_Job 2) R_DEFAULT_JOB]"
    by (simp add: demo_process_def)
  have b: "table_ok (demo_process\<lparr>pr_max_handle_id := 5\<rparr>)"
    "length [handle_new (KObj T_Job 2) R_DEFAULT_JOB] \<le> table_room (demo_process\<lparr>pr_max_handle_id := 5\<rparr>)"
    by (auto simp: table_ok_def table_room_def demo_process_def)
  show ?thesis
    using handles_move [of ?s 3 demo_process 7 "demo_process\<lparr>pr_max_handle_id := 5\<rparr>" "[3]", OF _ _ _ demo_table(1) b(1) _ h b(2)]
    by fastforce
qed

lemma handle_value_reused_witness:
  "\<exists>p'. table_add (handle_new (KObj T_Job 1) 0) (demo_process\<lparr>pr_max_handle_id := 2 ^ 30\<rparr>) = (Inr 3, p') \<and>
     pr_handles p' 3 = Some (handle_new (KObj T_Job 1) 0) \<and> pr_handles demo_process 3 \<noteq> None"
proof -
  have "unat (pr_max_handle_id (demo_process\<lparr>pr_max_handle_id := 2 ^ 30\<rparr>)) = 2 ^ 30" by simp
  from handle_value_reused [OF this, of "handle_new (KObj T_Job 1) 0"] show ?thesis
    by (auto simp: demo_process_def)
qed

text \<open>A lookup with rights answers in a fixed order: an unused value is \<open>BAD_HANDLE\<close>, an object of
  another type \<open>WRONG_TYPE\<close> whatever the rights, and a missing right \<open>ACCESS_DENIED\<close>; otherwise the
  handle carries every right asked for.\<close>

theorem get_object_order:
  assumes "procs s k = Some p"
  shows "get_object_with_rights t k v desired s =
     (case pr_handles p v of
        None \<Rightarrow> Inl (Err BAD_HANDLE)
      | Some h \<Rightarrow> if ref_type (object h) \<noteq> t then Inl (Err WRONG_TYPE)
          else if \<exists>n. bit desired n \<and> \<not> bit (rights h) n then Inl (Err ACCESS_DENIED)
          else Inr (ref_id (object h)))"
proof -
  have "flags_contains (rights h) desired \<longleftrightarrow> \<not> (\<exists>n. bit desired n \<and> \<not> bit (rights h) n)" for h
    using bit_imp_le_length [of desired] by (auto simp: flags_contains_bits)
  then show ?thesis
    using assms
    by (auto simp: get_object_with_rights_def process_get_handle_def get_proc_def table_get_def downcast_or_wrong_def
        downcast_def split: option.split)
qed

lemma get_object_order_witness:
  "get_object_with_rights T_Process 3 3 0 demo_tasks = Inl (Err WRONG_TYPE)"
  using get_object_order [of demo_tasks 3 demo_process T_Process 3 0]
  by (simp add: demo_process_def handle_new_def)

end
