(* ===== verification/Task_Dissolve.thy ===== *)
theory Task_Dissolve
  imports Task_Props
begin

text \<open>
  What becomes of a killed job. Killing marks the jobs below it and dooms their threads, which leave
  in their own time; each leaving thread may end its process, its job and the jobs above. When the
  last one has left nothing of the tree is left, whatever the order.
\<close>

definition jobs_evolve :: "'a task_state_scheme \<Rightarrow> 'a task_state_scheme \<Rightarrow> bool" where
  "jobs_evolve s t \<longleftrightarrow> (\<forall>k. rel_option job_evolves (jobs s k) (jobs t k))"

lemma jobs_evolve_same: "jobs t = jobs s \<Longrightarrow> jobs_evolve s t"
  by (simp add: jobs_evolve_def option.rel_refl)

lemma job_evolves_trans: "job_evolves i j \<Longrightarrow> job_evolves j k \<Longrightarrow> job_evolves i k"
  by (auto simp: job_evolves_def)

lemma jobs_evolve_trans:
  assumes "jobs_evolve s t" and "jobs_evolve t u"
  shows "jobs_evolve s u"
proof -
  have "rel_option job_evolves (jobs s k) (jobs u k)" for k
    using assms job_evolves_trans unfolding jobs_evolve_def
    by (cases "jobs s k"; cases "jobs t k"; cases "jobs u k") (force dest: spec [of _ k])+
  then show ?thesis by (simp add: jobs_evolve_def)
qed

lemma evolves_jobs: "evolves s t \<Longrightarrow> jobs_evolve s t"
  by (simp add: evolves_def rel_fun_def jobs_evolve_def)

lemma under_evolve:
  assumes "jobs_evolve s t"
  shows "(under t)\<^sup>*\<^sup>* = (under s)\<^sup>*\<^sup>*"
proof -
  have "under t a b \<longleftrightarrow> under s a b" for a b
    using assms unfolding jobs_evolve_def under_def
    by (cases "jobs s a"; cases "jobs t a") (auto simp: job_evolves_def dest: spec [of _ a])
  then have "under t = under s" by (intro ext) blast
  then show ?thesis by simp
qed

subsection \<open>A thread leaves\<close>

lemma thread_leaves:
  fixes s :: "'a task_state_scheme"
  assumes wf: "task_wf s" and th: "threads s x = Some th" and p: "procs s (th_proc th) = Some p"
  obtains t p' where "current_thread_drop x s = (Inr (), t)" "task_wf t" "jobs_evolve s t"
    "\<And>y. map_option th_proc (threads t y) = map_option th_proc (threads s y)"
    "procs t = (procs s)(th_proc th \<mapsto> p')" "pr_job p' = pr_job p" "pr_threads p' = filter (\<lambda>y. y \<noteq> x) (pr_threads p)"
proof -
  let ?k = "th_proc th" and ?s1 = "put_thread x (change_state TS_Dead th) s"
  let ?p = "p\<lparr>pr_threads := filter (\<lambda>y. y \<noteq> x) (pr_threads p)\<rparr>"
  let ?u = "put_proc ?k ?p ?s1"
  have only: "threads_only s ?s1" by (rule threads_only_put [OF th]) (simp add: change_state_def)
  have I1: "task_inv ?s1" using threads_only_inv [OF only] wf by (simp add: task_wf_def)
  have p1: "procs ?s1 ?k = Some p" using p by simp
  have P: "distinct (pr_threads p)" "\<forall>t \<in> set (pr_threads p). \<exists>th'. threads ?s1 t = Some th' \<and> th_proc th' = ?k"
    using task_invD(2) [OF I1 p1] by (simp_all add: proc_ok_def)
  have run: "current_thread_drop x s = (if pr_threads ?p = [] then process_terminate ?k ?u else (Inr (), ?u))"
    using th p1 by (simp add: current_thread_drop_def with_thread_def remove_thread_def with_proc_def Let_def)
  have th_same: "map_option th_proc (threads ?u y) = map_option th_proc (threads s y)" for y
    using th by (simp add: change_state_def put_proc_def put_thread_def)
  have "\<exists>t p'. current_thread_drop x s = (Inr (), t) \<and> task_inv t \<and> jobs_evolve s t \<and> threads t = threads ?u \<and>
     procs t = (procs s)(?k \<mapsto> p') \<and> pr_job p' = pr_job p \<and> pr_threads p' = filter (\<lambda>y. y \<noteq> x) (pr_threads p)"
  proof (cases "pr_threads ?p = []")
    case True
    have "task_inv_x {} {?k} ?u" by (rule put_threads_inv [OF I1 p1]) (use P in auto)
    from process_terminate_inv [OF this, of ?p] True obtain t where t: "process_terminate ?k ?u = (Inr (), t)" "task_inv t"
      "evolves ?u t" "threads t = threads ?u" "procs t = (procs ?u)(?k \<mapsto> ?p\<lparr>pr_status := (if exited ?p then pr_status ?p else PS_Exited 0)\<rparr>)"
      by auto
    have "jobs_evolve s t" by (rule jobs_evolve_trans [OF jobs_evolve_same evolves_jobs [OF t(3)]]) simp
    then show ?thesis using run True t by (intro exI [of _ t] exI) auto
  next
    case False
    have "task_inv ?u" by (rule put_threads_inv [OF I1 p1]) (use P False in auto)
    then show ?thesis using run False by (intro exI [of _ ?u] exI [of _ ?p]) (simp add: jobs_evolve_same)
  qed
  then obtain t p' where t: "current_thread_drop x s = (Inr (), t)" "task_inv t" "jobs_evolve s t" "threads t = threads ?u"
    "procs t = (procs s)(?k \<mapsto> p')" "pr_job p' = pr_job p" "pr_threads p' = filter (\<lambda>y. y \<noteq> x) (pr_threads p)" by blast
  have "task_wf t"
    using kill_frame_closed [OF _ kill_frame_thread_drop [of s x]] wf t(1,2) by (simp add: task_wf_def)
  then show ?thesis using t th_same by (intro that [of t p']) simp_all
qed

lemma threads_leave:
  fixes s :: "'a task_state_scheme"
  assumes "task_wf s" and "\<forall>x \<in> set ts. \<exists>th p. threads s x = Some th \<and> procs s (th_proc th) = Some p"
  shows "\<exists>t. sfor current_thread_drop ts s = (Inr (), t) \<and> task_wf t \<and> jobs_evolve s t \<and>
     (\<forall>q p'. procs t q = Some p' \<longrightarrow> (\<exists>p. procs s q = Some p \<and> pr_job p' = pr_job p \<and>
        set (pr_threads p') \<subseteq> {x \<in> set (pr_threads p). \<not> (x \<in> set ts \<and> map_option th_proc (threads s x) = Some q)}))"
  using assms
proof (induction ts arbitrary: s)
  case Nil
  then show ?case by (auto simp: jobs_evolve_same)
next
  case (Cons x ts)
  obtain th p where th: "threads s x = Some th" "procs s (th_proc th) = Some p" using Cons.prems(2) by auto
  obtain u q' where u: "current_thread_drop x s = (Inr (), u)" "task_wf u" "jobs_evolve s u"
    "\<And>y. map_option th_proc (threads u y) = map_option th_proc (threads s y)"
    "procs u = (procs s)(th_proc th \<mapsto> q')" "pr_job q' = pr_job p" "pr_threads q' = filter (\<lambda>y. y \<noteq> x) (pr_threads p)"
    by (rule thread_leaves [OF Cons.prems(1) th]) (rule that)
  have "\<exists>th' p'. threads u y = Some th' \<and> procs u (th_proc th') = Some p'" if y: "y \<in> set ts" for y
  proof -
    obtain th1 p1 where "threads s y = Some th1" "procs s (th_proc th1) = Some p1" using Cons.prems(2) y by auto
    then show ?thesis using u(4) [of y] u(5) by (cases "threads u y") auto
  qed
  then obtain t where t: "sfor current_thread_drop ts u = (Inr (), t)" "task_wf t" "jobs_evolve u t"
    "\<And>q p'. procs t q = Some p' \<Longrightarrow> \<exists>p. procs u q = Some p \<and> pr_job p' = pr_job p \<and>
        set (pr_threads p') \<subseteq> {y \<in> set (pr_threads p). \<not> (y \<in> set ts \<and> map_option th_proc (threads u y) = Some q)}"
    using Cons.IH [OF u(2)] by blast
  have "\<exists>p. procs s q = Some p \<and> pr_job p' = pr_job p \<and>
      set (pr_threads p') \<subseteq> {y \<in> set (pr_threads p). \<not> (y \<in> set (x # ts) \<and> map_option th_proc (threads s y) = Some q)}"
    if q: "procs t q = Some p'" for q p'
  proof -
    obtain p1 where p1: "procs u q = Some p1" "pr_job p' = pr_job p1"
      "set (pr_threads p') \<subseteq> {y \<in> set (pr_threads p1). \<not> (y \<in> set ts \<and> map_option th_proc (threads s y) = Some q)}"
      using t(4) [OF q] unfolding u(4) by blast
    then show ?thesis using u(5-7) th by (cases "q = th_proc th") auto
  qed
  then show ?case using u(1) t(1-3) jobs_evolve_trans [OF u(3) t(3)] by (intro exI [of _ t]) (simp add: sbind_def)
qed

subsection \<open>Nothing is left\<close>

lemma list_emptyI: "(\<And>x. x \<in> set xs \<Longrightarrow> False) \<Longrightarrow> xs = []"
  by (cases xs) auto

lemma killed_empty:
  fixes s :: "'a task_state_scheme"
  assumes wf: "task_wf s" and idle: "\<And>q p. procs s q = Some p \<Longrightarrow> (under s)\<^sup>*\<^sup>* (pr_job p) k \<Longrightarrow> pr_threads p = []"
    and j: "jobs s k = Some j" "jb_killed j"
  shows "job_vacant j"
  using idle j
proof (induction "unat (next_koid s) - unat k" arbitrary: k j rule: less_induct)
  case less
  note I = wf [unfolded task_wf_def, THEN conjunct1] and C = wf [unfolded task_wf_def, THEN conjunct2]
  have "jb_children j = []"
  proof (rule list_emptyI)
    fix c assume c: "c \<in> set (jb_children j)"
    obtain cj where cj: "jobs s c = Some cj" "jb_parent cj = Some k" "k < c" "jb_killed cj \<Longrightarrow> job_vacant cj \<Longrightarrow> c \<in> {}"
      by (rule listed_child [OF I less.prems(2) c]) (rule that)
    have killed: "jb_killed cj" using C cj(1,2) less.prems(2,3) unfolding kill_closed_def by blast
    have "c < next_koid s" using task_invD(1) [OF I cj(1)] by (simp add: job_ok_def)
    then have "unat (next_koid s) - unat c < unat (next_koid s) - unat k" using cj(3) by (simp add: word_less_nat_alt)
    moreover have "pr_threads p = []" if "procs s q = Some p" "(under s)\<^sup>*\<^sup>* (pr_job p) c" for q p
      using less.prems(1) [OF that(1)] rtranclp.rtrancl_into_rtrancl [OF that(2), of k] cj(1,2) by (auto simp: under_def)
    ultimately have "job_vacant cj" using less.hyps cj(1) killed by blast
    then show False using cj(4) killed by simp
  qed
  moreover have "jb_processes j = []"
  proof (rule list_emptyI)
    fix q assume q: "q \<in> set (jb_processes j)"
    obtain p where p: "procs s q = Some p" "pr_job p = k" "exited p \<Longrightarrow> pr_threads p = [] \<Longrightarrow> q \<in> {}"
      by (rule listed_process [OF I less.prems(2) q]) (rule that)
    have "exited p" using C p(1,2) less.prems(2,3) unfolding kill_closed_def by blast
    moreover have "pr_threads p = []" using less.prems(1) [OF p(1)] p(2) by simp
    ultimately show False using p(3) by simp
  qed
  ultimately show ?case by (simp add: job_vacant_def)
qed

text \<open>C5. A killed job dissolves. Killing a job in a reachable state and then letting the threads below it
  leave, in any order, always succeeds and leaves nothing: every job below has neither processes nor
  children, and no job lists the killed one any more.\<close>

theorem killed_job_dissolves:
  fixes s0 s :: "'a task_state_scheme"
  assumes reach: "task_reach s0 s" "task_wf s0" and j: "jobs s k = Some j"
    and ts: "set ts = {x. \<exists>q p. procs s q = Some p \<and> (under s)\<^sup>*\<^sup>* (pr_job p) k \<and> x \<in> set (pr_threads p)}"
  shows "\<exists>t u. job_kill (task_fuel s) k s = (Inr (), t) \<and> sfor current_thread_drop ts t = (Inr (), u) \<and>
     (\<forall>x. (under s)\<^sup>*\<^sup>* x k \<longrightarrow> (\<exists>i. jobs u x = Some i \<and> jb_children i = [] \<and> jb_processes i = [])) \<and>
     (\<forall>y i. jobs u y = Some i \<longrightarrow> k \<notin> set (jb_children i))"
proof -
  have wf: "task_wf s" by (rule task_reach_wf [OF reach])
  obtain t j' where t: "job_kill (task_fuel s) k s = (Inr (), t)" "task_wf t" "evolves s t" "jobs t k = Some j'" "jb_killed j'"
    using kill_closed_job_kill [OF wf j] by blast
  have It: "task_inv t" using t(2) by (simp add: task_wf_def)
  have own: "\<exists>th. threads t x = Some th \<and> th_proc th = q" if "procs t q = Some p'" "x \<in> set (pr_threads p')" for q p' x
    using task_invD(2) [OF It that(1)] that(2) by (simp add: proc_ok_def)
  have "\<exists>th p. threads t x = Some th \<and> procs t (th_proc th) = Some p" if x: "x \<in> set ts" for x
  proof -
    obtain q p where q: "procs s q = Some p" "x \<in> set (pr_threads p)" using x ts by blast
    obtain p' where p': "procs t q = Some p'" "proc_evolves p p'" by (rule evolves_proc [OF t(3) q(1)])
    then show ?thesis using own [OF p'(1), of x] q(2) by (auto simp: proc_evolves_def)
  qed
  then obtain u where u: "sfor current_thread_drop ts t = (Inr (), u)" "task_wf u" "jobs_evolve t u"
    "\<And>q p'. procs u q = Some p' \<Longrightarrow> \<exists>p. procs t q = Some p \<and> pr_job p' = pr_job p \<and>
        set (pr_threads p') \<subseteq> {x \<in> set (pr_threads p). \<not> (x \<in> set ts \<and> map_option th_proc (threads t x) = Some q)}"
    using threads_leave [OF t(2), of ts] by blast
  note ev = jobs_evolve_trans [OF evolves_jobs [OF t(3)] u(3)]
  have C: "kill_closed {} u" and Iu: "task_inv u" using u(2) by (simp_all add: task_wf_def)
  obtain ju where ju: "jobs u k = Some ju" "jb_killed ju"
    using u(3) t(4,5) unfolding jobs_evolve_def by (auto simp: option_rel_Some1 job_evolves_def dest!: spec [of _ k])
  have idle: "pr_threads p' = []" if q: "procs u q = Some p'" "(under u)\<^sup>*\<^sup>* (pr_job p') k" for q p'
  proof -
    obtain p1 where p1: "procs t q = Some p1" "pr_job p' = pr_job p1"
      "set (pr_threads p') \<subseteq> {x \<in> set (pr_threads p1). \<not> (x \<in> set ts \<and> map_option th_proc (threads t x) = Some q)}"
      using u(4) [OF q(1)] by blast
    obtain p where p: "procs s q = Some p" "proc_evolves p p1" by (rule evolves_proc_back [OF t(3) p1(1)])
    have "(under s)\<^sup>*\<^sup>* (pr_job p) k" using q(2) p1(2) p(2) unfolding under_evolve [OF ev] by (simp add: proc_evolves_def)
    then have "set (pr_threads p1) \<subseteq> set ts" using p ts by (auto simp: proc_evolves_def)
    then show ?thesis using p1(3) own [OF p1(1)] by (intro list_emptyI) fastforce
  qed
  have empty: "\<exists>i. jobs u x = Some i \<and> jb_killed i \<and> job_vacant i" if x: "(under s)\<^sup>*\<^sup>* x k" for x
  proof -
    have xu: "(under u)\<^sup>*\<^sup>* x k" using x unfolding under_evolve [OF ev] .
    obtain i where i: "jobs u x = Some i" "jb_killed i" using under_killed [OF C xu ju] by blast
    have "job_vacant i" using idle rtranclp_trans [OF _ xu] by (intro killed_empty [OF u(2) _ i]) blast
    with i show ?thesis by blast
  qed
  have "k \<notin> set (jb_children i)" if y: "jobs u y = Some i" for y i
  proof
    assume "k \<in> set (jb_children i)"
    then obtain cj where cj: "jobs u k = Some cj" "jb_killed cj \<Longrightarrow> job_vacant cj \<Longrightarrow> k \<in> {}"
      by (rule listed_child [OF Iu y]) (rule that)
    with empty [OF rtranclp.rtrancl_refl] show False by simp
  qed
  then show ?thesis using t(1) u(1) empty unfolding job_vacant_def by blast
qed

lemma killed_job_dissolves_witness:
  "\<exists>t u. job_kill (task_fuel demo_tasks) 1 demo_tasks = (Inr (), t) \<and> sfor current_thread_drop [4] t = (Inr (), u) \<and>
     (\<exists>i. jobs u 2 = Some i \<and> jb_processes i = []) \<and> (\<exists>i. jobs u 1 = Some i \<and> jb_children i = [])"
proof -
  have U: "(under demo_tasks)\<^sup>*\<^sup>* 2 1" by (rule r_into_rtranclp) (simp add: under_def)
  have p: "procs demo_tasks q = Some p \<longleftrightarrow> q = 3 \<and> p = demo_process" for q p by auto
  have "set [4] = {x. \<exists>q p. procs demo_tasks q = Some p \<and> (under demo_tasks)\<^sup>*\<^sup>* (pr_job p) 1 \<and> x \<in> set (pr_threads p)}"
    unfolding p using U by auto
  from killed_job_dissolves [OF tr_init demo_tasks_wf _ this] show ?thesis using U by fastforce
qed

end
