(* ===== verification/Channel.thy ===== *)
theory Channel
  imports Task_Reach
begin

text \<open>
  Channels (\<^verbatim>\<open>zircon-object/src/ipc/channel.rs\<close>): a channel is a pair of endpoints, each with a
  weak reference to the other and a queue of the packets it has received and not yet read. The
  weak reference is the id of the peer, and upgrading it is looking the peer up in the store; the
  endpoint disappears from the store when its last \<open>Arc\<close> goes, which is the operation
  \<open>channel_drop\<close>. The \<open>VecDeque\<close> of the queue is a list with its front first.
\<close>

subsection \<open>Packets\<close>

record message =
  msg_data :: "u8 list"
  msg_handles :: "handle list"

definition message_default :: message where
  "message_default = \<lparr>msg_data = [], msg_handles = []\<rparr>"

definition txid_bytes :: "u32 \<Rightarrow> u8 list" where
  "txid_bytes t = le_bytes 4 (unat t)"

definition set_txid :: "u32 \<Rightarrow> message \<Rightarrow> message" where
  "set_txid t m =
     (if 4 \<le> length (msg_data m) then m\<lparr>msg_data := splice_at (msg_data m) 0 (txid_bytes t)\<rparr> else m)"

definition get_txid :: "message \<Rightarrow> u32" where
  "get_txid m = (if 4 \<le> length (msg_data m) then of_nat (le_nat (take 4 (msg_data m))) else 0)"

subsection \<open>Endpoints\<close>

record channel =
  ch_base :: kobj_base
  ch_peer :: "koid option"
  ch_queue :: "message list"
  ch_next_txid :: u32

record channel_state = task_state +
  channels :: "koid \<Rightarrow> channel option"

definition put_channel :: "koid \<Rightarrow> channel \<Rightarrow> 'a channel_state_scheme \<Rightarrow> 'a channel_state_scheme" where
  "put_channel k c s = s\<lparr>channels := (channels s)(k \<mapsto> c)\<rparr>"

definition get_channel :: "koid \<Rightarrow> 'a channel_state_scheme \<Rightarrow> channel zx" where
  "get_channel k s = ok_or NoRef (channels s k)"

definition with_channel ::
  "koid \<Rightarrow> (channel \<Rightarrow> 'a channel_state_scheme \<Rightarrow> 'b zx \<times> 'a channel_state_scheme) \<Rightarrow>
   'a channel_state_scheme \<Rightarrow> 'b zx \<times> 'a channel_state_scheme" where
  "with_channel k f s = (case channels s k of None \<Rightarrow> (Inl NoRef, s) | Some c \<Rightarrow> f c s)"

definition channel_init :: "kobj_base \<Rightarrow> koid option \<Rightarrow> channel" where
  "channel_init b p = \<lparr>ch_base = b, ch_peer = p, ch_queue = [], ch_next_txid = 0x80000000\<rparr>"

definition channel_create :: "'a channel_state_scheme \<Rightarrow> (koid \<times> koid) \<times> 'a channel_state_scheme" where
  \<comment> \<open>the first endpoint is made with a dangling peer, which is set once the second exists\<close>
  "channel_create s =
     (let (b0, s1) = kobject_base_new s; channel0 = channel_init b0 None;
          (b1, s2) = kobject_base_new s1; channel1 = channel_init b1 (Some (base_id b0));
          channel0' = channel0\<lparr>ch_peer := Some (base_id b1)\<rparr>
      in ((base_id b0, base_id b1), put_channel (base_id b1) channel1 (put_channel (base_id b0) channel0' s2)))"

definition upgrade_peer :: "channel \<Rightarrow> 'a channel_state_scheme \<Rightarrow> koid option" where
  \<comment> \<open>\<open>self.peer.upgrade()\<close>\<close>
  "upgrade_peer c s = (case ch_peer c of None \<Rightarrow> None | Some p \<Rightarrow> if channels s p = None then None else Some p)"

definition channel_peer :: "koid \<Rightarrow> 'a channel_state_scheme \<Rightarrow> kobj_ref zx" where
  "channel_peer k s =
     rbind (get_channel k s) (\<lambda>c. rbind (ok_or (Err PEER_CLOSED) (upgrade_peer c s)) (\<lambda>p. Inr (KObj T_Channel p)))"

definition channel_related_koid :: "koid \<Rightarrow> 'a channel_state_scheme \<Rightarrow> koid zx" where
  "channel_related_koid k s =
     rbind (get_channel k s) (\<lambda>c. Inr (case upgrade_peer c s of None \<Rightarrow> 0 | Some p \<Rightarrow> p))"

definition peer_closed :: "channel \<Rightarrow> 'a channel_state_scheme \<Rightarrow> bool" where
  "peer_closed c s \<longleftrightarrow> upgrade_peer c s = None"

definition check_and_read ::
  "koid \<Rightarrow> (message \<Rightarrow> 'a channel_state_scheme st_unit) \<Rightarrow> 'a channel_state_scheme \<Rightarrow>
   message zx \<times> 'a channel_state_scheme" where
  \<comment> \<open>the checker may write to the memory of the caller, so it takes the state\<close>
  "check_and_read k checker =
     with_channel k (\<lambda>c s.
       case ch_queue c of
         msg # rest \<Rightarrow>
           sbind (checker msg) (\<lambda>_. with_channel k (\<lambda>c' t. (Inr msg, put_channel k (c'\<lparr>ch_queue := rest\<rparr>) t))) s
       | [] \<Rightarrow> (Inl (Err (if peer_closed c s then PEER_CLOSED else SHOULD_WAIT)), s))"

definition channel_read :: "koid \<Rightarrow> 'a channel_state_scheme \<Rightarrow> message zx \<times> 'a channel_state_scheme" where
  "channel_read k = check_and_read k (\<lambda>_. sret ())"

definition push_general :: "koid \<Rightarrow> message \<Rightarrow> 'a channel_state_scheme st_unit" where
  "push_general k msg =
     with_channel k (\<lambda>c s. (Inr (), put_channel k (c\<lparr>ch_queue := ch_queue c @ [msg]\<rparr>) s))"

definition channel_write :: "koid \<Rightarrow> message \<Rightarrow> 'a channel_state_scheme st_unit" where
  "channel_write k msg =
     with_channel k (\<lambda>c s.
       case upgrade_peer c s of
         None \<Rightarrow> (Inl (Err PEER_CLOSED), s)
       | Some p \<Rightarrow> push_general p msg s)"

definition new_txid :: "koid \<Rightarrow> 'a channel_state_scheme \<Rightarrow> u32 zx \<times> 'a channel_state_scheme" where
  \<comment> \<open>\<open>fetch_add\<close> wraps\<close>
  "new_txid k =
     with_channel k (\<lambda>c s. (Inr (ch_next_txid c), put_channel k (c\<lparr>ch_next_txid := ch_next_txid c + 1\<rparr>) s))"

definition channel_drop :: "koid \<Rightarrow> 'a channel_state_scheme st_unit" where
  \<comment> \<open>the last \<open>Arc\<close> of the endpoint goes, and its unread packets with it\<close>
  "channel_drop k s = (Inr (), s\<lparr>channels := (channels s)(k := None)\<rparr>)"

subsection \<open>Lemmas\<close>

lemma put_channel_simps [simp]:
  "channels (put_channel k c s) = (channels s)(k \<mapsto> c)" "next_koid (put_channel k c s) = next_koid s"
  "procs (put_channel k c s) = procs s" "threads (put_channel k c s) = threads s" "jobs (put_channel k c s) = jobs s"
  by (simp_all add: put_channel_def)

lemma length_txid_bytes [simp]: "length (txid_bytes t) = 4"
  by (simp add: txid_bytes_def)

lemma of_nat_txid_bytes: "of_nat (le_nat (txid_bytes t)) = t"
proof -
  have "unat t < 256 ^ 4" using unsigned_less [of t] by simp
  then show ?thesis by (simp add: txid_bytes_def le_nat_le_bytes)
qed

text \<open>The transaction id is the first four bytes of the data, and setting it keeps the rest.\<close>

lemma txid_get_set:
  assumes "4 \<le> length (msg_data m)"
  shows "get_txid (set_txid t m) = t" and "drop 4 (msg_data (set_txid t m)) = drop 4 (msg_data m)"
    and "length (msg_data (set_txid t m)) = length (msg_data m)"
  using assms by (simp_all add: set_txid_def get_txid_def splice_at_def of_nat_txid_bytes)

lemma new_txid_high_bit: "new_txid k s = (Inr t, s') \<Longrightarrow> channels s k = Some c \<Longrightarrow> t = ch_next_txid c"
  by (simp add: new_txid_def with_channel_def)

lemma channel_read_cons:
  "channels s k = Some c \<Longrightarrow> ch_queue c = m # ms \<Longrightarrow>
   channel_read k s = (Inr m, put_channel k (c\<lparr>ch_queue := ms\<rparr>) s)"
  by (simp add: channel_read_def check_and_read_def with_channel_def sbind_def)

lemma channel_read_nil:
  "channels s k = Some c \<Longrightarrow> ch_queue c = [] \<Longrightarrow>
   channel_read k s = (Inl (Err (if peer_closed c s then PEER_CLOSED else SHOULD_WAIT)), s)"
  by (simp add: channel_read_def check_and_read_def with_channel_def)

lemma channel_write_ok:
  "channels s a = Some ca \<Longrightarrow> ch_peer ca = Some b \<Longrightarrow> channels s b = Some cb \<Longrightarrow>
   channel_write a m s = (Inr (), put_channel b (cb\<lparr>ch_queue := ch_queue cb @ [m]\<rparr>) s)"
  by (simp add: channel_write_def with_channel_def upgrade_peer_def push_general_def)

lemma check_and_read_reject:
  "channels s k = Some c \<Longrightarrow> ch_queue c = m # ms \<Longrightarrow> checker m s = (Inl f, t) \<Longrightarrow>
   check_and_read k checker s = (Inl f, t)"
  by (simp add: check_and_read_def with_channel_def sbind_def)

lemma channel_create_eq:
  "channel_create s = ((next_koid s, next_koid s + 1),
     s\<lparr>next_koid := next_koid s + 1 + 1,
       channels := (channels s)(next_koid s \<mapsto> channel_init \<lparr>base_id = next_koid s, base_name = ''''\<rparr> (Some (next_koid s + 1)),
                                next_koid s + 1 \<mapsto> channel_init \<lparr>base_id = next_koid s + 1, base_name = ''''\<rparr> (Some (next_koid s)))\<rparr>)"
  by (simp add: channel_create_def kobject_base_new_def new_koid_def put_channel_def channel_init_def Let_def)

end
