(* ===== verification/Debuglog.thy ===== *)
theory Debuglog
  imports Channel
begin

text \<open>
  The kernel debug log (\<^verbatim>\<open>zircon-object/src/debuglog.rs\<close>): one append-only byte buffer of the whole
  kernel, into which every record is written with a header of 32 bytes, and the log objects, each
  with flags and a reading position. The time of the host is the parameter \<open>now\<close>, in nanoseconds.
\<close>

subsection \<open>Records\<close>

datatype severity = Sev_Trace | Sev_Debug | Sev_Info | Sev_Warning | Sev_Error | Sev_Fatal

fun severity_code :: "severity \<Rightarrow> u8" where
  "severity_code Sev_Trace = 0x10"
| "severity_code Sev_Debug = 0x20"
| "severity_code Sev_Info = 0x30"
| "severity_code Sev_Warning = 0x40"
| "severity_code Sev_Error = 0x50"
| "severity_code Sev_Fatal = 0x60"

record dlog_header =
  dh_rollout :: u32
  dh_datalen :: u16
  dh_severity :: severity
  dh_flags :: u8
  dh_timestamp :: u64
  dh_pid :: u64
  dh_tid :: u64

definition dlog_header_bytes :: "dlog_header \<Rightarrow> u8 list" where
  \<comment> \<open>the layout of the \<open>repr(C)\<close> structure, which has no padding\<close>
  "dlog_header_bytes h =
     le_bytes 4 (unat (dh_rollout h)) @ le_bytes 2 (unat (dh_datalen h)) @ [severity_code (dh_severity h)] @
     [dh_flags h] @ le_bytes 8 (unat (dh_timestamp h)) @ le_bytes 8 (unat (dh_pid h)) @ le_bytes 8 (unat (dh_tid h))"

definition HEADER_SIZE :: usize where
  "HEADER_SIZE = 32"

definition DLOG_MAX_LEN :: usize where
  "DLOG_MAX_LEN = 256"

definition align_up_4 :: "usize \<Rightarrow> usize zx" where
  "align_up_4 x = rbind (uadd x 3) (\<lambda>y. Inr (unat ((of_nat y :: u64) AND NOT 3)))"

subsection \<open>State\<close>

record debug_log =
  dl_base :: kobj_base
  dl_flags :: u32
  dl_offset :: usize

record dlog_state = channel_state +
  dlog_buf :: "u8 list"
  dlogs :: "koid \<Rightarrow> debug_log option"

definition with_dlog ::
  "koid \<Rightarrow> (debug_log \<Rightarrow> 'a dlog_state_scheme \<Rightarrow> 'b zx \<times> 'a dlog_state_scheme) \<Rightarrow>
   'a dlog_state_scheme \<Rightarrow> 'b zx \<times> 'a dlog_state_scheme" where
  "with_dlog k f s = (case dlogs s k of None \<Rightarrow> (Inl NoRef, s) | Some d \<Rightarrow> f d s)"

subsection \<open>The buffer\<close>

definition dlog_record ::
  "severity \<Rightarrow> u32 \<Rightarrow> u64 \<Rightarrow> u64 \<Rightarrow> nat \<Rightarrow> u8 list \<Rightarrow> u8 list zx" where
  \<comment> \<open>the bytes \<open>DlogBuffer::write\<close> appends\<close>
  "dlog_record sev flags tid pid now data =
     rbind (rbind (align_up_4 (length data)) (uadd HEADER_SIZE)) (\<lambda>wire_size.
     rbind (uadd HEADER_SIZE (length data)) (\<lambda>sz.
       let header = \<lparr>dh_rollout = push_bit 12 (of_nat sz) OR of_nat wire_size, dh_datalen = of_nat (length data),
             dh_severity = sev, dh_flags = ucast flags, dh_timestamp = of_nat now, dh_pid = pid, dh_tid = tid\<rparr>
       in Inr (dlog_header_bytes header @ data @ replicate (wire_size - sz) 0)))"

definition dlog_buffer_write ::
  "severity \<Rightarrow> u32 \<Rightarrow> u64 \<Rightarrow> u64 \<Rightarrow> nat \<Rightarrow> u8 list \<Rightarrow> 'a dlog_state_scheme st_unit" where
  "dlog_buffer_write sev flags tid pid now data s =
     (case dlog_record sev flags tid pid now data of
        Inl f \<Rightarrow> (Inl f, s)
      | Inr bs \<Rightarrow> (Inr (), s\<lparr>dlog_buf := dlog_buf s @ bs\<rparr>))"

definition sub_slice :: "'b list \<Rightarrow> usize \<Rightarrow> usize \<Rightarrow> 'b list zx" where
  \<comment> \<open>\<open>&xs[lo..hi]\<close>\<close>
  "sub_slice xs lo hi = (if lo \<le> hi \<and> hi \<le> length xs then Inr (take (hi - lo) (drop lo xs)) else Inl Panic)"

definition dlog_read_at :: "usize \<Rightarrow> u8 list \<Rightarrow> u8 list \<Rightarrow> (u8 list \<times> usize) zx" where
  \<comment> \<open>the caller's buffer after the call and the length of the record\<close>
  "dlog_read_at offset log buf =
     (if length buf < DLOG_MAX_LEN then Inl Panic
      else if offset = length log then Inr (buf, 0)
      else
        rbind (uadd offset HEADER_SIZE) (\<lambda>e.
        rbind (sub_slice log offset e) (\<lambda>header_buf.
        let buf1 = splice_at buf 0 header_buf;
            len = unat ((of_nat (le_nat (take 4 header_buf)) :: u32) AND 0xFFF)
        in rbind (sub_slice buf1 HEADER_SIZE len) (\<lambda>_.
           rbind (uadd offset len) (\<lambda>e'.
           rbind (sub_slice log e e') (\<lambda>body. Inr (splice_at buf1 HEADER_SIZE body, len)))))))"

subsection \<open>Log objects\<close>

definition debuglog_create :: "u32 \<Rightarrow> 'a dlog_state_scheme \<Rightarrow> koid \<times> 'a dlog_state_scheme" where
  "debuglog_create flags s =
     (let (b, s1) = kobject_base_new s
      in (base_id b, s1\<lparr>dlogs := (dlogs s1)(base_id b \<mapsto> \<lparr>dl_base = b, dl_flags = flags, dl_offset = 0\<rparr>)\<rparr>))"

definition debuglog_read ::
  "koid \<Rightarrow> u8 list \<Rightarrow> 'a dlog_state_scheme \<Rightarrow> (u8 list \<times> usize) zx \<times> 'a dlog_state_scheme" where
  "debuglog_read k buf =
     with_dlog k (\<lambda>d s.
       case dlog_read_at (dl_offset d) (dlog_buf s) buf of
         Inl f \<Rightarrow> (Inl f, s)
       | Inr (buf', len) \<Rightarrow>
           (case uadd (dl_offset d) len of
              Inl f \<Rightarrow> (Inl f, s)
            | Inr off \<Rightarrow> (Inr (buf', len), s\<lparr>dlogs := (dlogs s)(k \<mapsto> d\<lparr>dl_offset := off\<rparr>)\<rparr>)))"

definition debuglog_write ::
  "koid \<Rightarrow> severity \<Rightarrow> u32 \<Rightarrow> u64 \<Rightarrow> u64 \<Rightarrow> nat \<Rightarrow> u8 list \<Rightarrow> 'a dlog_state_scheme st_unit" where
  "debuglog_write k sev flags tid pid now data =
     with_dlog k (\<lambda>d. dlog_buffer_write sev (flags OR dl_flags d) tid pid now data)"

end
