(* ===== verification/Resource.thy ===== *)
theory Resource
  imports Debuglog
begin

text \<open>
  Resources (\<^verbatim>\<open>zircon-object/src/dev/resource.rs\<close>): immutable capabilities for a kind of range of
  the machine's address spaces. The root resource stands for every kind.
\<close>

datatype resource_kind = RK_MMIO | RK_IRQ | RK_IOPORT | RK_HYPERVISOR | RK_ROOT | RK_VMEX | RK_SMC | RK_COUNT

fun resource_kind_code :: "resource_kind \<Rightarrow> u32" where
  "resource_kind_code RK_MMIO = 0"
| "resource_kind_code RK_IRQ = 1"
| "resource_kind_code RK_IOPORT = 2"
| "resource_kind_code RK_HYPERVISOR = 3"
| "resource_kind_code RK_ROOT = 4"
| "resource_kind_code RK_VMEX = 5"
| "resource_kind_code RK_SMC = 6"
| "resource_kind_code RK_COUNT = 7"

record resource =
  rs_base :: kobj_base
  rs_kind :: resource_kind
  rs_addr :: usize
  rs_len :: usize
  rs_flags :: resource_flags

record resource_state = dlog_state +
  resources :: "koid \<Rightarrow> resource option"

definition resource_create ::
  "string \<Rightarrow> resource_kind \<Rightarrow> usize \<Rightarrow> usize \<Rightarrow> resource_flags \<Rightarrow> 'a resource_state_scheme \<Rightarrow>
   koid \<times> 'a resource_state_scheme" where
  "resource_create nm kind addr len flags s =
     (let (b, s1) = kobject_base_with_name nm s
      in (base_id b, s1\<lparr>resources := (resources s1)(base_id b \<mapsto>
            \<lparr>rs_base = b, rs_kind = kind, rs_addr = addr, rs_len = len, rs_flags = flags\<rparr>)\<rparr>))"

definition validate :: "resource_kind \<Rightarrow> resource \<Rightarrow> unit zx" where
  "validate kind r = (if rs_kind r = kind \<or> rs_kind r = RK_ROOT then Inr () else Inl (Err WRONG_TYPE))"

definition validate_ranged_resource :: "resource_kind \<Rightarrow> usize \<Rightarrow> usize \<Rightarrow> resource \<Rightarrow> unit zx" where
  \<comment> \<open>\<open>&&\<close> does not evaluate the sums when the address is below the range\<close>
  "validate_ranged_resource kind addr len r =
     rbind (validate kind r) (\<lambda>_.
       if addr < rs_addr r then Inl (Err OUT_OF_RANGE)
       else rbind (uadd addr len) (\<lambda>e. rbind (uadd (rs_addr r) (rs_len r)) (\<lambda>e'.
              if e \<le> e' then Inr () else Inl (Err OUT_OF_RANGE))))"

definition check_exclusive :: "resource_flags \<Rightarrow> resource \<Rightarrow> unit zx" where
  "check_exclusive flags r =
     (if rs_kind r \<noteq> RK_ROOT \<and> (flags_contains (rs_flags r) RF_EXCLUSIVE \<or> flags_contains flags RF_EXCLUSIVE)
      then Inl (Err INVALID_ARGS) else Inr ())"

end
