(* ===== verification/User_Ptr.thy ===== *)
theory User_Ptr
  imports Hal
begin

text \<open>
  Pointers into the memory of a user process (\<^verbatim>\<open>kernel-hal/src/user.rs\<close>). The kernel dereferences
  them in its own address space, where the page table of the process lives too: an access goes
  through \<open>host_map\<close> to physical memory. An access outside the pages mapped there, which the host
  answers with a signal, ends in \<open>Panic\<close>; the source checks a pointer for null and alignment only.

  The generic \<open>UserPtr<T, P>\<close> is a pair of a type description, with the size, alignment and byte
  encoding of \<open>T\<close>, and an address.
\<close>

subsection \<open>Types in memory\<close>

record 'v user_type =
  ut_size :: nat
  ut_align :: nat
  ut_enc :: "'v \<Rightarrow> u8 list"
  ut_dec :: "u8 list \<Rightarrow> 'v"

definition UT_u8 :: "u8 user_type" where
  "UT_u8 = \<lparr>ut_size = 1, ut_align = 1, ut_enc = (\<lambda>b. [b]), ut_dec = hd\<rparr>"

definition UT_u32 :: "u32 user_type" where
  "UT_u32 = \<lparr>ut_size = 4, ut_align = 4, ut_enc = (\<lambda>v. le_bytes 4 (unat v)), ut_dec = (\<lambda>bs. of_nat (le_nat bs))\<rparr>"

definition UT_usize :: "usize user_type" where
  "UT_usize = \<lparr>ut_size = 8, ut_align = 8, ut_enc = le_bytes 8, ut_dec = le_nat\<rparr>"

subsection \<open>Memory\<close>

definition translate :: "prot \<Rightarrow> 'a hal_state_scheme \<Rightarrow> usize \<Rightarrow> usize option" where
  \<comment> \<open>the physical address behind an address, if its page is mapped with the access\<close>
  "translate p s a =
     (case host_map s (a - a mod PAGE_SIZE) of
        None \<Rightarrow> None
      | Some (pa, prots) \<Rightarrow> if p \<in> prots then Some (pa + a mod PAGE_SIZE) else None)"

primrec mem_load :: "'a hal_state_scheme \<Rightarrow> usize \<Rightarrow> nat \<Rightarrow> (user_error, u8 list) outcome" where
  "mem_load s a 0 = Inr []"
| "mem_load s a (Suc n) =
     (case translate PROT_READ s a of
        None \<Rightarrow> Inl Panic
      | Some pa \<Rightarrow> rbind (mem_load s (a + 1) n) (\<lambda>bs. Inr (pmem s pa # bs)))"

primrec mem_store :: "usize \<Rightarrow> u8 list \<Rightarrow> 'a hal_state_scheme \<Rightarrow> (user_error, unit) outcome \<times> 'a hal_state_scheme" where
  "mem_store a [] s = (Inr (), s)"
| "mem_store a (b # bs) s =
     (case translate PROT_WRITE s a of
        None \<Rightarrow> (Inl Panic, s)
      | Some pa \<Rightarrow> mem_store (a + 1) bs (s\<lparr>pmem := (pmem s)(pa := b)\<rparr>))"

subsection \<open>Pointers\<close>

definition up_from_addr_size :: "'v user_type \<Rightarrow> usize \<Rightarrow> usize \<Rightarrow> (user_error, usize) outcome" where
  "up_from_addr_size ty addr sz = (if sz < ut_size ty then Inl (Err BufferTooSmall) else Inr addr)"

definition up_is_null :: "usize \<Rightarrow> bool" where
  "up_is_null p \<longleftrightarrow> p = 0"

definition up_add :: "'v user_type \<Rightarrow> usize \<Rightarrow> usize \<Rightarrow> usize" where
  \<comment> \<open>\<open>ptr.add(count)\<close>; the address wraps\<close>
  "up_add ty p count = (p + count * ut_size ty) mod usize_lim"

definition up_check :: "'v user_type \<Rightarrow> usize \<Rightarrow> (user_error, unit) outcome" where
  "up_check ty p =
     (if up_is_null p then Inl (Err InvalidPointer)
      else if p mod ut_align ty \<noteq> 0 then Inl (Err InvalidPointer)
      else Inr ())"

subsection \<open>Reading\<close>

definition up_read :: "'v user_type \<Rightarrow> usize \<Rightarrow> 'a hal_state_scheme \<Rightarrow> (user_error, 'v) outcome" where
  "up_read ty p s = rbind (up_check ty p) (\<lambda>_. rbind (mem_load s p (ut_size ty)) (\<lambda>bs. Inr (ut_dec ty bs)))"

definition up_read_if_not_null :: "'v user_type \<Rightarrow> usize \<Rightarrow> 'a hal_state_scheme \<Rightarrow> (user_error, 'v option) outcome" where
  "up_read_if_not_null ty p s =
     (if up_is_null p then Inr None else rbind (up_read ty p s) (\<lambda>v. Inr (Some v)))"

primrec decode_array :: "'v user_type \<Rightarrow> nat \<Rightarrow> u8 list \<Rightarrow> 'v list" where
  "decode_array ty 0 bs = []"
| "decode_array ty (Suc n) bs = ut_dec ty (take (ut_size ty) bs) # decode_array ty n (drop (ut_size ty) bs)"

definition up_read_array :: "'v user_type \<Rightarrow> usize \<Rightarrow> usize \<Rightarrow> 'a hal_state_scheme \<Rightarrow> (user_error, 'v list) outcome" where
  \<comment> \<open>\<open>Vec::with_capacity\<close> panics beyond \<open>isize::MAX\<close> bytes\<close>
  "up_read_array ty p len s =
     (if len = 0 then Inr []
      else rbind (up_check ty p) (\<lambda>_.
        if len * ut_size ty \<ge> 2 ^ 63 then Inl Panic
        else rbind (mem_load s p (len * ut_size ty)) (\<lambda>bs. Inr (decode_array ty len bs))))"

subsection \<open>Strings\<close>

definition cont_byte :: "nat \<Rightarrow> nat \<Rightarrow> u8 \<Rightarrow> bool" where
  "cont_byte lo hi b \<longleftrightarrow> lo \<le> unat b \<and> unat b \<le> hi"

fun utf8_valid :: "u8 list \<Rightarrow> bool" where
  \<comment> \<open>\<open>core::str::from_utf8\<close>: no overlong forms, no surrogates, nothing above U+10FFFF\<close>
  "utf8_valid [] = True"
| "utf8_valid (b # bs) =
     (let n = unat b in
      if n < 0x80 then utf8_valid bs
      else if 0xC2 \<le> n \<and> n \<le> 0xDF then
        (case bs of c # r \<Rightarrow> cont_byte 0x80 0xBF c \<and> utf8_valid r | _ \<Rightarrow> False)
      else if 0xE0 \<le> n \<and> n \<le> 0xEF then
        (case bs of c # d # r \<Rightarrow>
            cont_byte (if n = 0xE0 then 0xA0 else 0x80) (if n = 0xED then 0x9F else 0xBF) c \<and>
            cont_byte 0x80 0xBF d \<and> utf8_valid r
         | _ \<Rightarrow> False)
      else if 0xF0 \<le> n \<and> n \<le> 0xF4 then
        (case bs of c # d # e # r \<Rightarrow>
            cont_byte (if n = 0xF0 then 0x90 else 0x80) (if n = 0xF4 then 0x8F else 0xBF) c \<and>
            cont_byte 0x80 0xBF d \<and> cont_byte 0x80 0xBF e \<and> utf8_valid r
         | _ \<Rightarrow> False)
      else False)"

definition up_read_string :: "usize \<Rightarrow> usize \<Rightarrow> 'a hal_state_scheme \<Rightarrow> (user_error, u8 list) outcome" where
  "up_read_string p len s =
     rbind (up_check UT_u8 p) (\<lambda>_. rbind (mem_load s p len) (\<lambda>src.
       if utf8_valid src then Inr src else Inl (Err InvalidUtf8)))"

function scan_zero :: "nat \<Rightarrow> usize \<Rightarrow> nat \<Rightarrow> 'a hal_state_scheme \<Rightarrow> (user_error, nat) outcome" where
  \<comment> \<open>\<open>(0usize..).find(|&i| *p.add(i) == 0).unwrap()\<close> over elements of \<open>sz\<close> bytes; the scan leaves
     the address space in the end\<close>
  "scan_zero sz p i s =
     (if usize_lim \<le> p + i then Inl Panic
      else rbind (mem_load s (p + i * sz) sz) (\<lambda>bs.
        if le_nat bs = 0 then Inr i else scan_zero sz p (i + 1) s))"
  by pat_completeness auto
termination
  by (relation "measure (\<lambda>(sz, p, i, s). usize_lim - (p + i))") auto

declare scan_zero.simps [simp del]

definition up_read_cstring :: "usize \<Rightarrow> 'a hal_state_scheme \<Rightarrow> (user_error, u8 list) outcome" where
  "up_read_cstring p s =
     rbind (up_check UT_u8 p) (\<lambda>_. rbind (scan_zero 1 p 0 s) (\<lambda>len. up_read_string p len s))"

primrec read_cstrings :: "usize list \<Rightarrow> 'a hal_state_scheme \<Rightarrow> (user_error, u8 list list) outcome" where
  "read_cstrings [] s = Inr []"
| "read_cstrings (p # ps) s = rbind (up_read_cstring p s) (\<lambda>x. rbind (read_cstrings ps s) (\<lambda>xs. Inr (x # xs)))"

definition up_read_cstring_array :: "usize \<Rightarrow> 'a hal_state_scheme \<Rightarrow> (user_error, u8 list list) outcome" where
  "up_read_cstring_array p s =
     rbind (up_check UT_usize p) (\<lambda>_. rbind (scan_zero 8 p 0 s) (\<lambda>len.
     rbind (up_read_array UT_usize p len s) (\<lambda>ps. read_cstrings ps s)))"

subsection \<open>Writing\<close>

type_synonym 'a up_unit = "'a \<Rightarrow> (user_error, unit) outcome \<times> 'a"

definition up_write :: "'v user_type \<Rightarrow> usize \<Rightarrow> 'v \<Rightarrow> 'a hal_state_scheme up_unit" where
  "up_write ty p v s =
     (case up_check ty p of Inl e \<Rightarrow> (Inl e, s) | Inr _ \<Rightarrow> mem_store p (ut_enc ty v) s)"

definition up_write_if_not_null :: "'v user_type \<Rightarrow> usize \<Rightarrow> 'v \<Rightarrow> 'a hal_state_scheme up_unit" where
  "up_write_if_not_null ty p v s = (if up_is_null p then (Inr (), s) else up_write ty p v s)"

definition encode_array :: "'v user_type \<Rightarrow> 'v list \<Rightarrow> u8 list" where
  "encode_array ty vs = concat (map (ut_enc ty) vs)"

definition up_write_array :: "'v user_type \<Rightarrow> usize \<Rightarrow> 'v list \<Rightarrow> 'a hal_state_scheme up_unit" where
  "up_write_array ty p vs s =
     (if vs = [] then (Inr (), s)
      else case up_check ty p of Inl e \<Rightarrow> (Inl e, s) | Inr _ \<Rightarrow> mem_store p (encode_array ty vs) s)"

definition up_write_cstring :: "usize \<Rightarrow> u8 list \<Rightarrow> 'a hal_state_scheme up_unit" where
  \<comment> \<open>the final zero is written without a check\<close>
  "up_write_cstring p str = sbind (up_write_array UT_u8 p str) (\<lambda>_. mem_store (p + length str) [0])"

end
