(* ===== verification/Syscall_Numbers.thy ===== *)
theory Syscall_Numbers
  imports Prelude
begin

text \<open>
  The numbers of the system calls (\<^verbatim>\<open>zircon-syscall/src/consts.rs\<close>). The enum \<open>SyscallType\<close> is its
  table of variant names and discriminants; a variant is its name, and \<open>try_from\<close>, which
  \<open>numeric_enum!\<close> provides, is the search by discriminant.
\<close>

definition syscall_numbers :: "(string \<times> nat) list" where
  "syscall_numbers =
     [(''BTI_CREATE'', 0), (''BTI_PIN'', 1), (''BTI_RELEASE_QUARANTINE'', 2), (''CHANNEL_CREATE'', 3),
      (''CHANNEL_READ'', 4), (''CHANNEL_READ_ETC'', 5), (''CHANNEL_WRITE'', 6), (''CHANNEL_WRITE_ETC'', 7),
      (''CHANNEL_CALL_NORETRY'', 8), (''CHANNEL_CALL_FINISH'', 9), (''CLOCK_GET'', 10), (''CLOCK_ADJUST'', 11),
      (''CLOCK_GET_MONOTONIC_VIA_KERNEL'', 12), (''CLOCK_CREATE'', 13), (''CLOCK_READ'', 14),
      (''CLOCK_GET_DETAILS'', 15), (''CLOCK_UPDATE'', 16), (''CPRNG_DRAW_ONCE'', 17), (''CPRNG_ADD_ENTROPY'', 18),
      (''DEBUG_READ'', 19), (''DEBUG_WRITE'', 20), (''DEBUG_SEND_COMMAND'', 21), (''DEBUGLOG_CREATE'', 22),
      (''DEBUGLOG_WRITE'', 23), (''DEBUGLOG_READ'', 24), (''EVENT_CREATE'', 25), (''EVENTPAIR_CREATE'', 26),
      (''EXCEPTION_GET_THREAD'', 27), (''EXCEPTION_GET_PROCESS'', 28), (''FIFO_CREATE'', 29), (''FIFO_READ'', 30),
      (''FIFO_WRITE'', 31), (''FRAMEBUFFER_GET_INFO'', 32), (''FRAMEBUFFER_SET_RANGE'', 33), (''FUTEX_WAIT'', 34),
      (''FUTEX_WAKE'', 35), (''FUTEX_REQUEUE'', 36), (''FUTEX_WAKE_SINGLE_OWNER'', 37),
      (''FUTEX_REQUEUE_SINGLE_OWNER'', 38), (''FUTEX_GET_OWNER'', 39), (''GUEST_CREATE'', 40),
      (''GUEST_SET_TRAP'', 41), (''HANDLE_CLOSE'', 42), (''HANDLE_CLOSE_MANY'', 43), (''HANDLE_DUPLICATE'', 44),
      (''HANDLE_REPLACE'', 45), (''INTERRUPT_CREATE'', 46), (''INTERRUPT_BIND'', 47), (''INTERRUPT_WAIT'', 48),
      (''INTERRUPT_DESTROY'', 49), (''INTERRUPT_ACK'', 50), (''INTERRUPT_TRIGGER'', 51),
      (''INTERRUPT_BIND_VCPU'', 52), (''IOMMU_CREATE'', 53), (''IOPORTS_REQUEST'', 54), (''IOPORTS_RELEASE'', 55),
      (''JOB_CREATE'', 56), (''JOB_SET_POLICY'', 57), (''JOB_SET_CRITICAL'', 58), (''KTRACE_READ'', 59),
      (''KTRACE_CONTROL'', 60), (''KTRACE_WRITE'', 61), (''NANOSLEEP'', 62), (''TICKS_GET_VIA_KERNEL'', 63),
      (''MSI_ALLOCATE'', 64), (''MSI_CREATE'', 65), (''MTRACE_CONTROL'', 66), (''OBJECT_WAIT_ONE'', 67),
      (''OBJECT_WAIT_MANY'', 68), (''OBJECT_WAIT_ASYNC'', 69), (''OBJECT_SIGNAL'', 70), (''OBJECT_SIGNAL_PEER'', 71),
      (''OBJECT_GET_PROPERTY'', 72), (''OBJECT_SET_PROPERTY'', 73), (''OBJECT_GET_INFO'', 74),
      (''OBJECT_GET_CHILD'', 75), (''OBJECT_SET_PROFILE'', 76), (''PAGER_CREATE'', 77), (''PAGER_CREATE_VMO'', 78),
      (''PAGER_DETACH_VMO'', 79), (''PAGER_SUPPLY_PAGES'', 80), (''PAGER_OP_RANGE'', 81),
      (''PC_FIRMWARE_TABLES'', 82), (''PCI_GET_NTH_DEVICE'', 83), (''PCI_ENABLE_BUS_MASTER'', 84),
      (''PCI_RESET_DEVICE'', 85), (''PCI_CONFIG_READ'', 86), (''PCI_CONFIG_WRITE'', 87), (''PCI_CFG_PIO_RW'', 88),
      (''PCI_GET_BAR'', 89), (''PCI_MAP_INTERRUPT'', 90), (''PCI_QUERY_IRQ_MODE'', 91), (''PCI_SET_IRQ_MODE'', 92),
      (''PCI_INIT'', 93), (''PCI_ADD_SUBTRACT_IO_RANGE'', 94), (''PMT_UNPIN'', 95), (''PORT_CREATE'', 96),
      (''PORT_QUEUE'', 97), (''PORT_WAIT'', 98), (''PORT_CANCEL'', 99), (''PROCESS_EXIT'', 100),
      (''PROCESS_CREATE'', 101), (''PROCESS_START'', 102), (''PROCESS_READ_MEMORY'', 103),
      (''PROCESS_WRITE_MEMORY'', 104), (''PROFILE_CREATE'', 105), (''RESOURCE_CREATE'', 106), (''SMC_CALL'', 107),
      (''SOCKET_CREATE'', 108), (''SOCKET_WRITE'', 109), (''SOCKET_READ'', 110), (''SOCKET_SHUTDOWN'', 111),
      (''STREAM_CREATE'', 112), (''STREAM_WRITEV'', 113), (''STREAM_WRITEV_AT'', 114), (''STREAM_READV'', 115),
      (''STREAM_READV_AT'', 116), (''STREAM_SEEK'', 117), (''SYSCALL_TEST_0'', 118), (''SYSCALL_TEST_1'', 119),
      (''SYSCALL_TEST_2'', 120), (''SYSCALL_TEST_3'', 121), (''SYSCALL_TEST_4'', 122), (''SYSCALL_TEST_5'', 123),
      (''SYSCALL_TEST_6'', 124), (''SYSCALL_TEST_7'', 125), (''SYSCALL_TEST_8'', 126),
      (''SYSCALL_TEST_WRAPPER'', 127), (''SYSCALL_TEST_HANDLE_CREATE'', 128), (''SYSTEM_GET_EVENT'', 129),
      (''SYSTEM_MEXEC'', 130), (''SYSTEM_MEXEC_PAYLOAD_GET'', 131), (''SYSTEM_POWERCTL'', 132),
      (''TASK_SUSPEND'', 133), (''TASK_SUSPEND_TOKEN'', 134), (''TASK_CREATE_EXCEPTION_CHANNEL'', 135),
      (''TASK_KILL'', 136), (''THREAD_EXIT'', 137), (''THREAD_CREATE'', 138), (''THREAD_START'', 139),
      (''THREAD_READ_STATE'', 140), (''THREAD_WRITE_STATE'', 141), (''TIMER_CREATE'', 142), (''TIMER_SET'', 143),
      (''TIMER_CANCEL'', 144), (''VCPU_CREATE'', 145), (''VCPU_RESUME'', 146), (''VCPU_INTERRUPT'', 147),
      (''VCPU_READ_STATE'', 148), (''VCPU_WRITE_STATE'', 149), (''VMAR_ALLOCATE'', 150), (''VMAR_DESTROY'', 151),
      (''VMAR_MAP'', 152), (''VMAR_UNMAP'', 153), (''VMAR_PROTECT'', 154), (''VMAR_OP_RANGE'', 155),
      (''VMO_CREATE'', 156), (''VMO_READ'', 157), (''VMO_WRITE'', 158), (''VMO_GET_SIZE'', 159),
      (''VMO_SET_SIZE'', 160), (''VMO_OP_RANGE'', 161), (''VMO_CREATE_CHILD'', 162), (''VMO_SET_CACHE_POLICY'', 163),
      (''VMO_REPLACE_AS_EXECUTABLE'', 164), (''VMO_CREATE_CONTIGUOUS'', 165), (''VMO_CREATE_PHYSICAL'', 166),
      (''COUNT'', 167), (''FUTEX_WAKE_HANDLE_CLOSE_THREAD_EXIT'', 200),
      (''VMAR_UNMAP_HANDLE_CLOSE_THREAD_EXIT'', 201)]"

definition sys_try_from :: "u32 \<Rightarrow> string option" where
  "sys_try_from num = map_of (map (\<lambda>(nm, k). (k, nm)) syscall_numbers) (unat num)"

lemma syscall_numbers_upto: "map snd syscall_numbers = [0..<168] @ [200, 201]"
  by code_simp


lemma sys_try_from_known: "sys_try_from num \<noteq> None \<longleftrightarrow> unat num < 168 \<or> unat num \<in> {200, 201}"
proof -
  have "sys_try_from num \<noteq> None \<longleftrightarrow> unat num \<in> set (map snd syscall_numbers)"
    unfolding sys_try_from_def by (force simp: map_of_eq_None_iff)
  then show ?thesis unfolding syscall_numbers_upto by auto
qed

text \<open>A variant and its number determine each other.\<close>

lemma sys_try_from_roundtrip: "sys_try_from num = Some nm \<longleftrightarrow> (nm, unat num) \<in> set syscall_numbers"
proof -
  have "distinct (map snd syscall_numbers)" unfolding syscall_numbers_upto by simp
  then have "distinct (map fst (map (\<lambda>(nm, k). (k, nm)) syscall_numbers))" by (simp add: o_def case_prod_beta)
  then show ?thesis unfolding sys_try_from_def by (auto simp: map_of_eq_Some_iff)
qed

lemma sys_numbers:
  "sys_try_from 3 = Some ''CHANNEL_CREATE''" "sys_try_from 4 = Some ''CHANNEL_READ''"
  "sys_try_from 6 = Some ''CHANNEL_WRITE''" "sys_try_from 22 = Some ''DEBUGLOG_CREATE''"
  "sys_try_from 23 = Some ''DEBUGLOG_WRITE''" "sys_try_from 24 = Some ''DEBUGLOG_READ''"
  by (simp_all add: sys_try_from_roundtrip syscall_numbers_def)

end
