(* ===== verification/Syscall.thy ===== *)
theory Syscall
  imports Resource User_Ptr Syscall_Numbers
begin

text \<open>
  The system calls (\<^verbatim>\<open>zircon-syscall/src/lib.rs\<close>, \<^verbatim>\<open>channel.rs\<close>, \<^verbatim>\<open>debuglog.rs\<close>). A call is made by a
  thread, whose process owns the handles and whose memory the pointers go into; it composes the
  handle table, the channels, the debug log, the resources and the user pointers. The time of the
  host is the parameter \<open>now\<close>; what the calls print to the console is collected in \<open>serial\<close>.
\<close>

record sys_state = resource_state +
  serial :: "u8 list"

text \<open>
  The error of a system call is a \<open>ZxError\<close> or, from \<open>zx_debuglog_read\<close>, a number that the code
  transmutes into one.
\<close>

datatype sys_error = Zx zx_error | Transmuted u32

type_synonym 'a sys = "(sys_error, 'a) outcome"

definition sys_res :: "'a zx \<Rightarrow> 'a sys" where
  "sys_res r =
     (case r of
        Inr x \<Rightarrow> Inr x
      | Inl f \<Rightarrow> (case f of Err e \<Rightarrow> Inl (Err (Zx e)) | Panic \<Rightarrow> Inl Panic | NoRef \<Rightarrow> Inl NoRef | NoFuel \<Rightarrow> Inl NoFuel))"

lemma sys_res_simps [simp]:
  "sys_res (Inr x) = Inr x" "sys_res (Inl (Err e)) = Inl (Err (Zx e))" "sys_res (Inl Panic) = Inl Panic"
  "sys_res (Inl NoRef) = Inl NoRef" "sys_res (Inl NoFuel) = Inl NoFuel"
  by (simp_all add: sys_res_def)

definition zx :: "('s \<Rightarrow> 'a zx \<times> 's) \<Rightarrow> 's \<Rightarrow> 'a sys \<times> 's" where
  "zx m s = (case m s of (r, t) \<Rightarrow> (sys_res r, t))"

definition copy_in :: "('s \<Rightarrow> (user_error, 'a) outcome) \<Rightarrow> 's \<Rightarrow> 'a zx \<times> 's" where
  "copy_in f s = (user_res (f s), s)"

definition copy_out :: "('s \<Rightarrow> (user_error, unit) outcome \<times> 's) \<Rightarrow> 's \<Rightarrow> unit zx \<times> 's" where
  "copy_out m s = (case m s of (r, t) \<Rightarrow> (user_res r, t))"

definition calling_proc :: "koid \<Rightarrow> (koid \<Rightarrow> 'a sys_state_scheme \<Rightarrow> 'b zx \<times> 'a sys_state_scheme) \<Rightarrow>
    'a sys_state_scheme \<Rightarrow> 'b zx \<times> 'a sys_state_scheme" where
  "calling_proc th f s = (case thread_proc th s of Inl e \<Rightarrow> (Inl e, s) | Inr p \<Rightarrow> f p s)"

subsection \<open>Channels\<close>

definition MAY_DISCARD :: u32 where
  "MAY_DISCARD = 1"

definition report_sizes :: "usize \<Rightarrow> usize \<Rightarrow> message \<Rightarrow> 'a sys_state_scheme st_unit" where
  "report_sizes actual_bytes actual_handles msg =
     sbind (copy_out (up_write_if_not_null UT_u32 actual_bytes (of_nat (length (msg_data msg))))) (\<lambda>_.
       copy_out (up_write_if_not_null UT_u32 actual_handles (of_nat (length (msg_handles msg)))))"

definition too_small :: "u32 \<Rightarrow> u32 \<Rightarrow> message \<Rightarrow> bool" where
  "too_small num_bytes num_handles msg \<longleftrightarrow>
     num_bytes < of_nat (length (msg_data msg)) \<or> num_handles < of_nat (length (msg_handles msg))"

definition read_checker :: "u32 \<Rightarrow> u32 \<Rightarrow> usize \<Rightarrow> usize \<Rightarrow> message \<Rightarrow> 'a sys_state_scheme st_unit" where
  \<comment> \<open>the closure passed to \<open>check_and_read\<close>\<close>
  "read_checker num_bytes num_handles actual_bytes actual_handles msg =
     (if too_small num_bytes num_handles msg
      then sbind (report_sizes actual_bytes actual_handles msg) (\<lambda>_. sfail (Err BUFFER_TOO_SMALL))
      else sret ())"

definition sys_channel_read ::
  "koid \<Rightarrow> handle_value \<Rightarrow> u32 \<Rightarrow> usize \<Rightarrow> usize \<Rightarrow> u32 \<Rightarrow> u32 \<Rightarrow> usize \<Rightarrow> usize \<Rightarrow> 'a sys_state_scheme st_unit" where
  "sys_channel_read th hv options bytes handles num_bytes num_handles actual_bytes actual_handles =
     calling_proc th (\<lambda>p.
     sbind (slift (get_object_with_rights T_Channel p hv R_READ)) (\<lambda>channel.
     sbind (if options AND MAY_DISCARD = 0
            then check_and_read channel (read_checker num_bytes num_handles actual_bytes actual_handles)
            else channel_read channel) (\<lambda>msg.
     sbind (report_sizes actual_bytes actual_handles msg) (\<lambda>_.
     if too_small num_bytes num_handles msg then sfail (Err BUFFER_TOO_SMALL)
     else sbind (copy_out (up_write_array UT_u8 bytes (msg_data msg))) (\<lambda>_.
          sbind (process_add_handles p (msg_handles msg)) (\<lambda>values.
            copy_out (up_write_array UT_u32 handles values)))))))"

definition sys_channel_write ::
  "koid \<Rightarrow> handle_value \<Rightarrow> u32 \<Rightarrow> usize \<Rightarrow> u32 \<Rightarrow> usize \<Rightarrow> u32 \<Rightarrow> 'a sys_state_scheme st_unit" where
  "sys_channel_write th hv options user_bytes num_bytes user_handles num_handles =
     (if options \<noteq> 0 then sfail (Err INVALID_ARGS)
      else if num_bytes > 65536 then sfail (Err OUT_OF_RANGE)
      else calling_proc th (\<lambda>p.
        sbind (copy_in (up_read_array UT_u8 user_bytes (unat num_bytes))) (\<lambda>data.
        sbind (copy_in (up_read_array UT_u32 user_handles (unat num_handles))) (\<lambda>values.
        let transfer_self = hv \<in> set values in
        sbind (process_remove_handles p values) (\<lambda>hs.
        if transfer_self then sfail (Err NOT_SUPPORTED)
        else if length hs > 64 then sfail (Err OUT_OF_RANGE)
        else if list_ex (\<lambda>h. \<not> flags_contains (rights h) R_TRANSFER) hs then sfail (Err ACCESS_DENIED)
        else sbind (slift (get_object_with_rights T_Channel p hv R_WRITE)) (\<lambda>channel.
               channel_write channel \<lparr>msg_data = data, msg_handles = hs\<rparr>))))))"

definition sys_channel_create :: "koid \<Rightarrow> u32 \<Rightarrow> usize \<Rightarrow> usize \<Rightarrow> 'a sys_state_scheme st_unit" where
  "sys_channel_create th options out0 out1 =
     (if options \<noteq> 0 then sfail (Err INVALID_ARGS)
      else calling_proc th (\<lambda>p s.
        let ((end0, end1), s1) = channel_create s
        in sbind (process_add_handle p (handle_new (KObj T_Channel end0) R_DEFAULT_CHANNEL)) (\<lambda>handle0.
           sbind (process_add_handle p (handle_new (KObj T_Channel end1) R_DEFAULT_CHANNEL)) (\<lambda>handle1.
           sbind (copy_out (up_write UT_u32 out0 handle0)) (\<lambda>_.
             copy_out (up_write UT_u32 out1 handle1)))) s1))"

subsection \<open>The debug log\<close>

definition FLAG_READABLE :: u32 where
  "FLAG_READABLE = 0x40000000"

definition LOG_FLAGS_MASK :: u32 where
  "LOG_FLAGS_MASK = 0x10"

definition root_only :: "koid \<Rightarrow> handle_value \<Rightarrow> 'a sys_state_scheme \<Rightarrow> unit zx" where
  \<comment> \<open>\<open>proc.get_object::<Resource>(rsrc)?.validate(ResourceKind::ROOT)?\<close>\<close>
  "root_only p rsrc s =
     rbind (get_object T_Resource p rsrc s) (\<lambda>r. rbind (ok_or NoRef (resources s r)) (validate RK_ROOT))"

definition sys_debuglog_create :: "koid \<Rightarrow> handle_value \<Rightarrow> u32 \<Rightarrow> usize \<Rightarrow> 'a sys_state_scheme st_unit" where
  "sys_debuglog_create th rsrc options target =
     calling_proc th (\<lambda>p.
     sbind (if rsrc \<noteq> 0 then slift (root_only p rsrc) else sret ()) (\<lambda>_ s.
     let (dlog, s1) = debuglog_create options s;
         dlog_right = (if options AND FLAG_READABLE = 0 then R_DEFAULT_DEBUGLOG else R_DEFAULT_DEBUGLOG OR R_READ)
     in sbind (process_add_handle p (handle_new (KObj T_DebugLog dlog) dlog_right)) (\<lambda>dlog_handle.
          copy_out (up_write UT_u32 target dlog_handle)) s1))"

definition serial_write :: "u8 list \<Rightarrow> 'a sys_state_scheme \<Rightarrow> 'a sys_state_scheme" where
  "serial_write str s = s\<lparr>serial := serial s @ str\<rparr>"

definition sys_debuglog_write ::
  "nat \<Rightarrow> koid \<Rightarrow> handle_value \<Rightarrow> u32 \<Rightarrow> usize \<Rightarrow> usize \<Rightarrow> 'a sys_state_scheme st_unit" where
  "sys_debuglog_write now th hv options buf len =
     (if options AND NOT LOG_FLAGS_MASK \<noteq> 0 then sfail (Err INVALID_ARGS)
      else calling_proc th (\<lambda>p.
        sbind (copy_in (up_read_string buf (min len 224))) (\<lambda>data.
        sbind (slift (get_object_with_rights T_DebugLog p hv R_WRITE)) (\<lambda>dlog.
        sbind (debuglog_write dlog Sev_Info options th p now data) (\<lambda>_ s.
          let s1 = serial_write data s
          in (Inr (), if data \<noteq> [] \<and> last data = 10 then s1 else serial_write [10] s1))))))"

definition sys_debuglog_read ::
  "koid \<Rightarrow> handle_value \<Rightarrow> u32 \<Rightarrow> usize \<Rightarrow> usize \<Rightarrow> 'a sys_state_scheme \<Rightarrow> unit sys \<times> 'a sys_state_scheme" where
  "sys_debuglog_read th hv options buf len =
     sbind (zx (if options \<noteq> 0 then sfail (Err INVALID_ARGS)
       else calling_proc th (\<lambda>p.
         sbind (slift (get_object_with_rights T_DebugLog p hv R_READ)) (\<lambda>dlog.
         sbind (debuglog_read dlog (replicate DLOG_MAX_LEN 0)) (\<lambda>(buffer, n).
         let actual_len = min n len in
         if actual_len = 0 then sfail (Err SHOULD_WAIT)
         else sbind (slift (\<lambda>_. sub_slice buffer 0 actual_len)) (\<lambda>part.
              sbind (copy_out (up_write_array UT_u8 buf part)) (\<lambda>_. sret actual_len))))))) (\<lambda>actual_len.
     sfail (Err (Transmuted (of_nat actual_len))))"

subsection \<open>The dispatcher\<close>

fun sys_error_code :: "sys_error \<Rightarrow> int" where
  \<comment> \<open>\<open>err as isize\<close>\<close>
  "sys_error_code (Zx e) = zx_code e"
| "sys_error_code (Transmuted n) = sint n"

definition sys_ret :: "unit sys \<Rightarrow> int zx" where
  "sys_ret r =
     (case r of
        Inr _ \<Rightarrow> Inr 0
      | Inl f \<Rightarrow> (case f of Err e \<Rightarrow> Inr (sys_error_code e) | Panic \<Rightarrow> Inl Panic | NoRef \<Rightarrow> Inl NoRef | NoFuel \<Rightarrow> Inl NoFuel))"

definition syscall ::
  "nat \<Rightarrow> koid \<Rightarrow> u32 \<Rightarrow> usize list \<Rightarrow> 'a sys_state_scheme \<Rightarrow> int zx \<times> 'a sys_state_scheme" where
  "syscall now th num args s =
     (case sys_try_from num of
        None \<Rightarrow> (Inr (zx_code INVALID_ARGS), s)
      | Some sys_type \<Rightarrow>
          let a = (\<lambda>i. args ! i);
              w = (\<lambda>i. of_nat (args ! i) :: u32);
              (ret, t) =
                (if sys_type = ''CHANNEL_CREATE'' then zx (sys_channel_create th (w 0) (a 1) (a 2)) s
                 else if sys_type = ''CHANNEL_READ'' then
                   zx (sys_channel_read th (w 0) (w 1) (a 2) (a 3) (w 4) (w 5) (a 6) (a 7)) s
                 else if sys_type = ''CHANNEL_WRITE'' then zx (sys_channel_write th (w 0) (w 1) (a 2) (w 3) (a 4) (w 5)) s
                 else if sys_type = ''DEBUGLOG_CREATE'' then zx (sys_debuglog_create th (w 0) (w 1) (a 2)) s
                 else if sys_type = ''DEBUGLOG_WRITE'' then zx (sys_debuglog_write now th (w 0) (w 1) (a 2) (a 3)) s
                 else if sys_type = ''DEBUGLOG_READ'' then sys_debuglog_read th (w 0) (w 1) (a 2) (a 3) s
                 else (Inl (Err (Zx NOT_SUPPORTED)), s))
          in (sys_ret ret, t))"

end
