(* ===== verification/Syscall_Safety.thy ===== *)
theory Syscall_Safety
  imports Syscall
begin

text \<open>
  What a system call may do, whatever its arguments. It writes to physical memory only where the
  page table lets the caller write; it leaves the page table, the address spaces, the jobs and the
  threads alone, and of the processes it changes the handle tables only; and the handles there are
  afterwards, in tables and in unread packets, are handles there were before, with the same rights,
  or handles to objects it has created.
\<close>

subsection \<open>Handles in the system\<close>

definition caps :: "'a channel_state_scheme \<Rightarrow> handle set" where
  "caps s =
     {h. \<exists>p pr v. procs s p = Some pr \<and> pr_handles pr v = Some h} \<union>
     {h. \<exists>k c m. channels s k = Some c \<and> m \<in> set (ch_queue c) \<and> h \<in> set (msg_handles m)}"

definition proc_core :: "process \<Rightarrow> process" where
  "proc_core p = p\<lparr>pr_handles := Map.empty, pr_max_handle_id := 0\<rparr>"

definition safe :: "'a sys_state_scheme \<Rightarrow> handle set \<Rightarrow> 'a sys_state_scheme \<Rightarrow> bool" where
  "safe s0 C t \<longleftrightarrow>
     host_map t = host_map s0 \<and> avail_frames t = avail_frames s0 \<and> vmars t = vmars s0 \<and> resources t = resources s0 \<and>
     jobs t = jobs s0 \<and> threads t = threads s0 \<and>
     (\<forall>p. map_option proc_core (procs t p) = map_option proc_core (procs s0 p)) \<and>
     (\<forall>x. pmem t x \<noteq> pmem s0 x \<longrightarrow> (\<exists>a. translate PROT_WRITE s0 a = Some x)) \<and>
     next_koid t \<in> {next_koid s0, next_koid s0 + 1, next_koid s0 + 2} \<and> caps t \<subseteq> C"

lemma capsI:
  "procs s p = Some pr \<Longrightarrow> pr_handles pr v = Some h \<Longrightarrow> h \<in> caps s"
  "channels s k = Some c \<Longrightarrow> m \<in> set (ch_queue c) \<Longrightarrow> h \<in> set (msg_handles m) \<Longrightarrow> h \<in> caps s"
  unfolding caps_def by blast+

lemma safe_caps: "safe s0 C s \<Longrightarrow> h \<in> caps s \<Longrightarrow> h \<in> C"
  unfolding safe_def by blast

lemma caps_frame: "procs t = procs s \<Longrightarrow> channels t = channels s \<Longrightarrow> caps t = caps s"
  by (simp add: caps_def)

subsection \<open>User memory\<close>

lemma mem_store_frame:
  "mem_store a bs s = (r, t) \<Longrightarrow>
   \<exists>m. t = s\<lparr>pmem := m\<rparr> \<and> (\<forall>x. m x \<noteq> pmem s x \<longrightarrow> (\<exists>b. translate PROT_WRITE s b = Some x))"
proof (induction bs arbitrary: a s)
  case Nil
  then show ?case by (intro exI [of _ "pmem s"]) simp
next
  case (Cons b bs)
  show ?case
  proof (cases "translate PROT_WRITE s a")
    case None
    then show ?thesis using Cons.prems by (intro exI [of _ "pmem s"]) simp
  next
    case (Some pa)
    let ?s = "s\<lparr>pmem := (pmem s)(pa := b)\<rparr>"
    have "mem_store (a + 1) bs ?s = (r, t)" using Cons.prems Some by simp
    then obtain m where m: "t = ?s\<lparr>pmem := m\<rparr>" "\<forall>x. m x \<noteq> pmem ?s x \<longrightarrow> (\<exists>b. translate PROT_WRITE ?s b = Some x)"
      using Cons.IH by blast
    have "\<exists>b. translate PROT_WRITE s b = Some x" if "m x \<noteq> pmem s x" for x
    proof (cases "x = pa")
      case True
      then show ?thesis using Some by blast
    next
      case False
      then have "m x \<noteq> pmem ?s x" using that by simp
      then show ?thesis using m(2) by (simp add: translate_def)
    qed
    then show ?thesis using m(1) by (intro exI [of _ m]) simp
  qed
qed

definition stores :: "'a hal_state_scheme \<Rightarrow> 'a hal_state_scheme \<Rightarrow> bool" where
  "stores s t \<longleftrightarrow> (\<exists>m. t = s\<lparr>pmem := m\<rparr> \<and> (\<forall>x. m x \<noteq> pmem s x \<longrightarrow> (\<exists>b. translate PROT_WRITE s b = Some x)))"

lemma stores_refl: "stores s s"
  by (auto simp: stores_def intro: exI [of _ "pmem s"])

lemma up_write_stores: "stores s (snd (up_write ty p v s))"
  using mem_store_frame [of p "ut_enc ty v" s] stores_refl [of s]
  by (cases "mem_store p (ut_enc ty v) s") (auto simp: up_write_def stores_def [symmetric] split: sum.splits)

lemma up_write_array_stores: "stores s (snd (up_write_array ty p vs s))"
  using mem_store_frame [of p "encode_array ty vs" s] stores_refl [of s]
  by (cases "mem_store p (encode_array ty vs) s") (auto simp: up_write_array_def stores_def [symmetric] split: sum.splits)

lemma up_write_if_not_null_stores: "stores s (snd (up_write_if_not_null ty p v s))"
  by (simp add: up_write_if_not_null_def up_write_stores stores_refl)

lemma safe_stores: "safe s0 C s \<Longrightarrow> stores s t \<Longrightarrow> safe s0 C t"
proof -
  assume safe: "safe s0 C s" and "stores s t"
  then obtain m where t: "t = s\<lparr>pmem := m\<rparr>" and m: "\<forall>x. m x \<noteq> pmem s x \<longrightarrow> (\<exists>b. translate PROT_WRITE s b = Some x)"
    by (auto simp: stores_def)
  have tr: "translate PROT_WRITE s a = translate PROT_WRITE s0 a" for a
    using safe by (simp add: translate_def safe_def)
  have "\<exists>a. translate PROT_WRITE s0 a = Some x" if "m x \<noteq> pmem s0 x" for x
  proof (cases "m x = pmem s x")
    case True
    then have "pmem s x \<noteq> pmem s0 x" using that by simp
    then show ?thesis using safe by (simp add: safe_def)
  next
    case False
    then show ?thesis using m unfolding tr by blast
  qed
  moreover have "caps t = caps s" by (rule caps_frame) (simp_all add: t)
  moreover have "host_map t = host_map s" "avail_frames t = avail_frames s" "vmars t = vmars s" "resources t = resources s"
    "jobs t = jobs s" "threads t = threads s" "procs t = procs s" "pmem t = m" "next_koid t = next_koid s" by (simp_all add: t)
  ultimately show "safe s0 C t" using safe unfolding safe_def by metis
qed

lemma snd_copy_out [simp]: "snd (copy_out m s) = snd (m s)"
  by (simp add: copy_out_def split: prod.split)

lemma snd_copy_in [simp]: "snd (copy_in f s) = s"
  by (simp add: copy_in_def)

lemma copy_in_Inr: "copy_in f s = (Inr x, t) \<Longrightarrow> t = s \<and> user_res (f s) = Inr x"
  by (auto simp: copy_in_def)

lemma safe_out_write: "safe s0 C s \<Longrightarrow> safe s0 C (snd (copy_out (up_write ty p v) s))"
  unfolding snd_copy_out by (rule safe_stores [OF _ up_write_stores])

lemma safe_out_array: "safe s0 C s \<Longrightarrow> safe s0 C (snd (copy_out (up_write_array ty p vs) s))"
  unfolding snd_copy_out by (rule safe_stores [OF _ up_write_array_stores])

lemma safe_out_if_not_null: "safe s0 C s \<Longrightarrow> safe s0 C (snd (copy_out (up_write_if_not_null ty p v) s))"
  unfolding snd_copy_out by (rule safe_stores [OF _ up_write_if_not_null_stores])


subsection \<open>Handle tables\<close>

lemma safe_put_proc:
  assumes "safe s0 C s" and "procs s p = Some pr" and "proc_core pr' = proc_core pr"
    and "\<And>v h. pr_handles pr' v = Some h \<Longrightarrow> h \<in> C"
  shows "safe s0 C (put_proc p pr' s)"
proof -
  have "channels (put_proc p pr' s) = channels s" by (simp add: put_proc_def)
  then have "caps (put_proc p pr' s) \<subseteq> caps s \<union> {h. \<exists>v. pr_handles pr' v = Some h}"
    by (auto simp: caps_def split: if_splits)
  then have "caps (put_proc p pr' s) \<subseteq> C" using assms(1,4) by (auto simp: safe_def)
  moreover have "map_option proc_core (procs s p) = map_option proc_core (procs s0 p)" using assms(1) by (simp add: safe_def)
  then have "map_option proc_core (procs s0 p) = Some (proc_core pr')" using assms(2,3) by simp
  ultimately show ?thesis using assms(1) by (auto simp: safe_def put_proc_def)
qed

lemma safe_table: "safe s0 C s \<Longrightarrow> procs s p = Some pr \<Longrightarrow> pr_handles pr v = Some h \<Longrightarrow> h \<in> C"
  by (erule safe_caps) (rule capsI)

lemma table_add_all_spec:
  "table_add_all hs pr = (r, pr') \<Longrightarrow>
   proc_core pr' = proc_core pr \<and> (\<forall>v h. pr_handles pr' v = Some h \<longrightarrow> h \<in> set hs \<or> (\<exists>w. pr_handles pr w = Some h))"
proof (induction hs arbitrary: pr r)
  case (Cons h hs)
  obtain r1 pr1 where add: "table_add h pr = (r1, pr1)" by fastforce
  then have one: "proc_core pr1 = proc_core pr" "\<And>v x. pr_handles pr1 v = Some x \<Longrightarrow> x = h \<or> (\<exists>w. pr_handles pr w = Some x)"
    by (auto simp: table_add_def Let_def proc_core_def split: if_splits)
  show ?case
  proof (cases r1)
    case (Inl f)
    then show ?thesis using Cons.prems add one by auto
  next
    case (Inr v)
    then obtain r2 where "table_add_all hs pr1 = (r2, pr')" using Cons.prems add by (auto split: prod.splits sum.splits)
    then show ?thesis using Cons.IH [of pr1 r2] one by fastforce
  qed
qed auto

lemma table_remove_all_spec:
  "table_remove_all vs pr = (r, pr') \<Longrightarrow>
   proc_core pr' = proc_core pr \<and> (\<forall>v h. pr_handles pr' v = Some h \<longrightarrow> pr_handles pr v = Some h) \<and>
   (\<forall>hs. r = Inr hs \<longrightarrow> (\<forall>h \<in> set hs. \<exists>w. pr_handles pr w = Some h))"
proof (induction vs arbitrary: pr r)
  case (Cons v vs)
  show ?case
  proof (cases "pr_handles pr v")
    case None
    then show ?thesis using Cons.prems by (auto simp: table_remove_def)
  next
    case (Some h)
    let ?pr = "pr\<lparr>pr_handles := (pr_handles pr)(v := None)\<rparr>"
    obtain r2 where r2: "table_remove_all vs ?pr = (r2, pr')" using Cons.prems Some
      by (auto simp: table_remove_def split: prod.splits sum.splits)
    have "proc_core ?pr = proc_core pr" by (simp add: proc_core_def)
    moreover have sub: "pr_handles ?pr w = Some x \<Longrightarrow> pr_handles pr w = Some x" for w x by (auto split: if_splits)
    ultimately have "proc_core pr' = proc_core pr" "\<forall>w x. pr_handles pr' w = Some x \<longrightarrow> pr_handles pr w = Some x"
      "\<forall>hs. r2 = Inr hs \<longrightarrow> (\<forall>x \<in> set hs. \<exists>w. pr_handles pr w = Some x)"
      using Cons.IH [OF r2] by (auto simp del: fun_upd_apply) blast+
    moreover have "\<forall>hs. r = Inr hs \<longrightarrow> (\<exists>hs'. r2 = Inr hs' \<and> hs = h # hs')"
      using Cons.prems Some r2 by (auto simp: table_remove_def split: sum.splits)
    ultimately show ?thesis using Some by fastforce
  qed
qed auto

lemma safe_add_handles:
  assumes "safe s0 C s" and "set hs \<subseteq> C"
  shows "safe s0 C (snd (process_add_handles p hs s))"
proof (cases "procs s p")
  case None
  then show ?thesis using assms(1) by (simp add: process_add_handles_def on_table_def with_proc_def)
next
  case (Some pr)
  obtain r pr' where add: "table_add_all hs pr = (r, pr')" by fastforce
  have "h \<in> C" if "pr_handles pr' v = Some h" for v h
    using table_add_all_spec [OF add] that assms(2) safe_table [OF assms(1) Some] by blast
  then have "safe s0 C (put_proc p pr' s)"
    using table_add_all_spec [OF add] by (intro safe_put_proc [OF assms(1) Some]) auto
  then show ?thesis using add Some by (simp add: process_add_handles_def on_table_def with_proc_def)
qed

lemma add_handle_all: "process_add_handle p h s = (case process_add_handles p [h] s of
    (Inl f, t) \<Rightarrow> (Inl f, t) | (Inr vs, t) \<Rightarrow> (Inr (hd vs), t))"
  by (simp add: process_add_handle_def process_add_handles_def on_table_def with_proc_def split: option.split prod.split sum.split)

lemma safe_add_handle: "safe s0 C s \<Longrightarrow> h \<in> C \<Longrightarrow> safe s0 C (snd (process_add_handle p h s))"
  using safe_add_handles [of s0 C s "[h]" p] by (auto simp: add_handle_all split: prod.splits sum.splits)

lemma safe_remove_handles:
  assumes "safe s0 C s" and "process_remove_handles p vs s = (r, t)"
  shows "safe s0 C t \<and> (\<forall>hs. r = Inr hs \<longrightarrow> set hs \<subseteq> C)"
proof (cases "procs s p")
  case None
  then show ?thesis using assms by (auto simp: process_remove_handles_def on_table_def with_proc_def)
next
  case (Some pr)
  obtain r' pr' where rm: "table_remove_all vs pr = (r', pr')" by fastforce
  then have "r = r'" "t = put_proc p pr' s"
    using assms(2) Some by (simp_all add: process_remove_handles_def on_table_def with_proc_def)
  moreover have "h \<in> C" if "pr_handles pr' v = Some h" for v h
    using table_remove_all_spec [OF rm] that safe_table [OF assms(1) Some] by blast
  then have "safe s0 C (put_proc p pr' s)"
    using table_remove_all_spec [OF rm] by (intro safe_put_proc [OF assms(1) Some]) auto
  moreover have "set hs \<subseteq> C" if "r' = Inr hs" for hs
    using table_remove_all_spec [OF rm] that safe_table [OF assms(1) Some] by blast
  ultimately show ?thesis by simp
qed

subsection \<open>Channels and logs\<close>

lemma safe_put_channel:
  assumes "safe s0 C s" and "\<And>m h. m \<in> set (ch_queue c) \<Longrightarrow> h \<in> set (msg_handles m) \<Longrightarrow> h \<in> C"
  shows "safe s0 C (put_channel k c s)"
proof -
  have "caps (put_channel k c s) \<subseteq> caps s \<union> {h. \<exists>m. m \<in> set (ch_queue c) \<and> h \<in> set (msg_handles m)}"
    by (auto simp: caps_def split: if_splits)
  then have "caps (put_channel k c s) \<subseteq> C" using assms by (auto simp: safe_def)
  then show ?thesis using assms(1) by (simp add: safe_def put_channel_def)
qed

lemma safe_queue: "safe s0 C s \<Longrightarrow> channels s k = Some c \<Longrightarrow> m \<in> set (ch_queue c) \<Longrightarrow> h \<in> set (msg_handles m) \<Longrightarrow> h \<in> C"
  by (erule safe_caps) (rule capsI)

lemma safe_check_and_read:
  assumes "safe s0 C s" and "\<And>m u. safe s0 C u \<Longrightarrow> safe s0 C (snd (checker m u))"
    and "check_and_read k checker s = (r, t)"
  shows "safe s0 C t \<and> (\<forall>m. r = Inr m \<longrightarrow> set (msg_handles m) \<subseteq> C)"
proof (cases "channels s k")
  case None
  then show ?thesis using assms by (auto simp: check_and_read_def with_channel_def)
next
  case (Some c)
  show ?thesis
  proof (cases "ch_queue c")
    case Nil
    then show ?thesis using assms Some by (auto simp: check_and_read_def with_channel_def)
  next
    case (Cons m ms)
    have m: "set (msg_handles m) \<subseteq> C" and ms: "\<And>x h. x \<in> set ms \<Longrightarrow> h \<in> set (msg_handles x) \<Longrightarrow> h \<in> C"
      using safe_queue [OF assms(1) Some] Cons by auto
    obtain r1 u where u: "checker m s = (r1, u)" by fastforce
    then have su: "safe s0 C u" using assms(2) [OF assms(1), of m] by simp
    have "safe s0 C (put_channel k (c'\<lparr>ch_queue := ms\<rparr>) u)" for c'
      by (rule safe_put_channel [OF su]) (use ms in simp)
    then show ?thesis
      using assms(3) Some Cons u su m
      by (auto simp: check_and_read_def with_channel_def sbind_def split: sum.splits option.splits)
  qed
qed

lemma safe_channel_read:
  "safe s0 C s \<Longrightarrow> channel_read k s = (r, t) \<Longrightarrow> safe s0 C t \<and> (\<forall>m. r = Inr m \<longrightarrow> set (msg_handles m) \<subseteq> C)"
  unfolding channel_read_def by (rule safe_check_and_read) simp_all

lemma safe_channel_write:
  assumes "safe s0 C s" and "set (msg_handles m) \<subseteq> C"
  shows "safe s0 C (snd (channel_write k m s))"
proof -
  have "safe s0 C (snd (push_general b m s))" for b
    using assms safe_queue [OF assms(1)]
    by (auto simp: push_general_def with_channel_def split: option.split intro!: safe_put_channel)
  then show ?thesis using assms(1) by (simp add: channel_write_def with_channel_def split: option.split)
qed

lemma safe_debuglog_read: "safe s0 C s \<Longrightarrow> safe s0 C (snd (debuglog_read k buf s))"
  by (simp add: debuglog_read_def with_dlog_def safe_def caps_def split: option.split sum.split prod.split)

lemma safe_debuglog_write: "safe s0 C s \<Longrightarrow> safe s0 C (snd (debuglog_write k sev fl tid pid now data s))"
  by (simp add: debuglog_write_def with_dlog_def dlog_buffer_write_def safe_def caps_def split: option.split sum.split)

lemma safe_serial: "safe s0 C s \<Longrightarrow> safe s0 C (serial_write str s)"
  by (simp add: serial_write_def safe_def caps_def)


subsection \<open>A triple for safe operations\<close>

definition safe_op ::
  "'a sys_state_scheme \<Rightarrow> handle set \<Rightarrow> ('b \<Rightarrow> bool) \<Rightarrow> ('a sys_state_scheme \<Rightarrow> 'b zx \<times> 'a sys_state_scheme) \<Rightarrow> bool" where
  \<comment> \<open>\<open>m\<close> keeps the state safe and its result, if it has one, satisfies \<open>Q\<close>\<close>
  "safe_op s0 C Q m \<longleftrightarrow>
     (\<forall>s r t. safe s0 C s \<longrightarrow> m s = (r, t) \<longrightarrow> safe s0 C t \<and> (\<forall>x. r = Inr x \<longrightarrow> Q x))"

named_theorems safe_intro \<open>safe operations and their composition\<close>

lemma safe_opI: "(\<And>s. safe s0 C s \<Longrightarrow> safe s0 C (snd (m s))) \<Longrightarrow> safe_op s0 C (\<lambda>_. True) m"
  by (force simp: safe_op_def)

lemma safe_opD: "safe_op s0 C Q m \<Longrightarrow> safe s0 C s \<Longrightarrow> safe s0 C (snd (m s))"
  by (cases "m s") (auto simp: safe_op_def)

lemma safe_op_bind [safe_intro]:
  assumes "safe_op s0 C Q m" and "\<And>x. Q x \<Longrightarrow> safe_op s0 C R (f x)"
  shows "safe_op s0 C R (sbind m f)"
  unfolding safe_op_def
proof (intro allI impI)
  fix s r t
  assume "safe s0 C s" "sbind m f s = (r, t)"
  from this(2) show "safe s0 C t \<and> (\<forall>x. r = Inr x \<longrightarrow> R x)"
  proof (cases rule: sbind_cases)
    case (fail e)
    then show ?thesis using assms(1) \<open>safe s0 C s\<close> by (auto simp: safe_op_def)
  next
    case (step x s')
    then have "safe s0 C s'" "Q x" using assms(1) \<open>safe s0 C s\<close> by (auto simp: safe_op_def)
    then show ?thesis using assms(2) [of x] step(2) by (auto simp: safe_op_def)
  qed
qed

lemma safe_op_if [safe_intro]: "safe_op s0 C Q m \<Longrightarrow> safe_op s0 C Q n \<Longrightarrow> safe_op s0 C Q (if b then m else n)"
  by simp

lemma safe_op_simple [safe_intro]: "safe_op s0 C Q (sfail e)" "safe_op s0 C (\<lambda>_. True) (sret x)" "safe_op s0 C (\<lambda>_. True) (slift g)"
  by (auto simp: safe_op_def)

lemma safe_op_copy_in [safe_intro]: "safe_op s0 C (\<lambda>_. True) (copy_in g)"
  by (rule safe_opI) simp

lemma safe_op_out [safe_intro]:
  "safe_op s0 C (\<lambda>_. True) (copy_out (up_write ty p v))"
  "safe_op s0 C (\<lambda>_. True) (copy_out (up_write_array ty p vs))"
  "safe_op s0 C (\<lambda>_. True) (copy_out (up_write_if_not_null ty p v))"
  by (rule safe_opI, erule safe_out_write safe_out_array safe_out_if_not_null)+

lemma safe_op_calling [safe_intro]: "(\<And>p. safe_op s0 C Q (f p)) \<Longrightarrow> safe_op s0 C Q (calling_proc th f)"
  unfolding safe_op_def calling_proc_def by (auto split: sum.splits)

lemma safe_op_handles [safe_intro]:
  "set hs \<subseteq> C \<Longrightarrow> safe_op s0 C (\<lambda>_. True) (process_add_handles p hs)"
  "h \<in> C \<Longrightarrow> safe_op s0 C (\<lambda>_. True) (process_add_handle p h)"
  "safe_op s0 C (\<lambda>hs. set hs \<subseteq> C) (process_remove_handles p vs)"
  using safe_remove_handles [of s0 C _ p vs] by (auto intro!: safe_opI safe_add_handles safe_add_handle) (auto simp: safe_op_def)

lemma safe_op_read [safe_intro]:
  "(\<And>m. safe_op s0 C (\<lambda>_. True) (checker m)) \<Longrightarrow> safe_op s0 C (\<lambda>m. set (msg_handles m) \<subseteq> C) (check_and_read k checker)"
  "safe_op s0 C (\<lambda>m. set (msg_handles m) \<subseteq> C) (channel_read k)"
proof -
  assume checker: "\<And>m. safe_op s0 C (\<lambda>_. True) (checker m)"
  show "safe_op s0 C (\<lambda>m. set (msg_handles m) \<subseteq> C) (check_and_read k checker)"
    unfolding safe_op_def [of s0 C "\<lambda>m. set (msg_handles m) \<subseteq> C"]
    by (intro allI impI, erule safe_check_and_read, rule safe_opD [OF checker]) assumption+
next
  show "safe_op s0 C (\<lambda>m. set (msg_handles m) \<subseteq> C) (channel_read k)"
    using safe_channel_read [of s0 C _ k] unfolding safe_op_def by blast
qed

lemma safe_op_send [safe_intro]:
  "set (msg_handles m) \<subseteq> C \<Longrightarrow> safe_op s0 C (\<lambda>_. True) (channel_write k m)"
  by (rule safe_opI) (rule safe_channel_write)

lemma safe_op_log [safe_intro]:
  "safe_op s0 C (\<lambda>_. True) (debuglog_read k buf)"
  "safe_op s0 C (\<lambda>_. True) (debuglog_write k sev fl tid pid now data)"
  by (rule safe_opI, erule safe_debuglog_read safe_debuglog_write)+

subsection \<open>The calls\<close>

lemma safe_op_report_sizes [safe_intro]: "safe_op s0 C (\<lambda>_. True) (report_sizes ab ah m)"
  unfolding report_sizes_def by (rule safe_intro)+

lemma safe_op_read_checker [safe_intro]: "safe_op s0 C (\<lambda>_. True) (read_checker nb nh ab ah m)"
  unfolding read_checker_def by (rule safe_intro)+

lemma safe_sys_channel_read:
  "safe_op s0 C (\<lambda>_. True) (sys_channel_read th hv options bytes handles nb nh ab ah)"
  unfolding sys_channel_read_def by (rule safe_intro | assumption)+

lemma safe_sys_channel_write:
  "safe_op s0 C (\<lambda>_. True) (sys_channel_write th hv options ub nb uh nh)"
  unfolding sys_channel_write_def Let_def by (rule safe_intro | simp)+

lemma safe_sys_debuglog_write: "safe_op s0 C (\<lambda>_. True) (sys_debuglog_write now th hv options buf len)"
  unfolding sys_debuglog_write_def by (rule safe_intro)+ (rule safe_opI, simp add: Let_def safe_serial)

lemma safe_zx: "safe_op s0 C Q m \<Longrightarrow> safe s0 C s \<Longrightarrow> safe s0 C (snd (zx m s))"
  by (cases "m s") (auto simp: zx_def safe_op_def)

lemma safe_sys_debuglog_read: "safe s0 C s \<Longrightarrow> safe s0 C (snd (sys_debuglog_read th hv options buf len s))"
proof -
  assume safe: "safe s0 C s"
  have "safe_op s0 C (\<lambda>_. True) (if options \<noteq> 0 then sfail (Err INVALID_ARGS)
       else calling_proc th (\<lambda>p.
         sbind (slift (get_object_with_rights T_DebugLog p hv R_READ)) (\<lambda>dlog.
         sbind (debuglog_read dlog (replicate DLOG_MAX_LEN 0)) (\<lambda>(buffer, n).
         let actual_len = min n len in
         if actual_len = 0 then sfail (Err SHOULD_WAIT)
         else sbind (slift (\<lambda>_. sub_slice buffer 0 actual_len)) (\<lambda>part.
              sbind (copy_out (up_write_array UT_u8 buf part)) (\<lambda>_. sret actual_len))))))"
    unfolding Let_def case_prod_beta by (rule safe_intro)+
  from safe_zx [OF this safe] show ?thesis
    unfolding sys_debuglog_read_def by (rule sbind_keeps [where P = "safe s0 C"]) simp
qed


definition granted :: "'a sys_state_scheme \<Rightarrow> handle set" where
  "granted s = caps s \<union> {h. ref_id (object h) = next_koid s \<or> ref_id (object h) = next_koid s + 1}"

lemma safe_init: "safe s (granted s) s"
  by (auto simp: safe_def granted_def)

lemma safe_sys_channel_create: "safe s (granted s) (snd (sys_channel_create th options out0 out1 s))"
proof -
  obtain e0 e1 s1 where cr: "channel_create s = ((e0, e1), s1)" by (metis prod.exhaust)
  have e: "e0 = next_koid s" "e1 = next_koid s + 1" using cr by (auto simp: channel_create_eq)
  have "caps s1 \<subseteq> granted s" using cr by (auto simp: channel_create_eq caps_def granted_def channel_init_def split: if_splits)
  then have s1: "safe s (granted s) s1" using cr by (auto simp: safe_def channel_create_eq add.assoc)
  have g: "handle_new (KObj T_Channel e0) R_DEFAULT_CHANNEL \<in> granted s" "handle_new (KObj T_Channel e1) R_DEFAULT_CHANNEL \<in> granted s"
    using e by (auto simp: granted_def)
  have "safe_op s (granted s) (\<lambda>_. True)
     (sbind (process_add_handle p (handle_new (KObj T_Channel e0) R_DEFAULT_CHANNEL)) (\<lambda>handle0.
      sbind (process_add_handle p (handle_new (KObj T_Channel e1) R_DEFAULT_CHANNEL)) (\<lambda>handle1.
      sbind (copy_out (up_write UT_u32 out0 handle0)) (\<lambda>_. copy_out (up_write UT_u32 out1 handle1)))))" for p
    by (rule safe_intro g)+
  from safe_opD [OF this s1] show ?thesis
    by (simp add: sys_channel_create_def calling_proc_def cr safe_init split: sum.split)
qed

lemma debuglog_create_eq:
  "debuglog_create flags s = (next_koid s, s\<lparr>next_koid := next_koid s + 1, dlogs := (dlogs s)(next_koid s \<mapsto>
     \<lparr>dl_base = \<lparr>base_id = next_koid s, base_name = ''''\<rparr>, dl_flags = flags, dl_offset = 0\<rparr>)\<rparr>)"
  by (simp add: debuglog_create_def kobject_base_new_def new_koid_def Let_def)

lemma safe_sys_debuglog_create: "safe s (granted s) (snd (sys_debuglog_create th rsrc options target s))"
proof -
  obtain k s1 where cr: "debuglog_create options s = (k, s1)" by fastforce
  have "procs s1 = procs s" "channels s1 = channels s" using cr by (auto simp: debuglog_create_eq)
  then have "caps s1 = caps s" by (rule caps_frame)
  then have s1: "safe s (granted s) s1" using cr by (auto simp: safe_def debuglog_create_eq granted_def)
  have g: "handle_new (KObj T_DebugLog k) rs \<in> granted s" for rs
    using cr by (auto simp: granted_def debuglog_create_eq)
  have "safe_op s (granted s) (\<lambda>_. True) (sbind (process_add_handle p (handle_new (KObj T_DebugLog k) rs)) (\<lambda>v. copy_out (up_write UT_u32 target v)))" for p rs
    by (rule safe_intro g)+
  from safe_opD [OF this s1] show ?thesis
    by (simp add: sys_debuglog_create_def calling_proc_def sbind_def cr safe_init Let_def split: sum.split)
qed

lemma safe_syscall: "safe s (granted s) (snd (syscall now th num args s))"
proof -
  note ops = safe_opD [OF safe_sys_channel_read safe_init] safe_opD [OF safe_sys_channel_write safe_init]
    safe_opD [OF safe_sys_debuglog_write safe_init] safe_sys_debuglog_read [OF safe_init]
  have zx: "snd (zx m s) = snd (m s)" for m :: "'a sys_state_scheme st_unit" by (simp add: zx_def split: prod.split)
  show ?thesis
    unfolding syscall_def Let_def case_prod_beta
    by (simp add: safe_init ops zx safe_sys_channel_create safe_sys_debuglog_create split: option.split)
qed

subsection \<open>Objects that go away\<close>

text \<open>
  When the last handle to an object is dropped the object goes with it. What that does to the rest
  of the state is bounded here for the objects with a destructor of their own.
\<close>

definition releases :: "'a vm_state_scheme \<Rightarrow> 'a vm_state_scheme \<Rightarrow> bool" where
  "releases s t \<longleftrightarrow> host_map t = host_map s \<and> pmem t = pmem s \<and> next_koid t = next_koid s \<and> vm_state.more t = vm_state.more s"

lemma releases_dealloc: "releases s t \<Longrightarrow> releases s (dealloc_frames fs t)"
  unfolding dealloc_frames_def by (rule fold_invariant [where Q = "\<lambda>_. True"]) (auto simp: releases_def frame_dealloc_def)

lemma releases_put: "releases s t \<Longrightarrow> releases s (put_vmo k v t)"
  by (simp add: releases_def put_vmo_def)

lemma releases_upd:
  "releases s (t\<lparr>phys_objs := f\<rparr>) = releases s t" "releases s (t\<lparr>paged_objs := g\<rparr>) = releases s t"
  "releases s (t\<lparr>base_rc := h\<rparr>) = releases s t" "releases s (t\<lparr>vmos := v\<rparr>) = releases s t"
  "releases s (t\<lparr>avail_frames := a\<rparr>) = releases s t"
  by (simp_all add: releases_def)

lemma releases_paged_drop: "releases s t \<Longrightarrow> releases s (paged_drop i t)"
  by (simp add: paged_drop_def releases_upd releases_dealloc split: option.split)

lemma releases_base: "releases s t \<Longrightarrow> releases s (release_base b t)"
  by (simp add: release_base_def Let_def releases_upd releases_paged_drop)

lemma releases_reparent: "releases s t \<Longrightarrow> releases s (reparent v p t)"
proof -
  assume t: "releases s t"
  have set: "releases s u \<Longrightarrow> releases s (set_parent q c u)" for q c u
    by (simp add: set_parent_def releases_put split: option.split)
  have prune: "releases s u \<Longrightarrow> releases s (prune_children c u)" for c u
    by (simp add: prune_children_def releases_put split: option.split)
  have "releases s (fold (set_parent p) cs t)" for cs
    by (rule fold_invariant [where Q = "\<lambda>_. True"]) (use t set in auto)
  moreover have "releases s u \<Longrightarrow> releases s (fold prune_children cs u)" for cs u
    by (rule fold_invariant [where Q = "\<lambda>_. True"]) (use prune in auto)
  ultimately show ?thesis by (simp add: reparent_def Let_def releases_put split: option.split)
qed

lemma releases_vmo_drop: "releases s (vmo_drop k s)"
proof -
  have "releases s (s\<lparr>vmos := (vmos s)(k := None)\<rparr>)" "releases s s" by (simp_all add: releases_def)
  then show ?thesis by (simp add: vmo_drop_def Let_def releases_base releases_reparent split: option.split)
qed

lemma job_terminate_jobs: "job_terminate n k s = (r, t) \<Longrightarrow> \<exists>j. t = s\<lparr>jobs := j\<rparr> \<and> dom j = dom (jobs s)"
proof (induction n arbitrary: k s r)
  case 0
  then show ?case by (auto intro: exI [of _ "jobs s"])
next
  case (Suc n)
  have same: "\<exists>j. s = s\<lparr>jobs := j\<rparr> \<and> dom j = dom (jobs s)" by (rule exI [of _ "jobs s"]) simp
  show ?case
  proof (cases "\<exists>j p pj. jobs s k = Some j \<and> jb_parent j = Some p \<and> jobs s p = Some pj")
    case False
    then have "t = s" using Suc.prems
      by (auto simp: with_job_def detach_child_def sbind_def split: option.splits)
    then show ?thesis using same by simp
  next
    case True
    then obtain j p pj where j: "jobs s k = Some j" "jb_parent j = Some p" "jobs s p = Some pj" by blast
    let ?u = "put_job p (pj\<lparr>jb_children := filter (\<lambda>x. x \<noteq> k) (jb_children pj)\<rparr>) s"
    have dom: "dom (jobs ?u) = dom (jobs s)" using j(3) by (auto simp: put_job_def)
    have "t = ?u \<or> job_terminate n p ?u = (r, t)"
      using Suc.prems j by (auto simp: with_job_def detach_child_def sbind_def Let_def split: if_splits)
    then show ?thesis
    proof
      assume "t = ?u"
      moreover have "?u = s\<lparr>jobs := jobs ?u\<rparr>" unfolding put_job_def by simp
      ultimately show ?thesis using dom by metis
    next
      assume "job_terminate n p ?u = (r, t)"
      then obtain i where "t = ?u\<lparr>jobs := i\<rparr>" "dom i = dom (jobs ?u)" using Suc.IH by blast
      moreover from this have "t = s\<lparr>jobs := i\<rparr>" unfolding put_job_def by simp
      ultimately show ?thesis using dom by metis
    qed
  qed
qed

lemma job_drop_jobs: "job_drop k s = (r, t) \<Longrightarrow> \<exists>j. t = s\<lparr>jobs := j\<rparr> \<and> dom (jobs s) - {k} \<subseteq> dom j"
proof -
  assume d: "job_drop k s = (r, t)"
  obtain r' u where u: "job_terminate (task_fuel s) k s = (r', u)" by fastforce
  obtain j where j: "u = s\<lparr>jobs := j\<rparr>" "dom j = dom (jobs s)" using job_terminate_jobs [OF u] by blast
  from d u j(1) have "t = u \<or> t = u\<lparr>jobs := (jobs u)(k := None)\<rparr>" by (auto simp: job_drop_def sbind_def split: sum.splits)
  then show ?thesis
  proof
    assume "t = u"
    then show ?thesis using j by (intro exI [of _ j]) auto
  next
    assume "t = u\<lparr>jobs := (jobs u)(k := None)\<rparr>"
    then show ?thesis using j by (intro exI [of _ "j(k := None)"]) auto
  qed
qed

subsection \<open>Histories\<close>

inductive sys_reach :: "'a sys_state_scheme \<Rightarrow> nat \<Rightarrow> 'a sys_state_scheme \<Rightarrow> bool" for s0 where
  \<comment> \<open>after \<open>n\<close> system calls by any threads, between which user code writes to memory it may write to and
     endpoints, memory objects and jobs are dropped\<close>
  sr_init: "sys_reach s0 0 s0"
| sr_call: "sys_reach s0 n s \<Longrightarrow> syscall now th num args s = (r, t) \<Longrightarrow> sys_reach s0 (Suc n) t"
| sr_user: "sys_reach s0 n s \<Longrightarrow> translate PROT_WRITE s a = Some x \<Longrightarrow> sys_reach s0 n (s\<lparr>pmem := (pmem s)(x := b)\<rparr>)"
| sr_channel: "sys_reach s0 n s \<Longrightarrow> channel_drop k s = (r, t) \<Longrightarrow> sys_reach s0 n t"
| sr_vmo: "sys_reach s0 n s \<Longrightarrow> sys_reach s0 n (vmo_drop k s)"
| sr_job: "sys_reach s0 n s \<Longrightarrow> job_drop k s = (r, t) \<Longrightarrow> sys_reach s0 n t"

definition created :: "koid \<Rightarrow> nat \<Rightarrow> koid set" where
  "created k n = (\<lambda>i. k + of_nat i) ` {..<n}"

definition reach_safe :: "'a sys_state_scheme \<Rightarrow> nat \<Rightarrow> 'a sys_state_scheme \<Rightarrow> bool" where
  "reach_safe s0 n s \<longleftrightarrow>
     host_map s = host_map s0 \<and> vmars s = vmars s0 \<and> resources s = resources s0 \<and> threads s = threads s0 \<and>
     (\<forall>p. map_option proc_core (procs s p) = map_option proc_core (procs s0 p)) \<and>
     (\<forall>x. pmem s x \<noteq> pmem s0 x \<longrightarrow> (\<exists>a. translate PROT_WRITE s0 a = Some x)) \<and>
     (\<exists>j \<le> 2 * n. next_koid s = next_koid s0 + of_nat j) \<and>
     caps s \<subseteq> caps s0 \<union> {h. ref_id (object h) \<in> created (next_koid s0) (2 * n)}"

lemma reach_safe_call:
  assumes "reach_safe s0 n s" and t: "safe s (granted s) t"
  shows "reach_safe s0 (Suc n) t"
proof -
  have tr: "translate PROT_WRITE s a = translate PROT_WRITE s0 a" for a
    using assms(1) by (simp add: translate_def reach_safe_def)
  obtain j where j: "j \<le> 2 * n" "next_koid s = next_koid s0 + of_nat j" using assms(1) by (auto simp: reach_safe_def)
  have "next_koid t \<in> {next_koid s, next_koid s + 1, next_koid s + 2}" using t by (simp add: safe_def)
  then obtain i where i: "i \<le> 2" "next_koid t = next_koid s + of_nat i"
    by (elim insertE emptyE) (auto intro: that [of 0] that [of 1] that [of 2])
  have koid: "\<exists>j' \<le> 2 * Suc n. next_koid t = next_koid s0 + of_nat j'"
    using i j by (intro exI [of _ "j + i"]) (simp add: add.assoc)
  let ?new = "created (next_koid s0) (2 * Suc n)"
  have "next_koid s0 + of_nat j \<in> ?new" "next_koid s0 + of_nat (j + 1) \<in> ?new"
    using j(1) unfolding created_def by (intro imageI; simp)+
  moreover have "next_koid s + 1 = next_koid s0 + of_nat (j + 1)" using j(2) by (simp add: add.assoc add.commute)
  ultimately have new: "next_koid s \<in> ?new" "next_koid s + 1 \<in> ?new" by (simp_all only: j(2))
  have "created (next_koid s0) (2 * n) \<subseteq> ?new" by (auto simp: created_def)
  moreover have "caps s \<subseteq> caps s0 \<union> {h. ref_id (object h) \<in> created (next_koid s0) (2 * n)}"
    using assms(1) by (simp add: reach_safe_def)
  ultimately have "caps s \<subseteq> caps s0 \<union> {h. ref_id (object h) \<in> ?new}" by blast
  then have "granted s \<subseteq> caps s0 \<union> {h. ref_id (object h) \<in> ?new}" using new by (auto simp: granted_def)
  moreover have "caps t \<subseteq> granted s" using t by (simp add: safe_def)
  ultimately have caps: "caps t \<subseteq> caps s0 \<union> {h. ref_id (object h) \<in> created (next_koid s0) (2 * Suc n)}" by blast
  have mem: "\<exists>a. translate PROT_WRITE s0 a = Some x" if "pmem t x \<noteq> pmem s0 x" for x
  proof (cases "pmem t x = pmem s x")
    case True
    then have "pmem s x \<noteq> pmem s0 x" using that by simp
    then show ?thesis using assms(1) by (simp add: reach_safe_def)
  next
    case False
    then have "\<exists>a. translate PROT_WRITE s a = Some x" using t by (simp add: safe_def)
    then show ?thesis by (simp only: tr)
  qed
  show ?thesis using assms(1) t koid caps mem unfolding reach_safe_def safe_def by simp
qed

lemma reach_safe_user:
  assumes "reach_safe s0 n s" and "translate PROT_WRITE s a = Some x"
  shows "reach_safe s0 n (s\<lparr>pmem := (pmem s)(x := b)\<rparr>)"
proof -
  have "translate PROT_WRITE s0 a = Some x" using assms by (simp add: translate_def reach_safe_def)
  moreover have "caps (s\<lparr>pmem := (pmem s)(x := b)\<rparr>) = caps s" by (rule caps_frame) simp_all
  ultimately show ?thesis using assms(1) by (auto simp: reach_safe_def)
qed

lemma reach_safe_frame:
  assumes "reach_safe s0 n s" and "host_map t = host_map s" and "vmars t = vmars s" and "resources t = resources s"
    and "threads t = threads s" and "procs t = procs s" and "pmem t = pmem s" and "next_koid t = next_koid s" and "caps t \<subseteq> caps s"
  shows "reach_safe s0 n t"
proof -
  have "caps t \<subseteq> caps s0 \<union> {h. ref_id (object h) \<in> created (next_koid s0) (2 * n)}"
    using assms(1,9) unfolding reach_safe_def by blast
  then show ?thesis using assms(1-8) unfolding reach_safe_def by simp
qed

lemma vm_more_fields:
  fixes s t :: "'a sys_state_scheme"
  assumes "vm_state.more t = vm_state.more s"
  shows "vmars t = vmars s" "resources t = resources s" "threads t = threads s" "procs t = procs s" "channels t = channels s"
  using assms by (cases s, cases t, simp)+

lemma reach_safe_vmo_drop: "reach_safe s0 n s \<Longrightarrow> reach_safe s0 n (vmo_drop k s)"
proof -
  assume s: "reach_safe s0 n s"
  have r: "releases s (vmo_drop k s)" by (rule releases_vmo_drop)
  then have m: "vm_state.more (vmo_drop k s) = vm_state.more s" by (simp add: releases_def)
  note f = vm_more_fields [OF m]
  have "caps (vmo_drop k s) = caps s" by (rule caps_frame) (fact f)+
  then show "reach_safe s0 n (vmo_drop k s)"
    using r f by (intro reach_safe_frame [OF s]) (simp_all add: releases_def)
qed

lemma sys_reach_safe: "sys_reach s0 n s \<Longrightarrow> reach_safe s0 n s"
proof (induction rule: sys_reach.induct)
  case sr_init
  show ?case by (simp add: reach_safe_def)
next
  case (sr_call n s now th num args r t)
  then show ?case using safe_syscall [of s now th num args] by (auto intro: reach_safe_call)
next
  case (sr_user n s a x b)
  then show ?case by (auto intro: reach_safe_user)
next
  case (sr_channel n s k r t)
  then show ?case by (intro reach_safe_frame [OF sr_channel.IH]) (auto simp: channel_drop_def caps_def split: if_splits)
next
  case (sr_vmo n s k)
  then show ?case by (auto intro: reach_safe_vmo_drop)
next
  case (sr_job n s k r t)
  then obtain j where "t = s\<lparr>jobs := j\<rparr>" using job_drop_jobs by blast
  then show ?case by (intro reach_safe_frame [OF sr_job.IH]) (auto simp: caps_def)
qed

end
