(* ===== verification/Channel_Fifo.thy ===== *)
theory Channel_Fifo
  imports Channel Task_Props "HOL-Library.Sublist"
begin

text \<open>
  What a channel promises. The first part states it as an interface, a one-way pipe with an empty
  error, whose clients send and receive in any order; the interpretation shows that writing to one
  endpoint and reading from the other is such a pipe. The second part is about all channels at
  once: for every history of creations, writes, reads and drops of endpoints, the packets read
  from an endpoint are those written to its peer, in order, none lost and none doubled.
\<close>

subsection \<open>The pipe interface\<close>

datatype 'm pipe_op = Pipe_Send 'm | Pipe_Recv

primrec pipe_run ::
  "('m \<Rightarrow> 's \<Rightarrow> ('e + unit) \<times> 's) \<Rightarrow> ('s \<Rightarrow> ('e + 'm) \<times> 's) \<Rightarrow> 'm pipe_op list \<Rightarrow> 's \<Rightarrow> 'm list \<times> 's" where
  \<comment> \<open>the packets received and the final state\<close>
  "pipe_run send recv [] s = ([], s)"
| "pipe_run send recv (x # xs) s =
     (case x of
        Pipe_Send m \<Rightarrow> pipe_run send recv xs (snd (send m s))
      | Pipe_Recv \<Rightarrow> (case recv s of
           (Inl e, s') \<Rightarrow> pipe_run send recv xs s'
         | (Inr m, s') \<Rightarrow> (let (ms, t) = pipe_run send recv xs s' in (m # ms, t))))"

primrec pipe_sent :: "'m pipe_op list \<Rightarrow> 'm list" where
  "pipe_sent [] = []"
| "pipe_sent (x # xs) = (case x of Pipe_Send m \<Rightarrow> m # pipe_sent xs | Pipe_Recv \<Rightarrow> pipe_sent xs)"

locale message_pipe =
  fixes send :: "'m \<Rightarrow> 's \<Rightarrow> ('e + unit) \<times> 's"
    and recv :: "'s \<Rightarrow> ('e + 'm) \<times> 's"
    and pending :: "'s \<Rightarrow> 'm list"
    and linked :: "'s \<Rightarrow> bool"
    and would_wait :: 'e
  assumes send_ok: "linked s \<Longrightarrow> \<exists>s'. send m s = (Inr (), s') \<and> pending s' = pending s @ [m] \<and> linked s'"
    and recv_ok: "linked s \<Longrightarrow> pending s = m # ms \<Longrightarrow>
      \<exists>s'. recv s = (Inr m, s') \<and> pending s' = ms \<and> linked s'"
    and recv_empty: "linked s \<Longrightarrow> pending s = [] \<Longrightarrow> recv s = (Inl would_wait, s)"
begin

lemma fifo:
  "linked s \<Longrightarrow>
   (case pipe_run send recv xs s of (ms, t) \<Rightarrow> linked t \<and> ms @ pending t = pending s @ pipe_sent xs)"
proof (induction xs arbitrary: s)
  case Nil
  then show ?case by simp
next
  case (Cons x xs)
  show ?case
  proof (cases x)
    case (Pipe_Send m)
    obtain s' where "send m s = (Inr (), s')" "pending s' = pending s @ [m]" "linked s'"
      using send_ok [OF Cons.prems] by blast
    then show ?thesis using Cons.IH [of s'] Pipe_Send by (simp split: prod.splits)
  next
    case Pipe_Recv
    show ?thesis
    proof (cases "pending s")
      case Nil
      then show ?thesis using recv_empty [OF Cons.prems] Cons.IH [OF Cons.prems] Pipe_Recv by simp
    next
      case (Cons m ms)
      obtain s' where "recv s = (Inr m, s')" "pending s' = ms" "linked s'"
        using recv_ok [OF \<open>linked s\<close> Cons] by blast
      then show ?thesis using \<open>\<And>s. linked s \<Longrightarrow> _\<close> [of s'] Pipe_Recv Cons by (auto simp: Let_def split: prod.splits)
    qed
  qed
qed

lemma drain:
  "linked s \<Longrightarrow> pending s = ms \<Longrightarrow> fst (pipe_run send recv (replicate (length ms) Pipe_Recv) s) = ms"
proof (induction ms arbitrary: s)
  case (Cons m ms)
  obtain s' where "recv s = (Inr m, s')" "pending s' = ms" "linked s'"
    using recv_ok [OF Cons.prems] by blast
  then show ?case using Cons.IH [of s'] by (simp add: split_beta)
qed simp

end

subsection \<open>A channel is a pipe in each direction\<close>

definition pending_at :: "koid \<Rightarrow> 'a channel_state_scheme \<Rightarrow> message list" where
  "pending_at b s = (case channels s b of None \<Rightarrow> [] | Some c \<Rightarrow> ch_queue c)"

definition linked :: "koid \<Rightarrow> koid \<Rightarrow> 'a channel_state_scheme \<Rightarrow> bool" where
  "linked a b s \<longleftrightarrow> (\<exists>ca cb. channels s a = Some ca \<and> channels s b = Some cb \<and>
     ch_peer ca = Some b \<and> ch_peer cb = Some a)"

interpretation pipe: message_pipe "channel_write a" "channel_read b" "pending_at b" "linked a b" "Err SHOULD_WAIT"
  for a b
proof
  fix s :: "'a channel_state_scheme" and m
  assume "linked a b s"
  then obtain ca cb where c: "channels s a = Some ca" "channels s b = Some cb" "ch_peer ca = Some b" "ch_peer cb = Some a"
    by (auto simp: linked_def)
  then show "\<exists>s'. channel_write a m s = (Inr (), s') \<and> pending_at b s' = pending_at b s @ [m] \<and> linked a b s'"
    by (auto simp: channel_write_ok pending_at_def linked_def)
next
  fix s :: "'a channel_state_scheme" and m ms
  assume "linked a b s" "pending_at b s = m # ms"
  then obtain ca cb where c: "channels s a = Some ca" "channels s b = Some cb" "ch_peer ca = Some b" "ch_peer cb = Some a"
    "ch_queue cb = m # ms" by (auto simp: linked_def pending_at_def)
  then show "\<exists>s'. channel_read b s = (Inr m, s') \<and> pending_at b s' = ms \<and> linked a b s'"
    by (auto simp: channel_read_cons pending_at_def linked_def)
next
  fix s :: "'a channel_state_scheme"
  assume "linked a b s" "pending_at b s = []"
  then obtain ca cb where c: "channels s a = Some ca" "channels s b = Some cb" "ch_peer cb = Some a" "ch_queue cb = []"
    by (auto simp: linked_def pending_at_def)
  then show "channel_read b s = (Inl (Err SHOULD_WAIT), s)"
    by (simp add: channel_read_nil peer_closed_def upgrade_peer_def)
qed


subsection \<open>Histories of all channels\<close>

datatype chan_op = Ch_Create | Ch_Write koid message | Ch_Read koid | Ch_Drop koid

datatype chan_event = Wrote koid message | Received koid message

fun chan_step :: "chan_op \<Rightarrow> 'a channel_state_scheme \<Rightarrow> chan_event list \<times> 'a channel_state_scheme" where
  "chan_step Ch_Create s = ([], snd (channel_create s))"
| "chan_step (Ch_Write a m) s = (case channel_write a m s of (Inl _, t) \<Rightarrow> ([], t) | (Inr _, t) \<Rightarrow> ([Wrote a m], t))"
| "chan_step (Ch_Read b) s = (case channel_read b s of (Inl _, t) \<Rightarrow> ([], t) | (Inr m, t) \<Rightarrow> ([Received b m], t))"
| "chan_step (Ch_Drop k) s = ([], snd (channel_drop k s))"

primrec chan_run :: "chan_op list \<Rightarrow> 'a channel_state_scheme \<Rightarrow> chan_event list \<times> 'a channel_state_scheme" where
  "chan_run [] s = ([], s)"
| "chan_run (x # xs) s = (let (es, t) = chan_step x s; (es', u) = chan_run xs t in (es @ es', u))"

fun wrote_by :: "koid \<Rightarrow> chan_event \<Rightarrow> message list" where
  "wrote_by a (Wrote k m) = (if k = a then [m] else [])"
| "wrote_by a (Received k m) = []"

fun received_by :: "koid \<Rightarrow> chan_event \<Rightarrow> message list" where
  "received_by b (Received k m) = (if k = b then [m] else [])"
| "received_by b (Wrote k m) = []"

definition written :: "koid \<Rightarrow> chan_event list \<Rightarrow> message list" where
  "written a es = concat (map (wrote_by a) es)"

definition received :: "koid \<Rightarrow> chan_event list \<Rightarrow> message list" where
  "received b es = concat (map (received_by b) es)"

lemma written_simps [simp]:
  "written a [] = []" "written a (es @ es') = written a es @ written a es'"
  "written a [Wrote k m] = (if k = a then [m] else [])" "written a [Received k m] = []"
  by (simp_all add: written_def)

lemma received_simps [simp]:
  "received b [] = []" "received b (es @ es') = received b es @ received b es'"
  "received b [Received k m] = (if k = b then [m] else [])" "received b [Wrote k m] = []"
  by (simp_all add: received_def)

definition endpoint_ok :: "chan_event list \<Rightarrow> 'a channel_state_scheme \<Rightarrow> koid \<Rightarrow> channel \<Rightarrow> bool" where
  "endpoint_ok es s k c \<longleftrightarrow> k < next_koid s \<and>
     (case ch_peer c of None \<Rightarrow> False | Some a \<Rightarrow> a < next_koid s \<and> a \<noteq> k \<and>
        (\<forall>ca. channels s a = Some ca \<longrightarrow> ch_peer ca = Some k) \<and>
        written a es = received k es @ ch_queue c)"

lemma endpoint_okE:
  assumes "endpoint_ok es s k c"
  obtains a where "ch_peer c = Some a" "k < next_koid s" "a < next_koid s" "a \<noteq> k"
    "\<And>ca. channels s a = Some ca \<Longrightarrow> ch_peer ca = Some k" "written a es = received k es @ ch_queue c"
  using assms by (cases "ch_peer c") (auto simp: endpoint_ok_def)

definition history_ok :: "chan_event list \<Rightarrow> 'a channel_state_scheme \<Rightarrow> bool" where
  "history_ok es s \<longleftrightarrow>
     (\<forall>k c. channels s k = Some c \<longrightarrow> endpoint_ok es s k c) \<and>
     (\<forall>k. next_koid s \<le> k \<longrightarrow> written k es = [] \<and> received k es = []) \<and>
     (\<forall>k. \<exists>a. prefix (received k es) (written a es))"

lemma history_ok_write:
  assumes "history_ok es s" and "channel_write a m s = (r, t)"
  shows "history_ok (es @ fst (chan_step (Ch_Write a m) s)) t \<and> next_koid t = next_koid s"
proof (cases "\<exists>u. r = Inr u")
  case False
  then have "t = s" "fst (chan_step (Ch_Write a m) s) = []"
    using assms(2) by (auto simp: channel_write_def with_channel_def push_general_def split: option.splits sum.splits)
  then show ?thesis using assms(1) by simp
next
  case True
  then obtain ca b cb where c: "channels s a = Some ca" "ch_peer ca = Some b" "channels s b = Some cb"
    "t = put_channel b (cb\<lparr>ch_queue := ch_queue cb @ [m]\<rparr>) s"
    using assms(2) by (auto simp: channel_write_def with_channel_def push_general_def upgrade_peer_def split: option.splits if_splits)
  have ev: "fst (chan_step (Ch_Write a m) s) = [Wrote a m]" using channel_write_ok [OF c(1-3)] by simp
  have eps: "\<And>k c. channels s k = Some c \<Longrightarrow> endpoint_ok es s k c" using assms(1) by (simp add: history_ok_def)
  have ab: "a < next_koid s" "b \<noteq> a" "ch_peer cb = Some a" "written a es = received b es @ ch_queue cb"
    using eps [OF c(1)] eps [OF c(3)] c by (auto simp: endpoint_ok_def)
  have "endpoint_ok (es @ [Wrote a m]) t k c'" if "channels t k = Some c'" for k c'
  proof (cases "k = b")
    case True
    then show ?thesis using that c ab eps [OF c(3)] by (auto simp: endpoint_ok_def)
  next
    case False
    then have k: "channels s k = Some c'" using that c(4) by simp
    then have "ch_peer c' \<noteq> Some a" using eps [OF k] c(1,2) False by (auto simp: endpoint_ok_def)
    from eps [OF k] obtain a' where "ch_peer c' = Some a'" "k < next_koid s" "a' < next_koid s" "a' \<noteq> k"
      "\<And>ca. channels s a' = Some ca \<Longrightarrow> ch_peer ca = Some k" "written a' es = received k es @ ch_queue c'"
      by (rule endpoint_okE) blast
    then show ?thesis using \<open>ch_peer c' \<noteq> Some a\<close> c(3,4) ab(3) False by (auto simp: endpoint_ok_def)
  qed
  moreover have "\<exists>a'. prefix (received k (es @ [Wrote a m])) (written a' (es @ [Wrote a m]))" for k
  proof -
    have "\<exists>a'. prefix (received k es) (written a' es)" using assms(1) by (simp add: history_ok_def)
    then obtain a' where "prefix (received k es) (written a' es)" ..
    then show ?thesis by (auto intro!: exI [of _ a'])
  qed
  moreover have "written k (es @ [Wrote a m]) = [] \<and> received k (es @ [Wrote a m]) = []" if "next_koid t \<le> k" for k
    using assms(1) that c(4) ab(1) by (auto simp: history_ok_def)
  ultimately show ?thesis using c(4) ev by (simp add: history_ok_def)
qed

lemma history_ok_read:
  assumes "history_ok es s" and "channel_read b s = (r, t)"
  shows "history_ok (es @ fst (chan_step (Ch_Read b) s)) t \<and> next_koid t = next_koid s"
proof (cases "\<exists>cb m ms. channels s b = Some cb \<and> ch_queue cb = m # ms")
  case False
  then have "t = s" "fst (chan_step (Ch_Read b) s) = []"
    using assms(2) by (auto simp: channel_read_def check_and_read_def with_channel_def sbind_def split: option.splits list.splits)
  then show ?thesis using assms(1) by simp
next
  case True
  then obtain cb m ms where c: "channels s b = Some cb" "ch_queue cb = m # ms" by blast
  then have t: "t = put_channel b (cb\<lparr>ch_queue := ms\<rparr>) s" and ev: "fst (chan_step (Ch_Read b) s) = [Received b m]"
    using assms(2) channel_read_cons [OF c] by auto
  have eps: "\<And>k c. channels s k = Some c \<Longrightarrow> endpoint_ok es s k c" using assms(1) by (simp add: history_ok_def)
  have "endpoint_ok (es @ [Received b m]) t k c'" if "channels t k = Some c'" for k c'
    using that eps [of k] eps [OF c(1)] c t by (cases "k = b") (auto simp: endpoint_ok_def split: if_splits option.splits)
  moreover have "\<exists>a'. prefix (received k (es @ [Received b m])) (written a' (es @ [Received b m]))" for k
  proof (cases "k = b")
    case True
    from eps [OF c(1)] obtain a' where "written a' es = received b es @ ch_queue cb" by (rule endpoint_okE)
    then show ?thesis using True c(2) by (auto intro!: exI [of _ a'])
  next
    case False
    then show ?thesis using assms(1) by (simp add: history_ok_def)
  qed
  moreover have "written k (es @ [Received b m]) = [] \<and> received k (es @ [Received b m]) = []" if "next_koid t \<le> k" for k
    using assms(1) that t eps [OF c(1)] by (auto simp: history_ok_def endpoint_ok_def)
  ultimately show ?thesis using t ev by (simp add: history_ok_def)
qed

lemma koid_succ: "unat (k :: koid) + 1 < usize_lim \<Longrightarrow> unat (k + 1) = unat k + 1"
  by (simp add: unat_word_ariths)

lemma history_ok_create:
  assumes "history_ok es s" and "unat (next_koid s) + 2 < usize_lim"
  shows "history_ok es (snd (channel_create s)) \<and> unat (next_koid (snd (channel_create s))) = unat (next_koid s) + 2"
proof -
  let ?k = "next_koid s" and ?t = "snd (channel_create s)"
  have n1: "unat (?k + 1) = unat ?k + 1" using assms(2) by (intro koid_succ) simp
  have n2: "unat (?k + 1 + 1) = unat ?k + 2" using assms(2) n1 koid_succ [of "?k + 1"] by simp
  have lt: "?k < ?k + 1 + 1" "?k + 1 < ?k + 1 + 1" "?k \<noteq> ?k + 1" "?k + 1 \<noteq> ?k" using n1 n2 by (auto simp: word_less_nat_alt)
  have mono: "x < ?k + 1 + 1" if "x < ?k" for x using that n2 by (simp add: word_less_nat_alt)
  have old: "x \<noteq> ?k" "x \<noteq> ?k + 1" if "x < ?k" for x using that n1 by (auto simp: word_less_nat_alt)
  have eps: "\<And>k c. channels s k = Some c \<Longrightarrow> endpoint_ok es s k c" using assms(1) by (simp add: history_ok_def)
  have fresh: "written x es = [] \<and> received x es = []" if "?k \<le> x" for x using assms(1) that by (simp add: history_ok_def)
  have "?k \<le> ?k + 1" "?k \<le> ?k + 1 + 1" using n1 n2 by (auto simp: word_le_nat_alt)
  have "endpoint_ok es ?t k c" if "channels ?t k = Some c" for k c
  proof -
    consider "k = ?k + 1" | "k = ?k" | "k \<noteq> ?k" "k \<noteq> ?k + 1" by blast
    then show ?thesis
    proof cases
      case 3
      then have k: "channels s k = Some c" using that by (simp add: channel_create_eq)
      then show ?thesis using eps [OF k] mono old
        by (auto simp: endpoint_ok_def channel_create_eq split: option.splits)
    qed (use that lt fresh \<open>?k \<le> ?k + 1\<close> in \<open>auto simp: channel_create_eq endpoint_ok_def channel_init_def\<close>)
  qed
  moreover have "written x es = [] \<and> received x es = []" if "next_koid ?t \<le> x" for x
    using that fresh \<open>?k \<le> ?k + 1 + 1\<close> by (auto simp: channel_create_eq intro: order_trans)
  ultimately show ?thesis using assms(1) n2 by (simp add: history_ok_def channel_create_eq)
qed

lemma endpoint_ok_drop: "endpoint_ok es s k c \<Longrightarrow> endpoint_ok es (s\<lparr>channels := (channels s)(k' := None)\<rparr>) k c"
  by (cases "ch_peer c") (auto simp: endpoint_ok_def)

lemma history_ok_drop: "history_ok es s \<Longrightarrow> history_ok es (snd (channel_drop k s))"
  by (simp add: history_ok_def endpoint_ok_drop channel_drop_def)

lemma history_ok_run:
  "history_ok es s \<Longrightarrow> unat (next_koid s) + 2 * length xs < usize_lim \<Longrightarrow> chan_run xs s = (es', t) \<Longrightarrow>
   history_ok (es @ es') t"
proof (induction xs arbitrary: es s es')
  case Nil
  then show ?case by simp
next
  case (Cons x xs)
  obtain e1 u where x: "chan_step x s = (e1, u)" by fastforce
  obtain e2 where xs: "chan_run xs u = (e2, t)" "es' = e1 @ e2" using Cons.prems(3) x by (auto split: prod.splits)
  have "history_ok (es @ e1) u \<and> unat (next_koid u) \<le> unat (next_koid s) + 2"
  proof (cases x)
    case Ch_Create
    then show ?thesis using history_ok_create [OF Cons.prems(1)] Cons.prems(2) x by auto
  next
    case (Ch_Write a m)
    then show ?thesis using history_ok_write [OF Cons.prems(1), of a m "fst (channel_write a m s)" "snd (channel_write a m s)"] x
      by (cases "channel_write a m s") (auto split: sum.splits)
  next
    case (Ch_Read b)
    then show ?thesis using history_ok_read [OF Cons.prems(1), of b "fst (channel_read b s)" "snd (channel_read b s)"] x
      by (cases "channel_read b s") (auto split: sum.splits)
  next
    case (Ch_Drop k)
    then show ?thesis using history_ok_drop [OF Cons.prems(1)] x by (auto simp: channel_drop_def)
  qed
  then show ?case using Cons.IH [of "es @ e1" u e2] Cons.prems(2) xs by simp
qed


lemma history_ok_empty: "channels s = Map.empty \<Longrightarrow> history_ok [] s"
  by (simp add: history_ok_def)

subsection \<open>Properties\<close>

definition channel_start :: channel_state where
  "channel_start = task_state.extend task_start \<lparr>channels = Map.empty\<rparr>"

lemma channel_start_simps [simp]: "channels channel_start = Map.empty" "next_koid channel_start = 1024"
  by (simp_all add: channel_start_def task_state.defs task_start_def vmar_start_def vm_start_def vm_state.defs
      vmar_state.defs init_koid_def channel_state.defs)

text \<open>C11.
  Channels deliver in order and lose nothing. In every history of creations of channels, writes to
  and reads from any endpoint and drops of endpoints, starting with no channel and short enough
  for the object ids not to run out: the packets written to the peer of a live endpoint are exactly
  the packets read from the endpoint so far followed by its queue, and the packets read from any
  endpoint, live or dropped, are a prefix of those written to one other endpoint.
\<close>

theorem channel_fifo:
  assumes "channels s = Map.empty" and "unat (next_koid s) + 2 * length ops < 2 ^ 64" and "chan_run ops s = (es, t)"
  shows "(\<forall>k c. channels t k = Some c \<longrightarrow>
           (\<exists>a. ch_peer c = Some a \<and> a \<noteq> k \<and> written a es = received k es @ ch_queue c)) \<and>
         (\<forall>k. \<exists>a. prefix (received k es) (written a es))"
proof -
  have "history_ok ([] @ es) t"
    by (rule history_ok_run [OF history_ok_empty [OF assms(1)] _ assms(3)]) (use assms(2) in simp)
  then have ok: "history_ok es t" by simp
  have "\<exists>a. ch_peer c = Some a \<and> a \<noteq> k \<and> written a es = received k es @ ch_queue c" if "channels t k = Some c" for k c
  proof -
    from ok that have "endpoint_ok es t k c" by (simp add: history_ok_def)
    then show ?thesis by (rule endpoint_okE) blast
  qed
  with ok show ?thesis by (auto simp: history_ok_def)
qed

definition demo_message :: "u8 \<Rightarrow> message" where
  "demo_message b = \<lparr>msg_data = [b], msg_handles = []\<rparr>"

definition demo_history :: "chan_op list" where
  "demo_history = [Ch_Create, Ch_Write 1024 (demo_message 1), Ch_Write 1024 (demo_message 2), Ch_Read 1025, Ch_Drop 1024]"

theorem channel_fifo_witness:
  "\<exists>es t c. chan_run demo_history channel_start = (es, t) \<and> channels t 1025 = Some c \<and>
     received 1025 es = [demo_message 1] \<and> written 1024 es = [demo_message 1, demo_message 2] \<and>
     (\<exists>a. ch_peer c = Some a \<and> a \<noteq> 1025 \<and> written a es = received 1025 es @ ch_queue c) \<and>
     (\<forall>k. \<exists>a. prefix (received k es) (written a es))"
proof -
  obtain es t where run: "chan_run demo_history channel_start = (es, t)" by fastforce
  then have facts: "received 1025 es = [demo_message 1]" "written 1024 es = [demo_message 1, demo_message 2]"
    "channels t 1025 \<noteq> None"
    by (auto simp: demo_history_def channel_create_eq channel_init_def channel_write_def channel_read_def check_and_read_def
        with_channel_def upgrade_peer_def push_general_def sbind_def channel_drop_def written_def received_def)
  then obtain c where c: "channels t 1025 = Some c" by blast
  have len: "length demo_history = 5" by (simp add: demo_history_def)
  have all: "(\<forall>k c. channels t k = Some c \<longrightarrow>
           (\<exists>a. ch_peer c = Some a \<and> a \<noteq> k \<and> written a es = received k es @ ch_queue c)) \<and>
         (\<forall>k. \<exists>a. prefix (received k es) (written a es))"
    by (rule channel_fifo [OF _ _ run]) (simp_all add: len)
  show ?thesis
    by (intro exI [of _ es] exI [of _ t] exI [of _ c] conjI run facts(1,2) c all [THEN conjunct2] all [THEN conjunct1, rule_format, OF c])
qed


definition demo_channels :: channel_state where
  "demo_channels = channel_start\<lparr>channels :=
     [8 \<mapsto> channel_init \<lparr>base_id = 8, base_name = ''''\<rparr> (Some 9),
      9 \<mapsto> (channel_init \<lparr>base_id = 9, base_name = ''''\<rparr> (Some 8))\<lparr>ch_queue := [demo_message 7]\<rparr>]\<rparr>"

lemma demo_linked: "linked 8 9 demo_channels" "pending_at 9 demo_channels = [demo_message 7]"
  by (simp_all add: linked_def pending_at_def demo_channels_def channel_init_def)

text \<open>C26.
  A channel implements the abstract pipe: however the writes to one endpoint and the reads from the
  other are interleaved, the packets read followed by the packets still pending are the packets
  that were pending followed by the packets written, and the two endpoints stay linked.
\<close>

theorem channel_is_pipe:
  assumes "linked a b s" and "pipe_run (channel_write a) (channel_read b) xs s = (ms, t)"
  shows "linked a b t \<and> ms @ pending_at b t = pending_at b s @ pipe_sent xs"
  using pipe.fifo [OF assms(1), of xs] assms(2) by simp

theorem channel_is_pipe_witness:
  "\<exists>ms t. pipe_run (channel_write 8) (channel_read 9) [Pipe_Recv, Pipe_Send (demo_message 5), Pipe_Recv] demo_channels = (ms, t) \<and>
     linked 8 9 t \<and> ms @ pending_at 9 t = [demo_message 7, demo_message 5]"
proof -
  obtain ms t where run: "pipe_run (channel_write 8) (channel_read 9) [Pipe_Recv, Pipe_Send (demo_message 5), Pipe_Recv] demo_channels = (ms, t)"
    by fastforce
  show ?thesis using channel_is_pipe [OF demo_linked(1) run] run by (simp add: demo_linked del: pipe_run.simps)
qed

lemma drain_endpoint:
  "channels s b = Some c \<Longrightarrow> ch_queue c = ms \<Longrightarrow>
   \<exists>t. pipe_run (channel_write a) (channel_read b) (replicate (length ms) Pipe_Recv) s = (ms, t) \<and>
       channels t = (channels s)(b \<mapsto> c\<lparr>ch_queue := []\<rparr>)"
proof (induction ms arbitrary: s c)
  case Nil
  then have "c\<lparr>ch_queue := []\<rparr> = c" by simp
  with Nil show ?case by auto
next
  case (Cons m ms)
  let ?u = "put_channel b (c\<lparr>ch_queue := ms\<rparr>) s"
  obtain t where "pipe_run (channel_write a) (channel_read b) (replicate (length ms) Pipe_Recv) ?u = (ms, t)"
    "channels t = (channels s)(b \<mapsto> c\<lparr>ch_queue := []\<rparr>)"
    using Cons.IH [of ?u "c\<lparr>ch_queue := ms\<rparr>"] by (auto simp del: fun_upd_apply simp: fun_upd_same)
  then show ?case using channel_read_cons [OF Cons.prems] by (simp del: fun_upd_apply)
qed

text \<open>C39.
  When one endpoint of a channel goes, the other can no longer be written to, but the packets it
  has received can all still be read, in order; only then does reading report that the peer is
  closed.
\<close>

theorem channel_peer_gone:
  assumes "linked a b s" and "a \<noteq> b" and "channel_drop a s = (r, t)"
  shows "channel_write b m t = (Inl (Err PEER_CLOSED), t) \<and>
     (\<exists>u. pipe_run (channel_write a) (channel_read b) (replicate (length (pending_at b s)) Pipe_Recv) t = (pending_at b s, u) \<and>
          channel_read b u = (Inl (Err PEER_CLOSED), u))"
proof -
  obtain c where c: "channels t b = Some c" "ch_peer c = Some a" "ch_queue c = pending_at b s" "channels t a = None"
    using assms by (auto simp: linked_def pending_at_def channel_drop_def)
  obtain u where u: "pipe_run (channel_write a) (channel_read b) (replicate (length (pending_at b s)) Pipe_Recv) t = (pending_at b s, u)"
    "channels u = (channels t)(b \<mapsto> c\<lparr>ch_queue := []\<rparr>)"
    using drain_endpoint [OF c(1,3)] by blast
  have "channel_read b u = (Inl (Err PEER_CLOSED), u)"
    using u(2) c(2,4) assms(2) by (simp add: channel_read_nil peer_closed_def upgrade_peer_def)
  moreover have "channel_write b m t = (Inl (Err PEER_CLOSED), t)"
    using c by (simp add: channel_write_def with_channel_def upgrade_peer_def)
  ultimately show ?thesis using u(1) by blast
qed

theorem channel_peer_gone_witness:
  "\<exists>t. channel_drop 8 demo_channels = (Inr (), t) \<and> channel_write 9 (demo_message 1) t = (Inl (Err PEER_CLOSED), t) \<and>
     (\<exists>u. pipe_run (channel_write 8) (channel_read 9) [Pipe_Recv] t = ([demo_message 7], u) \<and>
          channel_read 9 u = (Inl (Err PEER_CLOSED), u))"
proof -
  obtain t where t: "channel_drop 8 demo_channels = (Inr (), t)" by (simp add: channel_drop_def)
  show ?thesis using channel_peer_gone [OF demo_linked(1) _ t, of "demo_message 1"] t
    by (auto simp: demo_linked simp del: pipe_run.simps)
qed

end
