(* ===== verification/Debuglog_Spec.thy ===== *)
theory Debuglog_Spec
  imports Debuglog Channel_Fifo
begin

text \<open>
  What the debug log promises. The abstract log is a list of entries with a cursor for each reader;
  the byte buffer with its reading positions refines it for entries of at most 224 bytes, the
  longest the system call lets through. A longer entry, which the interface of the kernel accepts,
  makes every reader that reaches it panic.
\<close>

subsection \<open>The format of a record\<close>

lemma and_not_3: "(y :: u64) AND NOT 3 = push_bit 2 (drop_bit 2 y)"
proof -
  have m: "(3 :: u64) = mask 2" by (simp add: mask_eq_exp_minus_1)
  have "y AND NOT (mask 2) = push_bit 2 (drop_bit 2 y)"
    by (rule bit_eqI) (auto simp only: bit_and_iff bit_not_iff bit_push_bit_iff bit_drop_bit_eq bit_mask_iff o_apply le_add_diff_inverse not_less)
  then show ?thesis by (simp only: m)
qed

lemma align_up_4_eq: "x + 3 < usize_lim \<Longrightarrow> align_up_4 x = Inr (4 * ((x + 3) div 4))"
proof -
  assume x: "x + 3 < usize_lim"
  let ?y = "of_nat (x + 3) :: u64"
  have y: "unat ?y = x + 3" using x by (simp only: unat_of_nat) simp
  note and_not_3 [of ?y]
  moreover have "unat (drop_bit 2 ?y) = (x + 3) div 4"
    unfolding drop_bit_eq_div unat_div_distrib y by simp
  moreover have "unat (push_bit 2 (drop_bit 2 ?y)) = 4 * unat (drop_bit 2 ?y)"
  proof -
    have "4 * unat (drop_bit 2 ?y) < 2 ^ 64" using x \<open>unat (drop_bit 2 ?y) = _\<close> by simp
    then show ?thesis by (simp add: push_bit_eq_mult unat_word_ariths mult.commute)
  qed
  ultimately have "unat (?y AND NOT 3) = 4 * ((x + 3) div 4)" by simp
  moreover have "uadd x 3 = (Inr (x + 3) :: usize zx)" using x by (simp add: uadd_def)
  ultimately show ?thesis by (simp only: align_up_4_def rbind_simps)
qed

lemma rollout_low_bits:
  "w < 4096 \<Longrightarrow> unat ((push_bit 12 x OR of_nat w :: u32) AND 0xFFF) = w"
proof -
  assume w: "w < 4096"
  have m: "(0xFFF :: u32) = mask 12" by (simp add: mask_eq_exp_minus_1)
  have "(push_bit 12 x OR of_nat w :: u32) AND 0xFFF = take_bit 12 (push_bit 12 x OR of_nat w)"
    unfolding m by (simp add: take_bit_eq_mask)
  also have "\<dots> = take_bit 12 (of_nat w)" by (simp add: take_bit_push_bit)
  also have "unat \<dots> = w" unfolding unsigned_take_bit_eq unat_of_nat using w by (simp add: take_bit_eq_mod)
  finally show ?thesis .
qed

record log_entry =
  le_severity :: severity
  le_flags :: u32
  le_tid :: u64
  le_pid :: u64
  le_now :: nat
  le_data :: "u8 list"

definition short_entry :: "log_entry \<Rightarrow> bool" where
  "short_entry e \<longleftrightarrow> length (le_data e) \<le> 224"

definition entry_record :: "log_entry \<Rightarrow> u8 list" where
  "entry_record e =
     (case dlog_record (le_severity e) (le_flags e) (le_tid e) (le_pid e) (le_now e) (le_data e) of
        Inl _ \<Rightarrow> [] | Inr r \<Rightarrow> r)"

definition record_data :: "u8 list \<Rightarrow> u8 list" where
  \<comment> \<open>what a reader takes from a record: the data after the header, of the length the header gives\<close>
  "record_data r = take (le_nat (take 2 (drop 4 r))) (drop 32 r)"

definition good_record :: "u8 list \<Rightarrow> bool" where
  "good_record r \<longleftrightarrow> 32 \<le> length r \<and> length r \<le> 256 \<and>
     unat ((of_nat (le_nat (take 4 r)) :: u32) AND 0xFFF) = length r"

lemma length_dlog_header_bytes [simp]: "length (dlog_header_bytes h) = 32"
  by (simp add: dlog_header_bytes_def)

lemma dlog_record_eq:
  assumes "length data + 35 < usize_lim"
  shows "\<exists>h. dlog_record sev flags tid pid now data =
      Inr (dlog_header_bytes h @ data @ replicate (4 * ((length data + 3) div 4) - length data) 0) \<and>
     dh_rollout h = push_bit 12 (of_nat (32 + length data)) OR of_nat (32 + 4 * ((length data + 3) div 4)) \<and>
     dh_datalen h = of_nat (length data)"
proof -
  have "(length data + 3) div 4 * 4 \<le> length data + 3" by (rule div_times_less_eq_dividend)
  then have "(length data + 3) div 4 < 4611686018427387896" using assms by linarith
  define h where "h = \<lparr>dh_rollout = push_bit 12 (of_nat (32 + length data)) OR of_nat (32 + 4 * ((length data + 3) div 4)),
    dh_datalen = of_nat (length data), dh_severity = sev, dh_flags = ucast flags, dh_timestamp = of_nat now,
    dh_pid = pid, dh_tid = tid\<rparr>"
  have "dlog_record sev flags tid pid now data =
      Inr (dlog_header_bytes h @ data @ replicate (4 * ((length data + 3) div 4) - length data) 0)"
    using assms \<open>_ < 4611686018427387896\<close>
    by (simp add: dlog_record_def align_up_4_eq HEADER_SIZE_def uadd_def Let_def h_def)
  then show ?thesis by (auto simp: h_def)
qed

lemma entry_record_good:
  assumes "short_entry e"
  shows "dlog_record (le_severity e) (le_flags e) (le_tid e) (le_pid e) (le_now e) (le_data e) = Inr (entry_record e)"
    and "good_record (entry_record e)" and "record_data (entry_record e) = le_data e"
proof -
  let ?d = "le_data e" and ?n = "length (le_data e)"
  let ?w = "32 + 4 * ((?n + 3) div 4)"
  have n: "?n \<le> 224" using assms by (simp add: short_entry_def)
  obtain h where h: "dlog_record (le_severity e) (le_flags e) (le_tid e) (le_pid e) (le_now e) ?d =
      Inr (dlog_header_bytes h @ ?d @ replicate (4 * ((?n + 3) div 4) - ?n) 0)"
    "dh_rollout h = push_bit 12 (of_nat (32 + ?n)) OR of_nat ?w" "dh_datalen h = of_nat ?n"
    using dlog_record_eq [of ?d] n by force
  then have r: "entry_record e = dlog_header_bytes h @ ?d @ replicate (4 * ((?n + 3) div 4) - ?n) 0"
    by (simp add: entry_record_def)
  then show "dlog_record (le_severity e) (le_flags e) (le_tid e) (le_pid e) (le_now e) ?d = Inr (entry_record e)"
    using h(1) by simp
  have "(?n + 3) div 4 \<le> 227 div 4" using n by (intro div_le_mono) simp
  then have w: "?w \<le> 256" by simp
  have len: "length (entry_record e) = ?w" using r by simp
  have "take 4 (entry_record e) = le_bytes 4 (unat (dh_rollout h))" using r by (simp add: dlog_header_bytes_def)
  moreover have "unat (dh_rollout h) < 256 ^ 4" using unsigned_less [of "dh_rollout h"] by simp
  ultimately have "of_nat (le_nat (take 4 (entry_record e))) = dh_rollout h" by (simp add: le_nat_le_bytes)
  then have "unat ((of_nat (le_nat (take 4 (entry_record e))) :: u32) AND 0xFFF) = ?w"
    using rollout_low_bits [of ?w] w h(2) by simp
  then show "good_record (entry_record e)" using len w by (simp add: good_record_def)
  have "take 2 (drop 4 (entry_record e)) = le_bytes 2 (unat (dh_datalen h))" using r by (simp add: dlog_header_bytes_def)
  moreover have "unat (dh_datalen h) = ?n" using h(3) n by (simp add: unat_of_nat)
  ultimately have "le_nat (take 2 (drop 4 (entry_record e))) = ?n" using n by (simp add: le_nat_le_bytes)
  then show "record_data (entry_record e) = ?d" using r by (simp add: record_data_def)
qed


subsection \<open>Reading at a boundary\<close>

lemma dlog_read_at_boundary:
  assumes "good_record r" and "256 \<le> length buf" and "length pre + 256 < usize_lim"
  shows "dlog_read_at (length pre) (pre @ r @ post) buf = Inr (splice_at buf 0 r, length r)"
proof -
  have r: "32 \<le> length r" "length r \<le> 256" "unat ((of_nat (le_nat (take 4 r)) :: u32) AND 0xFFF) = length r"
    using assms(1) by (simp_all add: good_record_def)
  have head: "sub_slice (pre @ r @ post) (length pre) (length pre + 32) = (Inr (take 32 r) :: u8 list zx)"
    using r(1) by (simp add: sub_slice_def)
  have four: "take 4 (take 32 r) = take 4 r" by simp
  have mid: "\<exists>xs. sub_slice (splice_at buf 0 (take 32 r)) 32 (length r) = (Inr xs :: u8 list zx)"
    using r assms(2) by (simp add: sub_slice_def)
  have body: "sub_slice (pre @ r @ post) (length pre + 32) (length pre + length r) = (Inr (drop 32 r) :: u8 list zx)"
    using r(1) by (simp add: sub_slice_def)
  have join: "splice_at (splice_at buf 0 (take 32 r)) 32 (drop 32 r) = splice_at buf 0 r"
    using r assms(2) by (simp add: splice_at_def min_def)
  have "length pre \<noteq> length (pre @ r @ post)" using r(1) by auto
  moreover have "uadd (length pre) 32 = (Inr (length pre + 32) :: usize zx)"
    "uadd (length pre) (length r) = (Inr (length pre + length r) :: usize zx)" using r(2) assms(3) by (simp_all add: uadd_def)
  ultimately show ?thesis
    unfolding dlog_read_at_def Let_def HEADER_SIZE_def DLOG_MAX_LEN_def
    using mid assms(2) by (auto simp only: head rbind_simps four r(3) body join if_False not_less if_not_P)
qed

lemma dlog_read_at_end:
  "256 \<le> length buf \<Longrightarrow> dlog_read_at (length log) log buf = Inr (buf, 0)"
  by (simp add: dlog_read_at_def DLOG_MAX_LEN_def)

subsection \<open>Histories of the log\<close>

datatype log_op = Log_Write koid severity u32 u64 u64 nat "u8 list" | Log_Read koid

datatype log_event = Logged log_entry | Fetched koid "u8 list"

fun log_step :: "log_op \<Rightarrow> 'a dlog_state_scheme \<Rightarrow> log_event list \<times> 'a dlog_state_scheme" where
  \<comment> \<open>a reader passes a buffer of 256 bytes, as the system call does, and takes the record\<close>
  "log_step (Log_Write k sev flags tid pid now data) s =
     (case debuglog_write k sev flags tid pid now data s of
        (Inl _, t) \<Rightarrow> ([], t)
      | (Inr _, t) \<Rightarrow> ([Logged \<lparr>le_severity = sev, le_flags = flags OR dl_flags (the (dlogs s k)), le_tid = tid,
                          le_pid = pid, le_now = now, le_data = data\<rparr>], t))"
| "log_step (Log_Read k) s =
     (case debuglog_read k (replicate 256 0) s of
        (Inl _, t) \<Rightarrow> ([], t)
      | (Inr (buf, len), t) \<Rightarrow> (if len = 0 then [] else [Fetched k (take len buf)], t))"

primrec log_run :: "log_op list \<Rightarrow> 'a dlog_state_scheme \<Rightarrow> log_event list \<times> 'a dlog_state_scheme" where
  "log_run [] s = ([], s)"
| "log_run (x # xs) s = (let (es, t) = log_step x s; (es', u) = log_run xs t in (es @ es', u))"

fun logged_in :: "log_event \<Rightarrow> log_entry list" where
  "logged_in (Logged e) = [e]"
| "logged_in (Fetched k r) = []"

fun fetched_by :: "koid \<Rightarrow> log_event \<Rightarrow> u8 list list" where
  "fetched_by k (Fetched k' r) = (if k' = k then [r] else [])"
| "fetched_by k (Logged e) = []"

definition logged :: "log_event list \<Rightarrow> log_entry list" where
  "logged es = concat (map logged_in es)"

definition fetched :: "koid \<Rightarrow> log_event list \<Rightarrow> u8 list list" where
  "fetched k es = concat (map (fetched_by k) es)"

lemma logged_simps [simp]:
  "logged [] = []" "logged (es @ es') = logged es @ logged es'" "logged [Logged e] = [e]" "logged [Fetched k r] = []"
  by (simp_all add: logged_def)

lemma fetched_simps [simp]:
  "fetched k [] = []" "fetched k (es @ es') = fetched k es @ fetched k es'"
  "fetched k [Logged e] = []" "fetched k [Fetched k' r] = (if k' = k then [r] else [])"
  by (simp_all add: fetched_def)

fun short_op :: "log_op \<Rightarrow> bool" where
  "short_op (Log_Write k sev flags tid pid now data) \<longleftrightarrow> length data \<le> 224"
| "short_op (Log_Read k) \<longleftrightarrow> True"

definition reader_ok :: "log_event list \<Rightarrow> koid \<Rightarrow> debug_log \<Rightarrow> bool" where
  "reader_ok es k d \<longleftrightarrow>
     prefix (fetched k es) (map entry_record (logged es)) \<and> dl_offset d = length (concat (fetched k es))"

definition log_ok :: "log_event list \<Rightarrow> 'a dlog_state_scheme \<Rightarrow> bool" where
  "log_ok es s \<longleftrightarrow> dlog_buf s = concat (map entry_record (logged es)) \<and> (\<forall>e \<in> set (logged es). short_entry e) \<and>
     (\<forall>k d. dlogs s k = Some d \<longrightarrow> reader_ok es k d)"

lemma log_ok_length: "log_ok es s \<Longrightarrow> length (dlog_buf s) \<le> 256 * length (logged es)"
proof -
  have "(\<And>e. e \<in> set xs \<Longrightarrow> short_entry e) \<Longrightarrow> length (concat (map entry_record xs)) \<le> 256 * length xs" for xs
  proof (induction xs)
    case (Cons e xs)
    then show ?case using entry_record_good(2) [of e] by (simp add: good_record_def)
  qed simp
  then show "log_ok es s \<Longrightarrow> ?thesis" by (simp add: log_ok_def)
qed

lemma log_ok_write:
  assumes ok: "log_ok es s" and short: "length data \<le> 224"
    and step: "log_step (Log_Write k sev flags tid pid now data) s = (es', t)"
  shows "log_ok (es @ es') t \<and> length (logged es') \<le> 1"
proof (cases "dlogs s k")
  case None
  then show ?thesis using assms by (simp add: debuglog_write_def with_dlog_def)
next
  case (Some d)
  define e where "e = \<lparr>le_severity = sev, le_flags = flags OR dl_flags d, le_tid = tid, le_pid = pid, le_now = now, le_data = data\<rparr>"
  have e: "short_entry e" using short by (simp add: e_def short_entry_def)
  then have r: "dlog_record sev (flags OR dl_flags d) tid pid now data = Inr (entry_record e)"
    using entry_record_good(1) [OF e] by (simp add: e_def)
  have es': "es' = [Logged e]" and t: "t = s\<lparr>dlog_buf := dlog_buf s @ entry_record e\<rparr>"
    using step Some r by (simp_all add: debuglog_write_def with_dlog_def dlog_buffer_write_def e_def)
  have "reader_ok (es @ [Logged e]) k' d'" if "dlogs s k' = Some d'" for k' d'
    using ok that by (auto simp: log_ok_def reader_ok_def)
  then show ?thesis using ok e t es' by (auto simp: log_ok_def)
qed

lemma log_read_cases:
  assumes ok: "log_ok es s" and bound: "256 * length (logged es) + 256 < usize_lim"
    and step: "log_step (Log_Read k) s = (es', t)" and d: "dlogs s k = Some d"
  obtains (all) "fetched k es = map entry_record (logged es)" "es' = []" "t = s \<or> t = s\<lparr>dlogs := (dlogs s)(k \<mapsto> d)\<rparr>"
  | (one) r rest where "map entry_record (logged es) = fetched k es @ r # rest" "es' = [Fetched k r]"
      "t = s\<lparr>dlogs := (dlogs s)(k \<mapsto> d\<lparr>dl_offset := length (concat (fetched k es)) + length r\<rparr>)\<rparr>"
proof -
  have "reader_ok es k d" using ok d by (simp add: log_ok_def)
  then obtain rest where rest: "map entry_record (logged es) = fetched k es @ rest" and off: "dl_offset d = length (concat (fetched k es))"
    by (auto simp: reader_ok_def elim: prefixE)
  have buf: "dlog_buf s = concat (fetched k es) @ concat rest" using ok rest by (simp add: log_ok_def)
  show thesis
  proof (cases rest)
    case Nil
    then have "dlog_read_at (dl_offset d) (dlog_buf s) (replicate 256 0) = Inr (replicate 256 0, 0)"
      using buf off dlog_read_at_end [of "replicate 256 0" "dlog_buf s"] by simp
    then have "es' = [] \<and> (t = s \<or> t = s\<lparr>dlogs := (dlogs s)(k \<mapsto> d)\<rparr>)"
      using step d by (auto simp: debuglog_read_def with_dlog_def split: sum.splits)
    then show ?thesis using all rest Nil by simp
  next
    case (Cons r rest')
    have "r \<in> set (map entry_record (logged es))" using rest Cons by simp
    then have r: "good_record r" using ok entry_record_good(2) by (auto simp: log_ok_def)
    have len: "length (concat (fetched k es)) + 256 < usize_lim" "length r \<le> 256" "length r \<noteq> 0"
      using log_ok_length [OF ok] buf bound r by (auto simp: good_record_def)
    have read: "dlog_read_at (dl_offset d) (dlog_buf s) (replicate 256 0) = Inr (splice_at (replicate 256 0) 0 r, length r)"
      unfolding buf off Cons concat.simps by (rule dlog_read_at_boundary [OF r _ len(1)]) simp
    have "es' = [Fetched k r]" "t = s\<lparr>dlogs := (dlogs s)(k \<mapsto> d\<lparr>dl_offset := length (concat (fetched k es)) + length r\<rparr>)\<rparr>"
      using step d read len off by (auto simp: debuglog_read_def with_dlog_def uadd_def splice_at_def)
    then show ?thesis using one rest Cons by simp
  qed
qed

lemma log_ok_read:
  assumes ok: "log_ok es s" and bound: "256 * length (logged es) + 256 < usize_lim"
    and step: "log_step (Log_Read k) s = (es', t)"
  shows "log_ok (es @ es') t \<and> logged es' = []"
proof (cases "dlogs s k")
  case None
  then show ?thesis using assms by (simp add: debuglog_read_def with_dlog_def)
next
  case (Some d)
  from ok bound step Some show ?thesis
  proof (cases rule: log_read_cases)
    case all
    then show ?thesis using ok Some by (auto simp: log_ok_def split: if_splits)
  next
    case (one r rest)
    then show ?thesis using ok Some by (auto simp: log_ok_def reader_ok_def split: if_splits)
  qed
qed

lemma log_ok_run:
  "log_ok es s \<Longrightarrow> list_all short_op xs \<Longrightarrow> 256 * (length (logged es) + length xs) + 256 < usize_lim \<Longrightarrow>
   log_run xs s = (es', t) \<Longrightarrow> log_ok (es @ es') t"
proof (induction xs arbitrary: es s es')
  case Nil
  then show ?case by simp
next
  case (Cons x xs)
  obtain e1 u where x: "log_step x s = (e1, u)" by fastforce
  obtain e2 where xs: "log_run xs u = (e2, t)" "es' = e1 @ e2" using Cons.prems(4) x by (auto split: prod.splits)
  have "log_ok (es @ e1) u \<and> length (logged e1) \<le> 1"
  proof (cases x)
    case (Log_Write k sev flags tid pid now data)
    have "log_ok (es @ e1) u \<and> length (logged e1) \<le> 1"
      by (rule log_ok_write [OF Cons.prems(1)]) (use Cons.prems(2) x Log_Write in auto)
    then show ?thesis .
  next
    case (Log_Read k)
    then show ?thesis using log_ok_read [OF Cons.prems(1)] Cons.prems(3) x by fastforce
  qed
  then show ?case using Cons.IH [of "es @ e1" u e2] Cons.prems(2,3) xs by simp
qed


lemma log_run_length: "log_run xs s = (es, t) \<Longrightarrow> length (logged es) \<le> length xs"
proof (induction xs arbitrary: s es)
  case (Cons x xs)
  have "length (logged (fst (log_step x s))) \<le> 1" by (cases x) (auto split: prod.splits sum.splits)
  then show ?case using Cons by (fastforce split: prod.splits)
qed simp

subsection \<open>Properties\<close>

definition dlog_start :: dlog_state where
  "dlog_start = channel_state.extend channel_start \<lparr>dlog_buf = [],
     dlogs = [7 \<mapsto> \<lparr>dl_base = \<lparr>base_id = 7, base_name = ''''\<rparr>, dl_flags = 0, dl_offset = 0\<rparr>]\<rparr>"

lemma dlog_start_simps [simp]:
  "dlog_buf dlog_start = []"
  "dlogs dlog_start = [7 \<mapsto> \<lparr>dl_base = \<lparr>base_id = 7, base_name = ''''\<rparr>, dl_flags = 0, dl_offset = 0\<rparr>]"
  by (simp_all add: dlog_start_def channel_state.defs channel_start_def task_state.defs task_start_def vmar_start_def
      vm_start_def vm_state.defs vmar_state.defs dlog_state.defs)

text \<open>C16.
  The byte buffer of the debug log, with its packed headers and padding, implements a list of
  entries with one cursor for each reader. In every history of writes of at most 224 bytes and of
  reads, by any number of log objects that start at the beginning: what a reader has fetched is the
  records of the first entries written, the data in them is the data written, and a read that
  returns nothing means that the reader has fetched everything.
\<close>

theorem debuglog_refines_list:
  assumes "dlog_buf s = []" and "\<forall>k d. dlogs s k = Some d \<longrightarrow> dl_offset d = 0"
    and "list_all short_op ops" and "256 * length ops + 256 < 2 ^ 64" and "log_run ops s = (es, t)"
  shows "\<forall>k d. dlogs t k = Some d \<longrightarrow>
     prefix (map record_data (fetched k es)) (map le_data (logged es)) \<and>
     (fst (log_step (Log_Read k) t) = [] \<longleftrightarrow> fetched k es = map entry_record (logged es))"
proof (intro allI impI)
  fix k d
  assume d: "dlogs t k = Some d"
  have start: "log_ok [] s" using assms(1,2) by (auto simp: log_ok_def reader_ok_def)
  have "log_ok ([] @ es) t" by (rule log_ok_run [OF start assms(3) _ assms(5)]) (use assms(4) in simp)
  then have ok: "log_ok es t" by simp
  have bound: "256 * length (logged es) + 256 < usize_lim"
    using log_run_length [OF assms(5)] assms(4) by simp
  obtain es' u where step: "log_step (Log_Read k) t = (es', u)" by fastforce
  have data: "map record_data (map entry_record (logged es)) = map le_data (logged es)"
    using ok entry_record_good(3) by (auto simp: log_ok_def)
  have "reader_ok es k d" using ok d by (simp add: log_ok_def)
  then have "prefix (map record_data (fetched k es)) (map le_data (logged es))"
    unfolding data [symmetric] reader_ok_def by (blast intro: map_mono_prefix)
  moreover from ok bound step d have "es' = [] \<longleftrightarrow> fetched k es = map entry_record (logged es)"
    by (cases rule: log_read_cases) auto
  ultimately show "prefix (map record_data (fetched k es)) (map le_data (logged es)) \<and>
     (fst (log_step (Log_Read k) t) = [] \<longleftrightarrow> fetched k es = map entry_record (logged es))"
    using step by simp
qed



definition demo_log :: "log_op list" where
  "demo_log = [Log_Write 7 Sev_Info 0 4 3 1000 [104, 105], Log_Write 7 Sev_Error 0 4 3 2000 [33], Log_Read 7]"

theorem debuglog_refines_list_witness:
  "\<exists>es t. log_run demo_log dlog_start = (es, t) \<and>
     (\<forall>k d. dlogs t k = Some d \<longrightarrow> prefix (map record_data (fetched k es)) (map le_data (logged es)) \<and>
       (fst (log_step (Log_Read k) t) = [] \<longleftrightarrow> fetched k es = map entry_record (logged es)))"
proof -
  obtain es t where run: "log_run demo_log dlog_start = (es, t)" by fastforce
  have "\<forall>k d. dlogs t k = Some d \<longrightarrow> prefix (map record_data (fetched k es)) (map le_data (logged es)) \<and>
       (fst (log_step (Log_Read k) t) = [] \<longleftrightarrow> fetched k es = map entry_record (logged es))"
    by (rule debuglog_refines_list [OF _ _ _ _ run]) (simp_all add: demo_log_def)
  then show ?thesis using run by blast
qed

end
