(* ===== verification/User_Ptr_Props.thy ===== *)
theory User_Ptr_Props
  imports User_Ptr
begin

text \<open>
  Round trips through user memory. A value type is an interface of its own: anything with a size, an
  encoding of that size and a decoding that inverts it can be copied through user memory as an
  array; bytes, 32-bit words and addresses are interpreted. The pages involved must be mapped with
  both accesses and, as one physical page may be mapped twice, without aliasing.
\<close>

subsection \<open>Windows of mapped memory\<close>

definition window :: "'a hal_state_scheme \<Rightarrow> usize \<Rightarrow> nat \<Rightarrow> (nat \<Rightarrow> usize) \<Rightarrow> bool" where
  \<comment> \<open>byte \<open>i\<close> of the window lies at physical address \<open>f i\<close>, readable and writable, no byte twice\<close>
  "window s a n f \<longleftrightarrow> inj_on f {..<n} \<and>
     (\<forall>i < n. translate PROT_READ s (a + i) = Some (f i) \<and> translate PROT_WRITE s (a + i) = Some (f i))"

lemma translate_frame: "host_map t = host_map s \<Longrightarrow> translate p t a = translate p s a"
  by (simp add: translate_def)

lemma mem_load_eq:
  "(\<And>i. i < n \<Longrightarrow> translate PROT_READ s (a + i) = Some (f i)) \<Longrightarrow>
   mem_load s a n = Inr (map (\<lambda>i. pmem s (f i)) [0..<n])"
proof (induction n arbitrary: a f)
  case (Suc n)
  have "translate PROT_READ s (a + 1 + i) = Some (f (Suc i))" if "i < n" for i
    using Suc.prems [of "Suc i"] that by simp
  then have "mem_load s (a + 1) n = Inr (map (\<lambda>i. pmem s (f (Suc i))) [0..<n])"
    by (rule Suc.IH [of "a + 1" "\<lambda>i. f (Suc i)"])
  then show ?case using Suc.prems [of 0] by (simp add: map_upt_Suc del: upt_Suc)
qed simp

lemma mem_store_eq:
  assumes "\<And>i. i < length bs \<Longrightarrow> translate PROT_WRITE s (a + i) = Some (f i)" and "inj_on f {..<length bs}"
  shows "\<exists>m. mem_store a bs s = (Inr (), s\<lparr>pmem := m\<rparr>) \<and> (\<forall>i < length bs. m (f i) = bs ! i) \<and>
     (\<forall>x. x \<notin> f ` {..<length bs} \<longrightarrow> m x = pmem s x)"
  using assms
proof (induction bs arbitrary: a f s)
  case Nil
  show ?case by (rule exI [of _ "pmem s"]) simp
next
  case (Cons b bs)
  let ?s = "s\<lparr>pmem := (pmem s)(f 0 := b)\<rparr>" and ?g = "\<lambda>i. f (Suc i)"
  have tr: "translate PROT_WRITE ?s (a + 1 + i) = Some (?g i)" if "i < length bs" for i
    using Cons.prems(1) [of "Suc i"] that by (simp add: translate_def)
  have inj: "inj_on ?g {..<length bs}" using Cons.prems(2) by (auto simp: inj_on_def)
  obtain m where m: "mem_store (a + 1) bs ?s = (Inr (), ?s\<lparr>pmem := m\<rparr>)" "\<forall>i < length bs. m (?g i) = bs ! i"
    "\<forall>x. x \<notin> ?g ` {..<length bs} \<longrightarrow> m x = pmem ?s x"
    using Cons.IH [OF tr inj] by blast
  have f0: "f 0 \<notin> ?g ` {..<length bs}" using Cons.prems(2) by (auto simp: inj_on_def)
  have "mem_store a (b # bs) s = (Inr (), s\<lparr>pmem := m\<rparr>)" using Cons.prems(1) [of 0] m(1) by simp
  moreover have "m (f i) = (b # bs) ! i" if "i < length (b # bs)" for i
    using that m(2,3) f0 by (cases i) auto
  moreover have "m x = pmem s x" if x: "x \<notin> f ` {..<length (b # bs)}" for x
  proof -
    have "x \<noteq> f 0" "x \<notin> ?g ` {..<length bs}" using x by auto
    then show ?thesis using m(3) by simp
  qed
  ultimately show ?case by blast
qed

lemma store_load:
  assumes "window s a (length bs) f"
  shows "\<exists>m. mem_store a bs s = (Inr (), s\<lparr>pmem := m\<rparr>) \<and> mem_load (s\<lparr>pmem := m\<rparr>) a (length bs) = Inr bs \<and>
     (\<forall>x. x \<notin> f ` {..<length bs} \<longrightarrow> m x = pmem s x)"
proof -
  obtain m where m: "mem_store a bs s = (Inr (), s\<lparr>pmem := m\<rparr>)" "\<forall>i < length bs. m (f i) = bs ! i"
    "\<forall>x. x \<notin> f ` {..<length bs} \<longrightarrow> m x = pmem s x"
    using mem_store_eq [of bs s a f] assms by (auto simp: window_def)
  have "mem_load (s\<lparr>pmem := m\<rparr>) a (length bs) = Inr (map (\<lambda>i. m (f i)) [0..<length bs])"
    using mem_load_eq [of "length bs" "s\<lparr>pmem := m\<rparr>" a f] assms by (simp add: window_def translate_def)
  also have "map (\<lambda>i. m (f i)) [0..<length bs] = bs" using m(2) by (intro nth_equalityI) simp_all
  finally show ?thesis using m by blast
qed

subsection \<open>Value types\<close>

locale value_type =
  fixes ty :: "'v user_type" and fits :: "'v \<Rightarrow> bool"
  assumes enc_size: "length (ut_enc ty v) = ut_size ty"
    and dec_enc: "fits v \<Longrightarrow> ut_dec ty (ut_enc ty v) = v"
    and size_pos: "0 < ut_size ty"
begin

lemma length_encode_array: "length (encode_array ty vs) = length vs * ut_size ty"
  by (induction vs) (simp_all add: encode_array_def enc_size)

lemma decode_encode: "list_all fits vs \<Longrightarrow> decode_array ty (length vs) (encode_array ty vs) = vs"
  by (induction vs) (simp_all add: encode_array_def enc_size dec_enc)

lemma array_roundtrip:
  assumes "list_all fits vs" and "up_check ty p = Inr ()" and "window s p (length vs * ut_size ty) f"
    and "length vs * ut_size ty < 2 ^ 63"
  shows "\<exists>t. up_write_array ty p vs s = (Inr (), t) \<and> up_read_array ty p (length vs) t = Inr vs"
proof (cases "vs = []")
  case True
  then show ?thesis by (simp add: up_write_array_def up_read_array_def)
next
  case False
  obtain m where "mem_store p (encode_array ty vs) s = (Inr (), s\<lparr>pmem := m\<rparr>)"
    "mem_load (s\<lparr>pmem := m\<rparr>) p (length vs * ut_size ty) = Inr (encode_array ty vs)"
    using store_load [of s p "encode_array ty vs" f] assms(3) by (auto simp: length_encode_array)
  then show ?thesis using False assms(2,4) decode_encode [OF assms(1)]
    by (simp add: up_write_array_def up_read_array_def)
qed

end

lemma le_nat_le_bytes_word: "le_nat (le_bytes 4 (unat (v :: u32))) = unat v"
proof (rule le_nat_le_bytes)
  show "unat v < 256 ^ 4" using unsigned_less [of v] by simp
qed

interpretation vt_u8: value_type UT_u8 "\<lambda>_. True"
  by unfold_locales (simp_all add: UT_u8_def)

interpretation vt_u32: value_type UT_u32 "\<lambda>_. True"
  by unfold_locales (simp_all add: UT_u32_def le_nat_le_bytes_word)

interpretation vt_usize: value_type UT_usize "\<lambda>v. v < usize_lim"
  by unfold_locales (simp_all add: UT_usize_def le_nat_le_bytes)

lemma encode_u8 [simp]: "encode_array UT_u8 vs = vs"
  by (induction vs) (simp_all add: encode_array_def UT_u8_def)

lemma decode_u8 [simp]: "length bs = n \<Longrightarrow> decode_array UT_u8 n bs = bs"
  by (induction bs arbitrary: n) (auto simp: UT_u8_def)

subsection \<open>Scanning for a zero\<close>

lemma scan_zero_finds:
  assumes "\<And>j. j < length bs \<Longrightarrow> bs ! j \<noteq> 0" and "p + length bs < usize_lim"
    and "\<And>j. j \<le> length bs \<Longrightarrow> mem_load s (p + j) 1 = Inr [(bs @ [0]) ! j]" and "i \<le> length bs"
  shows "scan_zero 1 p i s = Inr (length bs)"
  using assms(4)
proof (induction "length bs - i" arbitrary: i)
  case 0
  then have "i = length bs" by simp
  then show ?case using assms(2) assms(3) [of i]
    by (simp add: scan_zero.simps [of 1 p "length bs"] nth_append del: One_nat_def mem_load.simps)
next
  case (Suc n)
  then have lt: "i < length bs" by simp
  have "unat (bs ! i) \<noteq> 0" using assms(1) [OF lt] by (simp add: unat_eq_zero)
  moreover have "scan_zero 1 p (i + 1) s = Inr (length bs)" using Suc lt by simp
  ultimately show ?case using assms(2) assms(3) [of i] lt
    by (simp add: scan_zero.simps [of 1 p i] nth_append del: One_nat_def mem_load.simps)
qed

lemma mem_load_length: "mem_load s a n = Inr bs \<Longrightarrow> length bs = n"
  by (induction n arbitrary: a bs) (auto simp: rbind_eq_Inr split: option.splits)

lemma mem_load_nth:
  "mem_load s a n = Inr bs \<Longrightarrow> i < n \<Longrightarrow> mem_load s (a + i) 1 = Inr [bs ! i]"
proof (induction n arbitrary: a bs i)
  case (Suc n)
  then obtain pa cs where pa: "translate PROT_READ s a = Some pa" "mem_load s (a + 1) n = Inr cs" "bs = pmem s pa # cs"
    by (auto simp: rbind_eq_Inr split: option.splits)
  show ?case
  proof (cases i)
    case (Suc j)
    then show ?thesis using Suc.IH [OF pa(2), of j] Suc.prems(2) pa(3) by simp
  qed (use pa in simp)
qed simp


subsection \<open>Properties\<close>

definition demo_hal :: hal_state where
  "demo_hal = \<lparr>next_koid = 1024, pmem = (\<lambda>_. 0), avail_frames = [],
     host_map = [8192 \<mapsto> (4096, {PROT_READ, PROT_WRITE}), 12288 \<mapsto> (20480, {PROT_READ, PROT_WRITE})]\<rparr>"

lemma demo_window: "n \<le> 12 \<Longrightarrow> window demo_hal 12280 n (\<lambda>i. if i < 8 then 8184 + i else 20480 + (i - 8))"
proof -
  assume n: "n \<le> 12"
  have low: "(12280 + i) mod PAGE_SIZE = 4088 + i" if "i < 8" for i
  proof -
    have "12280 + i = 2 * 4096 + (4088 + i)" by simp
    then show ?thesis using that by (simp only: mod_mult_self3) simp
  qed
  have high: "(12280 + i) mod PAGE_SIZE = i - 8" if "8 \<le> i" "i < 12" for i
  proof -
    have "12280 + i = 3 * 4096 + (i - 8)" using that by simp
    then show ?thesis using that by (simp only: mod_mult_self3) simp
  qed
  have "translate p demo_hal (12280 + i) = Some (if i < 8 then 8184 + i else 20480 + (i - 8))"
    if "i < n" "p \<in> {PROT_READ, PROT_WRITE}" for p i
    using that n low [of i] high [of i] by (cases "i < 8") (auto simp: translate_def demo_hal_def)
  moreover have "inj_on (\<lambda>i. if i < 8 then 8184 + i else 20480 + (i - 8)) {..<n}"
    by (auto simp: inj_on_def split: if_splits)
  ultimately show ?thesis by (simp add: window_def)
qed

text \<open>
  An array of 32-bit values written through a user pointer and read back through it is the same
  array, also when it crosses pages that lie anywhere in physical memory, provided the pointer is
  neither null nor misaligned and the memory is mapped with both accesses and without aliasing.
\<close>

theorem user_array_roundtrip:
  assumes "p \<noteq> 0" and "p mod 4 = 0" and "window s p (length vs * 4) f" and "length vs * 4 < 2 ^ 63"
  shows "\<exists>t. up_write_array UT_u32 p vs s = (Inr (), t) \<and> up_read_array UT_u32 p (length vs) t = Inr vs"
  using assms by (intro vt_u32.array_roundtrip [where f = f]) (simp_all add: UT_u32_def up_check_def up_is_null_def list_all_iff)

theorem user_array_roundtrip_witness:
  "\<exists>t. up_write_array UT_u32 12280 [1, 0x80000000, 7] demo_hal = (Inr (), t) \<and>
     up_read_array UT_u32 12280 3 t = Inr [1, 0x80000000, 7]"
proof -
  have len: "length [1, 0x80000000, 7 :: u32] = 3" by simp
  show ?thesis
    by (rule user_array_roundtrip [of 12280 demo_hal "[1, 0x80000000, 7]", unfolded len, OF _ _ demo_window]) simp_all
qed

text \<open>C35.
  A string written as a C string and read back as one is the same string, if it is valid UTF-8
  without a zero byte; the search for the final zero ends at it, whatever lies behind.
\<close>

theorem user_cstring_roundtrip:
  assumes "p \<noteq> 0" and "0 \<notin> set str" and "utf8_valid str" and "window s p (length str + 1) f"
    and "p + length str < 2 ^ 64"
  shows "\<exists>t. up_write_cstring p str s = (Inr (), t) \<and> up_read_cstring p t = Inr str"
proof -
  let ?n = "length str"
  have win: "window s p ?n f" and last: "translate PROT_WRITE s (p + ?n) = Some (f ?n)" "f ?n \<notin> f ` {..<?n}"
    "translate PROT_READ s (p + ?n) = Some (f ?n)"
  proof -
    have inj: "inj_on f {..<Suc ?n}" using assms(4) by (simp add: window_def)
    then show "f ?n \<notin> f ` {..<?n}" by (auto simp: lessThan_Suc)
    show "window s p ?n f" using inj assms(4) by (simp add: window_def lessThan_Suc)
  qed (use assms(4) in \<open>simp_all add: window_def\<close>)
  obtain m where m: "mem_store p str s = (Inr (), s\<lparr>pmem := m\<rparr>)" "mem_load (s\<lparr>pmem := m\<rparr>) p ?n = Inr str"
    using store_load [OF win] by blast
  let ?t = "s\<lparr>pmem := (m(f ?n := 0))\<rparr>"
  have wr: "up_write_cstring p str s = (Inr (), ?t)"
  proof -
    have chk: "up_check UT_u8 p = Inr ()" using assms(1) by (simp add: up_check_def up_is_null_def UT_u8_def)
    have "up_write_array UT_u8 p str s = (Inr (), s\<lparr>pmem := m\<rparr>)"
      using m(1) chk by (cases "str = []") (simp_all add: up_write_array_def)
    moreover have "translate PROT_WRITE (s\<lparr>pmem := m\<rparr>) (p + ?n) = Some (f ?n)"
      using last(1) by (simp add: translate_def)
    ultimately show ?thesis by (simp add: up_write_cstring_def sbind_def)
  qed
  have load: "mem_load ?t p ?n = Inr str"
  proof -
    have "mem_load (s\<lparr>pmem := m\<rparr>) p ?n = Inr (map (\<lambda>i. m (f i)) [0..<?n])"
      using mem_load_eq [of ?n "s\<lparr>pmem := m\<rparr>" p f] win by (simp add: window_def translate_def)
    moreover have "mem_load ?t p ?n = Inr (map (\<lambda>i. (m(f ?n := 0)) (f i)) [0..<?n])"
      using mem_load_eq [of ?n ?t p f] win by (simp add: window_def translate_def)
    moreover have "map (\<lambda>i. (m(f ?n := 0)) (f i)) [0..<?n] = map (\<lambda>i. m (f i)) [0..<?n]"       using last(2) by (intro map_cong refl) (metis atLeast0LessThan fun_upd_other imageI set_upt)
    ultimately show ?thesis using m(2) by simp
  qed
  have "scan_zero 1 p 0 ?t = Inr ?n"
  proof (rule scan_zero_finds)
    show "mem_load ?t (p + j) 1 = Inr [(str @ [0]) ! j]" if "j \<le> ?n" for j
    proof (cases "j < ?n")
      case True
      then show ?thesis using mem_load_nth [OF load True] by (simp add: nth_append)
    next
      case False
      then show ?thesis using that last(3) by (simp add: translate_def)
    qed
  qed (use assms(2,5) in \<open>auto simp: in_set_conv_nth\<close>)
  then have "up_read_cstring p ?t = Inr str"
    using load assms(1,3) by (simp add: up_read_cstring_def up_read_string_def up_check_def up_is_null_def UT_u8_def)
  then show ?thesis using wr by blast
qed

theorem user_cstring_roundtrip_witness:
  "\<exists>t. up_write_cstring 12280 [0x68, 0xC3, 0xA9] demo_hal = (Inr (), t) \<and>
     up_read_cstring 12280 t = Inr [0x68, 0xC3, 0xA9]"
  by (rule user_cstring_roundtrip [OF _ _ _ demo_window]) (simp_all add: cont_byte_def)

end
