(* ===== verification/Syscall_Props.thy ===== *)
theory Syscall_Props
  imports Syscall_Safety Channel_Fifo Debuglog_Spec User_Ptr_Props
begin

text \<open>
  The properties of the system calls: what no sequence of calls can do, how a message with its
  handles gets from one process to another, what a failed call leaves behind, and what the
  dispatcher answers.
\<close>

subsection \<open>A concrete caller\<close>

text \<open>
  Process 3 has the thread 4, a page of memory at 8192, and the handles 3 to the endpoint 8 of a
  channel, 7 to its job, 11 to the log 20 and 15 to the root resource 21. Its memory begins with the
  text \<open>hi!\<close> and a newline, followed by the handle value 7.
\<close>

definition demo_caller :: process where
  "demo_caller = demo_process\<lparr>pr_max_handle_id := 4, pr_handles :=
     [3 \<mapsto> handle_new (KObj T_Channel 8) R_DEFAULT_CHANNEL, 7 \<mapsto> handle_new (KObj T_Job 2) R_DEFAULT_JOB,
      11 \<mapsto> handle_new (KObj T_DebugLog 20) (R_DEFAULT_DEBUGLOG OR R_READ), 15 \<mapsto> handle_new (KObj T_Resource 21) R_DEFAULT_RESOURCE]\<rparr>"

definition demo_memory :: "usize \<Rightarrow> u8" where
  "demo_memory = pmem_store (\<lambda>_. 0) 4096 [104, 105, 33, 10, 7, 0, 0, 0]"

definition demo_sys :: sys_state where
  "demo_sys = resource_state.extend (dlog_state.extend (channel_state.extend (task_state.extend
      (demo_tasks\<lparr>procs := [3 \<mapsto> demo_caller], pmem := demo_memory, host_map := [8192 \<mapsto> (4096, {PROT_READ, PROT_WRITE})]\<rparr>)
      \<lparr>channels = channels demo_channels\<rparr>)
      \<lparr>dlog_buf = [], dlogs = [20 \<mapsto> \<lparr>dl_base = \<lparr>base_id = 20, base_name = ''''\<rparr>, dl_flags = 0, dl_offset = 0\<rparr>]\<rparr>)
      \<lparr>resources = [21 \<mapsto> \<lparr>rs_base = \<lparr>base_id = 21, base_name = ''root''\<rparr>, rs_kind = RK_ROOT, rs_addr = 0,
         rs_len = 0x100000000, rs_flags = 0\<rparr>]\<rparr>) \<lparr>serial = []\<rparr>"

lemma demo_sys_simps [simp]:
  "next_koid demo_sys = 1024" "pmem demo_sys = demo_memory" "host_map demo_sys = [8192 \<mapsto> (4096, {PROT_READ, PROT_WRITE})]"
  "procs demo_sys = [3 \<mapsto> demo_caller]" "threads demo_sys = [4 \<mapsto> demo_thread]"
  "channels demo_sys = [8 \<mapsto> channel_init \<lparr>base_id = 8, base_name = ''''\<rparr> (Some 9),
      9 \<mapsto> (channel_init \<lparr>base_id = 9, base_name = ''''\<rparr> (Some 8))\<lparr>ch_queue := [demo_message 7]\<rparr>]"
  "dlog_buf demo_sys = []"
  "dlogs demo_sys = [20 \<mapsto> \<lparr>dl_base = \<lparr>base_id = 20, base_name = ''''\<rparr>, dl_flags = 0, dl_offset = 0\<rparr>]"
  by (simp_all add: demo_sys_def demo_channels_def channel_start_def task_start_def demo_tasks_def vmar_start_def vm_start_def
      vm_state.defs vmar_state.defs task_state.defs channel_state.defs dlog_state.defs resource_state.defs sys_state.defs init_koid_def)

text \<open>C1.
  No system call amplifies authority. After any number of system calls by any threads with any
  arguments, interleaved with user code writing to its memory and with objects being released:
  every handle in a handle table or in
  an unread packet is a handle that was there at the beginning, with the same rights, or refers to
  one of the objects created since.
\<close>

theorem syscalls_amplify_no_authority:
  assumes "sys_reach s0 n s"
  shows "caps s \<subseteq> caps s0 \<union> {h. ref_id (object h) \<in> created (next_koid s0) (2 * n)}"
  using sys_reach_safe [OF assms] by (simp add: reach_safe_def)

lemma demo_reach: "\<exists>s. sys_reach demo_sys 1 s \<and> s = snd (syscall 0 4 3 [0, 8192, 8196, 0, 0, 0, 0, 0] demo_sys)"
  using sr_call [OF sr_init, of 0 4 3 "[0, 8192, 8196, 0, 0, 0, 0, 0]"] by (auto intro!: exI prod.collapse [symmetric])

theorem syscalls_amplify_no_authority_witness:
  "\<exists>s. sys_reach demo_sys 1 s \<and> caps s \<subseteq> caps demo_sys \<union> {h. ref_id (object h) \<in> created 1024 2}"
proof -
  obtain s where s: "sys_reach demo_sys 1 s" using demo_reach by blast
  show ?thesis using syscalls_amplify_no_authority [OF s] s by auto
qed




subsection \<open>Lookups\<close>

lemma get_object_with_rights_ok:
  "procs s p = Some pr \<Longrightarrow> pr_handles pr v = Some h \<Longrightarrow> object h = KObj ty k \<Longrightarrow> flags_contains (rights h) rs \<Longrightarrow>
   get_object_with_rights ty p v rs s = Inr k"
  by (simp add: get_object_with_rights_def process_get_handle_def get_proc_def table_get_def downcast_or_wrong_def)

lemma calling_proc_ok: "threads s th = Some t \<Longrightarrow> calling_proc th f s = f (th_proc t) s"
  by (simp add: calling_proc_def thread_proc_def get_thread_def)

lemma remove_handles_ok:
  assumes "procs s p = Some pr" and "table_ok pr" and "distinct vs" and "map (pr_handles pr) vs = map Some hs"
  shows "\<exists>pr'. process_remove_handles p vs s = (Inr hs, put_proc p pr' s) \<and>
     (\<forall>v. pr_handles pr' v = (if v \<in> set vs then None else pr_handles pr v))"
  using ht.remove_all [OF assms(2-4)] assms(1)
  by (auto simp: process_remove_handles_def on_table_def with_proc_def table_remove_all_st_map)

lemma add_handles_ok:
  assumes "procs s p = Some pr" and "table_ok pr" and "length hs \<le> table_room pr"
  shows "\<exists>vs pr'. process_add_handles p hs s = (Inr vs, put_proc p pr' s) \<and> length vs = length hs \<and>
     map (pr_handles pr') vs = map Some hs"
proof -
  obtain vs pr' where add: "st_map table_add hs pr = (Inr vs, pr')" "length vs = length hs" "distinct vs"
    "pr_handles pr' = pr_handles pr ++ map_of (zip vs hs)"
    using ht.add_all [OF assms(2,3)] by blast
  have "map (pr_handles pr') vs = map Some hs"
    using add(2-4) by (intro nth_equalityI) (simp_all add: map_add_def map_of_zip_nth)
  then show ?thesis using add(1,2) assms(1)
    by (auto simp: process_add_handles_def on_table_def with_proc_def table_add_all_st_map)
qed

text \<open>Writing a message takes the bytes from user memory and the handles out of the caller's table and
  appends both, as one packet, to the queue of the other endpoint. The handles must be distinct,
  present, transferable, at most 64, and not the handle of the channel itself.\<close>

lemma sys_channel_write_ok:
  fixes s :: "'a sys_state_scheme"
  assumes "threads s th = Some t" and "procs s (th_proc t) = Some pr" and "table_ok pr"
    and "pr_handles pr hv = Some h" and "object h = KObj T_Channel a" and "flags_contains (rights h) R_WRITE"
    and "linked a b s" and "nb \<le> 65536"
    and "up_read_array UT_u8 ub (unat nb) s = Inr data" and "up_read_array UT_u32 uh (unat nh) s = Inr vs"
    and "distinct vs" and "hv \<notin> set vs" and "map (pr_handles pr) vs = map Some hs" and "length hs \<le> 64"
    and "\<forall>x \<in> set hs. flags_contains (rights x) R_TRANSFER"
  shows "\<exists>u pr'. sys_channel_write th hv 0 ub nb uh nh s = (Inr (), u) \<and>
     pending_at b u = pending_at b s @ [\<lparr>msg_data = data, msg_handles = hs\<rparr>] \<and> linked a b u \<and>
     procs u = (procs s)(th_proc t \<mapsto> pr') \<and> (\<forall>v. pr_handles pr' v = (if v \<in> set vs then None else pr_handles pr v)) \<and>
     threads u = threads s \<and> host_map u = host_map s"
proof -
  let ?m = "\<lparr>msg_data = data, msg_handles = hs\<rparr>" and ?p = "th_proc t"
  obtain pr' where rm: "process_remove_handles ?p vs s = (Inr hs, put_proc ?p pr' s)"
    "\<forall>v. pr_handles pr' v = (if v \<in> set vs then None else pr_handles pr v)"
    using remove_handles_ok [OF assms(2,3,11,13)] by blast
  let ?s = "put_proc ?p pr' s"
  have get: "get_object_with_rights T_Channel ?p hv R_WRITE ?s = Inr a"
    by (rule get_object_with_rights_ok [where pr = pr' and h = h]) (use rm(2) assms(4-6,12) in simp_all)
  have "channels ?s = channels s" by (simp add: put_proc_def)
  then have linked: "linked a b ?s" and pend: "pending_at b ?s = pending_at b s"
    using assms(7) by (simp_all add: linked_def pending_at_def)
  obtain u where u: "channel_write a ?m ?s = (Inr (), u)" "pending_at b u = pending_at b ?s @ [?m]" "linked a b u"
    using pipe.send_ok [OF linked] by blast
  have "procs u = procs ?s" "threads u = threads ?s" "host_map u = host_map ?s"
    using u(1) by (auto simp: channel_write_def push_general_def with_channel_def put_channel_def split: option.splits)
  then have frame: "procs u = (procs s)(?p \<mapsto> pr')" "threads u = threads s" "host_map u = host_map s" by (simp_all add: put_proc_def)
  have "\<not> list_ex (\<lambda>h. \<not> flags_contains (rights h) R_TRANSFER) hs" using assms(15) by (simp add: list_ex_iff)
  then have "sys_channel_write th hv 0 ub nb uh nh s = (Inr (), u)"
    using assms(1,8-10,12,14) rm(1) get u(1)
    by (simp add: sys_channel_write_def calling_proc_ok sbind_def copy_in_def not_less)
  then show ?thesis using u(2,3) pend frame rm(2) by (intro exI [of _ u] exI [of _ pr']) simp
qed

lemma mem_load_numeral:
  "mem_load s a (numeral n) =
     (case translate PROT_READ s a of
        None \<Rightarrow> Inl Panic
      | Some pa \<Rightarrow> rbind (mem_load s (a + 1) (pred_numeral n)) (\<lambda>bs. Inr (pmem s pa # bs)))"
  "decode_array ty (numeral n) bs = ut_dec ty (take (ut_size ty) bs) # decode_array ty (pred_numeral n) (drop (ut_size ty) bs)"
  by (simp_all add: numeral_eq_Suc)

lemma demo_word: "up_read_array UT_u32 8196 1 demo_sys = Inr [7]" "up_read_array UT_u8 8192 4 demo_sys = Inr [104, 105, 33, 10]"
  by (simp_all add: up_read_array_def up_check_def up_is_null_def UT_u32_def UT_u8_def translate_def demo_memory_def pmem_store_def
      mem_load_numeral)


lemma demo_caller_simps [simp]:
  "pr_handles demo_caller = [3 \<mapsto> handle_new (KObj T_Channel 8) R_DEFAULT_CHANNEL, 7 \<mapsto> handle_new (KObj T_Job 2) R_DEFAULT_JOB,
      11 \<mapsto> handle_new (KObj T_DebugLog 20) (R_DEFAULT_DEBUGLOG OR R_READ), 15 \<mapsto> handle_new (KObj T_Resource 21) R_DEFAULT_RESOURCE]"
  "pr_max_handle_id demo_caller = 4"
  by (simp_all add: demo_caller_def)

lemma demo_caller_ok: "table_ok demo_caller" "table_room demo_caller = 2 ^ 30 - 4"
  by (auto simp: table_ok_def table_room_def split: if_splits)

lemma demo_rights:
  "flags_contains R_DEFAULT_CHANNEL R_WRITE" "flags_contains R_DEFAULT_CHANNEL R_READ" "flags_contains R_DEFAULT_JOB R_TRANSFER"
  "flags_contains R_DEFAULT_CHANNEL R_TRANSFER" "flags_contains (R_DEFAULT_DEBUGLOG OR R_READ) R_READ"
  by (simp_all add: flags_contains_def rights_defs)

lemma demo_sys_linked: "linked 8 9 demo_sys" "linked 9 8 demo_sys" "pending_at 9 demo_sys = [demo_message 7]"
  by (simp_all add: linked_def pending_at_def channel_init_def)

subsection \<open>Reading a message\<close>

lemma load_outside:
  assumes "window s a n f" and "mem_load s a n = Inr bs" and "\<And>i. i < n \<Longrightarrow> m (f i) = pmem s (f i)"
  shows "mem_load (s\<lparr>pmem := m\<rparr>) a n = Inr bs"
proof -
  have "mem_load s a n = Inr (map (\<lambda>i. pmem s (f i)) [0..<n])"
    using mem_load_eq [of n s a f] assms(1) by (simp add: window_def)
  moreover have "mem_load (s\<lparr>pmem := m\<rparr>) a n = Inr (map (\<lambda>i. m (f i)) [0..<n])"
    using mem_load_eq [of n "s\<lparr>pmem := m\<rparr>" a f] assms(1) by (simp add: window_def translate_def)
  moreover have "map (\<lambda>i. m (f i)) [0..<n] = map (\<lambda>i. pmem s (f i)) [0..<n]" using assms(3) by simp
  ultimately show ?thesis using assms(2) by simp
qed

lemma window_frame: "host_map t = host_map s \<Longrightarrow> window t a n f = window s a n f"
  by (simp add: window_def translate_def)

lemma write_array_stores:
  assumes "vs \<noteq> []" and "up_check ty p = Inr ()" and "window s p (length (encode_array ty vs)) f"
  shows "\<exists>m. up_write_array ty p vs s = (Inr (), s\<lparr>pmem := m\<rparr>) \<and>
     mem_load (s\<lparr>pmem := m\<rparr>) p (length (encode_array ty vs)) = Inr (encode_array ty vs) \<and>
     (\<forall>x. x \<notin> f ` {..<length (encode_array ty vs)} \<longrightarrow> m x = pmem s x)"
  using store_load [OF assms(3)] assms(1,2) by (auto simp: up_write_array_def)

text \<open>Reading a message copies its bytes into the memory of the reader, puts its handles into the
  reader's table, with their objects and rights, and their new values into the reader's memory, and
  takes the packet off the queue. The buffers must be large enough, mapped, free of aliasing and
  apart from each other.\<close>

lemma sys_channel_read_ok:
  fixes s :: "'a sys_state_scheme"
  assumes "threads s th = Some t" and "procs s (th_proc t) = Some pr" and "table_ok pr"
    and "pr_handles pr hv = Some h" and "object h = KObj T_Channel b" and "flags_contains (rights h) R_READ"
    and "channels s b = Some c" and "ch_queue c = \<lparr>msg_data = data, msg_handles = hs\<rparr> # ms"
    and "length data \<le> unat nb" and "length hs \<le> unat nh" and "length hs \<le> table_room pr"
    and "data \<noteq> []" and "bytes \<noteq> 0" and "window s bytes (length data) f"
    and "hs \<noteq> []" and "hp \<noteq> 0" and "hp mod 4 = 0" and "window s hp (4 * length hs) g"
    and "f ` {..<length data} \<inter> g ` {..<4 * length hs} = {}"
  shows "\<exists>u pr' vs. sys_channel_read th hv 0 bytes hp nb nh 0 0 s = (Inr (), u) \<and>
     mem_load u bytes (length data) = Inr data \<and> up_read_array UT_u32 hp (length hs) u = Inr vs \<and>
     procs u = (procs s)(th_proc t \<mapsto> pr') \<and> map (pr_handles pr') vs = map Some hs \<and> pending_at b u = ms"
proof -
  let ?m = "\<lparr>msg_data = data, msg_handles = hs\<rparr>" and ?p = "th_proc t"
  have get: "get_object_with_rights T_Channel ?p hv R_READ s = Inr b" by (rule get_object_with_rights_ok) (fact assms)+
  have nbh: "unat nb < 4294967296" "unat nh < 4294967296" using unsigned_less [of nb] unsigned_less [of nh] by simp_all
  then have fit: "\<not> too_small nb nh ?m"
    using assms(9,10) by (simp add: too_small_def word_less_nat_alt unat_of_nat)
  let ?s1 = "put_channel b (c\<lparr>ch_queue := ms\<rparr>) s"
  have read: "check_and_read b (read_checker nb nh 0 0) s = (Inr ?m, ?s1)"
    using assms(7,8) fit by (simp add: check_and_read_def with_channel_def sbind_def read_checker_def)
  have rep: "report_sizes 0 0 ?m u = (Inr (), u)" for u :: "'a sys_state_scheme"
    by (simp add: report_sizes_def sbind_def copy_out_def up_write_if_not_null_def up_is_null_def)
  have hm1: "host_map ?s1 = host_map s" by (simp add: put_channel_def)
  obtain m where m: "up_write_array UT_u8 bytes data ?s1 = (Inr (), ?s1\<lparr>pmem := m\<rparr>)"
    "mem_load (?s1\<lparr>pmem := m\<rparr>) bytes (length data) = Inr data"
  proof -
    have "up_check UT_u8 bytes = Inr ()" using assms(13) by (simp add: up_check_def up_is_null_def UT_u8_def)
    then show ?thesis
      using that write_array_stores [of data UT_u8 bytes ?s1 f] assms(12,14) window_frame [OF hm1] by auto
  qed
  let ?s2 = "?s1\<lparr>pmem := m\<rparr>"
  obtain vs pr' where add: "process_add_handles ?p hs ?s2 = (Inr vs, put_proc ?p pr' ?s2)" "length vs = length hs"
    "map (pr_handles pr') vs = map Some hs"
    using add_handles_ok [of ?s2 ?p pr hs] assms(2,3,11) by auto
  let ?s3 = "put_proc ?p pr' ?s2"
  have hm3: "host_map ?s3 = host_map s" by (simp add: put_channel_def put_proc_def)
  have len: "length (encode_array UT_u32 vs) = 4 * length hs" using vt_u32.length_encode_array [of vs] add(2) by (simp add: UT_u32_def)
  have "vs \<noteq> []" "up_check UT_u32 hp = Inr ()" using add(2) assms(15-17) by (auto simp: up_check_def up_is_null_def UT_u32_def)
  then obtain m' where m': "up_write_array UT_u32 hp vs ?s3 = (Inr (), ?s3\<lparr>pmem := m'\<rparr>)"
    "mem_load (?s3\<lparr>pmem := m'\<rparr>) hp (4 * length hs) = Inr (encode_array UT_u32 vs)"
    "\<forall>x. x \<notin> g ` {..<4 * length hs} \<longrightarrow> m' x = pmem ?s3 x"
    using write_array_stores [of vs UT_u32 hp ?s3 g] assms(18) window_frame [OF hm3] len by auto
  let ?u = "?s3\<lparr>pmem := m'\<rparr>"
  have "sys_channel_read th hv 0 bytes hp nb nh 0 0 s = (Inr (), ?u)"
    using assms(1) get read rep fit m(1) add(1) m'(1) by (simp add: sys_channel_read_def calling_proc_ok sbind_def copy_out_def)
  moreover have "mem_load ?u bytes (length data) = Inr data"
  proof (rule load_outside)
    show "window ?s3 bytes (length data) f" using assms(14) window_frame [OF hm3] by simp
    show "mem_load ?s3 bytes (length data) = Inr data"
      using mem_load_eq [of "length data" ?s3 bytes f] mem_load_eq [of "length data" ?s2 bytes f] m(2) assms(14)
      by (simp add: window_def translate_def put_channel_def put_proc_def)
    show "m' (f i) = pmem ?s3 (f i)" if "i < length data" for i using that m'(3) assms(19) by blast
  qed
  moreover have "up_read_array UT_u32 hp (length hs) ?u = Inr vs"
  proof -
    have "length hs \<le> 4294967295" using assms(10) nbh(2) by linarith
    then show ?thesis using m'(2) vt_u32.decode_encode [of vs] add(2) assms(15) \<open>up_check UT_u32 hp = Inr ()\<close>
      by (simp add: up_read_array_def UT_u32_def list_all_iff mult.commute)
  qed
  moreover have "pending_at b ?u = ms" "procs ?u = (procs s)(?p \<mapsto> pr')" by (simp_all add: pending_at_def put_proc_def put_channel_def)
  ultimately show ?thesis using add(3) by (intro exI [of _ ?u] exI [of _ pr'] exI [of _ vs]) simp
qed


definition demo_reader :: sys_state where
  "demo_reader = demo_sys\<lparr>channels := (channels demo_sys)(8 \<mapsto> (channel_init \<lparr>base_id = 8, base_name = ''''\<rparr> (Some 9))
     \<lparr>ch_queue := [\<lparr>msg_data = [1, 2], msg_handles = [handle_new (KObj T_Job 2) R_DEFAULT_JOB]\<rparr>]\<rparr>)\<rparr>"

lemma demo_reader_simps [simp]:
  "procs demo_reader = [3 \<mapsto> demo_caller]" "threads demo_reader = [4 \<mapsto> demo_thread]"
  "host_map demo_reader = [8192 \<mapsto> (4096, {PROT_READ, PROT_WRITE})]"
  "channels demo_reader 8 = Some ((channel_init \<lparr>base_id = 8, base_name = ''''\<rparr> (Some 9))
     \<lparr>ch_queue := [\<lparr>msg_data = [1, 2], msg_handles = [handle_new (KObj T_Job 2) R_DEFAULT_JOB]\<rparr>]\<rparr>)"
  by (simp_all add: demo_reader_def)

lemma demo_reader_windows:
  "window demo_reader 8200 2 (\<lambda>i. 4104 + i)" "window demo_reader 8204 4 (\<lambda>i. 4108 + i)"
proof -
  have "i = 0 \<or> i = 1" if "i < 2" for i :: nat using that by auto
  then show "window demo_reader 8200 2 (\<lambda>i. 4104 + i)" by (fastforce simp: window_def translate_def inj_on_def)
  have "i = 0 \<or> i = 1 \<or> i = 2 \<or> i = 3" if "i < 4" for i :: nat using that by auto
  then show "window demo_reader 8204 4 (\<lambda>i. 4108 + i)" by (fastforce simp: window_def translate_def inj_on_def)
qed

text \<open>C12.
  A message crosses. When a thread of one process writes bytes and handles to an endpoint and a
  thread of another process reads the other endpoint, whose queue was empty, both calls succeed: the
  bytes that were in the memory of the writer are in the buffer of the reader, and the handles have
  moved, with their objects and rights, from the table of the writer, where their values are now
  free, to that of the reader, under the values that the reader's buffer lists. The reader's buffers
  must be large enough, mapped and apart.
\<close>

theorem message_crosses:
  fixes s :: "'a sys_state_scheme"
  assumes writer: "threads s th = Some t" "procs s (th_proc t) = Some pr" "table_ok pr"
    and wh: "pr_handles pr hv = Some h" "object h = KObj T_Channel a" "flags_contains (rights h) R_WRITE" "linked a b s"
    and args: "nb \<le> 65536" "up_read_array UT_u8 ub (unat nb) s = Inr data" "up_read_array UT_u32 uh (unat nh) s = Inr vs"
      "distinct vs" "hv \<notin> set vs" "map (pr_handles pr) vs = map Some hs" "length hs \<le> 64"
      "\<forall>x \<in> set hs. flags_contains (rights x) R_TRANSFER" "data \<noteq> []" "hs \<noteq> []"
    and reader: "threads s th' = Some t'" "procs s (th_proc t') = Some qr" "th_proc t' \<noteq> th_proc t" "table_ok qr" "length hs \<le> table_room qr"
    and rh: "pr_handles qr hv' = Some h'" "object h' = KObj T_Channel b" "flags_contains (rights h') R_READ" "pending_at b s = []"
    and buf: "length data \<le> unat nb'" "length hs \<le> unat nh'" "bytes \<noteq> 0" "window s bytes (length data) f"
      "hp \<noteq> 0" "hp mod 4 = 0" "window s hp (4 * length hs) g" "f ` {..<length data} \<inter> g ` {..<4 * length hs} = {}"
  shows "\<exists>u v pr' qr' vs'. sys_channel_write th hv 0 ub nb uh nh s = (Inr (), u) \<and>
     sys_channel_read th' hv' 0 bytes hp nb' nh' 0 0 u = (Inr (), v) \<and>
     mem_load v bytes (length data) = Inr data \<and> up_read_array UT_u32 hp (length hs) v = Inr vs' \<and>
     procs v (th_proc t') = Some qr' \<and> map (pr_handles qr') vs' = map Some hs \<and>
     procs v (th_proc t) = Some pr' \<and> (\<forall>x. pr_handles pr' x = (if x \<in> set vs then None else pr_handles pr x)) \<and>
     pending_at b v = []"
proof -
  obtain u pr' where u: "sys_channel_write th hv 0 ub nb uh nh s = (Inr (), u)"
    "pending_at b u = pending_at b s @ [\<lparr>msg_data = data, msg_handles = hs\<rparr>]" "linked a b u"
    "procs u = (procs s)(th_proc t \<mapsto> pr')" "\<forall>x. pr_handles pr' x = (if x \<in> set vs then None else pr_handles pr x)"
    "threads u = threads s" "host_map u = host_map s"
    using sys_channel_write_ok [OF writer wh args(1-8)] by blast
  obtain c where c: "channels u b = Some c" "ch_queue c = \<lparr>msg_data = data, msg_handles = hs\<rparr> # []"
    using u(2,3) rh(4) by (auto simp: linked_def pending_at_def)
  have th: "threads u th' = Some t'" "procs u (th_proc t') = Some qr" using reader(1-3) u(4,6) by simp_all
  have w: "window u bytes (length data) f" "window u hp (4 * length hs) g" using buf(4,7) window_frame [OF u(7)] by simp_all
  obtain v qr' vs' where v: "sys_channel_read th' hv' 0 bytes hp nb' nh' 0 0 u = (Inr (), v)"
    "mem_load v bytes (length data) = Inr data" "up_read_array UT_u32 hp (length hs) v = Inr vs'"
    "procs v = (procs u)(th_proc t' \<mapsto> qr')" "map (pr_handles qr') vs' = map Some hs" "pending_at b v = []"
    using sys_channel_read_ok [OF th reader(4) rh(1-3) c buf(1,2) reader(5) args(9) buf(3) w(1) args(10) buf(5,6) w(2) buf(8)] by blast
  have "procs v (th_proc t') = Some qr'" "procs v (th_proc t) = Some pr'" using v(4) u(4) reader(3) by simp_all
  then show ?thesis using u(1,5) v(1-3,5,6) by blast
qed

definition demo_peer :: process where
  "demo_peer = demo_process\<lparr>pr_max_handle_id := 1, pr_handles := [3 \<mapsto> handle_new (KObj T_Channel 9) R_DEFAULT_CHANNEL]\<rparr>"

definition demo_pair :: sys_state where
  "demo_pair = demo_sys\<lparr>procs := [3 \<mapsto> demo_caller, 5 \<mapsto> demo_peer], threads := [4 \<mapsto> demo_thread, 6 \<mapsto> demo_thread\<lparr>th_proc := 5\<rparr>],
     channels := [8 \<mapsto> channel_init \<lparr>base_id = 8, base_name = ''''\<rparr> (Some 9), 9 \<mapsto> channel_init \<lparr>base_id = 9, base_name = ''''\<rparr> (Some 8)]\<rparr>"

lemma demo_pair_facts:
  "window demo_pair 8200 4 (\<lambda>i. 4104 + i)" "window demo_pair 8204 4 (\<lambda>i. 4108 + i)" "linked 8 9 demo_pair" "pending_at 9 demo_pair = []"
  "up_read_array UT_u32 8196 1 demo_pair = Inr [7]" "up_read_array UT_u8 8192 4 demo_pair = Inr [104, 105, 33, 10]"
  "table_ok demo_peer" "table_room demo_peer = 2 ^ 30 - 1"
proof -
  have "i = 0 \<or> i = 1 \<or> i = 2 \<or> i = 3" if "i < 4" for i :: nat using that by auto
  then show "window demo_pair 8200 4 (\<lambda>i. 4104 + i)" "window demo_pair 8204 4 (\<lambda>i. 4108 + i)"
    by (fastforce simp: demo_pair_def window_def translate_def inj_on_def)+
  show "up_read_array UT_u32 8196 1 demo_pair = Inr [7]" "up_read_array UT_u8 8192 4 demo_pair = Inr [104, 105, 33, 10]"
    by (simp_all add: demo_pair_def up_read_array_def up_check_def up_is_null_def UT_u32_def UT_u8_def translate_def demo_memory_def
        pmem_store_def mem_load_numeral)
  show "linked 8 9 demo_pair" "pending_at 9 demo_pair = []" "table_ok demo_peer" "table_room demo_peer = 2 ^ 30 - 1"
    by (auto simp: demo_pair_def demo_peer_def linked_def pending_at_def channel_init_def table_ok_def table_room_def split: if_splits)
qed

theorem message_crosses_witness:
  "\<exists>u v pr' qr' vs'. sys_channel_write 4 3 0 8192 4 8196 1 demo_pair = (Inr (), u) \<and>
     sys_channel_read 6 3 0 8200 8204 4 1 0 0 u = (Inr (), v) \<and> mem_load v 8200 4 = Inr [104, 105, 33, 10] \<and>
     up_read_array UT_u32 8204 1 v = Inr vs' \<and> procs v 5 = Some qr' \<and>
     map (pr_handles qr') vs' = [Some (handle_new (KObj T_Job 2) R_DEFAULT_JOB)] \<and> procs v 3 = Some pr' \<and> pr_handles pr' 7 = None"
proof -
  let ?h = "handle_new (KObj T_Job 2) R_DEFAULT_JOB" and ?d = "[104, 105, 33, 10 :: u8]" and ?t = "demo_thread\<lparr>th_proc := 5\<rparr>"
  have len: "length ?d = 4" "length [?h] = 1" by simp_all
  have "\<exists>u v pr' qr' vs'. sys_channel_write 4 3 0 8192 4 8196 1 demo_pair = (Inr (), u) \<and>
     sys_channel_read 6 3 0 8200 8204 4 1 0 0 u = (Inr (), v) \<and> mem_load v 8200 (length ?d) = Inr ?d \<and>
     up_read_array UT_u32 8204 (length [?h]) v = Inr vs' \<and> procs v (th_proc ?t) = Some qr' \<and>
     map (pr_handles qr') vs' = map Some [?h] \<and> procs v (th_proc demo_thread) = Some pr' \<and>
     (\<forall>x. pr_handles pr' x = (if x \<in> set [7] then None else pr_handles demo_caller x)) \<and> pending_at 9 v = []"
    by (rule message_crosses [where h = "handle_new (KObj T_Channel 8) R_DEFAULT_CHANNEL" and h' = "handle_new (KObj T_Channel 9) R_DEFAULT_CHANNEL"
          and a = 8 and qr = demo_peer and f = "\<lambda>i. 4104 + i" and g = "\<lambda>i. 4108 + i"])
      (use demo_pair_facts in \<open>auto simp: demo_caller_ok demo_rights len demo_pair_def demo_peer_def simp del: list.size One_nat_def\<close>)
  then show ?thesis unfolding len by auto
qed

subsection \<open>Error paths\<close>



text \<open>C38.
  A write that fails after the handles were taken drops them: a message that contains the handle of
  the channel itself, or a handle that may not be transferred, or more than 64 handles, is not sent,
  the call reports which rule was broken, and all the handles named, the channel's included, are
  gone from the caller's table.
\<close>

theorem failed_write_consumes_handles:
  assumes "threads s th = Some t" and "procs s (th_proc t) = Some pr" and "table_ok pr" and "nb \<le> 65536"
    and "up_read_array UT_u8 ub (unat nb) s = Inr data" and "up_read_array UT_u32 uh (unat nh) s = Inr vs"
    and "distinct vs" and "map (pr_handles pr) vs = map Some hs"
    and "hv \<in> set vs \<or> 64 < length hs \<or> (\<exists>x \<in> set hs. \<not> flags_contains (rights x) R_TRANSFER)"
  shows "\<exists>u pr'. sys_channel_write th hv 0 ub nb uh nh s =
       (Inl (Err (if hv \<in> set vs then NOT_SUPPORTED else if 64 < length hs then OUT_OF_RANGE else ACCESS_DENIED)), u) \<and>
     procs u (th_proc t) = Some pr' \<and> (\<forall>v \<in> set vs. pr_handles pr' v = None) \<and> channels u = channels s"
proof -
  obtain pr' where rm: "process_remove_handles (th_proc t) vs s = (Inr hs, put_proc (th_proc t) pr' s)"
    "\<forall>v. pr_handles pr' v = (if v \<in> set vs then None else pr_handles pr v)"
    using remove_handles_ok [OF assms(2,3,7,8)] by blast
  have "sys_channel_write th hv 0 ub nb uh nh s =
       (Inl (Err (if hv \<in> set vs then NOT_SUPPORTED else if 64 < length hs then OUT_OF_RANGE else ACCESS_DENIED)),
        put_proc (th_proc t) pr' s)"
    using assms(1,4-6,9) rm(1)
    by (auto simp: sys_channel_write_def calling_proc_ok sbind_def copy_in_def list_ex_iff)
  then show ?thesis using rm(2) by (auto simp: put_proc_def)
qed

theorem failed_write_consumes_handles_witness:
  "\<exists>u pr'. sys_channel_write 4 7 0 8192 4 8196 1 demo_sys = (Inl (Err NOT_SUPPORTED), u) \<and>
     procs u 3 = Some pr' \<and> pr_handles pr' 7 = None"
proof -
  have "\<exists>u pr'. sys_channel_write 4 7 0 8192 4 8196 1 demo_sys =
       (Inl (Err (if 7 \<in> set [7 :: u32] then NOT_SUPPORTED
          else if 64 < length [handle_new (KObj T_Job 2) R_DEFAULT_JOB] then OUT_OF_RANGE else ACCESS_DENIED)), u) \<and>
     procs u (th_proc demo_thread) = Some pr' \<and> (\<forall>v \<in> set [7]. pr_handles pr' v = None) \<and> channels u = channels demo_sys"
    by (rule failed_write_consumes_handles [where t = demo_thread and pr = demo_caller])
      (simp_all add: demo_caller_ok demo_word del: One_nat_def)
  then show ?thesis by auto
qed

subsection \<open>The dispatcher\<close>

lemma implemented_numbers:
  "(''CHANNEL_CREATE'', k) \<in> set syscall_numbers \<Longrightarrow> k = 3" "(''CHANNEL_READ'', k) \<in> set syscall_numbers \<Longrightarrow> k = 4"
  "(''CHANNEL_WRITE'', k) \<in> set syscall_numbers \<Longrightarrow> k = 6" "(''DEBUGLOG_CREATE'', k) \<in> set syscall_numbers \<Longrightarrow> k = 22"
  "(''DEBUGLOG_WRITE'', k) \<in> set syscall_numbers \<Longrightarrow> k = 23" "(''DEBUGLOG_READ'', k) \<in> set syscall_numbers \<Longrightarrow> k = 24"
  by (simp_all add: syscall_numbers_def)

text \<open>The dispatcher answers every number. A number that is no system call of Zircon gives
  \<open>INVALID_ARGS\<close>, one of the 164 that are not implemented gives \<open>NOT_SUPPORTED\<close>, and in both cases
  nothing has happened.
\<close>

lemma syscall_rejects:
  assumes "num \<notin> {3, 4, 6, 22, 23, 24}"
  shows "syscall now th num args s =
     (Inr (if unat num < 168 \<or> unat num \<in> {200, 201} then zx_code NOT_SUPPORTED else zx_code INVALID_ARGS), s)"
proof (cases "sys_try_from num")
  case None
  then have "\<not> (unat num < 168 \<or> unat num \<in> {200, 201})" using sys_try_from_known [of num] by simp
  then show ?thesis using None by (simp add: syscall_def)
next
  case (Some nm)
  then have known: "unat num < 168 \<or> unat num \<in> {200, 201}" using sys_try_from_known [of num] by simp
  have mem: "(nm, unat num) \<in> set syscall_numbers" using Some by (simp add: sys_try_from_roundtrip)
  have ne: "unat num \<noteq> 3" "unat num \<noteq> 4" "unat num \<noteq> 6" "unat num \<noteq> 22" "unat num \<noteq> 23" "unat num \<noteq> 24"
    using assms by (auto simp: word_unat_eq_iff)
  have "nm \<noteq> ''CHANNEL_CREATE''" "nm \<noteq> ''CHANNEL_READ''" "nm \<noteq> ''CHANNEL_WRITE''" "nm \<noteq> ''DEBUGLOG_CREATE''"
    "nm \<noteq> ''DEBUGLOG_WRITE''" "nm \<noteq> ''DEBUGLOG_READ''"
    using mem ne implemented_numbers by blast+
  then have "syscall now th num args s = (sys_ret (Inl (Err (Zx NOT_SUPPORTED))), s)"
    using Some unfolding syscall_def Let_def by simp
  then show ?thesis using known by (simp add: sys_ret_def)
qed

lemma syscall_rejects_witness:
  "syscall 0 4 5 [] demo_sys = (Inr (zx_code NOT_SUPPORTED), demo_sys) \<and>
   syscall 0 4 300 [] demo_sys = (Inr (zx_code INVALID_ARGS), demo_sys)"
  using syscall_rejects [of 5 0 4 "[]" demo_sys] syscall_rejects [of 300 0 4 "[]" demo_sys] by (simp add: word_unat_eq_iff)


lemma sint_of_nat_small: "n \<le> 256 \<Longrightarrow> sint (of_nat n :: u32) = int n"
proof -
  assume n: "n \<le> 256"
  then have "uint (of_nat n :: u32) = int n" by (simp add: uint_nat unat_of_nat)
  then show ?thesis using n by (simp add: sint_uint signed_take_bit_int_eq_self)
qed

text \<open>\<open>zx_debuglog_read\<close> returns the number of bytes it has copied, by transmuting it into a status: the
  value is positive, so no \<open>ZxError\<close> has it as its discriminant. The bytes copied are the beginning
  of the record, and the reader moves past the whole record even when the buffer of the caller was
  too small for it.
\<close>

lemma debuglog_read_returns_length:
  assumes "threads s th = Some t" and "procs s (th_proc t) = Some pr" and "pr_handles pr hv = Some h"
    and "object h = KObj T_DebugLog k" and "flags_contains (rights h) R_READ" and "dlogs s k = Some d"
    and "dlog_buf s = pre @ r @ post" and "dl_offset d = length pre" and "good_record r" and "length pre + 256 < 2 ^ 64"
    and "0 < len" and "buf \<noteq> 0" and "window s buf (min (length r) len) f"
  shows "\<exists>u. syscall now th 24 [unat hv, 0, buf, len, 0, 0, 0, 0] s = (Inr (int (min (length r) len)), u) \<and>
     mem_load u buf (min (length r) len) = Inr (take len r) \<and>
     map_option dl_offset (dlogs u k) = Some (length pre + length r) \<and> (\<forall>e. zx_code e \<noteq> int (min (length r) len))"
proof -
  let ?n = "min (length r) len"
  have r: "32 \<le> length r" "length r \<le> 256" using assms(9) by (simp_all add: good_record_def)
  have get: "get_object_with_rights T_DebugLog (th_proc t) hv R_READ s = Inr k"
    by (rule get_object_with_rights_ok) (fact assms)+
  let ?b = "splice_at (replicate 256 0) 0 r"
  let ?s = "s\<lparr>dlogs := (dlogs s)(k \<mapsto> d\<lparr>dl_offset := length pre + length r\<rparr>)\<rparr>"
  have "dlog_read_at (length pre) (dlog_buf s) (replicate 256 0) = Inr (?b, length r)"
    unfolding assms(7) by (rule dlog_read_at_boundary) (use assms(9,10) in simp_all)
  then have read: "debuglog_read k (replicate DLOG_MAX_LEN 0) s = (Inr (?b, length r), ?s)"
    using assms(6,8,10) r by (simp add: debuglog_read_def with_dlog_def DLOG_MAX_LEN_def uadd_def)
  have part: "sub_slice ?b 0 ?n = Inr (take len r)" using r by (auto simp: sub_slice_def splice_at_def min_def)
  have ne: "take len r \<noteq> []" "?n \<noteq> 0" using r(1) assms(11) by auto
  have "up_check UT_u8 buf = Inr ()" using assms(12) by (simp add: up_check_def up_is_null_def UT_u8_def)
  then obtain m where m: "up_write_array UT_u8 buf (take len r) ?s = (Inr (), ?s\<lparr>pmem := m\<rparr>)"
    "mem_load (?s\<lparr>pmem := m\<rparr>) buf ?n = Inr (take len r)"
    using write_array_stores [of "take len r" UT_u8 buf ?s f] ne(1) assms(13) window_frame [of ?s s] by (auto simp: min.commute)
  let ?u = "?s\<lparr>pmem := m\<rparr>"
  have call: "sys_debuglog_read th hv 0 buf len s = (Inl (Err (Transmuted (of_nat ?n))), ?u)"
    using assms(1) get read part ne(2) m(1)
    by (simp add: sys_debuglog_read_def calling_proc_ok sbind_def zx_def copy_out_def Let_def)
  have n256: "?n \<le> 256" using r(2) by simp
  then have sint: "sint (of_nat ?n :: u32) = int ?n"
    by (intro sint_of_nat_small) simp
  have "syscall now th 24 [unat hv, 0, buf, len, 0, 0, 0, 0] s = (Inr (int ?n), ?u)"
    using call sint by (simp add: syscall_def sys_numbers sys_ret_def)
  moreover have "zx_code e \<noteq> int ?n" for e using zx_code_bounds [of e] ne(2) by linarith
  moreover have "map_option dl_offset (dlogs ?u k) = Some (length pre + length r)" by simp
  ultimately show ?thesis using m(2) by blast
qed


definition demo_entry :: log_entry where
  "demo_entry = \<lparr>le_severity = Sev_Info, le_flags = 0, le_tid = 4, le_pid = 3, le_now = 0, le_data = [104, 105]\<rparr>"

lemma debuglog_read_returns_length_witness:
  "\<exists>u. syscall 0 4 24 [11, 0, 8204, 4, 0, 0, 0, 0] (demo_sys\<lparr>dlog_buf := entry_record demo_entry\<rparr>) = (Inr 4, u) \<and>
     (\<forall>e. zx_code e \<noteq> 4)"
proof -
  let ?s = "demo_sys\<lparr>dlog_buf := entry_record demo_entry\<rparr>" and ?r = "entry_record demo_entry"
  have good: "good_record ?r" by (rule entry_record_good) (simp add: short_entry_def demo_entry_def)
  then have len: "min (length ?r) 4 = 4" by (simp add: good_record_def)
  have win: "window ?s 8204 4 (\<lambda>i. 4108 + i)" using demo_reader_windows(2) by (simp add: window_def translate_def)
  have "\<exists>u. syscall 0 4 24 [unat (11 :: u32), 0, 8204, 4, 0, 0, 0, 0] ?s = (Inr (int (min (length ?r) 4)), u) \<and>
     mem_load u 8204 (min (length ?r) 4) = Inr (take 4 ?r) \<and>
     map_option dl_offset (dlogs u 20) = Some (length ([] :: u8 list) + length ?r) \<and> (\<forall>e. zx_code e \<noteq> int (min (length ?r) 4))"
    by (rule debuglog_read_returns_length [where t = demo_thread and pr = demo_caller and r = ?r and pre = "[]" and post = "[]"
          and h = "handle_new (KObj T_DebugLog 20) (R_DEFAULT_DEBUGLOG OR R_READ)"
          and d = "\<lparr>dl_base = \<lparr>base_id = 20, base_name = ''''\<rparr>, dl_flags = 0, dl_offset = 0\<rparr>"])
      (use good len win in \<open>simp_all add: demo_rights\<close>)
  then show ?thesis unfolding len by auto
qed

end
