(* ===== verification/Handle_Types.thy ===== *)
theory Handle_Types
  imports Syscall_Props
begin

text \<open>
  Handles are well typed. A handle of type \<open>T\<close> refers to an object that is alive in the store of \<open>T\<close>,
  in every history in which an object is released only when no handle to it is left, which is what
  the reference counts of the code ensure. In such a state no system call follows a dangling
  reference.
\<close>

subsection \<open>Typing\<close>

fun live :: "'a sys_state_scheme \<Rightarrow> kobj_ref \<Rightarrow> bool" where
  "live s (KObj T_Job k) \<longleftrightarrow> jobs s k \<noteq> None"
| "live s (KObj T_Process k) \<longleftrightarrow> procs s k \<noteq> None"
| "live s (KObj T_Thread k) \<longleftrightarrow> threads s k \<noteq> None"
| "live s (KObj T_Channel k) \<longleftrightarrow> channels s k \<noteq> None"
| "live s (KObj T_VmObject k) \<longleftrightarrow> vmos s k \<noteq> None"
| "live s (KObj T_VmAddressRegion k) \<longleftrightarrow> vmars s k \<noteq> None"
| "live s (KObj T_Resource k) \<longleftrightarrow> resources s k \<noteq> None"
| "live s (KObj T_DebugLog k) \<longleftrightarrow> dlogs s k \<noteq> None"
| "live s (KObj T_DummyObject k) \<longleftrightarrow> False"

definition well_typed :: "'a sys_state_scheme \<Rightarrow> bool" where
  \<comment> \<open>handles refer to live objects of their type, threads to their process\<close>
  "well_typed s \<longleftrightarrow> (\<forall>h \<in> caps s. live s (object h)) \<and> (\<forall>k th. threads s k = Some th \<longrightarrow> procs s (th_proc th) \<noteq> None)"

definition unreferenced :: "'a sys_state_scheme \<Rightarrow> kobj_ref \<Rightarrow> bool" where
  "unreferenced s r \<longleftrightarrow> (\<forall>h \<in> caps s. object h \<noteq> r)"

inductive typed_reach :: "'a sys_state_scheme \<Rightarrow> 'a sys_state_scheme \<Rightarrow> bool" for s0 where
  \<comment> \<open>system calls by live threads, writes by user code, releases of objects without handles\<close>
  tr_init: "typed_reach s0 s0"
| tr_call: "typed_reach s0 s \<Longrightarrow> threads s th \<noteq> None \<Longrightarrow> syscall now th num args s = (r, t) \<Longrightarrow> typed_reach s0 t"
| tr_user: "typed_reach s0 s \<Longrightarrow> translate PROT_WRITE s a = Some x \<Longrightarrow> typed_reach s0 (s\<lparr>pmem := (pmem s)(x := b)\<rparr>)"
| tr_channel: "typed_reach s0 s \<Longrightarrow> unreferenced s (KObj T_Channel k) \<Longrightarrow> channel_drop k s = (r, t) \<Longrightarrow> typed_reach s0 t"
| tr_vmo: "typed_reach s0 s \<Longrightarrow> unreferenced s (KObj T_VmObject k) \<Longrightarrow> typed_reach s0 (vmo_drop k s)"
| tr_job: "typed_reach s0 s \<Longrightarrow> unreferenced s (KObj T_Job k) \<Longrightarrow> job_drop k s = (r, t) \<Longrightarrow> typed_reach s0 t"

subsection \<open>Calls that stay within the objects there are\<close>

definition fine :: "'a sys_state_scheme \<Rightarrow> handle set \<Rightarrow> 'a sys_state_scheme \<Rightarrow> bool" where
  "fine s0 C s \<longleftrightarrow> safe s0 C s \<and> vmos s = vmos s0 \<and> dom (channels s0) \<subseteq> dom (channels s) \<and> dom (dlogs s0) \<subseteq> dom (dlogs s)"

definition fine_op ::
  "'a sys_state_scheme \<Rightarrow> handle set \<Rightarrow> ('b \<Rightarrow> bool) \<Rightarrow> ('a sys_state_scheme \<Rightarrow> 'b zx \<times> 'a sys_state_scheme) \<Rightarrow> bool" where
  "fine_op s0 C Q m \<longleftrightarrow>
     (\<forall>s r t. fine s0 C s \<longrightarrow> m s = (r, t) \<longrightarrow> fine s0 C t \<and> r \<noteq> Inl NoRef \<and> (\<forall>x. r = Inr x \<longrightarrow> Q x))"

named_theorems fine_intro \<open>operations that follow live references only\<close>

definition typed_base :: "'a sys_state_scheme \<Rightarrow> handle set \<Rightarrow> bool" where
  "typed_base s0 C \<longleftrightarrow> (\<forall>h \<in> C. live s0 (object h)) \<and> (\<forall>k th. threads s0 k = Some th \<longrightarrow> procs s0 (th_proc th) \<noteq> None)"

lemma fineD:
  assumes "fine s0 C s"
  shows "safe s0 C s" "threads s = threads s0" "procs s0 p \<noteq> None \<Longrightarrow> \<exists>pr. procs s p = Some pr"
    "channels s0 k \<noteq> None \<Longrightarrow> \<exists>c. channels s k = Some c" "dlogs s0 k \<noteq> None \<Longrightarrow> \<exists>d. dlogs s k = Some d" "resources s = resources s0"
proof -
  show "safe s0 C s" "threads s = threads s0" "resources s = resources s0" using assms by (simp_all add: fine_def safe_def)
  have "map_option proc_core (procs s p) = map_option proc_core (procs s0 p)" using assms by (simp add: fine_def safe_def)
  then show "procs s0 p \<noteq> None \<Longrightarrow> \<exists>pr. procs s p = Some pr" by (cases "procs s p") auto
  show "channels s0 k \<noteq> None \<Longrightarrow> \<exists>c. channels s k = Some c" "dlogs s0 k \<noteq> None \<Longrightarrow> \<exists>d. dlogs s k = Some d"
    using assms by (auto simp: fine_def)
qed

lemma fine_opI:
  assumes "safe_op s0 C Q m"
    and "\<And>s r t. fine s0 C s \<Longrightarrow> m s = (r, t) \<Longrightarrow>
       vmos t = vmos s \<and> dom (channels s) \<subseteq> dom (channels t) \<and> dom (dlogs s) \<subseteq> dom (dlogs t) \<and> r \<noteq> Inl NoRef"
  shows "fine_op s0 C Q m"
  unfolding fine_op_def
proof (intro allI impI)
  fix s r t
  assume s: "fine s0 C s" and m: "m s = (r, t)"
  then have safe: "safe s0 C t" "\<forall>x. r = Inr x \<longrightarrow> Q x" using assms(1) by (auto simp: safe_op_def fine_def)
  have grow: "vmos t = vmos s" "dom (channels s) \<subseteq> dom (channels t)" "dom (dlogs s) \<subseteq> dom (dlogs t)" "r \<noteq> Inl NoRef"
    using assms(2) [OF s m] by simp_all
  have old: "dom (channels s0) \<subseteq> dom (channels s)" "dom (dlogs s0) \<subseteq> dom (dlogs s)" "vmos s = vmos s0"
    using s unfolding fine_def by simp_all
  have "fine s0 C t"
    unfolding fine_def using safe(1) grow(1) old(3) order_trans [OF old(1) grow(2)] order_trans [OF old(2) grow(3)] by simp
  then show "fine s0 C t \<and> r \<noteq> Inl NoRef \<and> (\<forall>x. r = Inr x \<longrightarrow> Q x)" using safe(2) grow(4) by simp
qed

lemma fine_op_weaken: "fine_op s0 C Q m \<Longrightarrow> (\<And>x. Q x \<Longrightarrow> R x) \<Longrightarrow> fine_op s0 C R m"
  by (auto simp: fine_op_def)

lemma fine_op_bind [fine_intro]:
  assumes "fine_op s0 C Q m" and "\<And>x. Q x \<Longrightarrow> fine_op s0 C R (f x)"
  shows "fine_op s0 C R (sbind m f)"
  unfolding fine_op_def
proof (intro allI impI)
  fix s r t
  assume "fine s0 C s" "sbind m f s = (r, t)"
  from this(2) show "fine s0 C t \<and> r \<noteq> Inl NoRef \<and> (\<forall>x. r = Inr x \<longrightarrow> R x)"
  proof (cases rule: sbind_cases)
    case (fail e)
    then show ?thesis using assms(1) \<open>fine s0 C s\<close> by (auto simp: fine_op_def)
  next
    case (step x s')
    then have "fine s0 C s'" "Q x" using assms(1) \<open>fine s0 C s\<close> by (auto simp: fine_op_def)
    then show ?thesis using assms(2) [of x] step(2) by (auto simp: fine_op_def)
  qed
qed

lemma fine_op_if [fine_intro]: "fine_op s0 C Q m \<Longrightarrow> fine_op s0 C Q n \<Longrightarrow> fine_op s0 C Q (if b then m else n)"
  by simp

lemma fine_op_simple [fine_intro]: "fine_op s0 C Q (sfail (Err e))" "fine_op s0 C (\<lambda>_. True) (sret x)"
  by (auto simp: fine_op_def)

subsection \<open>User memory and handle tables\<close>

lemma mem_load_ref: "mem_load s a n \<noteq> Inl NoRef"
  by (induction n arbitrary: a) (auto simp: rbind_eq_Inl split: option.split)

lemma mem_store_ref: "fst (mem_store a bs s) \<noteq> Inl NoRef"
  by (induction bs arbitrary: a s) (auto split: option.split)

lemma up_ref:
  "up_check ty p \<noteq> Inl NoRef" "up_read_array ty p n s \<noteq> Inl NoRef" "up_read_string p n s \<noteq> Inl NoRef"
  "fst (up_write ty p v s) \<noteq> Inl NoRef" "fst (up_write_array ty p vs s) \<noteq> Inl NoRef" "fst (up_write_if_not_null ty p v s) \<noteq> Inl NoRef"
proof -
  show c: "up_check ty p \<noteq> Inl NoRef" for ty p by (simp add: up_check_def)
  show "up_read_array ty p n s \<noteq> Inl NoRef" by (auto simp: up_read_array_def rbind_eq_Inl c mem_load_ref)
  show "up_read_string p n s \<noteq> Inl NoRef" by (auto simp: up_read_string_def rbind_eq_Inl c mem_load_ref split: if_splits)
  show w: "fst (up_write ty p v s) \<noteq> Inl NoRef" by (auto simp: up_write_def mem_store_ref c split: sum.split)
  show "fst (up_write_array ty p vs s) \<noteq> Inl NoRef" by (auto simp: up_write_array_def mem_store_ref c split: sum.split)
  show "fst (up_write_if_not_null ty p v s) \<noteq> Inl NoRef" using w by (simp add: up_write_if_not_null_def)
qed

lemma user_res_ref: "user_res r = Inl NoRef \<longleftrightarrow> r = Inl NoRef"
  by (cases r) (auto simp: user_res_def split: fault.split)

lemma fine_copy_in: "(\<And>s. f s \<noteq> Inl NoRef) \<Longrightarrow> fine_op s0 C (\<lambda>_. True) (copy_in f)"
  by (rule fine_opI [OF safe_op_copy_in]) (auto simp: copy_in_def user_res_ref)

lemma fine_stores:
  assumes "safe_op s0 C (\<lambda>_. True) (copy_out m)" and "\<And>s. stores s (snd (m s))" and "\<And>s. fst (m s) \<noteq> Inl NoRef"
  shows "fine_op s0 C (\<lambda>_. True) (copy_out m)"
proof (rule fine_opI [OF assms(1)])
  fix s r t
  assume m: "copy_out m s = (r, t)"
  obtain f where "t = s\<lparr>pmem := f\<rparr>" using assms(2) [of s] m by (auto simp: copy_out_def stores_def split: prod.splits)
  then show "vmos t = vmos s \<and> dom (channels s) \<subseteq> dom (channels t) \<and> dom (dlogs s) \<subseteq> dom (dlogs t) \<and> r \<noteq> Inl NoRef"
    using assms(3) [of s] m by (auto simp: copy_out_def user_res_ref split: prod.splits)
qed

lemma fine_op_user [fine_intro]:
  "fine_op s0 C (\<lambda>_. True) (copy_in (up_read_array ty p n))"
  "fine_op s0 C (\<lambda>_. True) (copy_in (up_read_string p n))"
  "fine_op s0 C (\<lambda>_. True) (copy_out (up_write ty p v))"
  "fine_op s0 C (\<lambda>_. True) (copy_out (up_write_array ty p vs))"
  "fine_op s0 C (\<lambda>_. True) (copy_out (up_write_if_not_null ty p v))"
  by (rule fine_copy_in up_ref fine_stores safe_op_out up_write_stores up_write_array_stores up_write_if_not_null_stores)+

lemma table_ref:
  "table_add_all hs pr \<noteq> (Inl NoRef, pr')" "table_remove_all vs pr \<noteq> (Inl NoRef, pr')"
proof -
  show "table_add_all hs pr \<noteq> (Inl NoRef, pr')"
    by (induction hs arbitrary: pr) (auto simp: table_add_def Let_def split: prod.splits sum.splits)
  show "table_remove_all vs pr \<noteq> (Inl NoRef, pr')"
    by (induction vs arbitrary: pr) (auto simp: table_remove_def split: prod.splits sum.splits option.splits)
qed

lemma fine_on_table:
  assumes "safe_op s0 C Q (on_table p f)" and "procs s0 p \<noteq> None" and "\<And>pr pr'. f pr \<noteq> (Inl NoRef, pr')"
  shows "fine_op s0 C Q (on_table p f)"
proof (rule fine_opI [OF assms(1)])
  fix s r t
  assume "fine s0 C s" and f: "on_table p f s = (r, t)"
  then obtain pr where "procs s p = Some pr" using fineD(3) assms(2) by blast
  then show "vmos t = vmos s \<and> dom (channels s) \<subseteq> dom (channels t) \<and> dom (dlogs s) \<subseteq> dom (dlogs t) \<and> r \<noteq> Inl NoRef"
    using f assms(3) by (auto simp: on_table_def with_proc_def put_proc_def split: prod.splits)
qed

lemma fine_op_handles [fine_intro]:
  assumes "procs s0 p \<noteq> None"
  shows "set hs \<subseteq> C \<Longrightarrow> fine_op s0 C (\<lambda>_. True) (process_add_handles p hs)"
    and "h \<in> C \<Longrightarrow> fine_op s0 C (\<lambda>_. True) (process_add_handle p h)"
    and "fine_op s0 C (\<lambda>hs. set hs \<subseteq> C) (process_remove_handles p vs)"
proof -
  note ops = safe_op_handles [unfolded process_add_handles_def process_add_handle_def process_remove_handles_def]
  show "set hs \<subseteq> C \<Longrightarrow> fine_op s0 C (\<lambda>_. True) (process_add_handles p hs)"
    unfolding process_add_handles_def by (rule fine_on_table [OF ops(1) assms table_ref(1)])
  have add: "table_add h pr \<noteq> (Inl NoRef, pr')" for pr pr' by (simp add: table_add_def Let_def)
  show "h \<in> C \<Longrightarrow> fine_op s0 C (\<lambda>_. True) (process_add_handle p h)"
    unfolding process_add_handle_def by (rule fine_on_table [OF ops(2) assms add])
  show "fine_op s0 C (\<lambda>hs. set hs \<subseteq> C) (process_remove_handles p vs)"
    unfolding process_remove_handles_def by (rule fine_on_table [OF ops(3) assms table_ref(2)])
qed

subsection \<open>Looking objects up\<close>

lemma fine_op_calling:
  assumes "typed_base s0 C" and "threads s0 th \<noteq> None" and "\<And>p. procs s0 p \<noteq> None \<Longrightarrow> fine_op s0 C Q (f p)"
  shows "fine_op s0 C Q (calling_proc th f)"
  unfolding fine_op_def
proof (intro allI impI)
  fix s r t
  assume s: "fine s0 C s" and r: "calling_proc th f s = (r, t)"
  obtain w where w: "threads s0 th = Some w" using assms(2) by blast
  then have "procs s0 (th_proc w) \<noteq> None" using assms(1) by (auto simp: typed_base_def)
  moreover have "f (th_proc w) s = (r, t)"
    using r w fineD(2) [OF s] by (simp add: calling_proc_def thread_proc_def get_thread_def)
  ultimately show "fine s0 C t \<and> r \<noteq> Inl NoRef \<and> (\<forall>x. r = Inr x \<longrightarrow> Q x)"
    using assms(3) s by (auto simp: fine_op_def)
qed

lemma fine_slift:
  assumes "\<And>s. fine s0 C s \<Longrightarrow> g s \<noteq> Inl NoRef \<and> (\<forall>x. g s = Inr x \<longrightarrow> Q x)"
  shows "fine_op s0 C Q (slift g)"
  using assms by (auto simp: fine_op_def)

lemma fine_op_lookup:
  assumes "typed_base s0 C" and "procs s0 p \<noteq> None"
  shows "fine_op s0 C (\<lambda>k. live s0 (KObj ty k)) (slift (get_object_with_rights ty p v rs))"
    and "fine_op s0 C (\<lambda>k. live s0 (KObj ty k)) (slift (get_object ty p v))"
proof -
  have live: "live s0 (KObj ty k)" if "fine s0 C s" "procs s p = Some pr" "pr_handles pr v = Some h" "object h = KObj ty k" for s pr h k
    using safe_table [OF fineD(1) [OF that(1)] that(2,3)] assms(1) that(4) by (auto simp: typed_base_def)
  show "fine_op s0 C (\<lambda>k. live s0 (KObj ty k)) (slift (get_object_with_rights ty p v rs))"
    "fine_op s0 C (\<lambda>k. live s0 (KObj ty k)) (slift (get_object ty p v))"
    using live fineD(3) assms(2)
    by (intro fine_slift; fastforce simp: get_object_with_rights_def get_object_def process_get_handle_def get_proc_def table_get_def
        downcast_or_wrong_def downcast_eq_Some rbind_eq_Inl rbind_eq_Inr ok_or_eq_Inr ok_or_def split: option.splits if_splits)+
qed

lemma fine_op_root:
  assumes "typed_base s0 C" and "procs s0 p \<noteq> None"
  shows "fine_op s0 C (\<lambda>_. True) (slift (root_only p rsrc))"
proof (rule fine_slift)
  fix s
  assume s: "fine s0 C s"
  have "get_object T_Resource p rsrc s \<noteq> Inl NoRef \<and> (\<forall>k. get_object T_Resource p rsrc s = Inr k \<longrightarrow> resources s k \<noteq> None)"
    using fine_op_lookup(2) [OF assms, of T_Resource rsrc] s fineD(6) [OF s] by (auto simp: fine_op_def)
  then show "root_only p rsrc s \<noteq> Inl NoRef \<and> (\<forall>x. root_only p rsrc s = Inr x \<longrightarrow> True)"
    by (auto simp: root_only_def rbind_eq_Inl validate_def ok_or_def split: option.splits if_splits)
qed

subsection \<open>Channels and logs\<close>

lemma fine_put_channel: "fine s0 C s \<Longrightarrow> safe s0 C (put_channel k c s) \<Longrightarrow> fine s0 C (put_channel k c s)"
  by (auto simp: fine_def put_channel_def)

lemma fine_op_read:
  assumes k: "channels s0 k \<noteq> None" and "\<And>m. fine_op s0 C (\<lambda>_. True) (checker m)" and "\<And>m. safe_op s0 C (\<lambda>_. True) (checker m)"
  shows "fine_op s0 C (\<lambda>m. set (msg_handles m) \<subseteq> C) (check_and_read k checker)"
  unfolding fine_op_def
proof (intro allI impI)
  fix s r t
  assume s: "fine s0 C s" and r: "check_and_read k checker s = (r, t)"
  have safe: "safe s0 C t" "\<forall>m. r = Inr m \<longrightarrow> set (msg_handles m) \<subseteq> C"
    using safe_op_read(1) [OF assms(3), of k] fineD(1) [OF s] r by (auto simp: safe_op_def)
  obtain c where c: "channels s k = Some c" using fineD(4) [OF s k] by blast
  show "fine s0 C t \<and> r \<noteq> Inl NoRef \<and> (\<forall>m. r = Inr m \<longrightarrow> set (msg_handles m) \<subseteq> C)"
  proof (cases "ch_queue c")
    case Nil
    then show ?thesis using r c s safe by (auto simp: check_and_read_def with_channel_def)
  next
    case (Cons m ms)
    obtain r1 u where u: "checker m s = (r1, u)" by fastforce
    then have fu: "fine s0 C u" "r1 \<noteq> Inl NoRef" using assms(2) [of m] s by (auto simp: fine_op_def)
    obtain c' where "channels u k = Some c'" using fineD(4) [OF fu(1) k] by blast
    then have "(\<exists>f. r1 = Inl f \<and> r = Inl f \<and> t = u) \<or> (r = Inr m \<and> t = put_channel k (c'\<lparr>ch_queue := ms\<rparr>) u)"
      using r c Cons u by (auto simp: check_and_read_def with_channel_def sbind_def split: sum.splits)
    then show ?thesis using fu safe fine_put_channel by auto
  qed
qed

lemma fine_op_channel_read:
  "channels s0 k \<noteq> None \<Longrightarrow> fine_op s0 C (\<lambda>m. set (msg_handles m) \<subseteq> C) (channel_read k)"
  unfolding channel_read_def by (rule fine_op_read) (auto intro: fine_op_simple safe_op_simple)

lemma fine_op_channel_write:
  assumes k: "channels s0 k \<noteq> None" and "set (msg_handles m) \<subseteq> C"
  shows "fine_op s0 C (\<lambda>_. True) (channel_write k m)"
proof (rule fine_opI [OF safe_op_send [OF assms(2)]])
  fix s r t
  assume s: "fine s0 C s" and r: "channel_write k m s = (r, t)"
  obtain c where "channels s k = Some c" using fineD(4) [OF s k] by blast
  then show "vmos t = vmos s \<and> dom (channels s) \<subseteq> dom (channels t) \<and> dom (dlogs s) \<subseteq> dom (dlogs t) \<and> r \<noteq> Inl NoRef"
    using r by (auto simp: channel_write_def with_channel_def upgrade_peer_def push_general_def put_channel_def split: option.splits if_splits)
qed

lemma slice_ref: "uadd a b \<noteq> Inl NoRef" "sub_slice xs lo hi \<noteq> Inl NoRef"
  by (simp_all add: uadd_def sub_slice_def)

lemma dlog_ref: "dlog_read_at off log buf \<noteq> Inl NoRef" "dlog_record sev fl pid tid now data \<noteq> Inl NoRef"
  by (auto simp: dlog_read_at_def dlog_record_def align_up_4_def rbind_eq_Inl slice_ref Let_def)

lemma fine_op_log:
  assumes "dlogs s0 k \<noteq> None"
  shows "fine_op s0 C (\<lambda>_. True) (debuglog_read k buf)"
    and "fine_op s0 C (\<lambda>_. True) (debuglog_write k sev fl tid pid now data)"
proof -
  show "fine_op s0 C (\<lambda>_. True) (debuglog_read k buf)"
  proof (rule fine_opI [OF safe_op_log(1)])
    fix s r t
    assume s: "fine s0 C s" and r: "debuglog_read k buf s = (r, t)"
    obtain d where "dlogs s k = Some d" using fineD(5) [OF s assms] by blast
    then show "vmos t = vmos s \<and> dom (channels s) \<subseteq> dom (channels t) \<and> dom (dlogs s) \<subseteq> dom (dlogs t) \<and> r \<noteq> Inl NoRef"
      using r by (auto simp: debuglog_read_def with_dlog_def dlog_ref slice_ref split: option.splits sum.splits)
  qed
  show "fine_op s0 C (\<lambda>_. True) (debuglog_write k sev fl tid pid now data)"
  proof (rule fine_opI [OF safe_op_log(2)])
    fix s r t
    assume s: "fine s0 C s" and r: "debuglog_write k sev fl tid pid now data s = (r, t)"
    obtain d where "dlogs s k = Some d" using fineD(5) [OF s assms] by blast
    then show "vmos t = vmos s \<and> dom (channels s) \<subseteq> dom (channels t) \<and> dom (dlogs s) \<subseteq> dom (dlogs t) \<and> r \<noteq> Inl NoRef"
      using r by (auto simp: debuglog_write_def with_dlog_def dlog_buffer_write_def dlog_ref split: sum.splits)
  qed
qed

subsection \<open>The calls\<close>

lemma fine_op_report_sizes [fine_intro]: "fine_op s0 C (\<lambda>_. True) (report_sizes ab ah m)"
  unfolding report_sizes_def by (rule fine_intro)+

lemma fine_op_read_checker [fine_intro]: "fine_op s0 C (\<lambda>_. True) (read_checker nb nh ab ah m)"
  unfolding read_checker_def by (rule fine_intro)+

lemma fine_sys_channel_read:
  assumes "typed_base s0 C" and "threads s0 th \<noteq> None"
  shows "fine_op s0 C (\<lambda>_. True) (sys_channel_read th hv options bytes handles nb nh ab ah)"
  unfolding sys_channel_read_def
proof (rule fine_op_calling [OF assms])
  fix p
  assume p: "procs s0 p \<noteq> None"
  have msg: "fine_op s0 C (\<lambda>m. set (msg_handles m) \<subseteq> C)
      (if options AND MAY_DISCARD = 0 then check_and_read ch (read_checker nb nh ab ah) else channel_read ch)"
    if "live s0 (KObj T_Channel ch)" for ch
    using that by (auto intro!: fine_op_read fine_op_channel_read fine_op_read_checker safe_op_read_checker)
  show "fine_op s0 C (\<lambda>_. True)
     (sbind (slift (get_object_with_rights T_Channel p hv R_READ)) (\<lambda>channel.
      sbind (if options AND MAY_DISCARD = 0 then check_and_read channel (read_checker nb nh ab ah) else channel_read channel) (\<lambda>msg.
      sbind (report_sizes ab ah msg) (\<lambda>_.
      if too_small nb nh msg then sfail (Err BUFFER_TOO_SMALL)
      else sbind (copy_out (up_write_array UT_u8 bytes (msg_data msg))) (\<lambda>_.
           sbind (process_add_handles p (msg_handles msg)) (\<lambda>values. copy_out (up_write_array UT_u32 handles values)))))))"
    by (rule fine_op_bind, rule fine_op_lookup [OF assms(1) p], rule fine_op_bind, erule msg) (rule fine_intro p | assumption)+
qed

lemma fine_sys_channel_write:
  assumes "typed_base s0 C" and "threads s0 th \<noteq> None"
  shows "fine_op s0 C (\<lambda>_. True) (sys_channel_write th hv options ub nb uh nh)"
  unfolding sys_channel_write_def Let_def
  by (rule fine_intro fine_op_calling [OF assms] fine_op_lookup [OF assms(1)] fine_op_channel_write | assumption | simp)+

lemma fine_sys_debuglog_write:
  assumes "typed_base s0 C" and "threads s0 th \<noteq> None"
  shows "fine_op s0 C (\<lambda>_. True) (sys_debuglog_write now th hv options buf len)"
proof -
  have out: "fine_op s0 C (\<lambda>_. True) (\<lambda>s. let s1 = serial_write data s
      in (Inr (), if data \<noteq> [] \<and> last data = 10 then s1 else serial_write [10] s1))" for data
    by (rule fine_opI) (auto simp: safe_op_def Let_def safe_serial, auto simp: serial_write_def Let_def)
  show ?thesis
    unfolding sys_debuglog_write_def
    by (rule fine_intro fine_op_calling [OF assms] fine_op_lookup [OF assms(1)] fine_op_log out | assumption | simp)+
qed

lemma fine_sys_debuglog_read:
  assumes "typed_base s0 C" and "threads s0 th \<noteq> None" and "fine s0 C s"
    and r: "sys_debuglog_read th hv options buf len s = (r, t)"
  shows "fine s0 C t \<and> r \<noteq> Inl NoRef"
proof -
  have slice: "fine_op s0 C (\<lambda>_. True) (slift (\<lambda>_. sub_slice xs lo hi))" for xs :: "u8 list" and lo hi
    by (rule fine_slift) (simp add: slice_ref)
  have "fine_op s0 C (\<lambda>_. True) (if options \<noteq> 0 then sfail (Err INVALID_ARGS)
       else calling_proc th (\<lambda>p.
         sbind (slift (get_object_with_rights T_DebugLog p hv R_READ)) (\<lambda>dlog.
         sbind (debuglog_read dlog (replicate DLOG_MAX_LEN 0)) (\<lambda>(buffer, n).
         let actual_len = min n len in
         if actual_len = 0 then sfail (Err SHOULD_WAIT)
         else sbind (slift (\<lambda>_. sub_slice buffer 0 actual_len)) (\<lambda>part.
              sbind (copy_out (up_write_array UT_u8 buf part)) (\<lambda>_. sret actual_len))))))" (is "fine_op _ _ _ ?body")
    unfolding Let_def case_prod_beta
    by (rule fine_intro fine_op_calling [OF assms(1,2)] fine_op_lookup [OF assms(1)] fine_op_log slice | assumption | simp)+
  then have "fine s0 C (snd (?body s)) \<and> fst (?body s) \<noteq> Inl NoRef" using assms(3) by (cases "?body s") (auto simp: fine_op_def)
  moreover have "t = snd (?body s) \<and> (r = Inl NoRef \<longleftrightarrow> fst (?body s) = Inl NoRef)"
    using r by (cases "?body s") (auto simp: sys_debuglog_read_def zx_def sbind_def sys_res_def split: sum.splits fault.splits)
  ultimately show ?thesis by simp
qed

subsection \<open>Well-typed states stay well typed\<close>

lemma live_mono:
  fixes s t :: "'a sys_state_scheme"
  assumes "live s r"
    and "dom (jobs s) \<subseteq> dom (jobs t)" "dom (procs s) \<subseteq> dom (procs t)" "dom (threads s) \<subseteq> dom (threads t)"
    and "dom (channels s) \<subseteq> dom (channels t)" "dom (vmos s) \<subseteq> dom (vmos t)" "dom (vmars s) \<subseteq> dom (vmars t)"
    and "dom (resources s) \<subseteq> dom (resources t)" "dom (dlogs s) \<subseteq> dom (dlogs t)"
  shows "live t r"
proof (cases r)
  case (KObj ty k)
  have sub: "m' k \<noteq> None" if "m k \<noteq> None" "dom m \<subseteq> dom m'" for m m' :: "koid \<Rightarrow> 'b option"
    using that by auto
  show ?thesis using assms unfolding KObj
    by (cases ty) (simp_all add: subset_iff domIff)
qed

lemma fine_well_typed:
  assumes "typed_base s0 C" and "fine s0 C t"
  shows "well_typed t"
proof -
  note f = assms(2) [unfolded fine_def safe_def]
  have pd: "procs t p = None \<longleftrightarrow> procs s0 p = None" for p
  proof -
    have "map_option proc_core (procs t p) = map_option proc_core (procs s0 p)" using f by blast
    then show ?thesis by (cases "procs t p"; cases "procs s0 p") simp_all
  qed
  have live: "live t r" if "live s0 r" for r
    by (rule live_mono [OF that]) (use f pd in \<open>auto simp: dom_def\<close>)
  show ?thesis unfolding well_typed_def
  proof (intro conjI ballI allI impI)
    fix h assume "h \<in> caps t"
    then have "h \<in> C" using f by blast
    then show "live t (object h)" using assms(1) live by (simp add: typed_base_def)
  next
    fix k th assume "threads t k = Some th"
    then show "procs t (th_proc th) \<noteq> None" using f pd assms(1) by (auto simp: typed_base_def)
  qed
qed

lemma fine_refl: "caps s \<subseteq> C \<Longrightarrow> fine s C s"
  by (simp add: fine_def safe_def)

lemma typed_base_caps: "well_typed s \<Longrightarrow> typed_base s (caps s)"
  by (simp add: typed_base_def well_typed_def)

lemma well_typed_grow:
  fixes s s1 :: "'a sys_state_scheme"
  assumes "well_typed s" and "procs s1 = procs s" "threads s1 = threads s" and "caps s1 \<subseteq> caps s"
    and "\<And>r. live s r \<Longrightarrow> live s1 r" and "\<And>h. h \<in> H \<Longrightarrow> live s1 (object h)"
  shows "typed_base s1 (caps s \<union> H)" "fine s1 (caps s \<union> H) s1"
  using assms by (auto simp: typed_base_def well_typed_def fine_def safe_def)

lemma fine_sys_channel_create:
  fixes s :: "'a sys_state_scheme"
  assumes wt: "well_typed s" and th: "threads s th \<noteq> None" and r: "sys_channel_create th options out0 out1 s = (r, t)"
  shows "well_typed t \<and> r \<noteq> Inl NoRef"
proof (cases "options = 0")
  case False
  then show ?thesis using r wt by (auto simp: sys_channel_create_def)
next
  case True
  obtain w where w: "threads s th = Some w" using th by blast
  let ?p = "th_proc w"
  obtain e0 e1 s1 where cr: "channel_create s = ((e0, e1), s1)" by (metis prod.exhaust)
  let ?h0 = "handle_new (KObj T_Channel e0) R_DEFAULT_CHANNEL" and ?h1 = "handle_new (KObj T_Channel e1) R_DEFAULT_CHANNEL"
  let ?C = "caps s \<union> {?h0, ?h1}"
  have eq: "procs s1 = procs s" "threads s1 = threads s" "channels s1 e0 \<noteq> None" "channels s1 e1 \<noteq> None"
    using cr by (auto simp: channel_create_eq)
  have caps: "caps s1 \<subseteq> caps s" using cr by (auto simp: channel_create_eq caps_def channel_init_def split: if_splits)
  have live: "live s1 r" if "live s r" for r
    by (rule live_mono [OF that]) (use cr in \<open>auto simp: channel_create_eq\<close>)
  note base = well_typed_grow [OF wt eq(1,2) caps live, of "{?h0, ?h1}"]
  have new: "h \<in> {?h0, ?h1} \<Longrightarrow> live s1 (object h)" for h using eq(3,4) by auto
  have p: "procs s1 ?p \<noteq> None" using wt w eq(1) by (auto simp: well_typed_def)
  have "fine_op s1 ?C (\<lambda>_. True)
     (sbind (process_add_handle ?p ?h0) (\<lambda>handle0.
      sbind (process_add_handle ?p ?h1) (\<lambda>handle1.
      sbind (copy_out (up_write UT_u32 out0 handle0)) (\<lambda>_. copy_out (up_write UT_u32 out1 handle1)))))"
    by (rule fine_intro p | simp)+
  moreover have "(sbind (process_add_handle ?p ?h0) (\<lambda>handle0.
      sbind (process_add_handle ?p ?h1) (\<lambda>handle1.
      sbind (copy_out (up_write UT_u32 out0 handle0)) (\<lambda>_. copy_out (up_write UT_u32 out1 handle1))))) s1 = (r, t)"
    using r True w cr by (simp add: sys_channel_create_def calling_proc_ok)
  ultimately have "fine s1 ?C t" "r \<noteq> Inl NoRef" using base(2) new by (auto simp: fine_op_def)
  then show ?thesis using fine_well_typed [OF base(1)] new by blast
qed

lemma fine_sys_debuglog_create:
  fixes s :: "'a sys_state_scheme"
  assumes wt: "well_typed s" and th: "threads s th \<noteq> None" and r: "sys_debuglog_create th rsrc options target s = (r, t)"
  shows "well_typed t \<and> r \<noteq> Inl NoRef"
proof -
  obtain w where w: "threads s th = Some w" using th by blast
  let ?p = "th_proc w" and ?rs = "if options AND FLAG_READABLE = 0 then R_DEFAULT_DEBUGLOG else R_DEFAULT_DEBUGLOG OR R_READ"
  have p0: "procs s ?p \<noteq> None" using wt w by (auto simp: well_typed_def)
  obtain k s1 where cr: "debuglog_create options s = (k, s1)" by fastforce
  let ?h = "handle_new (KObj T_DebugLog k) ?rs"
  let ?C = "caps s \<union> {?h}"
  have eq: "procs s1 = procs s" "threads s1 = threads s" "dlogs s1 k \<noteq> None" "channels s1 = channels s"
    using cr by (auto simp: debuglog_create_eq)
  have caps: "caps s1 \<subseteq> caps s" using caps_frame [OF eq(1,4)] by simp
  have live: "live s1 r" if "live s r" for r
    by (rule live_mono [OF that]) (use cr in \<open>auto simp: debuglog_create_eq\<close>)
  note base = well_typed_grow [OF wt eq(1,2) caps live, of "{?h}"]
  have new: "h \<in> {?h} \<Longrightarrow> live s1 (object h)" for h using eq(3) by auto
  have p: "procs s1 ?p \<noteq> None" using p0 eq(1) by simp
  have op: "fine_op s1 ?C (\<lambda>_. True) (sbind (process_add_handle ?p ?h) (\<lambda>v. copy_out (up_write UT_u32 target v)))"
    by (rule fine_intro p | simp)+
  have root: "fine_op s (caps s) (\<lambda>_. True) (slift (root_only ?p rsrc))" by (rule fine_op_root [OF typed_base_caps [OF wt] p0])
  consider (fail) f where "rsrc \<noteq> 0" "root_only ?p rsrc s = Inl f" | (go) u where "rsrc = 0 \<or> root_only ?p rsrc s = Inr u"
    by (cases "root_only ?p rsrc s") auto
  then show ?thesis
  proof cases
    case fail
    then have "sys_debuglog_create th rsrc options target s = (Inl f, s)"
      using w by (simp add: sys_debuglog_create_def calling_proc_ok sbind_def)
    moreover have "f \<noteq> NoRef" using root fail(2) fine_refl [of s "caps s"] by (auto simp: fine_op_def)
    ultimately show ?thesis using r wt by auto
  next
    case go
    then have "(if rsrc \<noteq> 0 then slift (root_only ?p rsrc) else sret ()) s = (Inr (), s)" by auto
    then have "sbind (process_add_handle ?p ?h) (\<lambda>v. copy_out (up_write UT_u32 target v)) s1 = (r, t)"
      using r w cr by (simp add: sys_debuglog_create_def calling_proc_ok sbind_def Let_def)
    then have "fine s1 ?C t" "r \<noteq> Inl NoRef" using op base(2) new by (auto simp: fine_op_def)
    then show ?thesis using fine_well_typed [OF base(1)] new by blast
  qed
qed

lemma syscall_well_typed:
  assumes wt: "well_typed s" and th: "threads s th \<noteq> None" and r: "syscall now th num args s = (r, t)"
  shows "well_typed t \<and> r \<noteq> Inl NoRef"
proof -
  have op: "well_typed u \<and> q \<noteq> Inl NoRef" if "fine_op s (caps s) Q m" "zx m s = (q, u)" for m :: "'a sys_state_scheme st_unit" and Q q u
  proof -
    have "fine s (caps s) u \<and> q \<noteq> Inl NoRef"
      using that fine_refl [of s "caps s"] by (cases "m s") (auto simp: zx_def fine_op_def sys_res_def split: sum.splits fault.splits)
    then show ?thesis using fine_well_typed [OF typed_base_caps [OF wt]] by blast
  qed
  have create: "well_typed u \<and> q \<noteq> Inl NoRef"
    if "zx m s = (q, u)" "\<And>q u. m s = (q, u) \<Longrightarrow> well_typed u \<and> q \<noteq> Inl NoRef" for m :: "'a sys_state_scheme st_unit" and q u
    using that by (cases "m s") (auto simp: zx_def sys_res_def split: sum.splits fault.splits)
  have read: "well_typed u \<and> q \<noteq> Inl NoRef" if "sys_debuglog_read th hv options buf len s = (q, u)" for hv options buf len q u
    using fine_sys_debuglog_read [OF typed_base_caps [OF wt] th fine_refl that] fine_well_typed [OF typed_base_caps [OF wt]] by blast
  note calls = op [OF fine_sys_channel_read [OF typed_base_caps [OF wt] th]] op [OF fine_sys_channel_write [OF typed_base_caps [OF wt] th]]
    op [OF fine_sys_debuglog_write [OF typed_base_caps [OF wt] th]] create [OF _ fine_sys_channel_create [OF wt th]]
    create [OF _ fine_sys_debuglog_create [OF wt th]] read
  have ret: "sys_ret q = Inl NoRef \<longleftrightarrow> q = Inl NoRef" for q by (auto simp: sys_ret_def split: sum.split fault.split)
  show ?thesis
    using r calls wt unfolding syscall_def Let_def
    by (auto simp: ret split: option.splits prod.splits if_splits)
qed

lemma vmo_drop_dom:
  fixes s :: "'a vm_state_scheme"
  shows "dom (vmos s) - {k} \<subseteq> dom (vmos (vmo_drop k s))"
proof (cases "vmos s k")
  case None
  then show ?thesis by (simp add: vmo_drop_def)
next
  case (Some v)
  obtain f where f: "vmo_drop k s = release_base (vo_trait v) (s\<lparr>vmos := f\<rparr>)"
    "\<And>c. map_option vo_trait (f c) = (if c = k then None else map_option vo_trait (vmos s c))"
    by (rule vmo_drop_shape [OF Some]) blast
  have "vmos (vmo_drop k s) = f" using release_base_fields [of "vo_trait v" "s\<lparr>vmos := f\<rparr>"] by (simp add: f(1))
  moreover have "f c \<noteq> None" if "vmos s c \<noteq> None" "c \<noteq> k" for c using f(2) [of c] that by auto
  ultimately show ?thesis by auto
qed

lemma live_without_vmo:
  fixes s t :: "'a sys_state_scheme"
  assumes "live s q" and "q \<noteq> KObj T_VmObject k" and m: "vm_state.more t = vm_state.more s" and "dom (vmos s) - {k} \<subseteq> dom (vmos t)"
  shows "live t q"
proof -
  note f = vm_more_fields [OF m]
  have "jobs t = jobs s" "dlogs t = dlogs s" using m by (cases s, cases t, simp)+
  then show ?thesis using assms(1,2,4) f by (cases "(s, q)" rule: live.cases) auto
qed

lemma released_well_typed:
  fixes s t :: "'a sys_state_scheme"
  assumes "well_typed s" and "caps t \<subseteq> caps s" and "procs t = procs s" "threads t = threads s" and "unreferenced s r"
    and "\<And>q. live s q \<Longrightarrow> q \<noteq> r \<Longrightarrow> live t q"
  shows "well_typed t"
  using assms unfolding well_typed_def unreferenced_def by (metis subsetD)

text \<open>C3. Handles are well typed: starting from a well-typed state, after any history of system calls
  by live threads, of writes by user code and of releases of objects no handle refers to, every
  handle refers to a live object of its type, and no system call of a live thread, whatever its
  arguments, follows a dangling reference.\<close>

theorem handles_well_typed:
  assumes "typed_reach s0 s" and "well_typed s0"
  shows "well_typed s \<and> (\<forall>now th num args. threads s th \<noteq> None \<longrightarrow> fst (syscall now th num args s) \<noteq> Inl NoRef)"
proof -
  have "well_typed s"
    using assms
  proof (induction rule: typed_reach.induct)
    case tr_init
    then show ?case by simp
  next
    case (tr_call s th now num args r t)
    then show ?case using syscall_well_typed by blast
  next
    case (tr_user s a x b)
    let ?t = "s\<lparr>pmem := (pmem s)(x := b)\<rparr>"
    have "caps ?t = caps s" by (rule caps_frame) simp_all
    moreover have "live ?t q = live s q" for q by (cases "(s, q)" rule: live.cases) simp_all
    ultimately show ?case using tr_user by (simp add: well_typed_def)
  next
    case (tr_channel s k r t)
    then have t: "t = s\<lparr>channels := (channels s)(k := None)\<rparr>" by (simp add: channel_drop_def)
    have live: "live t q" if "live s q" "q \<noteq> KObj T_Channel k" for q
      using that by (cases q; cases "ref_type q") (simp_all add: t)
    have same: "procs t = procs s" "threads t = threads s" by (simp_all add: t)
    have caps: "caps t \<subseteq> caps s" unfolding caps_def by (auto simp: t split: if_splits)
    show ?case by (rule released_well_typed [OF tr_channel.IH [OF tr_channel.prems] caps same tr_channel.hyps(2) live])
  next
    case (tr_vmo s k)
    let ?t = "vmo_drop k s"
    have m: "vm_state.more ?t = vm_state.more s" using releases_vmo_drop [of s k] by (simp add: releases_def)
    note f = vm_more_fields [OF m]
    have "live ?t q" if "live s q" "q \<noteq> KObj T_VmObject k" for q
      by (rule live_without_vmo [OF that m vmo_drop_dom])
    note live = this
    have caps: "caps ?t \<subseteq> caps s" using caps_frame [OF f(4,5)] by simp
    show ?case by (rule released_well_typed [OF tr_vmo.IH [OF tr_vmo.prems] caps f(4,3) tr_vmo.hyps(2) live])
  next
    case (tr_job s k r t)
    then obtain j where t: "t = s\<lparr>jobs := j\<rparr>" "dom (jobs s) - {k} \<subseteq> dom j" using job_drop_jobs by blast
    have live: "live t q" if "live s q" "q \<noteq> KObj T_Job k" for q
      using that t(2) by (cases q; cases "ref_type q") (auto simp: t(1))
    have same: "procs t = procs s" "threads t = threads s" "channels t = channels s" by (simp_all add: t(1))
    have caps: "caps t \<subseteq> caps s" using caps_frame [OF same(1,3)] by simp
    show ?case by (rule released_well_typed [OF tr_job.IH [OF tr_job.prems] caps same(1,2) tr_job.hyps(2) live])
  qed
  then show ?thesis using syscall_well_typed by (metis prod.collapse)
qed

lemma demo_well_typed: "well_typed demo_sys"
proof -
  have "jobs demo_sys 2 \<noteq> None" "resources demo_sys 21 \<noteq> None"
    by (simp_all add: demo_sys_def demo_tasks_def task_state.defs channel_state.defs dlog_state.defs resource_state.defs sys_state.defs)
  then show ?thesis
    by (auto simp: well_typed_def caps_def demo_caller_def channel_init_def demo_message_def demo_thread_def thread_init_def split: if_splits)
qed

theorem handles_well_typed_witness:
  "\<exists>s. typed_reach demo_sys s \<and> well_typed s \<and> s = snd (syscall 0 4 3 [0, 8192, 8196, 0, 0, 0, 0, 0] demo_sys)"
proof -
  let ?s = "snd (syscall 0 4 3 [0, 8192, 8196, 0, 0, 0, 0, 0] demo_sys)"
  have "typed_reach demo_sys ?s"
    by (rule tr_call [OF tr_init _ prod.collapse [symmetric]]) simp
  then show ?thesis using handles_well_typed [OF _ demo_well_typed] by blast
qed

end
