(* ===== verification/Vmar_Pages.thy ===== *)
theory Vmar_Pages
  imports Vmar_Destroy Vmar_Map
begin

text \<open>
  In every reachable address space a mapping is a whole number of pages at a page boundary, although
  neither its address nor the address of its region is checked: the first page would not have been
  accepted by the page table (\<^verbatim>\<open>zircon-object/src/vm/vmar.rs\<close>, \<^verbatim>\<open>kernel-hal-unix/src/lib.rs\<close>).
\<close>

definition whole_pages :: "vm_mapping \<Rightarrow> bool" where
  "whole_pages m \<longleftrightarrow> page_aligned (mp_size m) \<and> mp_size m < usize_lim \<and> (mp_size m = 0 \<or> page_aligned (mp_addr m))"

definition all_whole :: "'a vmar_state_scheme \<Rightarrow> bool" where
  "all_whole s \<longleftrightarrow> (\<forall>k v inn m. vmars s k = Some v \<longrightarrow> va_inner v = Some inn \<longrightarrow>
     m \<in> set (vin_mappings inn) \<longrightarrow> whole_pages m)"

lemma whole_pages_span: "map_span m' = map_span m \<Longrightarrow> whole_pages m' = whole_pages m"
  by (simp add: whole_pages_def map_span_def)

lemma all_wholeD:
  "all_whole s \<Longrightarrow> vmars s k = Some v \<Longrightarrow> va_inner v = Some inn \<Longrightarrow> m \<in> set (vin_mappings inn) \<Longrightarrow> whole_pages m"
  unfolding all_whole_def by blast

lemma all_whole_maps_ok: "all_whole s \<Longrightarrow> maps_ok s"
  unfolding all_whole_def maps_ok_def mapping_ok_def whole_pages_def by (metis div_0)

lemma all_whole_frame: "all_whole s \<Longrightarrow> vmars t = vmars s \<Longrightarrow> all_whole t"
  by (simp add: all_whole_def)

lemma all_whole_pt: "all_whole s \<Longrightarrow> pt_only s t \<Longrightarrow> all_whole t"
  by (simp add: all_whole_frame pt_only_vmars)

lemma all_whole_put:
  assumes "all_whole s" and "\<And>inn m. i = Some inn \<Longrightarrow> m \<in> set (vin_mappings inn) \<Longrightarrow> whole_pages m"
  shows "all_whole (put_inner k i s)"
proof (cases "vmars s k")
  case None
  then show ?thesis using assms(1) by (simp add: put_inner_def)
next
  case (Some v)
  show ?thesis unfolding all_whole_def
  proof (intro allI impI)
    fix j w inn m
    assume "vmars (put_inner k i s) j = Some w" "va_inner w = Some inn" "m \<in> set (vin_mappings inn)"
    then show "whole_pages m"
      using assms(2) all_wholeD [OF assms(1)] by (cases "j = k") (auto simp: put_inner_eq [OF Some])
  qed
qed

lemma all_whole_subset:
  assumes "all_whole s" and "vmars s k = Some v" and "va_inner v = Some inn" and "set (vin_mappings inn') \<subseteq> set (vin_mappings inn)"
  shows "all_whole (put_inner k (Some inn') s)"
  by (rule all_whole_put [OF assms(1)]) (use all_wholeD [OF assms(1-3)] assms(4) in auto)

lemma all_whole_dead: "all_whole s \<Longrightarrow> all_whole (put_inner k None s)"
  by (rule all_whole_put) auto

lemma all_whole_new: "all_whole s \<Longrightarrow> vmars t = (vmars s)(c \<mapsto> w) \<Longrightarrow> va_inner w = Some inner_default \<Longrightarrow> all_whole t"
  unfolding all_whole_def by (auto simp: inner_default_def split: if_splits)

lemma sbind_whole:
  assumes "all_whole (snd (m s))" and "\<And>x u. all_whole u \<Longrightarrow> all_whole (snd (f x u))"
  shows "all_whole (snd (sbind m f s))"
  using assms by (rule sbind_keeps)

lemma sfor_whole:
  assumes "all_whole s" and "\<And>i u. all_whole u \<Longrightarrow> all_whole (snd (f i u))"
  shows "all_whole (snd (sfor f is s))"
proof -
  obtain r t where rt: "sfor f is s = (r, t)" by fastforce
  have "all_whole t"
    by (rule sfor_invariant [OF rt, where P = all_whole, OF assms(1)]) (use assms(2) in \<open>metis snd_conv\<close>)
  with rt show ?thesis by simp
qed

lemma drops_whole: "all_whole s \<Longrightarrow> all_whole (snd (sfor mapping_drop ms s))"
  by (rule sfor_whole) (auto intro: all_whole_pt mapping_drop_pt_only)

subsection \<open>Every operation keeps it\<close>

lemma destroy_internal_whole:
  fixes s :: "'a vmar_state_scheme"
  shows "all_whole s \<Longrightarrow> all_whole (snd (destroy_internal n k s))"
proof (induction n arbitrary: k s)
  case (Suc n)
  show ?case
  proof (cases "\<exists>v inn. vmars s k = Some v \<and> va_inner v = Some inn")
    case False
    with Suc.prems show ?thesis by (auto simp: with_inner_def split: option.splits)
  next
    case True
    then obtain v inn where v: "vmars s k = Some v" "va_inner v = Some inn" by blast
    have "all_whole (put_inner k (Some (inn\<lparr>vin_children := []\<rparr>)) s)"
      by (rule all_whole_subset [OF Suc.prems v]) simp
    then show ?thesis
      using v by (simp add: with_inner_def)
        (rule sbind_whole, rule sfor_whole, assumption, rule Suc.IH, assumption,
         rule sbind_whole, rule drops_whole, assumption, simp add: all_whole_dead)
  qed
qed simp

lemma clear_whole:
  fixes s :: "'a vmar_state_scheme"
  assumes "all_whole s"
  shows "all_whole (snd (vmar_clear k s))"
proof (cases "\<exists>v inn. vmars s k = Some v \<and> va_inner v = Some inn")
  case False
  with assms show ?thesis by (auto simp: vmar_clear_def with_inner_def split: option.splits)
next
  case True
  then obtain v inn where v: "vmars s k = Some v" "va_inner v = Some inn" by blast
  have *: "all_whole (put_inner k (Some (inn\<lparr>vin_children := []\<rparr>)) s)"
    by (rule all_whole_subset [OF assms v]) simp
  have default: "all_whole (put_inner k (Some inner_default) u)" if "all_whole u" for u :: "'a vmar_state_scheme"
    by (rule all_whole_put [OF that]) (auto simp: inner_default_def)
  show ?thesis
    using v by (simp add: vmar_clear_def with_inner_def)
      (rule sbind_whole, rule sfor_whole, rule *, rule destroy_internal_whole, assumption,
       rule sbind_whole, rule drops_whole, assumption, simp add: default)
qed

lemma destroy_whole:
  fixes s :: "'a vmar_state_scheme"
  assumes "all_whole s"
  shows "all_whole (snd (vmar_destroy k s))"
proof -
  have unlist: "all_whole (snd (with_inner p (\<lambda>_ pinn s1.
      (Inr () :: unit zx, put_inner p (Some (pinn\<lparr>vin_children := filter P (vin_children pinn)\<rparr>)) s1)) u))"
    if u: "all_whole u" for p P and u :: "'a vmar_state_scheme"
  proof (cases "\<exists>v inn. vmars u p = Some v \<and> va_inner v = Some inn")
    case False
    with u show ?thesis by (auto simp: with_inner_def split: option.splits)
  next
    case True
    then obtain v inn where v: "vmars u p = Some v" "va_inner v = Some inn" by blast
    have "all_whole (put_inner p (Some (inn\<lparr>vin_children := filter P (vin_children inn)\<rparr>)) u)"
      by (rule all_whole_subset [OF u v]) simp
    then show ?thesis using v by (simp add: with_inner_def)
  qed
  show ?thesis
    unfolding vmar_destroy_def
    by (intro sbind_whole destroy_internal_whole assms) (auto split: option.splits intro!: unlist)
qed

lemma unmap_whole:
  fixes s :: "'a vmar_state_scheme"
  assumes "all_whole s"
  shows "all_whole (snd (vmar_unmap k addr len s))"
proof (cases "\<exists>v inn. vmars s k = Some v \<and> va_inner v = Some inn")
  case False
  with assms show ?thesis by (auto simp: vmar_unmap_def with_inner_def split: option.splits)
next
  case True
  then obtain v inn where v: "vmars s k = Some v" "va_inner v = Some inn" by blast
  have body: "all_whole (snd (sbind (sfor mapping_drop gone) (\<lambda>_ s.
      sfor (destroy_internal (destroy_fuel s)) dead
        (put_inner k (Some \<lparr>vin_children = filter (\<lambda>c. c \<notin> set dead) (vin_children inn),
           vin_mappings = filter (\<lambda>m. m \<notin> set gone) (vin_mappings inn)\<rparr>) s)) s))" for gone dead
  proof (rule sbind_whole)
    show "all_whole (snd (sfor mapping_drop gone s))" by (rule drops_whole [OF assms])
    fix u :: "'a vmar_state_scheme" assume u: "all_whole u"
    have "all_whole (put_inner k (Some \<lparr>vin_children = filter (\<lambda>c. c \<notin> set dead) (vin_children inn),
           vin_mappings = filter (\<lambda>m. m \<notin> set gone) (vin_mappings inn)\<rparr>) u)"
      by (rule all_whole_put [OF u]) (use all_wholeD [OF assms v] in auto)
    then show "all_whole (snd (sfor (destroy_internal (destroy_fuel u)) dead
        (put_inner k (Some \<lparr>vin_children = filter (\<lambda>c. c \<notin> set dead) (vin_children inn),
           vin_mappings = filter (\<lambda>m. m \<notin> set gone) (vin_mappings inn)\<rparr>) u)))"
      by (rule sfor_whole) (rule destroy_internal_whole)
  qed
  show ?thesis
    using assms v
    by (auto simp: vmar_unmap_def with_inner_def sbind_def [of "slift _"] body split: sum.splits)
qed

lemma protect_whole:
  fixes s :: "'a vmar_state_scheme"
  assumes "all_whole s"
  shows "all_whole (snd (vmar_protect k addr len fl s))"
proof (cases "\<exists>v inn. vmars s k = Some v \<and> va_inner v = Some inn")
  case False
  with assms show ?thesis by (auto simp: vmar_protect_def with_inner_def split: option.splits)
next
  case True
  then obtain v inn where v: "vmars s k = Some v" "va_inner v = Some inn" by blast
  have body: "all_whole (snd (sbind (protect_all a e fl (vin_mappings inn)) (\<lambda>ms s.
      (Inr () :: unit zx, put_inner k (Some (inn\<lparr>vin_mappings := ms\<rparr>)) s)) s))" for a e
  proof (rule sbind_keeps)
    show "all_whole (snd (protect_all a e fl (vin_mappings inn) s))"
      by (rule all_whole_pt [OF assms protect_all_pt_only])
    fix ms and u :: "'a vmar_state_scheme"
    assume ms: "protect_all a e fl (vin_mappings inn) s = (Inr ms, u)" and u: "all_whole u"
    have "map_span ` set ms = map_span ` set (vin_mappings inn)"
      using arg_cong [OF protect_all_spans [OF ms], of set] by simp
    then have "whole_pages m" if "m \<in> set ms" for m
      using that all_wholeD [OF assms v] whole_pages_span by (metis imageE imageI)
    then show "all_whole (snd (Inr () :: unit zx, put_inner k (Some (inn\<lparr>vin_mappings := ms\<rparr>)) u))"
      by (simp, intro all_whole_put [OF u]) auto
  qed
  show ?thesis
    using assms v
    by (auto simp: vmar_protect_def with_inner_def sbind_def [of "slift _"] body split: sum.splits)
qed

lemma new_root_whole:
  assumes "all_whole s"
  shows "all_whole (snd (new_root s))"
proof (cases "rbind (umul ROOT_SIZE (next_root s)) (uadd ROOT_BASE) :: usize zx")
  case (Inl f)
  then have "vmars (snd (new_root s)) = vmars s" unfolding new_root_def Let_def by simp
  then show ?thesis by (rule all_whole_frame [OF assms])
next
  case (Inr a)
  then show ?thesis unfolding new_root_def Let_def
    by (simp add: new_koid_def put_vmar_def) (rule all_whole_new [OF assms], simp, simp)
qed

lemma new_kernel_whole:
  assumes "all_whole s"
  shows "all_whole (snd (new_kernel s))"
  by (simp add: new_kernel_def new_koid_def put_vmar_def) (rule all_whole_new [OF assms], simp, simp)

lemma allocate_whole:
  fixes s :: "'a vmar_state_scheme"
  assumes "all_whole s"
  shows "all_whole (snd (allocate k offset len fl align s))"
proof (cases "\<exists>v inn o1. vmars s k = Some v \<and> va_inner v = Some inn \<and>
    determine_offset s v inn offset len align = Inr o1")
  case False
  then have "snd (allocate k offset len fl align s) = s"
    by (auto simp: allocate_def with_inner_def sbind_def split: option.splits sum.splits)
  with assms show ?thesis by simp
next
  case True
  then obtain v inn o1 where v: "vmars s k = Some v" "va_inner v = Some inn"
    "determine_offset s v inn offset len align = Inr o1" by blast
  show ?thesis
  proof (cases "uadd (va_addr v) o1 :: usize zx")
    case (Inl f)
    then have "vmars (snd (allocate k offset len fl align s)) = vmars s"
      using v by (simp add: allocate_def with_inner_def sbind_def new_koid_def)
    then show ?thesis by (rule all_whole_frame [OF assms])
  next
    case (Inr a)
    let ?s1 = "put_vmar (next_koid s) \<lparr>va_flags = fl, va_addr = a, va_size = len, va_parent = Some k,
        va_inner = Some inner_default\<rparr> (s\<lparr>next_koid := next_koid s + 1\<rparr>)"
    let ?inn = "inn\<lparr>vin_children := vin_children inn @ [next_koid s]\<rparr>"
    have "all_whole ?s1"
      by (rule all_whole_new [OF assms, where w = "\<lparr>va_flags = fl, va_addr = a, va_size = len, va_parent = Some k,
        va_inner = Some inner_default\<rparr>"]) (simp_all add: put_vmar_def)
    then have "all_whole (put_inner k (Some ?inn) ?s1)"
      by (rule all_whole_put) (use all_wholeD [OF assms v(1,2)] in auto)
    moreover have "snd (allocate k offset len fl align s) = put_inner k (Some ?inn) ?s1"
      using v Inr by (simp add: allocate_def with_inner_def sbind_def new_koid_def uadd_def split: if_splits)
    ultimately show ?thesis by simp
  qed
qed

lemma mapped_whole:
  assumes "mapping_map m s = (Inr (), t)" and "page_aligned (mp_size m)" and "mp_size m < usize_lim"
  shows "whole_pages m"
proof (cases "mp_size m div 4096")
  case 0
  then have "mp_size m = 0" using assms(2) by (auto elim!: dvdE simp: page_aligned_iff mod_eq_0_iff_dvd)
  then show ?thesis using assms(2) by (simp add: whole_pages_def)
next
  case (Suc n)
  then have "[0..<mp_size m div 4096] = 0 # [1..<mp_size m div 4096]" by (simp add: upt_conv_Cons)
  then obtain tr u where "map_page m tr 0 s = (Inr (), u)"
    using assms(1) by (auto simp: mapping_map_def with_vmo_def sbind_eq_Inr split: option.splits)
  then have "page_aligned (mp_addr m)"
    by (auto simp: map_page_def sbind_slift rbind_eq_Inr pt_map_def split: sum.splits if_splits)
  then show ?thesis using assms(2,3) by (simp add: whole_pages_def)
qed

lemma map_ext_whole:
  fixes s :: "'a vmar_state_scheme"
  assumes whole: "all_whole s"
  shows "all_whole (snd (map_ext k vo vmo off len perm fl ov mr s))"
proof (cases "\<exists>v inn. vmars s k = Some v \<and> va_inner v = Some inn \<and> map_args vmo off len perm fl ov mr s = Inr ()")
  case False
  with whole show ?thesis
    by (auto simp: map_ext_def with_inner_def sbind_def [of "slift _"] split: option.splits sum.splits)
next
  case True
  then obtain v inn where v: "vmars s k = Some v" "va_inner v = Some inn"
    and args: "map_args vmo off len perm fl ov mr s = Inr ()" by blast
  have len: "page_aligned len" "len < usize_lim" using args by (auto simp: map_args_def split: if_splits)
  have body: "all_whole (snd (sbind (mapping_new addr len vmo off perm f) (\<lambda>m s.
           case mapping_map m s of
             (Inl (Err e), s1) \<Rightarrow> sbind (mapping_drop m) (\<lambda>_. sfail (Err e)) s1
           | (Inl f, s1) \<Rightarrow> (Inl f, s1)
           | (Inr _, s1) \<Rightarrow>
               (Inr addr, put_inner k (Some (inn\<lparr>vin_mappings := vin_mappings inn @ [m]\<rparr>)) s1)) s))"
    for addr f
  proof -
    obtain r u where ru: "mapping_new addr len vmo off perm f s = (r, u)" by fastforce
    have u: "all_whole u" using all_whole_frame [OF whole mapping_new_frame(1) [OF ru]] .
    show ?thesis
    proof (cases r)
      case (Inl e)
      with ru u show ?thesis by (simp add: sbind_def)
    next
      case (Inr m)
      obtain q w where qw: "mapping_map m u = (q, w)" by fastforce
      have w: "all_whole w" using all_whole_pt [OF u mapping_map_pt_only [of u m]] qw by simp
      have fail: "all_whole (snd (sbind (mapping_drop m) (\<lambda>_. sfail (Err e)) w))" for e
        by (rule sbind_whole) (simp_all add: all_whole_pt [OF w mapping_drop_pt_only])
      have "mp_size m = len" using mapping_new_result(1) [OF ru [unfolded Inr]] by (simp add: map_span_def)
      then have m: "whole_pages m" if "q = Inr ()" using mapped_whole [OF qw [unfolded that]] len by simp
      have good: "all_whole (put_inner k (Some (inn\<lparr>vin_mappings := vin_mappings inn @ [m]\<rparr>)) w)" if "q = Inr ()"
        by (rule all_whole_put [OF w]) (use m [OF that] all_wholeD [OF whole v] in auto)
      from ru Inr qw fail w good show ?thesis
        by (cases q rule: sum.exhaust) (auto simp: sbind_def [of "mapping_new _ _ _ _ _ _"] split: fault.splits)
    qed
  qed
  show ?thesis
    using whole v
    by (auto simp: map_ext_def with_inner_def sbind_def [of "slift _"] split: sum.splits intro!: body)
qed

lemma vmar_step_whole:
  fixes s t :: "'a vmar_state_scheme"
  assumes "vmar_step s t" and "all_whole s"
  shows "all_whole t"
  using assms(1)
proof (rule vmar_stepE)
  fix r assume "new_root s = (r, t)"
  then show ?thesis using new_root_whole [OF assms(2)] by (metis snd_conv)
next
  fix r assume "new_kernel s = (r, t)"
  then show ?thesis using new_kernel_whole [OF assms(2)] by (metis snd_conv)
next
  fix k o1 len fl al r assume "allocate k o1 len fl al s = (r, t)"
  then show ?thesis using allocate_whole [OF assms(2)] by (metis snd_conv)
next
  fix k o1 vmo off len perm fl ov mr r assume "map_ext k o1 vmo off len perm fl ov mr s = (r, t)"
  then show ?thesis using map_ext_whole [OF assms(2)] by (metis snd_conv)
next
  fix k a len r assume "vmar_unmap k a len s = (r, t)"
  then show ?thesis using unmap_whole [OF assms(2)] by (metis snd_conv)
next
  fix k a len fl r assume "vmar_protect k a len fl s = (r, t)"
  then show ?thesis using protect_whole [OF assms(2)] by (metis snd_conv)
next
  fix k r assume "vmar_clear k s = (r, t)"
  then show ?thesis using clear_whole [OF assms(2)] by (metis snd_conv)
next
  fix k r assume "vmar_destroy k s = (r, t)"
  then show ?thesis using destroy_whole [OF assms(2)] by (metis snd_conv)
qed

lemma vmar_reach_whole:
  fixes s0 s :: "'a vmar_state_scheme"
  shows "vmar_reach s0 s \<Longrightarrow> all_whole s0 \<Longrightarrow> all_whole s"
  by (induction rule: vmar_reach.induct) (auto intro: vmar_step_whole)

end
