(* ===== verification/Vmar_Live.thy ===== *)
theory Vmar_Live
  imports Vmar_Pages
begin

text \<open>
  In every reachable address space the sub-regions a region lists are live: whatever destroys a
  region also takes it off the list of its parent (\<^verbatim>\<open>zircon-object/src/vm/vmar.rs\<close>). So destroying
  any listed region works.
\<close>

lemma live_frame:
  assumes "vmars t = vmars s"
  shows "live_children {} t = live_children {} s"
proof -
  have "edge t x y = edge s x y" "is_live t y = is_live s y" for x y
    unfolding edge_def is_live_def assms by (rule refl)+
  then show ?thesis unfolding live_children_def by simp
qed

lemma live_pt: "live_children {} s \<Longrightarrow> pt_only s t \<Longrightarrow> live_children {} t"
  using live_frame [OF pt_only_vmars(1)] by blast

lemma live_put:
  assumes "live_children {} s" and "\<And>y. y \<in> set (vin_children inn) \<Longrightarrow> is_live s y"
  shows "live_children {} (put_inner k (Some inn) s)"
proof (cases "vmars s k")
  case None
  then show ?thesis using assms(1) by (simp add: put_inner_def)
next
  case (Some v)
  have "is_live (put_inner k (Some inn) s) y" if "is_live s y" for y
    using that by (auto simp: is_live_def put_inner_eq [OF Some])
  moreover have "is_live s y" if "edge (put_inner k (Some inn) s) x y" for x y
    using that assms by (cases "x = k") (auto simp: edge_def live_children_def put_inner_eq [OF Some])
  ultimately show ?thesis by (auto simp: live_children_def)
qed

lemma live_put_subset:
  assumes "live_children {} s" and "vmars s k = Some v" and "va_inner v = Some inn"
    and "set (vin_children inn') \<subseteq> set (vin_children inn)"
  shows "live_children {} (put_inner k (Some inn') s)"
proof (rule live_put [OF assms(1)])
  fix y assume "y \<in> set (vin_children inn')"
  then have "edge s k y" using assms(2-4) by (auto simp: edge_def)
  then show "is_live s y" using assms(1) by (auto simp: live_children_def)
qed

lemma live_new:
  assumes "live_children {} s" and "vmars t = (vmars s)(c \<mapsto> w)" and "va_inner w = Some inner_default"
  shows "live_children {} t"
proof -
  have "is_live t y" if "is_live s y" for y using that assms(2,3) by (auto simp: is_live_def)
  moreover have "edge s x y" if "edge t x y" for x y
    using that assms(2,3) by (auto simp: edge_def inner_default_def split: if_splits)
  ultimately show ?thesis using assms(1) unfolding live_children_def by blast
qed

lemma drops_live: "live_children {} s \<Longrightarrow> live_children {} (snd (sfor mapping_drop ms s))"
  by (rule live_pt) (auto intro: sfor_pt_only mapping_drop_pt_only)

text \<open>Destroying regions that no region lists any more.\<close>

lemma destroy_unlisted:
  fixes s :: "'a vmar_state_scheme"
  assumes "space_inv s" and "maps_ok s" and "live_children {} s" and "distinct cs"
    and "\<And>c. c \<in> set cs \<Longrightarrow> is_live s c \<and> (\<forall>x. \<not> edge s x c)" and "unat (next_koid s) < n"
  shows "\<exists>t. sfor (destroy_internal n) cs s = (Inr (), t) \<and> live_children {} t"
proof -
  have works: "\<exists>t. destroy_internal n c u = (Inr (), t) \<and> live_children {c} t \<and> destroyed c u t"
    if "space_inv u" "maps_ok u" "live_children {} u" "is_live u c" "unat (next_koid u) < n + unat c"
    for c and u :: "'a vmar_state_scheme"
    using that by (rule destroy_works)
  have "is_live s c \<and> (\<forall>x. \<not> edge s x c) \<and> unat (next_koid s) < n + unat c" if "c \<in> set cs" for c
    using assms(5) [OF that] assms(6) by simp
  from destroy_loop [OF works assms(1-4) this] show ?thesis by blast
qed

lemma unlist_children:
  assumes "space_inv s" and "live_children {} s" and "vmars s k = Some v" and "va_inner v = Some inn"
    and "set (vin_children inn') \<subseteq> set (vin_children inn) - D" and "c \<in> D" and "c \<in> set (vin_children inn)"
  shows "is_live (put_inner k (Some inn') s) c \<and> (\<forall>x. \<not> edge (put_inner k (Some inn') s) x c)"
proof -
  have kc: "edge s k c" using assms(3,4,7) by (auto simp: edge_def)
  then have live: "is_live s c" using assms(2) by (auto simp: live_children_def)
  note put = put_inner_eq [OF assms(3), of "Some inn'"]
  have "x = k" if "edge s x c" for x
    using space_edge(2) [OF assms(1) that] space_edge(2) [OF assms(1) kc] by auto
  then have "\<not> edge (put_inner k (Some inn') s) x c" for x
    using assms(5,6) by (cases "x = k") (auto simp: edge_def put)
  moreover have "is_live (put_inner k (Some inn') s) c" using live by (auto simp: is_live_def put)
  ultimately show ?thesis by blast
qed

subsection \<open>Every operation keeps it\<close>

lemma clear_live:
  fixes s :: "'a vmar_state_scheme"
  assumes "space_inv s" and "all_whole s" and "live_children {} s"
  shows "live_children {} (snd (vmar_clear k s))"
proof (cases "\<exists>v inn. vmars s k = Some v \<and> va_inner v = Some inn")
  case False
  with assms show ?thesis by (auto simp: vmar_clear_def with_inner_def split: option.splits)
next
  case True
  then obtain v inn where v: "vmars s k = Some v" "va_inner v = Some inn" by blast
  let ?i = "inn\<lparr>vin_children := []\<rparr>"
  let ?s1 = "put_inner k (Some ?i) s"
  have "space_inv ?s1" using space_inv_shrink [OF assms(1) v shrinks_no_children] .
  moreover have "maps_ok ?s1" by (rule all_whole_maps_ok, rule all_whole_subset [OF assms(2) v]) simp
  moreover have "live_children {} ?s1" by (rule live_put_subset [OF assms(3) v]) simp
  moreover have "distinct (vin_children inn)" using space_invD(2) [OF assms(1) v] by (simp add: region_ok_def)
  moreover have "is_live ?s1 c \<and> (\<forall>x. \<not> edge ?s1 x c)" if "c \<in> set (vin_children inn)" for c
    by (rule unlist_children [OF assms(1,3) v, where D = "set (vin_children inn)"]) (use that in auto)
  moreover have "unat (next_koid ?s1) < destroy_fuel s" by (simp add: destroy_fuel_def put_inner_eq [OF v(1)])
  ultimately obtain t where t: "sfor (destroy_internal (destroy_fuel s)) (vin_children inn) ?s1 = (Inr (), t)" "live_children {} t"
    using destroy_unlisted by blast
  have rest: "live_children {} (snd (sbind (sfor mapping_drop (vin_mappings inn)) (\<lambda>_ s1.
         (Inr () :: unit zx, put_inner k (Some inner_default) s1)) t))"
    by (rule sbind_keeps, rule drops_live [OF t(2)]) (simp, rule live_put, assumption, simp add: inner_default_def)
  show ?thesis using v t(1) rest by (simp add: vmar_clear_def with_inner_def sbind_Inr)
qed

lemma unmap_live:
  fixes s :: "'a vmar_state_scheme"
  assumes "space_inv s" and "all_whole s" and "live_children {} s"
  shows "live_children {} (snd (vmar_unmap k addr len s))"
proof (cases "\<exists>v inn. vmars s k = Some v \<and> va_inner v = Some inn")
  case False
  with assms show ?thesis by (auto simp: vmar_unmap_def with_inner_def split: option.splits)
next
  case True
  then obtain v inn where v: "vmars s k = Some v" "va_inner v = Some inn" by blast
  have body: "live_children {} (snd (sbind (sfor mapping_drop gone) (\<lambda>_ s.
      sfor (destroy_internal (destroy_fuel s)) dead
        (put_inner k (Some \<lparr>vin_children = filter (\<lambda>c. c \<notin> set dead) (vin_children inn),
           vin_mappings = filter (\<lambda>m. m \<notin> set gone) (vin_mappings inn)\<rparr>) s)) s))"
    if dead: "set dead \<subseteq> set (vin_children inn)" "distinct dead" for gone dead
  proof (rule sbind_keeps)
    show "live_children {} (snd (sfor mapping_drop gone s))" by (rule drops_live [OF assms(3)])
    fix x :: unit and u :: "'a vmar_state_scheme"
    assume "sfor mapping_drop gone s = (Inr x, u)" and live: "live_children {} u"
    then have "pt_only s u" using sfor_pt_only [of mapping_drop s gone, OF mapping_drop_pt_only] by simp
    then have u: "space_inv u" "all_whole u" "vmars u k = Some v"
      using assms v by (auto simp: pt_only_vmars intro: space_inv_pt_only all_whole_pt)
    let ?i = "\<lparr>vin_children = filter (\<lambda>c. c \<notin> set dead) (vin_children inn),
           vin_mappings = filter (\<lambda>m. m \<notin> set gone) (vin_mappings inn)\<rparr>"
    let ?s1 = "put_inner k (Some ?i) u"
    have "shrinks inn ?i"
      by (rule shrinksI [where P = "\<lambda>c. c \<notin> set dead" and Q = "\<lambda>m. m \<notin> set gone"]) simp_all
    then have "space_inv ?s1" by (rule space_inv_shrink [OF u(1,3) v(2)])
    moreover have "maps_ok ?s1" by (rule all_whole_maps_ok, rule all_whole_subset [OF u(2,3) v(2)]) auto
    moreover have "live_children {} ?s1" by (rule live_put_subset [OF live u(3) v(2)]) auto
    moreover have "is_live ?s1 c \<and> (\<forall>x. \<not> edge ?s1 x c)" if "c \<in> set dead" for c
      by (rule unlist_children [OF u(1) live u(3) v(2), where D = "set dead"]) (use that dead in auto)
    moreover have "unat (next_koid ?s1) < destroy_fuel u" by (simp add: destroy_fuel_def put_inner_eq [OF u(3)])
    ultimately have "\<exists>t. sfor (destroy_internal (destroy_fuel u)) dead ?s1 = (Inr (), t) \<and> live_children {} t"
      using dead(2) by (intro destroy_unlisted)
    then show "live_children {} (snd (sfor (destroy_internal (destroy_fuel u)) dead ?s1))" by auto
  qed
  have "distinct (vin_children inn)" using space_invD(2) [OF assms(1) v] by (simp add: region_ok_def)
  then have filt: "set ys \<subseteq> set (vin_children inn) \<and> distinct ys" if "zx_filter p (vin_children inn) = Inr ys" for p ys
    using zx_filter_Inr [OF that] by simp
  show ?thesis
    using assms v
    by (auto simp: vmar_unmap_def with_inner_def sbind_def [of "slift _"] split: sum.splits intro!: body dest!: filt)
qed

lemma live_except:
  assumes "live_children {k} t" and "\<And>x. \<not> edge t x k"
  shows "live_children {} t"
  using assms unfolding live_children_def by blast

lemma destroy_live:
  fixes s :: "'a vmar_state_scheme"
  assumes "space_inv s" and "all_whole s" and "live_children {} s"
  shows "live_children {} (snd (vmar_destroy k s))"
proof (cases "is_live s k")
  case False
  then have "\<exists>f. destroy_internal (destroy_fuel s) k s = (Inl f, s)"
    by (auto simp: destroy_fuel_def with_inner_def is_live_def split: option.splits)
  then show ?thesis using assms(3) by (auto simp: vmar_destroy_def sbind_def)
next
  case True
  obtain t where t: "destroy_internal (destroy_fuel s) k s = (Inr (), t)" "live_children {k} t" "destroyed k s t" "space_inv t"
    using destroy_root [OF assms(1) all_whole_maps_ok [OF assms(2)] assms(3) True] .
  obtain w where w: "vmars t k = Some w" using t(3) by (auto simp: destroyed_def is_dead_def)
  have only: "va_parent w = Some x" if "edge t x k" for x using space_edge(2) [OF t(4) that] w by auto
  show ?thesis
  proof (cases "va_parent w")
    case None
    then have "live_children {} t" using live_except [OF t(2)] only by auto
    then show ?thesis using None w t(1) by (simp add: vmar_destroy_def sbind_Inr sbind_slift get_vmar_def)
  next
    case (Some p)
    show ?thesis
    proof (cases "\<exists>pv pinn. vmars t p = Some pv \<and> va_inner pv = Some pinn")
      case False
      then have "\<not> edge t p k" by (auto simp: edge_def)
      then have "\<not> edge t x k" for x using only [of x] Some by auto
      then have "live_children {} t" by (rule live_except [OF t(2)])
      then show ?thesis using False Some w t(1)
        by (auto simp: vmar_destroy_def sbind_Inr sbind_slift get_vmar_def with_inner_def split: option.splits)
    next
      case True
      then obtain pv pinn where pv: "vmars t p = Some pv" "va_inner pv = Some pinn" by blast
      let ?t = "put_inner p (Some (pinn\<lparr>vin_children := filter (\<lambda>c. c \<noteq> k) (vin_children pinn)\<rparr>)) t"
      have vt: "vmars ?t = (vmars t)(p \<mapsto> pv\<lparr>va_inner := Some (pinn\<lparr>vin_children := filter (\<lambda>c. c \<noteq> k) (vin_children pinn)\<rparr>)\<rparr>)"
        by (simp add: put_inner_eq [OF pv(1)])
      have edges: "edge ?t x y \<longleftrightarrow> edge t x y \<and> (x = p \<longrightarrow> y \<noteq> k)" for x y
        using pv by (auto simp: edge_def vt)
      have "is_live ?t y" if "is_live t y" for y using that pv by (auto simp: is_live_def vt)
      moreover have "\<not> edge ?t x k" for x using only [of x] Some by (auto simp: edges)
      ultimately have "live_children {} ?t" using t(2) unfolding live_children_def edges by blast
      then show ?thesis using w Some pv t(1) by (simp add: vmar_destroy_def sbind_Inr sbind_slift get_vmar_def with_inner_def)
    qed
  qed
qed

lemma new_region_live:
  fixes s :: "'a vmar_state_scheme"
  assumes "live_children {} s"
  shows "live_children {} (snd (new_root s))" and "live_children {} (snd (new_kernel s))"
proof -
  show "live_children {} (snd (new_root s))"
  proof (cases "rbind (umul ROOT_SIZE (next_root s)) (uadd ROOT_BASE) :: usize zx")
    case (Inl f)
    then have "vmars (snd (new_root s)) = vmars s" unfolding new_root_def Let_def by simp
    then show ?thesis using live_frame assms by blast
  next
    case (Inr a)
    then show ?thesis unfolding new_root_def Let_def
      by (simp add: new_koid_def put_vmar_def) (rule live_new [OF assms], simp, simp)
  qed
  show "live_children {} (snd (new_kernel s))"
    by (simp add: new_kernel_def new_koid_def put_vmar_def) (rule live_new [OF assms], simp, simp)
qed

lemma allocate_live:
  fixes s :: "'a vmar_state_scheme"
  assumes "live_children {} s"
  shows "live_children {} (snd (allocate k offset len fl align s))"
proof (cases "\<exists>v inn o1. vmars s k = Some v \<and> va_inner v = Some inn \<and>
    determine_offset s v inn offset len align = Inr o1")
  case False
  then have "snd (allocate k offset len fl align s) = s"
    by (auto simp: allocate_def with_inner_def sbind_def split: option.splits sum.splits)
  with assms show ?thesis by simp
next
  case True
  then obtain v inn o1 where v: "vmars s k = Some v" "va_inner v = Some inn"
    "determine_offset s v inn offset len align = Inr o1" by blast
  show ?thesis
  proof (cases "uadd (va_addr v) o1 :: usize zx")
    case (Inl f)
    then have "vmars (snd (allocate k offset len fl align s)) = vmars s"
      using v by (simp add: allocate_def with_inner_def sbind_def new_koid_def)
    then show ?thesis using live_frame assms by blast
  next
    case (Inr a)
    let ?w = "\<lparr>va_flags = fl, va_addr = a, va_size = len, va_parent = Some k, va_inner = Some inner_default\<rparr>"
    let ?s1 = "put_vmar (next_koid s) ?w (s\<lparr>next_koid := next_koid s + 1\<rparr>)"
    let ?inn = "inn\<lparr>vin_children := vin_children inn @ [next_koid s]\<rparr>"
    have v1: "vmars ?s1 = (vmars s)(next_koid s \<mapsto> ?w)" by (simp add: put_vmar_def)
    have s1: "live_children {} ?s1" by (rule live_new [OF assms v1]) simp
    have "is_live ?s1 y" if "y \<in> set (vin_children ?inn)" for y
    proof -
      have "y = next_koid s \<or> edge s k y" using that v by (auto simp: edge_def)
      then have "y = next_koid s \<or> is_live s y" using assms by (auto simp: live_children_def)
      then show ?thesis by (auto simp: is_live_def v1)
    qed
    then have "live_children {} (put_inner k (Some ?inn) ?s1)" by (rule live_put [OF s1])
    moreover have "snd (allocate k offset len fl align s) = put_inner k (Some ?inn) ?s1"
      using v Inr by (simp add: allocate_def with_inner_def sbind_def new_koid_def uadd_def split: if_splits)
    ultimately show ?thesis by simp
  qed
qed

lemma protect_live:
  fixes s :: "'a vmar_state_scheme"
  assumes "live_children {} s"
  shows "live_children {} (snd (vmar_protect k addr len fl s))"
proof (cases "\<exists>v inn. vmars s k = Some v \<and> va_inner v = Some inn")
  case False
  with assms show ?thesis by (auto simp: vmar_protect_def with_inner_def split: option.splits)
next
  case True
  then obtain v inn where v: "vmars s k = Some v" "va_inner v = Some inn" by blast
  have body: "live_children {} (snd (sbind (protect_all a e fl (vin_mappings inn)) (\<lambda>ms s.
      (Inr () :: unit zx, put_inner k (Some (inn\<lparr>vin_mappings := ms\<rparr>)) s)) s))" for a e
  proof (rule sbind_keeps)
    show "live_children {} (snd (protect_all a e fl (vin_mappings inn) s))"
      by (rule live_pt [OF assms protect_all_pt_only])
    fix ms and u :: "'a vmar_state_scheme"
    assume ms: "protect_all a e fl (vin_mappings inn) s = (Inr ms, u)" and u: "live_children {} u"
    have "vmars u k = Some v" using v(1) pt_only_vmars(1) [OF protect_all_pt_only [of s a e fl "vin_mappings inn"]] ms by simp
    then have "live_children {} (put_inner k (Some (inn\<lparr>vin_mappings := ms\<rparr>)) u)"
      by (rule live_put_subset [OF u _ v(2)]) simp
    then show "live_children {} (snd (Inr () :: unit zx, put_inner k (Some (inn\<lparr>vin_mappings := ms\<rparr>)) u))" by simp
  qed
  show ?thesis
    using assms v
    by (auto simp: vmar_protect_def with_inner_def sbind_def [of "slift _"] body split: sum.splits)
qed

lemma map_ext_live:
  fixes s :: "'a vmar_state_scheme"
  assumes live: "live_children {} s"
  shows "live_children {} (snd (map_ext k vo vmo off len perm fl ov mr s))"
proof (cases "\<exists>v inn. vmars s k = Some v \<and> va_inner v = Some inn")
  case False
  with live show ?thesis
    by (auto simp: map_ext_def with_inner_def sbind_def [of "slift _"] split: option.splits sum.splits)
next
  case True
  then obtain v inn where v: "vmars s k = Some v" "va_inner v = Some inn" by blast
  have body: "live_children {} (snd (sbind (mapping_new addr len vmo off perm f) (\<lambda>m s.
           case mapping_map m s of
             (Inl (Err e), s1) \<Rightarrow> sbind (mapping_drop m) (\<lambda>_. sfail (Err e)) s1
           | (Inl f, s1) \<Rightarrow> (Inl f, s1)
           | (Inr _, s1) \<Rightarrow>
               (Inr addr, put_inner k (Some (inn\<lparr>vin_mappings := vin_mappings inn @ [m]\<rparr>)) s1)) s))"
    for addr f
  proof -
    obtain r u where ru: "mapping_new addr len vmo off perm f s = (r, u)" by fastforce
    have u: "live_children {} u" "vmars u k = Some v"
      using live_frame [OF mapping_new_frame(1) [OF ru]] live mapping_new_frame(1) [OF ru] v(1) by simp_all
    show ?thesis
    proof (cases r)
      case (Inl e)
      with ru u show ?thesis by (simp add: sbind_def)
    next
      case (Inr m)
      obtain q w where qw: "mapping_map m u = (q, w)" by fastforce
      have w: "live_children {} w" "vmars w k = Some v"
        using live_pt [OF u(1) mapping_map_pt_only [of u m]] pt_only_vmars(1) [OF mapping_map_pt_only [of u m]] qw u(2) by simp_all
      have fail: "live_children {} (snd (sbind (mapping_drop m) (\<lambda>_. sfail (Err e)) w))" for e
        by (rule sbind_keeps) (simp_all add: live_pt [OF w(1) mapping_drop_pt_only])
      have good: "live_children {} (put_inner k (Some (inn\<lparr>vin_mappings := vin_mappings inn @ [m]\<rparr>)) w)"
        by (rule live_put_subset [OF w v(2)]) simp
      from ru Inr qw fail w(1) good show ?thesis
        by (cases q rule: sum.exhaust) (auto simp: sbind_def [of "mapping_new _ _ _ _ _ _"] split: fault.splits)
    qed
  qed
  show ?thesis
    using live v
    by (auto simp: map_ext_def with_inner_def sbind_def [of "slift _"] split: sum.splits intro!: body)
qed

subsection \<open>Reachable address spaces\<close>

definition space_ok :: "'a vmar_state_scheme \<Rightarrow> bool" where
  "space_ok s \<longleftrightarrow> space_inv s \<and> all_whole s \<and> live_children {} s"

lemma vmar_step_live:
  fixes s t :: "'a vmar_state_scheme"
  assumes "vmar_step s t" and ok: "space_ok s"
  shows "live_children {} t"
  using assms(1)
proof (rule vmar_stepE)
  fix r assume "new_root s = (r, t)"
  then show ?thesis using new_region_live(1) ok unfolding space_ok_def by (metis snd_conv)
next
  fix r assume "new_kernel s = (r, t)"
  then show ?thesis using new_region_live(2) ok unfolding space_ok_def by (metis snd_conv)
next
  fix k o1 len fl al r assume "allocate k o1 len fl al s = (r, t)"
  then show ?thesis using allocate_live ok unfolding space_ok_def by (metis snd_conv)
next
  fix k o1 vmo off len perm fl ov mr r assume "map_ext k o1 vmo off len perm fl ov mr s = (r, t)"
  then show ?thesis using map_ext_live ok unfolding space_ok_def by (metis snd_conv)
next
  fix k a len r assume "vmar_unmap k a len s = (r, t)"
  then show ?thesis using unmap_live ok unfolding space_ok_def by (metis snd_conv)
next
  fix k a len fl r assume "vmar_protect k a len fl s = (r, t)"
  then show ?thesis using protect_live ok unfolding space_ok_def by (metis snd_conv)
next
  fix k r assume "vmar_clear k s = (r, t)"
  then show ?thesis using clear_live ok unfolding space_ok_def by (metis snd_conv)
next
  fix k r assume "vmar_destroy k s = (r, t)"
  then show ?thesis using destroy_live ok unfolding space_ok_def by (metis snd_conv)
qed

lemma vmar_reach_ok:
  fixes s0 s :: "'a vmar_state_scheme"
  assumes "vmar_reach s0 s" and "space_ok s0"
  shows "space_ok s"
  using assms
proof (induction rule: vmar_reach.induct)
  case (vmr_step s t)
  then show ?case using vmar_step_space vmar_step_whole vmar_step_live unfolding space_ok_def by blast
qed

text \<open>C22.
  In every state that the operations on regions reach, from an empty address space for instance,
  destroying a region that another one lists as its child succeeds with the fuel the model passes:
  the region and everything below it are dead and its parent no longer lists it; every region that is
  neither below it nor its parent is untouched; and the children of live regions are live again.
\<close>

theorem vmar_destroy_reachable:
  fixes s0 s :: "'a vmar_state_scheme"
  assumes reach: "vmar_reach s0 s" and "space_ok s0" and "edge s p k"
  shows "\<exists>t. vmar_destroy k s = (Inr (), t) \<and>
     (\<forall>j. (edge s)\<^sup>*\<^sup>* k j \<longrightarrow> is_dead t j) \<and>
     (\<forall>j. \<not> (edge s)\<^sup>*\<^sup>* k j \<longrightarrow> j \<noteq> p \<longrightarrow> vmars t j = vmars s j) \<and>
     \<not> edge t p k \<and> space_ok t"
proof -
  have ok: "space_inv s" "all_whole s" "live_children {} s" using vmar_reach_ok [OF assms(1,2)] by (simp_all add: space_ok_def)
  obtain v where v: "vmars s k = Some v" "va_parent v = Some p" using space_edge(2) [OF ok(1) assms(3)] by blast
  have "is_live s k" using ok(3) assms(3) by (auto simp: live_children_def)
  from vmar_destroy_subtree [OF ok(1) all_whole_maps_ok [OF ok(2)] ok(3) this v space_edge(1) [OF ok(1) assms(3)] edge_live [OF assms(3)]]
  obtain t where t: "vmar_destroy k s = (Inr (), t)" "\<forall>j. (edge s)\<^sup>*\<^sup>* k j \<longrightarrow> is_dead t j"
    "\<forall>j. \<not> (edge s)\<^sup>*\<^sup>* k j \<longrightarrow> j \<noteq> p \<longrightarrow> vmars t j = vmars s j" "\<not> edge t p k" "live_children {} t" "space_inv t" by blast
  moreover have "all_whole t" using destroy_whole [OF ok(2), of k] t(1) by simp
  ultimately show ?thesis unfolding space_ok_def by blast
qed

lemma demo_space_ok: "space_ok demo_space"
proof -
  have "all_whole demo_space"
    by (auto simp: all_whole_def whole_pages_def page_aligned_iff inner_default_def split: if_splits)
  moreover have "live_children {} demo_space"
    by (auto simp: live_children_def edge_def is_live_def inner_default_def split: if_splits)
  ultimately show ?thesis using demo_space_inv by (simp add: space_ok_def)
qed

theorem vmar_destroy_reachable_witness:
  "\<exists>t. vmar_destroy 11 demo_space = (Inr (), t) \<and> is_dead t 11 \<and> \<not> edge t 10 11"
proof -
  have "edge demo_space 10 11" by (simp add: edge_def)
  from vmar_destroy_reachable [OF vmr_init demo_space_ok this] show ?thesis by blast
qed

end
