(* ===== verification/Vmar_Protect.thy ===== *)
theory Vmar_Protect
  imports Vmar_Live
begin

text \<open>
  What \<open>protect\<close> of a region does (\<^verbatim>\<open>zircon-object/src/vm/vmar.rs\<close>). The code adds up how much of the
  range each mapping covers and goes on only if the sum is the length of the range; since mappings do
  not overlap, the sum tells that there is no hole, and then every page of the range, and no other,
  gets the new access rights and keeps its frame.
\<close>

subsection \<open>Access rights\<close>

definition reprotected :: "mmu_flags \<Rightarrow> mmu_flags \<Rightarrow> mmu_flags" where
  "reprotected flags fl = (fl AND NOT MMU_RXW) OR (flags AND MMU_RXW)"

lemma reprotected_contains:
  assumes "flags_contains MMU_RXW g"
  shows "flags_contains (reprotected flags fl) g \<longleftrightarrow> flags_contains flags g"
  using assms by (auto simp: flags_contains_bits reprotected_def bit_and_iff bit_or_iff bit_not_iff)

lemma reprotected_prot [simp]: "to_mmap_prot (reprotected flags fl) = to_mmap_prot flags"
proof -
  have "flags_contains MMU_RXW MMU_READ" "flags_contains MMU_RXW MMU_WRITE" "flags_contains MMU_RXW MMU_EXECUTE"
    by (simp_all add: flags_contains_def MMU_RXW_def MMU_READ_def MMU_WRITE_def MMU_EXECUTE_def)
  then show ?thesis by (simp add: to_mmap_prot_def reprotected_contains)
qed

subsection \<open>One mapping\<close>

definition with_prot :: "mmu_flags \<Rightarrow> (usize \<times> prot set) option \<Rightarrow> (usize \<times> prot set) option" where
  "with_prot flags e = map_option (\<lambda>(p, _). (p, to_mmap_prot flags)) e"

lemma mapping_protect_pages:
  fixes s t :: "'a vmar_state_scheme"
  assumes "mapping_protect flags is m s = (Inr m', t)" and "distinct is"
  shows "(\<forall>i \<in> set is. host_map s (mp_addr m + i * 4096) \<noteq> None) \<and>
     (\<forall>x. host_map t x = (if x \<in> (\<lambda>i. mp_addr m + i * 4096) ` set is then with_prot flags (host_map s x) else host_map s x))"
  using assms
proof (induction "is" arbitrary: m s)
  case Nil
  then show ?case by simp
next
  case (Cons i "is")
  let ?va = "mp_addr m + i * 4096"
  let ?m = "m\<lparr>mp_flags := (mp_flags m)[i := reprotected flags (mp_flags m ! i)]\<rparr>"
  obtain u where p: "pt_protect ?va (reprotected flags (mp_flags m ! i)) s = (Inr (), u)"
    and r: "mapping_protect flags is ?m u = (Inr m', t)"
    using Cons.prems(1) by (auto simp: sbind_slift sbind_eq_Inr Let_def nth_flag_def rbind_eq_Inr mult.commute
        reprotected_def split: sum.splits if_splits)
  obtain pa q where s: "host_map s ?va = Some (pa, q)" and u: "host_map u = (host_map s)(?va \<mapsto> (pa, to_mmap_prot flags))"
    using p by (auto simp: pt_protect_def split: if_splits option.splits)
  have IH: "\<forall>j \<in> set is. host_map u (mp_addr m + j * 4096) \<noteq> None"
    "\<And>x. host_map t x = (if x \<in> (\<lambda>j. mp_addr m + j * 4096) ` set is then with_prot flags (host_map u x) else host_map u x)"
    using Cons.IH [OF r] Cons.prems(2) by simp_all
  have notin: "?va \<notin> (\<lambda>j. mp_addr m + j * 4096) ` set is" using Cons.prems(2) by auto
  have "host_map s (mp_addr m + j * 4096) \<noteq> None" if "j \<in> set (i # is)" for j
    using that IH(1) s Cons.prems(2) by (cases "j = i") (auto simp: u split: if_splits)
  moreover have "host_map t x = (if x \<in> (\<lambda>j. mp_addr m + j * 4096) ` set (i # is) then with_prot flags (host_map s x) else host_map s x)" for x
  proof (cases "x = ?va")
    case True
    then show ?thesis using IH(2) [of x] notin s u by (simp add: with_prot_def)
  next
    case False
    then have "host_map u x = host_map s x" using u by simp
    then show ?thesis using IH(2) [of x] False by auto
  qed
  ultimately show ?case by blast
qed

subsection \<open>All mappings of a region\<close>

definition in_mapping :: "usize \<Rightarrow> vm_mapping \<Rightarrow> bool" where
  "in_mapping x m \<longleftrightarrow> mp_addr m \<le> x \<and> x < mp_addr m + mp_size m"

lemma page_alignedE:
  assumes "page_aligned x"
  obtains n where "x = n * 4096"
  using assms by (metis dvd_def mod_0_imp_dvd mult.commute page_aligned_iff)

lemma aligned_pages_between:
  fixes b c a :: nat
  assumes "page_aligned a" and "page_aligned b" and "page_aligned c" and "a \<le> b"
  shows "(\<lambda>i. a + i * 4096) ` {(b - a) div 4096 ..< (c - a) div 4096} = {x. b \<le> x \<and> x < c \<and> page_aligned x}"
proof -
  obtain i j k where ijk: "a = i * 4096" "b = j * 4096" "c = k * 4096"
    using assms(1-3) by (auto elim!: page_alignedE)
  then have ij: "i \<le> j" using assms(4) by simp
  have "b - a = (j - i) * 4096" "c - a = (k - i) * 4096" by (simp_all add: ijk diff_mult_distrib)
  then have d: "(b - a) div 4096 = j - i" "(c - a) div 4096 = k - i" by simp_all
  have "x \<in> (\<lambda>n. a + n * 4096) ` {j - i ..< k - i}" if x: "b \<le> x" "x < c" "page_aligned x" for x
  proof -
    obtain n where n: "x = n * 4096" using x(3) by (rule page_alignedE)
    then have "j \<le> n" "n < k" using x ijk by simp_all
    then have "n - i \<in> {j - i ..< k - i}" "x = a + (n - i) * 4096" using ij n ijk by (auto simp: diff_mult_distrib)
    then show ?thesis by blast
  qed
  then show ?thesis unfolding d by (auto simp: ijk page_aligned_iff)
qed

definition page_in :: "usize \<Rightarrow> usize \<Rightarrow> usize \<Rightarrow> bool" where
  "page_in a e x \<longleftrightarrow> a \<le> x \<and> x < e \<and> page_aligned x"

lemma protect_range_some:
  assumes "whole_pages m" and "page_aligned a" and "page_aligned e" and "map_overlap a e m = Inr True"
    and "protect_range a e m = Inr is"
    and "mp_size m \<noteq> 0"
  shows "distinct is" and "(\<lambda>i. mp_addr m + i * 4096) ` set is = {x. page_in a e x \<and> in_mapping x m}"
proof -
  let ?b = "max a (mp_addr m)" and ?c = "min e (mp_addr m + mp_size m)"
  have lt: "mp_addr m < e" "a < mp_addr m + mp_size m" "mp_addr m + mp_size m < usize_lim"
    using assms(4) by (auto simp: map_overlap_def range_overlap_def rbind_eq_Inr split: if_splits)
  have al: "page_aligned (mp_addr m)" "page_aligned ?b" "page_aligned ?c"
    using assms(1-3,6) by (auto simp: whole_pages_def max_def min_def page_aligned_add)
  then have "page_aligned (?b - mp_addr m)" "page_aligned (?c - mp_addr m)" by (auto elim!: page_alignedE simp flip: diff_mult_distrib)
  then have pg: "pages (?b - mp_addr m) = (?b - mp_addr m) div 4096" "pages (?c - mp_addr m) = (?c - mp_addr m) div 4096"
    using lt by (auto intro!: pages_aligned)
  have "is": "is = [(?b - mp_addr m) div 4096 ..< (?c - mp_addr m) div 4096]"
    using assms(5) by (auto simp: protect_range_def rbind_eq_Inr usub_def pg split: if_splits)
  then show "distinct is" by simp
  have "(\<lambda>i. mp_addr m + i * 4096) ` set is = {x. ?b \<le> x \<and> x < ?c \<and> page_aligned x}"
    unfolding "is" set_upt by (rule aligned_pages_between [OF al]) simp
  also have "\<dots> = {x. page_in a e x \<and> in_mapping x m}" by (auto simp: page_in_def in_mapping_def)
  finally show "(\<lambda>i. mp_addr m + i * 4096) ` set is = {x. page_in a e x \<and> in_mapping x m}" .
qed

lemma protect_range_pages:
  assumes "whole_pages m" and "page_aligned a" and "page_aligned e" and "map_overlap a e m = Inr True"
    and "protect_range a e m = Inr is"
  shows "distinct is \<and> (\<lambda>i. mp_addr m + i * 4096) ` set is = {x. page_in a e x \<and> in_mapping x m}"
proof (cases "mp_size m = 0")
  case True
  then have "mp_addr m < e" "a < mp_addr m"
    using assms(4) by (auto simp: map_overlap_def range_overlap_def rbind_eq_Inr split: if_splits)
  then have "is = []"
    using assms(5) True by (auto simp: protect_range_def rbind_eq_Inr usub_def max_def min_def split: if_splits)
  then show ?thesis using True by (auto simp: in_mapping_def)
next
  case False
  then show ?thesis using protect_range_some [OF assms] by simp
qed

lemma protect_one:
  fixes s t :: "'a vmar_state_scheme"
  assumes "whole_pages m" and "page_aligned a" and "page_aligned e" and ov: "map_overlap a e m = Inr ov"
    and run: "(if ov then sbind (slift (\<lambda>_. protect_range a e m)) (\<lambda>is. mapping_protect flags is m) else sret m) s = (Inr m', t)"
  shows "\<forall>x. (page_in a e x \<and> in_mapping x m \<longrightarrow> host_map s x \<noteq> None) \<and>
     host_map t x = (if page_in a e x \<and> in_mapping x m then with_prot flags (host_map s x) else host_map s x)"
proof (cases ov)
  case True
  then have ov1: "map_overlap a e m = Inr True" using ov by simp
  from True obtain "is" where r: "protect_range a e m = Inr is" "mapping_protect flags is m s = (Inr m', t)"
    using run by (auto simp: sbind_slift split: sum.splits)
  note pr = protect_range_pages [OF assms(1-3) ov1 r(1), THEN conjunct1] protect_range_pages [OF assms(1-3) ov1 r(1), THEN conjunct2]
  note pages = mapping_protect_pages [OF r(2) pr(1), unfolded pr(2)]
  have "host_map s x \<noteq> None" if "page_in a e x" "in_mapping x m" for x
  proof -
    have "x \<in> (\<lambda>i. mp_addr m + i * 4096) ` set is" unfolding pr(2) using that by simp
    then show ?thesis using pages [THEN conjunct1] by blast
  qed
  then show ?thesis using pages [THEN conjunct2] by simp
next
  case False
  then have "\<not> (page_in a e x \<and> in_mapping x m)" for x
    using ov by (auto simp: map_overlap_def range_overlap_False page_in_def in_mapping_def)
  then show ?thesis using run False by auto
qed

lemma protect_all_pages:
  fixes s t :: "'a vmar_state_scheme"
  assumes "page_aligned a" and "page_aligned e" and "\<forall>m \<in> set ms. whole_pages m" and "sep_list (map map_span ms)"
    and "protect_all a e flags ms s = (Inr ms', t)"
  shows "\<forall>x. (page_in a e x \<and> (\<exists>m \<in> set ms. in_mapping x m) \<longrightarrow> host_map s x \<noteq> None) \<and>
     host_map t x = (if page_in a e x \<and> (\<exists>m \<in> set ms. in_mapping x m) then with_prot flags (host_map s x) else host_map s x)"
  using assms(3-5)
proof (induction ms arbitrary: s ms')
  case Nil
  then show ?case by simp
next
  case (Cons m ms)
  obtain ov m' u rest where o: "map_overlap a e m = Inr ov"
    "(if ov then sbind (slift (\<lambda>_. protect_range a e m)) (\<lambda>is. mapping_protect flags is m) else sret m) s = (Inr m', u)"
    "protect_all a e flags ms u = (Inr rest, t)"
    using Cons.prems(3) unfolding protect_all.simps sbind_slift sbind_eq_Inr by (auto simp: sbind_eq_Inr split: sum.splits)
  have one: "page_in a e x \<and> in_mapping x m \<longrightarrow> host_map s x \<noteq> None"
    "host_map u x = (if page_in a e x \<and> in_mapping x m then with_prot flags (host_map s x) else host_map s x)" for x
    using protect_one [OF _ assms(1,2) o(1,2)] Cons.prems(1) by simp_all
  have IH: "page_in a e x \<and> (\<exists>m \<in> set ms. in_mapping x m) \<longrightarrow> host_map u x \<noteq> None"
    "host_map t x = (if page_in a e x \<and> (\<exists>m \<in> set ms. in_mapping x m) then with_prot flags (host_map u x) else host_map u x)" for x
    using Cons.IH [OF _ _ o(3)] Cons.prems(1,2) by simp_all
  have apart: "\<not> in_mapping x m'" if "in_mapping x m" "m' \<in> set ms" for x m'
    using that Cons.prems(2) by (auto simp: in_mapping_def sep_def map_span_def)
  show ?case
  proof
    fix x
    consider "in_mapping x m" "\<not> (\<exists>m' \<in> set ms. in_mapping x m')" | "\<not> in_mapping x m" using apart by blast
    then show "(page_in a e x \<and> (\<exists>m \<in> set (m # ms). in_mapping x m) \<longrightarrow> host_map s x \<noteq> None) \<and>
        host_map t x = (if page_in a e x \<and> (\<exists>m \<in> set (m # ms). in_mapping x m) then with_prot flags (host_map s x) else host_map s x)"
    proof cases
      case 1
      then show ?thesis using one [of x] IH(2) [of x] by simp
    next
      case 2
      then show ?thesis using one(2) [of x] IH [of x] by auto
    qed
  qed
qed

lemma protect_all_overlaps:
  fixes s t :: "'a vmar_state_scheme"
  shows "protect_all a e flags ms s = (Inr ms', t) \<Longrightarrow> m \<in> set ms \<Longrightarrow> \<exists>ov. map_overlap a e m = Inr ov"
proof (induction ms arbitrary: s ms')
  case (Cons m' ms)
  then show ?case by (auto simp: sbind_slift sbind_eq_Inr split: sum.splits)
qed simp

subsection \<open>No hole in the range\<close>

lemma covered_fault: "fold (\<lambda>m acc. rbind acc (f m)) ms (Inl z) = Inl z"
  by (induction ms) (simp_all add: rbind_def)

lemma covered_card:
  assumes "covered_len a e ms = Inr n" and "sep_list (map map_span ms)"
  shows "n = card {x. a \<le> x \<and> x < e \<and> (\<exists>m \<in> set ms. in_mapping x m)}"
proof -
  let ?f = "\<lambda>m (acc :: usize zx). rbind acc (\<lambda>k. rbind (uadd (mp_addr m) (mp_size m)) (\<lambda>en. uadd k (min e en - max a (mp_addr m))))"
  have "n = k + card {x. a \<le> x \<and> x < e \<and> (\<exists>m \<in> set ms. in_mapping x m)}"
    if "fold ?f ms (Inr k) = Inr n" "sep_list (map map_span ms)" for k
    using that
  proof (induction ms arbitrary: k)
    case Nil
    then show ?case by simp
  next
    case (Cons m ms)
    let ?here = "{x. a \<le> x \<and> x < e \<and> in_mapping x m}" and ?rest = "{x. a \<le> x \<and> x < e \<and> (\<exists>m \<in> set ms. in_mapping x m)}"
    let ?d = "min e (mp_addr m + mp_size m) - max a (mp_addr m)"
    have fs: "fold ?f ms (?f m (Inr k)) = Inr n" using Cons.prems(1) by (simp only: fold_simps)
    have k: "?f m (Inr k) = Inr (k + ?d)"
    proof (cases "?f m (Inr k)")
      case (Inl z)
      show ?thesis using fs unfolding Inl by (simp add: covered_fault)
    next
      case (Inr k')
      then show ?thesis by (auto simp: rbind_eq_Inr)
    qed
    have n: "n = k + ?d + card ?rest" using Cons.IH [OF fs [unfolded k]] Cons.prems(2) by simp
    have "?here = {max a (mp_addr m) ..< min e (mp_addr m + mp_size m)}" by (auto simp: in_mapping_def)
    then have "card ?here = ?d" by simp
    moreover have "?here \<inter> ?rest = {}" using Cons.prems(2) by (auto simp: in_mapping_def sep_def map_span_def)
    moreover have "finite ?here" "finite ?rest" by (auto intro: finite_subset [of _ "{..<e}"])
    ultimately have "card (?here \<union> ?rest) = ?d + card ?rest" by (simp add: card_Un_disjoint)
    moreover have "{x. a \<le> x \<and> x < e \<and> (\<exists>m' \<in> set (m # ms). in_mapping x m')} = ?here \<union> ?rest" by auto
    ultimately show ?case using n by simp
  qed
  from this [of 0] show ?thesis using assms by (simp add: covered_len_def)
qed

lemma covered_all:
  assumes "covered_len a (a + len) ms = Inr len" and "sep_list (map map_span ms)" and "a \<le> x" and "x < a + len"
  shows "\<exists>m \<in> set ms. in_mapping x m"
proof -
  let ?c = "{x. a \<le> x \<and> x < a + len \<and> (\<exists>m \<in> set ms. in_mapping x m)}"
  have "?c = {a ..< a + len}"
    by (rule card_subset_eq) (use covered_card [OF assms(1,2)] in auto)
  then have "x \<in> ?c" using assms(3,4) by simp
  then show ?thesis by simp
qed

subsection \<open>Protecting a range\<close>

lemma protect_success:
  fixes s t :: "'a vmar_state_scheme"
  assumes "vmar_protect k addr len flags s = (Inr (), t)" and "vmars s k = Some v" and "va_inner v = Some inn"
  obtains ms u where "page_aligned addr" and "page_aligned len" and "addr + len < usize_lim"
    and "zx_any (vmar_overlap s addr (addr + len)) (vin_children inn) = Inr False"
    and "covered_len addr (addr + len) (vin_mappings inn) = Inr len"
    and "\<And>m. m \<in> set (vin_mappings inn) \<Longrightarrow> map_overlap addr (addr + len) m = Inr True \<Longrightarrow> is_valid_mapping_flags m flags"
    and "protect_all addr (addr + len) flags (vin_mappings inn) s = (Inr ms, u)"
    and "t = put_inner k (Some (inn\<lparr>vin_mappings := ms\<rparr>)) u"
proof -
  let ?bad = "\<lambda>m. rbind (map_overlap addr (addr + len) m) (\<lambda>ov. Inr (ov \<and> \<not> is_valid_mapping_flags m flags))"
  let ?ov = "\<lambda>e. zx_any (vmar_overlap s addr e) (vin_children inn)"
  have al: "page_aligned addr" "page_aligned len" using assms(1) by (simp_all add: vmar_protect_def split: if_splits)
  note run = assms(1) [unfolded vmar_protect_def, simplified al simp_thms if_False with_inner_def assms(2,3) option.case sbind_slift]
  have lim: "addr + len < usize_lim" using run by (simp add: uadd_def split: if_splits)
  note run1 = run [unfolded uadd_def, simplified lim if_True sum.case]
  have oc: "?ov (addr + len) = Inr False" using run1 by (simp split: sum.splits if_splits)
  note run2 = run1 [unfolded oc, simplified sum.case if_False sbind_slift]
  have n: "covered_len addr (addr + len) (vin_mappings inn) = Inr len" using run2 by (auto split: sum.splits if_splits)
  note run3 = run2 [unfolded n, simplified sum.case if_False simp_thms sbind_slift]
  have bad: "zx_any ?bad (vin_mappings inn) = Inr False" using run3 by (simp split: sum.splits if_splits)
  obtain ms u where ms: "protect_all addr (addr + len) flags (vin_mappings inn) s = (Inr ms, u)"
    "t = put_inner k (Some (inn\<lparr>vin_mappings := ms\<rparr>)) u"
    using run3 [unfolded bad, simplified sum.case if_False] unfolding sbind_eq_Inr by auto
  have "is_valid_mapping_flags m flags" if "m \<in> set (vin_mappings inn)" "map_overlap addr (addr + len) m = Inr True" for m
    using bad [unfolded zx_any_False] that by (auto simp: rbind_def)
  then show ?thesis by (intro that [OF al lim oc n _ ms])
qed

text \<open>C33.
  Changing the protection of a range, in every state that the operations on regions reach. When it succeeds, no sub-region overlaps the range and the
  mappings cover it without a hole: every page of it lies in a mapping of the region that permits the
  new access rights, was in the page table, and keeps its frame and gets the new rights. Every other
  page keeps its entry, and the mappings keep their places.
\<close>

theorem vmar_protect_range:
  fixes s0 s t :: "'a vmar_state_scheme"
  assumes reach: "vmar_reach s0 s" and "space_ok s0" and "vmar_protect k addr len flags s = (Inr (), t)"
    and "vmars s k = Some v" and "va_inner v = Some inn"
  shows "(\<forall>x. addr \<le> x \<and> x < addr + len \<and> page_aligned x \<longrightarrow>
        (\<exists>m \<in> set (vin_mappings inn). mp_addr m \<le> x \<and> x < mp_addr m + mp_size m \<and> is_valid_mapping_flags m flags) \<and>
        (\<exists>p q. host_map s x = Some (p, q) \<and> host_map t x = Some (p, to_mmap_prot flags))) \<and>
     (\<forall>x. \<not> (addr \<le> x \<and> x < addr + len \<and> page_aligned x) \<longrightarrow> host_map t x = host_map s x) \<and>
     (\<exists>ms. vmars t = (vmars s)(k \<mapsto> v\<lparr>va_inner := Some (inn\<lparr>vin_mappings := ms\<rparr>)\<rparr>) \<and>
           map map_span ms = map map_span (vin_mappings inn))"
proof -
  have inv: "space_inv s" and "all_whole s" using vmar_reach_ok [OF reach assms(2)] by (simp_all add: space_ok_def)
  then have whole: "\<forall>m \<in> set (vin_mappings inn). whole_pages m" using all_wholeD assms(4,5) by blast
  obtain ms u where p: "page_aligned addr" "page_aligned len" "addr + len < usize_lim"
    "covered_len addr (addr + len) (vin_mappings inn) = Inr len"
    "\<And>m. m \<in> set (vin_mappings inn) \<Longrightarrow> map_overlap addr (addr + len) m = Inr True \<Longrightarrow> is_valid_mapping_flags m flags"
    "protect_all addr (addr + len) flags (vin_mappings inn) s = (Inr ms, u)"
    "t = put_inner k (Some (inn\<lparr>vin_mappings := ms\<rparr>)) u"
    by (rule protect_success [OF assms(3-5)]) blast
  have sep: "sep_list (map map_span (vin_mappings inn))"
    using space_invD(2) [OF inv assms(4,5)] by (simp add: region_ok_def sub_ranges_def sep_list_append)
  note pages = protect_all_pages [OF p(1) page_aligned_add [OF p(1,2)] whole sep p(6)]
  have in_range: "\<exists>m \<in> set (vin_mappings inn). in_mapping x m" if "page_in addr (addr + len) x" for x
    using covered_all [OF p(4) sep] that by (auto simp: page_in_def)
  have one: "\<exists>m \<in> set (vin_mappings inn). mp_addr m \<le> x \<and> x < mp_addr m + mp_size m \<and> is_valid_mapping_flags m flags"
    if x: "page_in addr (addr + len) x" for x
  proof -
    obtain m where m: "m \<in> set (vin_mappings inn)" "in_mapping x m" using in_range [OF x] by blast
    have "map_overlap addr (addr + len) m \<noteq> Inr False"
      using m(2) x by (auto simp: map_overlap_def range_overlap_False in_mapping_def page_in_def)
    moreover obtain ov where "map_overlap addr (addr + len) m = Inr ov"
      using protect_all_overlaps [OF p(6) m(1)] by blast
    ultimately show ?thesis using p(5) [OF m(1)] m by (auto simp: in_mapping_def)
  qed
  have two: "\<exists>pa q. host_map s x = Some (pa, q) \<and> host_map u x = Some (pa, to_mmap_prot flags)"
    if x: "page_in addr (addr + len) x" for x
    using pages [rule_format, of x] in_range [OF x] x by (auto simp: with_prot_def)
  have rest: "host_map u x = host_map s x" if "\<not> page_in addr (addr + len) x" for x
    using pages [rule_format, of x] that by simp
  have "vmars u = vmars s" using protect_all_pt_only [of s addr "addr + len" flags "vin_mappings inn"] p(6) by (simp add: pt_only_vmars)
  then have "vmars t = (vmars s)(k \<mapsto> v\<lparr>va_inner := Some (inn\<lparr>vin_mappings := ms\<rparr>)\<rparr>)"
    using assms(4) p(7) by (simp add: put_inner_eq)
  moreover have "host_map t = host_map u" using p(7) by simp
  ultimately show ?thesis using one two rest protect_all_spans [OF p(6)] unfolding page_in_def by auto
qed

theorem vmar_protect_range_witness:
  "host_map demo_space 12288 = Some (4096, {PROT_READ}) \<and>
   host_map (snd (vmar_protect 10 12288 4096 MMU_RXW demo_space)) 12288 = Some (4096, to_mmap_prot MMU_RXW) \<and>
   host_map (snd (vmar_protect 10 12288 4096 MMU_RXW demo_space)) 16384 = None"
proof -
  let ?inn = "\<lparr>vin_children = [11], vin_mappings = [demo_page]\<rparr>" and ?t = "snd (vmar_protect 10 12288 4096 MMU_RXW demo_space)"
  have page: "mp_permissions demo_page = MMU_RXW" "mp_flags demo_page = [MMU_READ]" by (simp_all add: demo_page_def)
  have host: "host_map demo_space = [12288 \<mapsto> (4096, {PROT_READ})]" by (simp add: demo_space_def)
  have "fst (vmar_protect 10 12288 4096 MMU_RXW demo_space) = Inr ()"
    by (simp add: vmar_protect_def page_aligned_iff with_inner_def sbind_slift uadd_def vmar_overlap_def get_vmar_def
        range_overlap_def demo_child_def covered_len_def map_overlap_def is_valid_mapping_flags_def page protect_range_def
        usub_def pages_eq nth_flag_def umul_def pt_protect_def host sbind_def rbind_def flags_contains_def ok_or_def Let_def)
  then have run: "vmar_protect 10 12288 4096 MMU_RXW demo_space = (Inr (), ?t)" by (simp add: prod_eq_iff)
  note result = vmar_protect_range [OF vmr_init demo_space_ok run, of demo_root ?inn, simplified]
  have "host_map ?t 12288 = Some (4096, to_mmap_prot MMU_RXW)" using result by (auto simp: host page_aligned_iff dest!: spec [of _ 12288])
  moreover have "host_map ?t 16384 = None" using result by (auto simp: host dest!: spec [of _ 16384])
  ultimately show ?thesis by (simp add: host)
qed

text \<open>A hole anywhere in the range makes the call fail before it changes anything.\<close>

lemma vmar_protect_hole:
  fixes s :: "'a vmar_state_scheme"
  assumes "space_inv s" and "vmars s k = Some v" and "va_inner v = Some inn"
    and "addr \<le> x" and "x < addr + len" and "\<And>m. m \<in> set (vin_mappings inn) \<Longrightarrow> \<not> in_mapping x m"
  shows "\<exists>f. vmar_protect k addr len flags s = (Inl f, s)"
proof (cases "covered_len addr (addr + len) (vin_mappings inn)")
  case (Inl f)
  then show ?thesis
    by (auto simp: vmar_protect_def with_inner_def assms(2,3) sbind_slift uadd_def split: sum.splits)
next
  case (Inr n)
  have "sep_list (map map_span (vin_mappings inn))"
    using space_invD(2) [OF assms(1-3)] by (simp add: region_ok_def sub_ranges_def sep_list_append)
  then have "n \<noteq> len" using covered_all Inr assms(4-6) by blast
  then show ?thesis using Inr
    by (auto simp: vmar_protect_def with_inner_def assms(2,3) sbind_slift uadd_def split: sum.splits)
qed

end
