(* ===== verification/Elf_Loader.thy ===== *)
theory Elf_Loader
  imports Vmar_Destroy User_Ptr
begin

text \<open>
  Loading of ELF images (\<^verbatim>\<open>zircon-object/src/util/elf_loader.rs\<close>). Parsing is the crate \<open>xmas_elf\<close>;
  an image is the record of what the parser answers to the methods the loader calls on it, where
  \<open>None\<close> is an error of the parser. \<open>&str\<close> errors are strings.
\<close>

subsection \<open>Parsed images\<close>

datatype ph_kind = PT_Load | PT_Interp | PT_Phdr | PT_Other nat

datatype segment_data = Seg_Undefined "u8 list" | Seg_Other

record program_header =
  ph_type :: "ph_kind option"
  ph_is_read :: bool
  ph_is_write :: bool
  ph_is_execute :: bool
  ph_offset :: usize
  ph_virtual_addr :: usize
  ph_physical_addr :: usize
  ph_mem_size :: usize
  ph_data :: "segment_data option"

record symbol =
  sym_name :: "string option"
  sym_value :: usize
  sym_shndx :: nat

record rela =
  rela_type :: nat
  rela_symbol :: nat
  rela_offset :: usize
  rela_addend :: usize

datatype section_data = Sec_SymbolTable64 "symbol list" | Sec_DynSymbolTable64 "symbol list" | Sec_Rela64 "rela list" | Sec_Other

record section_header =
  sec_name :: string
  sec_data :: "section_data option"

record elf_file =
  elf_programs :: "program_header list"
  elf_sections :: "section_header list"
  elf_entry_point :: usize
  elf_ph_offset :: usize

subsection \<open>Mapping the segments\<close>

definition to_mmu_flags :: "program_header \<Rightarrow> mmu_flags" where
  "to_mmu_flags ph =
     (let f0 = MMU_USER;
          f1 = (if ph_is_read ph then f0 OR MMU_READ else f0);
          f2 = (if ph_is_write ph then f1 OR MMU_WRITE else f1)
      in if ph_is_execute ph then f2 OR MMU_EXECUTE else f2)"

definition make_vmo :: "program_header \<Rightarrow> 'a vm_state_scheme \<Rightarrow> koid zx \<times> 'a vm_state_scheme" where
  "make_vmo ph =
     (if ph_type ph \<noteq> Some PT_Load then sfail Panic
      else
        let page_offset = ph_virtual_addr ph mod PAGE_SIZE in
        sbind (slift (\<lambda>_. uadd (ph_mem_size ph) page_offset)) (\<lambda>sz.
        sbind (new_paged (pages sz)) (\<lambda>vmo.
          case ph_data ph of
            None \<Rightarrow> sfail Panic
          | Some (Seg_Undefined data) \<Rightarrow> sbind (vmo_write vmo page_offset data) (\<lambda>_. sret vmo)
          | Some Seg_Other \<Rightarrow> sfail (Err INVALID_ARGS))))"

primrec load_segments ::
  "koid \<Rightarrow> program_header list \<Rightarrow> koid option \<Rightarrow> 'a vmar_state_scheme \<Rightarrow> koid option zx \<times> 'a vmar_state_scheme" where
  "load_segments k [] first_vmo = sret first_vmo"
| "load_segments k (ph # phs) first_vmo =
     (case ph_type ph of
        None \<Rightarrow> sfail Panic
      | Some ty \<Rightarrow>
          if ty \<noteq> PT_Load then load_segments k phs first_vmo
          else
            sbind (make_vmo ph) (\<lambda>vmo.
            let offset = ph_virtual_addr ph div PAGE_SIZE * PAGE_SIZE in
            sbind (slift (vmo_len vmo)) (\<lambda>len.
            sbind (vmar_map_at k offset vmo 0 len (to_mmu_flags ph)) (\<lambda>_.
              load_segments k phs (case first_vmo of None \<Rightarrow> Some vmo | Some v \<Rightarrow> Some v)))))"

definition load_from_elf :: "koid \<Rightarrow> elf_file \<Rightarrow> 'a vmar_state_scheme \<Rightarrow> koid zx \<times> 'a vmar_state_scheme" where
  "load_from_elf k elf =
     sbind (load_segments k (elf_programs elf) None) (\<lambda>first_vmo.
       case first_vmo of None \<Rightarrow> sfail Panic | Some v \<Rightarrow> sret v)"

definition map_segment :: "koid \<Rightarrow> koid \<Rightarrow> program_header \<Rightarrow> 'a vmar_state_scheme st_unit" where
  "map_segment k vmo ph =
     (case ph_type ph of
        None \<Rightarrow> sfail Panic
      | Some ty \<Rightarrow>
          if ty \<noteq> PT_Load then sret ()
          else
            sbind (slift (\<lambda>_. umul (pages (ph_physical_addr ph)) PAGE_SIZE)) (\<lambda>vmo_offset.
            sbind (slift (\<lambda>_. umul (pages (ph_mem_size ph)) PAGE_SIZE)) (\<lambda>len.
            sbind (vmar_map_at k (ph_virtual_addr ph) vmo vmo_offset len (to_mmu_flags ph)) (\<lambda>_. sret ()))))"

definition map_from_elf :: "koid \<Rightarrow> elf_file \<Rightarrow> koid \<Rightarrow> 'a vmar_state_scheme st_unit" where
  "map_from_elf k elf vmo = sfor (map_segment k vmo) (elf_programs elf)"

subsection \<open>Sizes and addresses\<close>

primrec load_pages :: "program_header list \<Rightarrow> usize list zx" where
  \<comment> \<open>the iterator before \<open>max\<close>; the sum of two \<open>u64\<close> is checked\<close>
  "load_pages [] = Inr []"
| "load_pages (ph # phs) =
     (case ph_type ph of
        None \<Rightarrow> Inl Panic
      | Some ty \<Rightarrow>
          if ty \<noteq> PT_Load then load_pages phs
          else rbind (uadd (ph_virtual_addr ph) (ph_mem_size ph)) (\<lambda>e.
               rbind (load_pages phs) (\<lambda>ns. Inr (pages e # ns))))"

definition load_segment_size :: "elf_file \<Rightarrow> usize zx" where
  "load_segment_size elf =
     rbind (load_pages (elf_programs elf)) (\<lambda>ns. umul (if ns = [] then 0 else Max (set ns)) PAGE_SIZE)"

primrec find_symbol :: "string \<Rightarrow> symbol list \<Rightarrow> usize option zx" where
  "find_symbol nm [] = Inr None"
| "find_symbol nm (e # es) =
     (case sym_name e of
        None \<Rightarrow> Inl Panic
      | Some n \<Rightarrow> if n = nm then Inr (Some (sym_value e)) else find_symbol nm es)"

primrec find_in_sections :: "string \<Rightarrow> section_header list \<Rightarrow> usize option zx" where
  "find_in_sections nm [] = Inr None"
| "find_in_sections nm (sec # secs) =
     (case sec_data sec of
        None \<Rightarrow> Inl Panic
      | Some (Sec_SymbolTable64 entries) \<Rightarrow>
          rbind (find_symbol nm entries) (\<lambda>r. case r of Some a \<Rightarrow> Inr (Some a) | None \<Rightarrow> find_in_sections nm secs)
      | Some _ \<Rightarrow> find_in_sections nm secs)"

definition get_symbol_address :: "elf_file \<Rightarrow> string \<Rightarrow> usize option zx" where
  "get_symbol_address elf nm = find_in_sections nm (elf_sections elf)"

definition get_interpreter :: "elf_file \<Rightarrow> (string, u8 list) outcome" where
  \<comment> \<open>indexing panics when the data has no zero byte\<close>
  "get_interpreter elf =
     rbind (ok_or (Err ''no interp header'') (find (\<lambda>ph. ph_type ph = Some PT_Interp) (elf_programs elf))) (\<lambda>header.
     rbind (ok_or (Err ''parser'') (ph_data header)) (\<lambda>seg.
       case seg of
         Seg_Other \<Rightarrow> Inl (Err ''bad interp'')
       | Seg_Undefined data \<Rightarrow>
           if 0 \<notin> set data then Inl Panic
           else let path = takeWhile (\<lambda>b. b \<noteq> 0) data
                in if utf8_valid path then Inr path else Inl (Err ''failed to convert to utf8'')))"

definition get_phdr_vaddr :: "elf_file \<Rightarrow> usize option zx" where
  "get_phdr_vaddr elf =
     (case find (\<lambda>ph. ph_type ph = Some PT_Phdr) (elf_programs elf) of
        Some phdr \<Rightarrow> Inr (Some (ph_virtual_addr phdr))
      | None \<Rightarrow>
          (case find (\<lambda>ph. ph_type ph = Some PT_Load \<and> ph_offset ph = 0) (elf_programs elf) of
             Some elf_addr \<Rightarrow> rbind (uadd (ph_virtual_addr elf_addr) (elf_ph_offset elf)) (\<lambda>a. Inr (Some a))
           | None \<Rightarrow> Inr None))"

subsection \<open>Relocation\<close>

definition find_section :: "elf_file \<Rightarrow> string \<Rightarrow> section_header option" where
  "find_section elf nm = find (\<lambda>sec. sec_name sec = nm) (elf_sections elf)"

definition dynsym :: "elf_file \<Rightarrow> (string, symbol list) outcome" where
  "dynsym elf =
     rbind (ok_or (Err ''.dynsym not found'') (find_section elf ''.dynsym'')) (\<lambda>sec.
     rbind (ok_or (Err ''corrupted .dynsym'') (sec_data sec)) (\<lambda>d.
       case d of Sec_DynSymbolTable64 dsym \<Rightarrow> Inr dsym | _ \<Rightarrow> Inl (Err ''bad .dynsym'')))"

definition rela_value :: "symbol list \<Rightarrow> usize \<Rightarrow> rela \<Rightarrow> (string, usize) outcome" where
  \<comment> \<open>the value an entry writes: \<open>REL_GOT\<close>, \<open>REL_PLT\<close>, \<open>R_RISCV_64\<close>, then the relative ones\<close>
  "rela_value dsym base entry =
     (if rela_type entry \<in> {6, 7, 2} then
        (if rela_symbol entry < length dsym
         then let d = dsym ! rela_symbol entry
              in rbind (if sym_shndx d = 0
                        then (case sym_name d of None \<Rightarrow> Inl (Err ''parser'') | Some _ \<Rightarrow> Inl Panic)
                        else uadd base (sym_value d)) (\<lambda>symval. uadd symval (rela_addend entry))
         else Inl Panic)
      else if rela_type entry \<in> {8, 3} then uadd base (rela_addend entry)
      else Inl Panic)"

definition relocate_entry ::
  "symbol list \<Rightarrow> usize \<Rightarrow> rela \<Rightarrow> 'a hal_state_scheme \<Rightarrow> (string, unit) outcome \<times> 'a hal_state_scheme" where
  \<comment> \<open>the store goes through the address space; outside it the process gets a signal\<close>
  "relocate_entry dsym base entry s =
     (case rbind (rela_value dsym base entry) (\<lambda>v. rbind (uadd base (rela_offset entry)) (\<lambda>p. Inr (v, p))) of
        Inl e \<Rightarrow> (Inl e, s)
      | Inr (v, p) \<Rightarrow> (case mem_store p (le_bytes 8 v) s of (Inr _, t) \<Rightarrow> (Inr (), t) | (Inl _, t) \<Rightarrow> (Inl Panic, t)))"

definition relocate :: "elf_file \<Rightarrow> usize \<Rightarrow> 'a hal_state_scheme \<Rightarrow> (string, unit) outcome \<times> 'a hal_state_scheme" where
  "relocate elf base s =
     (case rbind (ok_or (Err ''.rela.dyn not found'') (find_section elf ''.rela.dyn'')) (\<lambda>sec.
           rbind (ok_or (Err ''corrupted .rela.dyn'') (sec_data sec)) (\<lambda>d.
           rbind (case d of Sec_Rela64 es \<Rightarrow> Inr es | _ \<Rightarrow> Inl (Err ''bad .rela.dyn'')) (\<lambda>entries.
           rbind (dynsym elf) (\<lambda>dsym. Inr (entries, dsym))))) of
        Inl e \<Rightarrow> (Inl e, s)
      | Inr (entries, dsym) \<Rightarrow> sfor (relocate_entry dsym base) entries s)"

end
