(* ===== verification/Loader.thy ===== *)
theory Loader
  imports Elf_Loader Syscall
begin

text \<open>
  The loader (\<^verbatim>\<open>zircon-loader/src/lib.rs\<close>, \<^verbatim>\<open>kcounter.rs\<close>), with the constants for the vDSO
  (\<^verbatim>\<open>kernel-hal/src/vdso.rs\<close>, \<^verbatim>\<open>kernel-hal-unix/src/lib.rs\<close>). \<open>run_userboot\<close> builds the first process
  out of all the other components; \<open>thread_iteration\<close> is one round of the loop that runs a user
  thread. The ELF parser, the initial register context, the address of the system call entry, the
  git version of the build and the user code itself are parameters.
\<close>

subsection \<open>Constants\<close>

definition K_PROC_SELF :: usize where "K_PROC_SELF = 0"
definition K_VMARROOT_SELF :: usize where "K_VMARROOT_SELF = 1"
definition K_ROOTJOB :: usize where "K_ROOTJOB = 2"
definition K_ROOTRESOURCE :: usize where "K_ROOTRESOURCE = 3"
definition K_ZBI :: usize where "K_ZBI = 4"
definition K_FIRSTVDSO :: usize where "K_FIRSTVDSO = 5"
definition K_CRASHLOG :: usize where "K_CRASHLOG = 8"
definition K_COUNTERNAMES :: usize where "K_COUNTERNAMES = 9"
definition K_COUNTERS :: usize where "K_COUNTERS = 10"
definition K_FISTINSTRUMENTATIONDATA :: usize where "K_FISTINSTRUMENTATIONDATA = 11"
definition K_HANDLECOUNT :: usize where "K_HANDLECOUNT = 15"

lemmas k_defs = K_PROC_SELF_def K_VMARROOT_SELF_def K_ROOTJOB_def K_ROOTRESOURCE_def K_ZBI_def K_FIRSTVDSO_def
  K_CRASHLOG_def K_COUNTERNAMES_def K_COUNTERS_def K_FISTINSTRUMENTATIONDATA_def K_HANDLECOUNT_def

definition STACK_PAGES :: usize where "STACK_PAGES = 8"
definition VDSO_DATA_CONSTANTS :: usize where "VDSO_DATA_CONSTANTS = 0x4a50"

subsection \<open>The constants for the vDSO\<close>

record features =
  feat_cpu :: u32
  hw_breakpoint_count :: u32
  hw_watchpoint_count :: u32

record vdso_constants = vdso_version +
  max_num_cpus :: u32
  vdso_features :: features
  dcache_line_size :: u32
  icache_line_size :: u32
  ticks_per_second :: u64
  ticks_to_mono_numerator :: u32
  ticks_to_mono_denominator :: u32
  physmem :: u64

definition version_string_default :: "u8 list" where
  "version_string_default = replicate 64 0"

definition vdso_initial :: vdso_constants where
  \<comment> \<open>the structure before the version string is set\<close>
  "vdso_initial =
     \<lparr>version_string_len = 0, version_string = version_string_default, max_num_cpus = 1,
      vdso_features = \<lparr>feat_cpu = 0, hw_breakpoint_count = 0, hw_watchpoint_count = 0\<rparr>,
      dcache_line_size = 0, icache_line_size = 0, ticks_per_second = 3000 * 1000000,
      ticks_to_mono_numerator = 1000, ticks_to_mono_denominator = 3000, physmem = of_nat PMEM_SIZE\<rparr>"

definition vdso_constants_of :: "u8 list \<Rightarrow> vdso_constants zx" where
  "vdso_constants_of git =
     (case set_version_string git (vdso_version.truncate vdso_initial) of
        (Inl f, _) \<Rightarrow> Inl f
      | (Inr _, v) \<Rightarrow> Inr (vdso_initial\<lparr>version_string_len := version_string_len v, version_string := version_string v\<rparr>))"

definition vdso_bytes :: "vdso_constants \<Rightarrow> u8 list" where
  \<comment> \<open>the layout of the \<open>repr(C)\<close> structure, which has no padding\<close>
  "vdso_bytes c =
     le_bytes 4 (unat (max_num_cpus c)) @ le_bytes 4 (unat (feat_cpu (vdso_features c))) @
     le_bytes 4 (unat (hw_breakpoint_count (vdso_features c))) @ le_bytes 4 (unat (hw_watchpoint_count (vdso_features c))) @
     le_bytes 4 (unat (dcache_line_size c)) @ le_bytes 4 (unat (icache_line_size c)) @
     le_bytes 8 (unat (ticks_per_second c)) @ le_bytes 4 (unat (ticks_to_mono_numerator c)) @
     le_bytes 4 (unat (ticks_to_mono_denominator c)) @ le_bytes 8 (unat (physmem c)) @
     le_bytes 8 (unat (version_string_len c)) @ version_string c"

subsection \<open>Kernel counters\<close>

record kcounter_vmo_header =
  kc_magic :: u64
  kc_max_cpu :: u64
  kc_counter_table_size :: usize

definition KCOUNTER_MAGIC :: u64 where
  "KCOUNTER_MAGIC = 1547273975"

definition kcounter_header_bytes :: "kcounter_vmo_header \<Rightarrow> u8 list" where
  "kcounter_header_bytes h =
     le_bytes 8 (unat (kc_magic h)) @ le_bytes 8 (unat (kc_max_cpu h)) @ le_bytes 8 (kc_counter_table_size h)"

definition unwrap :: "('s \<Rightarrow> 'a zx \<times> 's) \<Rightarrow> 's \<Rightarrow> 'a zx \<times> 's" where
  \<comment> \<open>\<open>.unwrap()\<close>: an error is a panic\<close>
  "unwrap m s = (case m s of (Inl (Err _), t) \<Rightarrow> (Inl Panic, t) | r \<Rightarrow> r)"

definition vmo_set_name :: "koid \<Rightarrow> string \<Rightarrow> 'a vm_state_scheme st_unit" where
  "vmo_set_name k nm = with_vmo k (\<lambda>v s. (Inr (), put_vmo k (v\<lparr>vo_name := nm\<rparr>) s))"

definition create_kcounter_vmo :: "'a vm_state_scheme \<Rightarrow> (koid \<times> koid) zx \<times> 'a vm_state_scheme" where
  "create_kcounter_vmo =
     sbind (new_paged 1) (\<lambda>counter_name_vmo.
     sbind (unwrap (vmo_write counter_name_vmo 0 (kcounter_header_bytes
        \<lparr>kc_magic = KCOUNTER_MAGIC, kc_max_cpu = 1, kc_counter_table_size = 0\<rparr>))) (\<lambda>_.
     sbind (vmo_set_name counter_name_vmo ''counters/desc'') (\<lambda>_.
     sbind (new_paged 1) (\<lambda>kcounters_vmo.
     sbind (vmo_set_name kcounters_vmo ''counters/arena'') (\<lambda>_.
       sret (counter_name_vmo, kcounters_vmo))))))"

subsection \<open>The first process\<close>

record images =
  img_userboot :: "u8 list"
  img_vdso :: "u8 list"
  img_zbi :: "u8 list"

record boot_env =
  be_parse :: "u8 list \<Rightarrow> elf_file option"
  be_context :: user_context
  be_syscall_entry :: usize
  be_git :: "u8 list"

definition parse_elf :: "boot_env \<Rightarrow> u8 list \<Rightarrow> elf_file zx" where
  "parse_elf env bs = ok_or Panic (be_parse env bs)"

definition load_userboot :: "boot_env \<Rightarrow> images \<Rightarrow> koid \<Rightarrow> 'a sys_state_scheme \<Rightarrow> (usize \<times> usize) zx \<times> 'a sys_state_scheme" where
  "load_userboot env img root =
     sbind (slift (\<lambda>_. parse_elf env (img_userboot img))) (\<lambda>elf.
     sbind (slift (\<lambda>_. load_segment_size elf)) (\<lambda>sz.
     sbind (unwrap (allocate root None sz VF_CAN_MAP_RXW PAGE_SIZE)) (\<lambda>vmar.
     sbind (unwrap (load_from_elf vmar elf)) (\<lambda>_.
     sbind (slift (vmar_addr vmar)) (\<lambda>a.
     sbind (slift (\<lambda>_. uadd a (elf_entry_point elf))) (\<lambda>entry. sret (entry, sz)))))))"

definition load_vdso :: "boot_env \<Rightarrow> images \<Rightarrow> koid \<Rightarrow> usize \<Rightarrow> 'a sys_state_scheme \<Rightarrow> koid zx \<times> 'a sys_state_scheme" where
  "load_vdso env img root userboot_size =
     sbind (slift (\<lambda>_. parse_elf env (img_vdso img))) (\<lambda>elf.
     sbind (new_paged (length (img_vdso img) div PAGE_SIZE + 1)) (\<lambda>vdso_vmo.
     sbind (unwrap (vmo_write vdso_vmo 0 (img_vdso img))) (\<lambda>_.
     sbind (slift (\<lambda>_. load_segment_size elf)) (\<lambda>sz.
     sbind (unwrap (allocate_at root userboot_size sz (VF_CAN_MAP_RXW OR VF_SPECIFIC) PAGE_SIZE)) (\<lambda>vmar.
     sbind (unwrap (map_from_elf vmar elf vdso_vmo)) (\<lambda>_.
     sbind (slift (\<lambda>_. rbind (get_symbol_address elf ''zcore_syscall_entry'') (ok_or Panic))) (\<lambda>offset.
     let syscall_entry = le_bytes 8 (be_syscall_entry env) in
     sbind (unwrap (vmo_write vdso_vmo offset syscall_entry)) (\<lambda>_.
     sbind (slift (\<lambda>_. uadd offset 8)) (\<lambda>o8.
     sbind (unwrap (vmo_write vdso_vmo o8 syscall_entry)) (\<lambda>_.
     sbind (slift (\<lambda>_. uadd offset 16)) (\<lambda>o16.
     sbind (unwrap (vmo_write vdso_vmo o16 syscall_entry)) (\<lambda>_. sret vdso_vmo))))))))))))"

definition load_zbi :: "images \<Rightarrow> 'a sys_state_scheme \<Rightarrow> koid zx \<times> 'a sys_state_scheme" where
  "load_zbi img =
     sbind (new_paged (length (img_zbi img) div PAGE_SIZE + 1)) (\<lambda>vmo.
     sbind (unwrap (vmo_write vmo 0 (img_zbi img))) (\<lambda>_.
     sbind (vmo_set_name vmo ''zbi'') (\<lambda>_. sret vmo)))"

definition map_stack :: "koid \<Rightarrow> 'a sys_state_scheme \<Rightarrow> usize zx \<times> 'a sys_state_scheme" where
  "map_stack root =
     sbind (new_paged STACK_PAGES) (\<lambda>stack_vmo.
     sbind (slift (vmo_len stack_vmo)) (\<lambda>len.
     sbind (unwrap (vmar_map root None stack_vmo 0 len (MMU_READ OR MMU_WRITE OR MMU_USER))) (\<lambda>stack_bottom.
     sbind (slift (\<lambda>_. uadd stack_bottom len)) (\<lambda>top. slift (\<lambda>_. usub top 8)))))"

definition prepare_vdso :: "boot_env \<Rightarrow> koid \<Rightarrow> 'a sys_state_scheme \<Rightarrow> (koid \<times> koid) zx \<times> 'a sys_state_scheme" where
  \<comment> \<open>the constants and the two variants\<close>
  "prepare_vdso env vdso_vmo =
     sbind (slift (\<lambda>_. vdso_constants_of (be_git env))) (\<lambda>constants.
     sbind (unwrap (vmo_write vdso_vmo VDSO_DATA_CONSTANTS (vdso_bytes constants))) (\<lambda>_.
     sbind (vmo_set_name vdso_vmo ''vdso/full'') (\<lambda>_.
     sbind (slift (vmo_len vdso_vmo)) (\<lambda>len.
     sbind (unwrap (vmo_create_child vdso_vmo False 0 len)) (\<lambda>test1.
     sbind (vmo_set_name test1 ''vdso/test1'') (\<lambda>_.
     sbind (unwrap (vmo_create_child vdso_vmo False 0 len)) (\<lambda>test2.
     sbind (vmo_set_name test2 ''vdso/test2'') (\<lambda>_. sret (test1, test2)))))))))"

record boot_objects =
  bo_proc :: koid
  bo_vmar :: koid
  bo_job :: koid
  bo_resource :: koid
  bo_zbi :: koid
  bo_vdso :: "koid list"
  bo_crashlog :: koid
  bo_counter_names :: koid
  bo_counters :: koid
  bo_instrumentation :: koid

definition boot_handles :: "boot_objects \<Rightarrow> handle list" where
  \<comment> \<open>the vector filled with handles to the process and then overwritten slot by slot\<close>
  "boot_handles o1 =
     (let hs = replicate K_HANDLECOUNT (handle_new (KObj T_Process (bo_proc o1)) 0);
          hs = hs[K_PROC_SELF := handle_new (KObj T_Process (bo_proc o1)) R_DEFAULT_PROCESS];
          hs = hs[K_VMARROOT_SELF := handle_new (KObj T_VmAddressRegion (bo_vmar o1)) (R_DEFAULT_VMAR OR R_IO)];
          hs = hs[K_ROOTJOB := handle_new (KObj T_Job (bo_job o1)) R_DEFAULT_JOB];
          hs = hs[K_ROOTRESOURCE := handle_new (KObj T_Resource (bo_resource o1)) R_DEFAULT_RESOURCE];
          hs = hs[K_ZBI := handle_new (KObj T_VmObject (bo_zbi o1)) R_DEFAULT_VMO];
          hs = hs[K_FIRSTVDSO := handle_new (KObj T_VmObject (bo_vdso o1 ! 0)) (R_DEFAULT_VMO OR R_EXECUTE)];
          hs = hs[K_FIRSTVDSO + 1 := handle_new (KObj T_VmObject (bo_vdso o1 ! 1)) (R_DEFAULT_VMO OR R_EXECUTE)];
          hs = hs[K_FIRSTVDSO + 2 := handle_new (KObj T_VmObject (bo_vdso o1 ! 2)) (R_DEFAULT_VMO OR R_EXECUTE)];
          hs = hs[K_CRASHLOG := handle_new (KObj T_VmObject (bo_crashlog o1)) R_DEFAULT_VMO];
          hs = hs[K_COUNTERNAMES := handle_new (KObj T_VmObject (bo_counter_names o1)) R_DEFAULT_VMO];
          hs = hs[K_COUNTERS := handle_new (KObj T_VmObject (bo_counters o1)) R_DEFAULT_VMO];
          hs = hs[K_FISTINSTRUMENTATIONDATA := handle_new (KObj T_VmObject (bo_instrumentation o1)) R_DEFAULT_VMO];
          hs = hs[K_FISTINSTRUMENTATIONDATA + 1 := handle_new (KObj T_VmObject (bo_instrumentation o1)) R_DEFAULT_VMO];
          hs = hs[K_FISTINSTRUMENTATIONDATA + 2 := handle_new (KObj T_VmObject (bo_instrumentation o1)) R_DEFAULT_VMO]
      in hs[K_FISTINSTRUMENTATIONDATA + 3 := handle_new (KObj T_VmObject (bo_instrumentation o1)) R_DEFAULT_VMO])"

definition boot_data :: "u8 list \<Rightarrow> u8 list" where
  \<comment> \<open>\<open>cmdline.replace(':', "\0") + "\0"\<close>\<close>
  "boot_data cmdline = map (\<lambda>c. if c = 58 then 0 else c) cmdline @ [0]"

definition run_userboot :: "boot_env \<Rightarrow> images \<Rightarrow> u8 list \<Rightarrow> 'a sys_state_scheme \<Rightarrow> koid zx \<times> 'a sys_state_scheme" where
  \<comment> \<open>the kernel's end of the channel is dropped on return\<close>
  "run_userboot env img cmdline =
     sbind job_root (\<lambda>job.
     sbind (unwrap (process_create job ''userboot'')) (\<lambda>proc.
     sbind (unwrap (thread_create (be_context env) proc ''userboot'')) (\<lambda>th.
     sbind (\<lambda>s. let (r, t) = resource_create ''root'' RK_ROOT 0 0x100000000 0 s in (Inr r, t)) (\<lambda>resource.
     sbind (slift (process_vmar proc)) (\<lambda>vmar.
     sbind (load_userboot env img vmar) (\<lambda>(entry, userboot_size).
     sbind (load_vdso env img vmar userboot_size) (\<lambda>vdso_vmo.
     sbind (load_zbi img) (\<lambda>zbi_vmo.
     sbind (map_stack vmar) (\<lambda>sp.
     sbind (\<lambda>s. let (ends, t) = channel_create s in (Inr ends, t)) (\<lambda>(user_channel, kernel_channel).
     sbind (prepare_vdso env vdso_vmo) (\<lambda>(vdso_test1, vdso_test2).
     sbind (new_paged 1) (\<lambda>crash_log_vmo.
     sbind (vmo_set_name crash_log_vmo ''crashlog'') (\<lambda>_.
     sbind create_kcounter_vmo (\<lambda>(counter_name_vmo, kcounters_vmo).
     sbind (new_paged 0) (\<lambda>instrumentation_data_vmo.
     sbind (vmo_set_name instrumentation_data_vmo ''UNIMPLEMENTED_VMO'') (\<lambda>_.
     let handles = boot_handles \<lparr>bo_proc = proc, bo_vmar = vmar, bo_job = job, bo_resource = resource, bo_zbi = zbi_vmo,
           bo_vdso = [vdso_vmo, vdso_test1, vdso_test2], bo_crashlog = crash_log_vmo, bo_counter_names = counter_name_vmo,
           bo_counters = kcounters_vmo, bo_instrumentation = instrumentation_data_vmo\<rparr> in
     sbind (unwrap (channel_write kernel_channel \<lparr>msg_data = boot_data cmdline, msg_handles = handles\<rparr>)) (\<lambda>_.
     sbind (unwrap (process_start proc th (of_nat entry) (of_nat sp)
        (Some (handle_new (KObj T_Channel user_channel) R_DEFAULT_CHANNEL)) 0)) (\<lambda>_.
     sbind (channel_drop kernel_channel) (\<lambda>_. sret proc)))))))))))))))))))"

subsection \<open>Running a thread\<close>

definition read_word :: "usize \<Rightarrow> 'a hal_state_scheme \<Rightarrow> usize zx" where
  \<comment> \<open>a raw read of a word of the user's stack\<close>
  "read_word a s = rbind (user_res (mem_load s a 8)) (\<lambda>bs. Inr (le_nat bs))"

definition syscall_args :: "user_context \<Rightarrow> 'a hal_state_scheme \<Rightarrow> usize list zx" where
  "syscall_args cx s =
     rbind (read_word (unat (cx Rsp)) s) (\<lambda>a6. rbind (read_word (unat (cx Rsp) + 8) s) (\<lambda>a7.
       Inr [unat (cx Rdi), unat (cx Rsi), unat (cx Rdx), unat (cx Rcx), unat (cx R8), unat (cx R9), a6, a7]))"

definition handle_syscall :: "nat \<Rightarrow> koid \<Rightarrow> 'a sys_state_scheme st_unit" where
  "handle_syscall now th =
     sbind (with_context th (\<lambda>cx. (cx, cx))) (\<lambda>cx.
     sbind (slift (syscall_args cx)) (\<lambda>args.
     sbind (syscall now th (ucast (cx Rax)) args) (\<lambda>ret.
       with_context th (\<lambda>cx. ((), cx(Rax := of_int ret))))))"

datatype round = Waiting | Again | Ended

text \<open>
  \<open>run\<close> is \<open>context_run\<close>, which executes user code until it traps: the context it comes back with,
  the time it took and what it did to the memory of the process.
\<close>

definition thread_iteration ::
  "(user_context \<Rightarrow> 'a sys_state_scheme \<Rightarrow> user_context \<times> nat \<times> 'a sys_state_scheme) \<Rightarrow> nat \<Rightarrow> nat \<Rightarrow> koid \<Rightarrow>
   'a sys_state_scheme \<Rightarrow> round zx \<times> 'a sys_state_scheme" where
  "thread_iteration run now waker th =
     sbind (poll_run th waker) (\<lambda>polled.
     case polled of
       None \<Rightarrow> sret Waiting
     | Some cx \<Rightarrow>
         sbind (slift (thread_get_state th)) (\<lambda>st.
         if st = TS_Dying then sbind (current_thread_drop th) (\<lambda>_. sret Ended)
         else
           sbind (\<lambda>s. let (cx', time, t) = run cx s in (Inr (cx', time), t)) (\<lambda>(cx', time).
           sbind (time_add th time) (\<lambda>_.
           sbind (end_running th cx') (\<lambda>_.
           if cx' Trap_Num = 0x100 then sbind (handle_syscall now th) (\<lambda>_. sret Again)
           else sfail Panic)))))"

end
