(* ===== verification/Loader_Props.thy ===== *)
theory Loader_Props
  imports Loader Syscall_Props
begin

text \<open>
  What the loader's loop guarantees: a round of a running thread delivers the result of the system
  call to the register the user code looks at and nothing else, and the rounds of the threads of an
  exited process end them and with them the process. The sizes the ELF loader computes cover what
  it maps.
\<close>

subsection \<open>One round\<close>

lemma syscall_threads: "syscall now x num args s = (r, t) \<Longrightarrow> threads t = threads s"
  using safe_syscall [of s now x num args] by (simp add: safe_def)

lemma handle_syscall_result:
  assumes "threads s x = Some th" and "th_context th = Some cx" and "syscall_args cx s = Inr args"
    and "syscall now x (ucast (cx Rax)) args s = (Inr ret, t)"
  shows "handle_syscall now x s = (Inr (), put_thread x (th\<lparr>th_context := Some (cx(Rax := of_int ret))\<rparr>) t)"
proof -
  have same: "put_thread x (th\<lparr>th_context := Some cx\<rparr>) s = s"
  proof -
    have "th\<lparr>th_context := Some cx\<rparr> = th" using assms(2) by (cases th) simp
    then show ?thesis using assms(1) by (cases s) (auto simp: put_thread_def fun_upd_idem_iff)
  qed
  have "threads t x = Some th" using syscall_threads [OF assms(4)] assms(1) by simp
  then show ?thesis using assms same by (simp add: handle_syscall_def with_context_def with_thread_def sbind_def)
qed

text \<open>C20.
  A round of the thread loop executes the system call and hands its result back in a register. When
  the thread may run and user code, which changes memory only, comes back with a system call trap,
  the round is the system call with the number in \<open>rax\<close> and the arguments in the six argument
  registers and the two words on top of the stack; afterwards \<open>rax\<close> holds its result, every other
  register is as the user code left it, the time is accounted, and everything else is as the system
  call left it.
\<close>

theorem round_delivers_result:
  fixes s :: "'a sys_state_scheme"
  assumes "threads s x = Some th" and "th_context th = Some cx"
    and "reported_state th \<noteq> TS_Suspended" and "th_state th \<noteq> TS_Dying"
    and "v = put_thread x (th\<lparr>th_context := None\<rparr>) s" and "run cx v = (cx', time, v\<lparr>pmem := m\<rparr>)"
    and "cx' Trap_Num = 0x100" and "th_time th + time < 2 ^ 128"
    and "u = put_thread x (th\<lparr>th_context := Some cx', th_time := th_time th + time\<rparr>) (s\<lparr>pmem := m\<rparr>)"
    and "syscall_args cx' u = Inr args" and "syscall now x (ucast (cx' Rax)) args u = (Inr ret, t)"
  shows "thread_iteration run now w x s =
    (Inr Again, put_thread x (th\<lparr>th_context := Some (cx'(Rax := of_int ret)), th_time := th_time th + time\<rparr>) t)"
proof -
  let ?a = "put_thread x (th\<lparr>th_context := None\<rparr>) s"
  let ?b = "?a\<lparr>pmem := m\<rparr>"
  let ?c = "put_thread x (th\<lparr>th_context := None, th_time := th_time th + time\<rparr>) ?b"
  have poll: "poll_run x w s = (Inr (Some cx), ?a)"
    using assms(1-3) by (simp add: poll_run_def with_thread_def)
  have st: "thread_get_state x ?a = Inr (th_state th)"
    by (simp add: thread_get_state_def get_thread_def reported_state_def)
  have add: "time_add x time ?b = (Inr (), ?c)"
    using assms(8) by (simp add: time_add_def with_thread_def put_thread_def)
  have fin: "end_running x cx' ?c = (Inr (), u)"
    unfolding assms(9) by (cases th) (simp add: end_running_def with_thread_def put_thread_def)
  have "threads u x = Some (th\<lparr>th_context := Some cx', th_time := th_time th + time\<rparr>)" unfolding assms(9) by simp
  from handle_syscall_result [OF this _ assms(10,11)]
  have "handle_syscall now x u =
    (Inr (), put_thread x (th\<lparr>th_context := Some (cx'(Rax := of_int ret)), th_time := th_time th + time\<rparr>) t)"
    by (cases th) simp
  then show ?thesis
    using poll st assms(4-7) add fin
    by (simp add: thread_iteration_def sbind_def)
qed

definition demo_running :: sys_state where
  "demo_running = put_thread 4 (demo_thread\<lparr>th_state := TS_Running\<rparr>) demo_sys"

definition demo_trap :: user_context where
  \<comment> \<open>\<open>zx_channel_create\<close> with an unknown option\<close>
  "demo_trap = (\<lambda>_. 0)(Trap_Num := 0x100, Rax := 3, Rdi := 1, Rsi := 8192, Rdx := 8196, Rsp := 8200)"

lemma demo_trap_num [simp]: "demo_trap Trap_Num = 0x100"
  by (simp add: demo_trap_def)

theorem round_delivers_result_witness:
  "\<exists>t cx. thread_iteration (\<lambda>_ u. (demo_trap, 5, u\<lparr>pmem := demo_memory\<rparr>)) 0 9 4 demo_running = (Inr Again, t) \<and>
     map_option th_context (threads t 4) = Some (Some cx) \<and> cx Rax = - 10 \<and> cx Rdi = 1"
proof -
  let ?th = "demo_thread\<lparr>th_state := TS_Running\<rparr>"
  let ?u = "put_thread 4 (?th\<lparr>th_context := Some demo_trap, th_time := th_time ?th + 5\<rparr>) (demo_running\<lparr>pmem := demo_memory\<rparr>)"
  have args: "syscall_args demo_trap ?u = Inr [1, 8192, 8196, 0, 0, 0, 0, 0]"
    by (simp add: syscall_args_def read_word_def demo_trap_def demo_running_def put_thread_def translate_def
        demo_memory_def pmem_store_def mem_load_numeral user_res_def)
  have call: "syscall 0 4 (ucast (demo_trap Rax)) [1, 8192, 8196, 0, 0, 0, 0, 0] ?u = (Inr (- 10), ?u)"
    by (simp add: syscall_def sys_numbers demo_trap_def sys_channel_create_def sys_ret_def zx_def)
  have "thread_iteration (\<lambda>_ u. (demo_trap, 5, u\<lparr>pmem := demo_memory\<rparr>)) 0 9 4 demo_running =
    (Inr Again, put_thread 4 (?th\<lparr>th_context := Some (demo_trap(Rax := of_int (- 10))), th_time := th_time ?th + 5\<rparr>) ?u)"
    by (rule round_delivers_result [OF _ _ _ _ refl _ _ _ refl args call])
      (simp_all add: demo_running_def reported_state_def demo_thread_def thread_init_def)
  then show ?thesis by (simp add: demo_trap_def)
qed

subsection \<open>The end of a process\<close>

text \<open>The context of a thread and whether it is dead survive the exit of its process.\<close>

definition same_life :: "'a task_state_scheme \<Rightarrow> 'a task_state_scheme \<Rightarrow> bool" where
  "same_life s t \<longleftrightarrow> (\<forall>x. map_option th_context (threads t x) = map_option th_context (threads s x) \<and>
     map_option (\<lambda>th. th_state th = TS_Dead) (threads t x) = map_option (\<lambda>th. th_state th = TS_Dead) (threads s x))"

lemma same_life_kill: "thread_kill k s = (r, t) \<Longrightarrow> same_life s t"
  by (auto simp: thread_kill_def thread_stop_def with_thread_def change_state_def same_life_def Let_def split: option.splits if_splits)

lemma same_life_kills: "sfor thread_kill ks s = (r, t) \<Longrightarrow> same_life s t"
  by (rule sfor_invariant [where P = "same_life s"]) (auto dest: same_life_kill simp: same_life_def)

lemma same_life_exit:
  assumes "process_exit c k s = (r, t)" and "procs s k = Some p" and "pr_threads p \<noteq> []"
  shows "same_life s t"
proof (cases "exited p")
  case True
  then show ?thesis using assms by (auto simp: process_exit_def with_proc_def exited_def same_life_def)
next
  case False
  let ?u = "put_proc k (p\<lparr>pr_status := PS_Exited c\<rparr>) s"
  obtain r' w where w: "sfor thread_kill (pr_threads p) ?u = (r', w)" by fastforce
  then have "same_life ?u w" by (rule same_life_kills)
  moreover have "threads t = threads w"
    using assms False w
    by (auto simp: process_exit_def with_proc_def exited_def Let_def sbind_def clear_handles_def
        split: proc_status.splits sum.splits option.splits)
  ultimately show ?thesis by (simp add: same_life_def)
qed

fun rounds ::
  "(user_context \<Rightarrow> 'a sys_state_scheme \<Rightarrow> user_context \<times> nat \<times> 'a sys_state_scheme) \<Rightarrow> nat \<Rightarrow> nat \<Rightarrow> koid list \<Rightarrow>
   'a sys_state_scheme \<Rightarrow> round list zx \<times> 'a sys_state_scheme" where
  "rounds run now w [] = sret []"
| "rounds run now w (x # xs) =
     sbind (thread_iteration run now w x) (\<lambda>r. sbind (rounds run now w xs) (\<lambda>rs. sret (r # rs)))"

lemma dying_round:
  assumes I: "task_inv s" and th: "threads s x = Some th" "th_state th = TS_Dying" "th_context th = Some cx"
    and p: "procs s (th_proc th) = Some p"
  shows "\<exists>t p'. thread_iteration run now w x s = (Inr Ended, t) \<and> task_inv t \<and>
     threads t = (threads s)(x \<mapsto> th\<lparr>th_context := None, th_state := TS_Dead\<rparr>) \<and>
     procs t (th_proc th) = Some p' \<and> pr_threads p' = filter (\<lambda>y. y \<noteq> x) (pr_threads p) \<and>
     pr_handles p' = pr_handles p \<and>
     (pr_threads p' = [] \<longrightarrow> pr_status p' = (if exited p then pr_status p else PS_Exited 0) \<and>
        (\<forall>y i. jobs t y = Some i \<longrightarrow> th_proc th \<notin> set (jb_processes i))) \<and>
     (pr_threads p' \<noteq> [] \<longrightarrow> pr_status p' = pr_status p)"
proof -
  let ?a = "put_thread x (th\<lparr>th_context := None\<rparr>) s"
  let ?b = "put_thread x (change_state TS_Dead (th\<lparr>th_context := None\<rparr>)) ?a"
  have poll: "poll_run x w s = (Inr (Some cx), ?a)"
    using th by (simp add: poll_run_def with_thread_def reported_state_def)
  have st: "thread_get_state x ?a = Inr TS_Dying"
    using th by (simp add: thread_get_state_def get_thread_def reported_state_def)
  have drop: "current_thread_drop x ?a = remove_thread (th_proc th) x ?b"
    by (simp add: current_thread_drop_def with_thread_def)
  have "threads_only s ?a" by (rule threads_only_put [OF th(1)]) simp
  moreover have "threads_only ?a ?b" by (rule threads_only_put [where th = "th\<lparr>th_context := None\<rparr>"]) (simp_all add: change_state_def)
  ultimately have "task_inv ?b" using I threads_only_inv threads_only_trans by blast
  moreover have "procs ?b (th_proc th) = Some p" using p by simp
  ultimately obtain t p' where t: "remove_thread (th_proc th) x ?b = (Inr (), t)" "task_inv t" "threads t = threads ?b"
    "procs t (th_proc th) = Some p'" "pr_threads p' = filter (\<lambda>y. y \<noteq> x) (pr_threads p)" "pr_handles p' = pr_handles p"
    "pr_threads p' = [] \<longrightarrow> pr_status p' = (if exited p then pr_status p else PS_Exited 0) \<and>
       (\<forall>y i. jobs t y = Some i \<longrightarrow> th_proc th \<notin> set (jb_processes i))"
    "pr_threads p' \<noteq> [] \<longrightarrow> pr_status p' = pr_status p \<and> jobs t = jobs ?b"
    using remove_thread_inv [of ?b "th_proc th" p x] by blast
  have "thread_iteration run now w x s = (Inr Ended, t)"
    using poll st drop t(1) by (simp add: thread_iteration_def sbind_def)
  then show ?thesis using t by (auto simp: change_state_def)
qed

lemma dying_rounds:
  fixes s :: "'a sys_state_scheme"
  assumes "task_inv s" and "procs s k = Some p" and "pr_status p = PS_Exited c" and "xs \<noteq> []"
    and "distinct xs" and "set (pr_threads p) = set xs"
    and "\<forall>x \<in> set xs. \<exists>th. threads s x = Some th \<and> th_proc th = k \<and> th_state th = TS_Dying \<and> th_context th \<noteq> None"
  shows "\<exists>t p'. rounds run now w xs s = (Inr (replicate (length xs) Ended), t) \<and>
     procs t k = Some p' \<and> pr_threads p' = [] \<and> pr_status p' = PS_Exited c \<and> pr_handles p' = pr_handles p \<and>
     (\<forall>x \<in> set xs. map_option th_state (threads t x) = Some TS_Dead) \<and>
     (\<forall>x. x \<notin> set xs \<longrightarrow> threads t x = threads s x) \<and>
     (\<forall>y i. jobs t y = Some i \<longrightarrow> k \<notin> set (jb_processes i))"
  using assms
proof (induction xs arbitrary: s p)
  case Nil
  then show ?case by simp
next
  case (Cons x xs)
  obtain th cx where th: "threads s x = Some th" "th_proc th = k" "th_state th = TS_Dying" "th_context th = Some cx"
    using Cons.prems(7) by auto
  have pk: "procs s (th_proc th) = Some p" using th(2) Cons.prems(2) by simp
  obtain u q where u: "thread_iteration run now w x s = (Inr Ended, u)" "task_inv u"
    "threads u = (threads s)(x \<mapsto> th\<lparr>th_context := None, th_state := TS_Dead\<rparr>)"
    "procs u k = Some q" "pr_threads q = filter (\<lambda>y. y \<noteq> x) (pr_threads p)" "pr_handles q = pr_handles p"
    "pr_threads q = [] \<longrightarrow> pr_status q = (if exited p then pr_status p else PS_Exited 0) \<and>
        (\<forall>y i. jobs u y = Some i \<longrightarrow> k \<notin> set (jb_processes i))"
    "pr_threads q \<noteq> [] \<longrightarrow> pr_status q = pr_status p"
    using dying_round [OF Cons.prems(1) th(1,3,4) pk, of run now w] th(2) by metis
  have ex: "exited p" using Cons.prems(3) by (simp add: exited_def)
  have st: "pr_status q = PS_Exited c" using u(7,8) ex Cons.prems(3) by (cases "pr_threads q = []") simp_all
  have set: "set (pr_threads q) = set xs" using u(5) Cons.prems(5,6) by auto
  show ?case
  proof (cases "xs = []")
    case True
    then have "pr_threads q = []" using set by simp
    then show ?thesis using True u st by (simp add: sbind_def)
  next
    case False
    have rest: "\<forall>y \<in> set xs. \<exists>th. threads u y = Some th \<and> th_proc th = k \<and> th_state th = TS_Dying \<and> th_context th \<noteq> None"
      using Cons.prems(5,7) u(3) by auto
    have "distinct xs" using Cons.prems(5) by simp
    from Cons.IH [OF u(2,4) st False this set rest]
    obtain t p' where t: "rounds run now w xs u = (Inr (replicate (length xs) Ended), t)"
      "procs t k = Some p'" "pr_threads p' = []" "pr_status p' = PS_Exited c" "pr_handles p' = pr_handles q"
      "\<forall>x \<in> set xs. map_option th_state (threads t x) = Some TS_Dead" "\<forall>x. x \<notin> set xs \<longrightarrow> threads t x = threads u x"
      "\<forall>y i. jobs t y = Some i \<longrightarrow> k \<notin> set (jb_processes i)" by blast
    have "threads t x = threads u x" using t(7) Cons.prems(5) by simp
    then show ?thesis using t u by (auto simp: sbind_def)
  qed
qed

text \<open>C6.
  A process whose exit is requested dies. When a process of a consistent system exits with a code
  while all of its threads wait for their next run, suspended or not, then the next round of every
  one of them, in whatever order the executor runs them, runs no user code and ends the thread; after
  the last of them the process has exited with that code, has no thread and no handle left, and no
  job lists it.
\<close>

theorem exited_process_dies:
  fixes s :: "'a sys_state_scheme"
  assumes "task_wf s" and "procs s k = Some p" and "\<not> exited p" and "pr_threads p \<noteq> []"
    and "\<forall>x \<in> set (pr_threads p). \<forall>th. threads s x = Some th \<longrightarrow> th_context th \<noteq> None \<and> th_state th \<noteq> TS_Dead"
    and "distinct xs" and "set xs = set (pr_threads p)"
  shows "\<exists>t u p'. process_exit c k s = (Inr (), t) \<and>
     rounds run now w xs t = (Inr (replicate (length xs) Ended), u) \<and>
     procs u k = Some p' \<and> pr_status p' = PS_Exited c \<and> pr_threads p' = [] \<and> pr_handles p' = Map.empty \<and>
     (\<forall>x \<in> set xs. map_option th_state (threads u x) = Some TS_Dead) \<and>
     (\<forall>y i. jobs u y = Some i \<longrightarrow> k \<notin> set (jb_processes i))"
proof -
  have I: "task_inv s" using assms(1) by (simp add: task_wf_def)
  obtain t q where t: "process_exit c k s = (Inr (), t)" "task_inv t" "evolves s t" "procs t k = Some q"
    "pr_status q = PS_Exited c" "pr_handles q = Map.empty" "\<forall>x \<in> set (pr_threads p). doomed t x"
    using process_exit_inv [OF I assms(2), of c] assms(3) by blast
  have life: "same_life s t" by (rule same_life_exit [OF t(1) assms(2,4)])
  have same: "pr_threads q = pr_threads p"
    using evolves_proc [OF t(3) assms(2)] t(4) by (auto simp: proc_evolves_def)
  have own: "\<exists>th. threads t x = Some th \<and> th_proc th = k" if "x \<in> set xs" for x
    using task_invD(2) [OF t(2,4)] that same assms(7) by (auto simp: proc_ok_def)
  have "\<exists>th. threads t x = Some th \<and> th_proc th = k \<and> th_state th = TS_Dying \<and> th_context th \<noteq> None" if x: "x \<in> set xs" for x
  proof -
    obtain th where th: "threads t x = Some th" "th_proc th = k" using own [OF x] by blast
    obtain th0 where th0: "threads s x = Some th0"
      using task_invD(2) [OF I assms(2)] x assms(7) by (auto simp: proc_ok_def)
    then have "th_context th0 \<noteq> None" "th_state th0 \<noteq> TS_Dead" using assms(5,7) x by blast+
    moreover have "th_context th = th_context th0" "(th_state th = TS_Dead) = (th_state th0 = TS_Dead)"
      using spec [OF life [unfolded same_life_def], of x] th(1) th0 by simp_all
    moreover have "th_state th \<in> {TS_Dying, TS_Dead}" using t(7) th(1) x assms(7) by (auto simp: doomed_def)
    ultimately show ?thesis using th by auto
  qed
  moreover have "xs \<noteq> []" "set (pr_threads q) = set xs" using assms(4,7) same by auto
  ultimately show ?thesis
    using dying_rounds [OF t(2,4,5) _ assms(6), of run now w] t(1,6) by force
qed

lemma demo_running_simps [simp]:
  "jobs demo_running = [1 \<mapsto> demo_root_job, 2 \<mapsto> demo_child_job]" "procs demo_running = [3 \<mapsto> demo_caller]"
  "threads demo_running = [4 \<mapsto> demo_thread\<lparr>th_state := TS_Running\<rparr>]" "next_koid demo_running = 1024"
proof -
  have "jobs demo_sys = jobs demo_tasks"
    by (simp add: demo_sys_def task_state.defs channel_state.defs dlog_state.defs resource_state.defs)
  then show "jobs demo_running = [1 \<mapsto> demo_root_job, 2 \<mapsto> demo_child_job]" by (simp add: demo_running_def)
qed (simp_all add: demo_running_def)

lemma demo_running_wf: "task_wf demo_running"
proof -
  have "job_ok {} {} demo_running 1 demo_root_job"
    by (simp add: job_ok_def child_ok_def)
  moreover have "job_ok {} {} demo_running 2 demo_child_job"
    by (simp add: job_ok_def member_ok_def demo_caller_def)
  moreover have "proc_ok demo_running 3 demo_caller"
    by (simp add: proc_ok_def demo_caller_def)
  ultimately show ?thesis
    by (auto simp: task_wf_def task_inv_x_def kill_closed_def split: if_splits)
qed

theorem exited_process_dies_witness:
  "\<exists>t u. process_exit 7 3 demo_running = (Inr (), t) \<and> rounds (\<lambda>cx s. (cx, 0, s)) 0 9 [4] t = (Inr [Ended], u) \<and>
     map_option pr_status (procs u 3) = Some (PS_Exited 7) \<and> map_option th_state (threads u 4) = Some TS_Dead"
proof -
  have p: "pr_threads demo_caller = [4]" "\<not> exited demo_caller" by (simp_all add: demo_caller_def exited_def)
  have "\<exists>t u p'. process_exit 7 3 demo_running = (Inr (), t) \<and>
     rounds (\<lambda>cx s. (cx, 0, s)) 0 9 [4] t = (Inr (replicate (length [4 :: koid]) Ended), u) \<and>
     procs u 3 = Some p' \<and> pr_status p' = PS_Exited 7 \<and> pr_threads p' = [] \<and> pr_handles p' = Map.empty \<and>
     (\<forall>x \<in> set [4]. map_option th_state (threads u x) = Some TS_Dead) \<and>
     (\<forall>y i. jobs u y = Some i \<longrightarrow> 3 \<notin> set (jb_processes i))"
    by (rule exited_process_dies [OF demo_running_wf, where p = demo_caller]) (use p in simp_all)
  then show ?thesis by fastforce
qed

subsection \<open>Sizes of images\<close>

lemma load_pages_segments:
  assumes "load_pages phs = Inr ns"
  shows "ph \<in> set phs \<Longrightarrow> ph_type ph = Some PT_Load \<Longrightarrow> pages (ph_virtual_addr ph + ph_mem_size ph) \<in> set ns"
    and "n \<in> set ns \<Longrightarrow> \<exists>ph \<in> set phs. ph_type ph = Some PT_Load \<and> n = pages (ph_virtual_addr ph + ph_mem_size ph)"
  using assms
  by (induction phs arbitrary: ns) (force simp: rbind_def uadd_def split: option.splits sum.splits if_splits)+

lemma load_pages_defined:
  assumes "\<forall>ph \<in> set phs. ph_type ph \<noteq> None \<and>
     (ph_type ph = Some PT_Load \<longrightarrow> ph_virtual_addr ph + ph_mem_size ph < usize_lim)"
  shows "\<exists>ns. load_pages phs = Inr ns"
  using assms by (induction phs) (auto simp: rbind_def uadd_def split: option.splits)

text \<open>C36.
  The size computed for an image is the smallest that covers it. When the parser knows every segment
  kind and no loadable segment reaches into the last page of the address space, the size exists, is
  a multiple of the page size, reaches the end of every loadable segment, and is 0 or less than a page
  beyond the end of one of them.
\<close>

theorem load_segment_size_covers:
  assumes "\<forall>ph \<in> set (elf_programs elf). ph_type ph \<noteq> None \<and>
     (ph_type ph = Some PT_Load \<longrightarrow> ph_virtual_addr ph + ph_mem_size ph \<le> usize_lim - 4096)"
  shows "\<exists>sz. load_segment_size elf = Inr sz \<and> sz mod 4096 = 0 \<and>
     (\<forall>ph \<in> set (elf_programs elf). ph_type ph = Some PT_Load \<longrightarrow> ph_virtual_addr ph + ph_mem_size ph \<le> sz) \<and>
     (sz = 0 \<or> (\<exists>ph \<in> set (elf_programs elf). ph_type ph = Some PT_Load \<and>
        sz < ph_virtual_addr ph + ph_mem_size ph + 4096))"
proof -
  let ?lim = "\<lambda>ph. ph_virtual_addr ph + ph_mem_size ph"
  have "\<exists>ns. load_pages (elf_programs elf) = Inr ns" by (rule load_pages_defined) (use assms in fastforce)
  then obtain ns where ns: "load_pages (elf_programs elf) = Inr ns" by blast
  note seg = load_pages_segments [OF ns]
  define mx where "mx = (if ns = [] then 0 else Max (set ns))"
  have upper: "roundup_pages (?lim ph) \<le> mx * 4096" if "ph \<in> set (elf_programs elf)" "ph_type ph = Some PT_Load" for ph
    using seg(1) [OF that] by (auto simp: mx_def roundup_pages_def)
  have lower: "\<exists>ph \<in> set (elf_programs elf). ph_type ph = Some PT_Load \<and> mx * 4096 = roundup_pages (?lim ph)" if "ns \<noteq> []"
    using seg(2) [of mx] that Max_in [of "set ns"] by (auto simp: mx_def roundup_pages_def)
  have "mx * 4096 < usize_lim"
  proof (cases "ns = []")
    case True
    then show ?thesis by (simp add: mx_def)
  next
    case False
    then show ?thesis using lower roundup_pages_bound by metis
  qed
  then have run: "load_segment_size elf = Inr (mx * 4096)"
    using ns by (simp add: load_segment_size_def umul_def mx_def)
  have cover: "?lim ph \<le> mx * 4096" if "ph \<in> set (elf_programs elf)" "ph_type ph = Some PT_Load" for ph
    using upper [OF that] roundup_pages_ge(1) [of "?lim ph"] assms that by fastforce
  have tight: "mx * 4096 = 0 \<or> (\<exists>ph \<in> set (elf_programs elf). ph_type ph = Some PT_Load \<and> mx * 4096 < ?lim ph + 4096)"
  proof (cases "ns = []")
    case True
    then show ?thesis by (simp add: mx_def)
  next
    case False
    then obtain ph where ph: "ph \<in> set (elf_programs elf)" "ph_type ph = Some PT_Load" "mx * 4096 = roundup_pages (?lim ph)"
      using lower by blast
    then have "roundup_pages (?lim ph) < ?lim ph + 4096" using assms by (intro roundup_pages_ge(2)) blast
    then show ?thesis using ph by auto
  qed
  show ?thesis using run cover tight by (intro exI [of _ "mx * 4096"]) simp
qed

definition demo_elf :: elf_file where
  "demo_elf = \<lparr>elf_programs =
     [\<lparr>ph_type = Some PT_Phdr, ph_is_read = True, ph_is_write = False, ph_is_execute = False, ph_offset = 64,
       ph_virtual_addr = 64, ph_physical_addr = 64, ph_mem_size = 112, ph_data = None\<rparr>,
      \<lparr>ph_type = Some PT_Load, ph_is_read = True, ph_is_write = True, ph_is_execute = False, ph_offset = 0,
       ph_virtual_addr = 4100, ph_physical_addr = 4100, ph_mem_size = 4096, ph_data = Some (Seg_Undefined [1, 2, 3])\<rparr>],
     elf_sections = [], elf_entry_point = 4100, elf_ph_offset = 64\<rparr>"

theorem load_segment_size_covers_witness:
  "\<exists>sz. load_segment_size demo_elf = Inr sz \<and> sz mod 4096 = 0 \<and> 8196 \<le> sz \<and> sz < 12292"
  using load_segment_size_covers [of demo_elf] by (auto simp: demo_elf_def)

end
