(* ===== verification/Boot_Frame.thy ===== *)
theory Boot_Frame
  imports Loader_Props
begin

text \<open>
  What setting up memory leaves alone. The operations on memory objects and address regions that the
  loader uses keep everything above the address regions: tasks, channels, logs, resources. The rules
  follow the structure of the operations, so that each is an application of the rules to its
  definition.
\<close>

definition keeps :: "('s \<Rightarrow> 'p) \<Rightarrow> ('s \<Rightarrow> 'b \<times> 's) \<Rightarrow> bool" where
  "keeps P m \<longleftrightarrow> (\<forall>s. P (snd (m s)) = P s)"

named_theorems keeps_intro \<open>operations that keep what is above the address regions\<close>

lemma keepsI: "(\<And>s. P (snd (m s)) = P s) \<Longrightarrow> keeps P m"
  by (simp add: keeps_def)

lemma keepsD: "keeps P m \<Longrightarrow> m s = (r, t) \<Longrightarrow> P t = P s"
  using spec [of "\<lambda>s. P (snd (m s)) = P s" s] by (simp add: keeps_def)

lemma keepsE: "keeps P m \<Longrightarrow> P (snd (m s)) = P s"
  by (simp add: keeps_def)

lemma keeps_sbind [keeps_intro]: "keeps P m \<Longrightarrow> (\<And>x. keeps P (f x)) \<Longrightarrow> keeps P (sbind m f)"
  by (auto simp: keeps_def sbind_def split: prod.split sum.split) (metis snd_conv)+

lemma keeps_simple [keeps_intro]: "keeps P (sret x)" "keeps P (sfail e)" "keeps P (slift g)" "keeps P (Pair y)"
  by (simp_all add: keeps_def)

lemma keeps_if [keeps_intro]: "keeps P m \<Longrightarrow> keeps P n \<Longrightarrow> keeps P (if b then m else n)"
  by simp

lemma keeps_option [keeps_intro]: "keeps P m \<Longrightarrow> (\<And>x. keeps P (f x)) \<Longrightarrow> keeps P (case v of None \<Rightarrow> m | Some x \<Rightarrow> f x)"
  by (simp split: option.split)

lemma keeps_segment [keeps_intro]:
  "(\<And>x. keeps P (f x)) \<Longrightarrow> keeps P m \<Longrightarrow> keeps P (case v of Seg_Undefined x \<Rightarrow> f x | Seg_Other \<Rightarrow> m)"
  by (simp split: segment_data.split)

lemma keeps_prod [keeps_intro]: "(\<And>x y. keeps P (f x y)) \<Longrightarrow> keeps P (case v of (x, y) \<Rightarrow> f x y)"
  by (simp split: prod.split)

lemma keeps_sfor [keeps_intro]: "(\<And>i. keeps P (f i)) \<Longrightarrow> keeps P (sfor f xs)"
proof (induction xs)
  case Nil
  then show ?case by (simp add: keeps_def)
next
  case (Cons x xs)
  then have "keeps P (sbind (f x) (\<lambda>_. sfor f xs))" by (blast intro: keeps_sbind)
  then show ?case by (simp add: keeps_def)
qed

lemma keeps_with [keeps_intro]:
  "(\<And>v. keeps P (f v)) \<Longrightarrow> keeps P (with_vmo k f)"
  "(\<And>v i. keeps P (g v i)) \<Longrightarrow> keeps P (with_inner k g)"
  "(\<And>p. keeps P (h p)) \<Longrightarrow> keeps P (with_paged j h)"
  by (auto simp: keeps_def with_vmo_def with_inner_def with_paged_def split: option.split)

lemma keeps_unwrap [keeps_intro]: "keeps P m \<Longrightarrow> keeps P (unwrap m)"
  by (auto simp: keeps_def unwrap_def split: prod.split sum.split fault.split) (metis snd_conv)+

text \<open>Operations on memory objects keep the page table as well.\<close>

definition mem_above :: "'a vmar_state_scheme \<Rightarrow> (usize \<Rightarrow> (usize \<times> prot set) option) \<times> 'a" where
  "mem_above s = (host_map s, vmar_state.more s)"

lemma mem_above_koid [simp]: "mem_above (s\<lparr>next_koid := k\<rparr>) = mem_above s"
  by (simp add: mem_above_def)

lemma keeps_above: "keeps mem_above m \<Longrightarrow> keeps vmar_state.more m"
  by (simp add: keeps_def mem_above_def)

subsection \<open>Memory objects\<close>

lemma keeps_frame_alloc [keeps_intro]: "keeps mem_above frame_alloc_zeroed"
  by (auto simp: keeps_def mem_above_def frame_alloc_zeroed_def frame_alloc_def pmem_zero_def sbind_def split: list.split sum.split)

lemma keeps_alloc_frames [keeps_intro]: "keeps mem_above (alloc_frames_zeroed n)"
  by (induction n) (auto intro!: keeps_intro)

lemma keeps_paged_new [keeps_intro]: "keeps mem_above (paged_new n)"
proof -
  have "keeps mem_above (new_paged_obj pg)" for pg by (simp add: keeps_def mem_above_def new_paged_obj_def)
  then show ?thesis unfolding paged_new_def by (blast intro: keeps_intro)
qed

lemma keeps_vmo_alloc: "mem_above (vmo_alloc k v s) = mem_above s"
  by (simp add: mem_above_def vmo_alloc_def retain_base_def put_vmo_def)

lemma keeps_new_paged [keeps_intro]: "keeps mem_above (new_paged n)"
proof (rule keepsI)
  fix s :: "'a vmar_state_scheme"
  let ?s = "s\<lparr>next_koid := next_koid s + 1\<rparr>"
  show "mem_above (snd (new_paged n s)) = mem_above s"
    using keepsD [OF keeps_paged_new [of n], of ?s]
    by (cases "paged_new n ?s") (auto simp: new_paged_def new_paged_with_resizable_def new_koid_def sbind_def keeps_vmo_alloc split: sum.split)
qed

lemma keeps_vmo_set_name [keeps_intro]: "keeps mem_above (vmo_set_name k nm)"
  by (auto simp: keeps_def mem_above_def vmo_set_name_def with_vmo_def put_vmo_def split: option.split)

lemma keeps_write_part [keeps_intro]: "keeps mem_above (write_part buf part)"
  by (auto simp: keeps_def mem_above_def write_part_def pmem_write_def split: prod.split sum.split)

lemma keeps_paged_write [keeps_intro]: "keeps mem_above (paged_write i offset buf)"
  unfolding paged_write_def for_each_page_def by (rule keeps_intro)+

lemma keeps_trait_write [keeps_intro]: "keeps mem_above (trait_write t offset buf)"
proof (induction t arbitrary: offset)
  case (Paged i)
  then show ?case by (simp add: keeps_paged_write)
next
  case (Physical i)
  then show ?case by (auto simp: keeps_def mem_above_def pmem_write_def sbind_def split: sum.split)
next
  case (Slice t off sz)
  then show ?case unfolding trait_write.simps by (blast intro: keeps_intro)
qed

lemma keeps_vmo_write [keeps_intro]: "keeps mem_above (vmo_write k offset buf)"
  unfolding vmo_write_def by (rule keeps_intro)+

lemma keeps_alloc_frames_err [keeps_intro]: "keeps mem_above (alloc_frames_err n fs)"
  by (induction n arbitrary: fs)
    (auto simp: keeps_def mem_above_def frame_alloc_def dealloc_frames_def split: list.split prod.split option.split)

lemma keeps_paged_create_child [keeps_intro]: "keeps mem_above (paged_create_child i offset len)"
proof -
  have copy: "keeps mem_above (copy_frame fs start jp)" for fs start jp
    by (auto simp: keeps_def mem_above_def copy_frame_def frame_copy_def pmem_zero_def split: prod.split sum.split)
  have new: "keeps mem_above (new_paged_obj pg)" for pg by (simp add: keeps_def mem_above_def new_paged_obj_def)
  show ?thesis unfolding paged_create_child_def by (rule keeps_intro copy new)+
qed

lemma keeps_trait_create_child [keeps_intro]: "keeps mem_above (trait_create_child t offset len)"
proof (cases t)
  case (Paged i)
  have "keeps mem_above (sbind (paged_create_child i offset len) (\<lambda>c. sret (Paged c)))" by (rule keeps_intro)+
  then show ?thesis using Paged by (simp add: keeps_def)
qed (simp_all add: keeps_def)

lemma keeps_vmo_create_child [keeps_intro]: "keeps mem_above (vmo_create_child k resizable offset len)"
proof -
  have add: "keeps mem_above (add_child k c)" for c
    by (auto simp: keeps_def mem_above_def add_child_def with_vmo_def put_vmo_def split: option.split)
  have fin: "keeps mem_above (\<lambda>s2 :: 'a vmar_state_scheme. sbind (add_child k c) (\<lambda>_. sret c) (vmo_alloc c v s2))" for c v
  proof (rule keepsI)
    fix s2 :: "'a vmar_state_scheme"
    show "mem_above (snd (sbind (add_child k c) (\<lambda>_. sret c) (vmo_alloc c v s2))) = mem_above s2"
      unfolding keepsE [OF keeps_sbind [OF add keeps_simple(1)]] by (rule keeps_vmo_alloc)
  qed
  have "keeps mem_above (\<lambda>s :: 'a vmar_state_scheme. let (c, s1) = new_koid s in sbind (trait_create_child (vo_trait v) offset len) (\<lambda>t s2.
      sbind (add_child k c) (\<lambda>_. sret c) (vmo_alloc c (vmobject_init (vo_name v) resizable t (Some k)) s2)) s1)" for v
  proof (rule keepsI)
    fix s :: "'a vmar_state_scheme"
    have "mem_above (snd (sbind (trait_create_child (vo_trait v) offset len) (\<lambda>t s2.
      sbind (add_child k c) (\<lambda>_. sret c) (vmo_alloc c (vmobject_init (vo_name v) resizable t (Some k)) s2)) u)) = mem_above u"
      for c and u :: "'a vmar_state_scheme"
      by (rule keepsE [OF keeps_sbind [OF keeps_trait_create_child fin]])
    then show "mem_above (snd (let (c, s1) = new_koid s in sbind (trait_create_child (vo_trait v) offset len) (\<lambda>t s2.
      sbind (add_child k c) (\<lambda>_. sret c) (vmo_alloc c (vmobject_init (vo_name v) resizable t (Some k)) s2)) s1)) =
      mem_above s"
      by (simp add: new_koid_def)
  qed
  note fin = this
  show ?thesis unfolding vmo_create_child_def by (rule keeps_intro fin)+
qed

lemma keeps_boot_memory [keeps_intro]:
  "keeps mem_above (load_zbi img)" "keeps mem_above (prepare_vdso env v)" "keeps mem_above create_kcounter_vmo"
  unfolding load_zbi_def prepare_vdso_def create_kcounter_vmo_def by (rule keeps_intro)+

lemmas keeps_memory [keeps_intro] =
  keeps_new_paged [THEN keeps_above] keeps_vmo_write [THEN keeps_above] keeps_vmo_set_name [THEN keeps_above]
  keeps_vmo_create_child [THEN keeps_above] keeps_boot_memory [THEN keeps_above]

subsection \<open>Address regions\<close>

lemma keeps_put: "vmar_state.more (put_vmar k v s) = vmar_state.more s" "vmar_state.more (put_inner k i s) = vmar_state.more s"
  by (simp_all add: put_vmar_def put_inner_def split: option.split)

lemma keeps_allocate [keeps_intro]: "keeps vmar_state.more (allocate k offset len flags align)"
proof -
  have "keeps vmar_state.more (\<lambda>s. let (c, s1) = new_koid s
         in case uadd (va_addr v) o1 of
              Inl f \<Rightarrow> (Inl f, s1)
            | Inr a \<Rightarrow>
                (Inr c, put_inner k (Some (inn\<lparr>vin_children := vin_children inn @ [c]\<rparr>))
                   (put_vmar c \<lparr>va_flags = flags, va_addr = a, va_size = len, va_parent = Some k,
                      va_inner = Some inner_default\<rparr> s1)))" for v inn o1
    by (auto simp: keeps_def new_koid_def keeps_put split: sum.split)
  note fin = this
  show ?thesis unfolding allocate_def by (rule fin keeps_intro)+
qed

lemma keeps_allocate_at [keeps_intro]: "keeps vmar_state.more (allocate_at k offset len flags align)"
  unfolding allocate_at_def by (rule keeps_intro)

lemma keeps_mapping_new [keeps_intro]: "keeps vmar_state.more (mapping_new addr len vmo vo perm fl)"
proof (rule keepsI)
  fix s :: "'a vmar_state_scheme"
  have app: "keeps vmar_state.more (\<lambda>s. trait_append_mapping t m (put_vmo vmo v s))" for t m v
    by (cases t) (auto simp: keeps_def paged_append_mapping_def with_paged_def put_paged_def put_vmo_def split: option.split)
  show "vmar_state.more (snd (mapping_new addr len vmo vo perm fl s)) = vmar_state.more s"
    unfolding mapping_new_def Let_def vmo_append_mapping_def by (subst keepsE [where P = vmar_state.more], (rule app keeps_intro)+, simp)
qed

lemma keeps_mapping_map [keeps_intro]: "keeps vmar_state.more (mapping_map m)"
proof -
  have "keeps vmar_state.more (pt_map va pa fl)" for va pa fl by (simp add: keeps_def pt_map_def)
  note pt = this
  show ?thesis unfolding mapping_map_def map_page_def by (rule pt keeps_intro)+
qed

lemma keeps_mapping_drop [keeps_intro]: "keeps vmar_state.more (mapping_drop m)"
  by (auto simp: keeps_def mapping_drop_def mapping_unmap_def pt_unmap_cont_def split: sum.split)

lemma keeps_map_ext [keeps_intro]: "keeps vmar_state.more (map_ext k vo vmo off len perm fl ov mr)"
proof -
  have "keeps vmar_state.more (\<lambda>s :: 'a vmar_state_scheme. case mapping_map m s of
             (Inl (Err e), s1) \<Rightarrow> sbind (mapping_drop m) (\<lambda>_. sfail (Err e)) s1
           | (Inl f, s1) \<Rightarrow> (Inl f, s1)
           | (Inr _, s1) \<Rightarrow>
               (Inr addr, put_inner k (Some (inn\<lparr>vin_mappings := vin_mappings inn @ [m]\<rparr>)) s1))" for m inn and addr :: usize
  proof (rule keepsI)
    fix s :: "'a vmar_state_scheme"
    have m: "vmar_state.more (snd (mapping_map m s)) = vmar_state.more s" by (rule keepsE [OF keeps_mapping_map])
    have "vmar_state.more (snd (sbind (mapping_drop m) (\<lambda>_. sfail (Err e) :: _ \<Rightarrow> usize zx \<times> _) u)) = vmar_state.more u"
      for e and u :: "'a vmar_state_scheme"
      by (rule keepsE) (rule keeps_intro)+
    then show "vmar_state.more (snd (case mapping_map m s of
             (Inl (Err e), s1) \<Rightarrow> sbind (mapping_drop m) (\<lambda>_. sfail (Err e)) s1
           | (Inl f, s1) \<Rightarrow> (Inl f, s1)
           | (Inr _, s1) \<Rightarrow>
               (Inr addr, put_inner k (Some (inn\<lparr>vin_mappings := vin_mappings inn @ [m]\<rparr>)) s1))) = vmar_state.more s"
      using m by (auto simp: keeps_put split: prod.split sum.split fault.split)
  qed
  note fin = this
  show ?thesis unfolding map_ext_def by (rule fin keeps_intro)+
qed

lemma keeps_vmar_map [keeps_intro]: "keeps vmar_state.more (vmar_map k vo vmo off len fl)" "keeps vmar_state.more (vmar_map_at k o1 vmo off len fl)"
  unfolding vmar_map_at_def vmar_map_def by (rule keeps_intro)+

subsection \<open>Images\<close>

lemma keeps_make_vmo [keeps_intro]: "keeps vmar_state.more (make_vmo ph)"
  unfolding make_vmo_def Let_def by (rule keeps_intro)+

lemma keeps_load_segments [keeps_intro]: "keeps vmar_state.more (load_segments k phs v)"
proof (induction phs arbitrary: v)
  case Nil
  then show ?case by (simp add: keeps_def)
next
  case (Cons ph phs)
  show ?case
    unfolding load_segments.simps Let_def by (rule keeps_intro Cons.IH)+
qed

lemma keeps_elf [keeps_intro]: "keeps vmar_state.more (load_from_elf k elf)" "keeps vmar_state.more (map_from_elf k elf vmo)"
  unfolding load_from_elf_def map_from_elf_def map_segment_def by (rule keeps_intro)+

lemma keeps_boot [keeps_intro]:
  "keeps vmar_state.more (load_userboot env img root)" "keeps vmar_state.more (load_vdso env img root sz)"
  "keeps vmar_state.more (map_stack root)"
  unfolding load_userboot_def load_vdso_def map_stack_def Let_def by (rule keeps_intro)+

end
