(* ===== verification/Shared_Memory.thy ===== *)
theory Shared_Memory
  imports Vmar_Destroy User_Ptr_Props
begin

text \<open>
  Mapped memory and memory objects are the same bytes. A program reaches an object in two ways: by
  \<open>VmObject::read\<close> and \<open>write\<close>, which split the range into pages, and through the addresses of a
  mapping, which the page table translates byte by byte. The two agree on every range inside the
  mapping, whatever its alignment.
\<close>

definition object_view :: "paged \<Rightarrow> usize list \<times> cache_policy" where
  "object_view pg = (pg_frames pg, pg_cache pg)"

subsection \<open>What mapping leaves alone\<close>

lemma append_mapping_view:
  fixes s :: "'a vmar_state_scheme"
  shows "pmem (snd (vmo_append_mapping k m s)) = pmem s"
    and "map_option object_view (paged_objs (snd (vmo_append_mapping k m s)) i) = map_option object_view (paged_objs s i)"
proof -
  have *: "pmem (snd (trait_append_mapping t m s)) = pmem s \<and>
      map_option object_view (paged_objs (snd (trait_append_mapping t m s)) i) = map_option object_view (paged_objs s i)"
    for t and s :: "'a vmar_state_scheme"
    by (cases t) (auto simp: paged_append_mapping_def with_paged_def put_paged_def object_view_def split: option.splits)
  show "pmem (snd (vmo_append_mapping k m s)) = pmem s"
    "map_option object_view (paged_objs (snd (vmo_append_mapping k m s)) i) = map_option object_view (paged_objs s i)"
    using * by (auto simp: vmo_append_mapping_def with_vmo_def sbind_def put_vmo_def split: option.splits sum.splits)
qed

lemma map_ext_view:
  fixes s t :: "'a vmar_state_scheme"
  assumes "map_ext k vo vmo off len perm fl ov mr s = (Inr addr, t)"
  shows "pmem t = pmem s" "map_option object_view (paged_objs t i) = map_option object_view (paged_objs s i)"
    "map_option vo_trait (vmos t j) = map_option vo_trait (vmos s j)"
proof -
  obtain inn m u w f where m: "mapping_new addr len vmo off perm f s = (Inr m, u)" "mapping_map m u = (Inr (), w)"
    "t = put_inner k (Some (inn\<lparr>vin_mappings := vin_mappings inn @ [m]\<rparr>)) w"
    by (rule map_ext_success [OF assms]) blast
  let ?s = "s\<lparr>next_mapping := next_mapping s + 1\<rparr>"
  have u: "u = snd (vmo_append_mapping vmo (next_mapping s) ?s)" by (rule mapping_new_result(7) [OF m(1)])
  have "pt_only u (snd (mapping_map m u))" by (rule mapping_map_pt_only)
  then obtain h where w: "w = u\<lparr>host_map := h\<rparr>" using m(2) by (auto simp: pt_only_def)
  show "pmem t = pmem s" "map_option object_view (paged_objs t i) = map_option object_view (paged_objs s i)"
    "map_option vo_trait (vmos t j) = map_option vo_trait (vmos s j)"
    using append_mapping_view [of vmo "next_mapping s" ?s] append_mapping_frames(3) [of vmo "next_mapping s" ?s]
    by (simp_all add: m(3) w u put_inner_def put_vmar_def split: option.split)
qed

lemma map_ext_aligned:
  fixes s :: "'a vmar_state_scheme"
  assumes "map_ext k vo vmo off len perm fl ov mr s = (Inr addr, t)" and "4096 \<le> len"
  shows "page_aligned addr"
proof -
  obtain m u w f where m: "mapping_new addr len vmo off perm f s = (Inr m, u)" "mapping_map m u = (Inr (), w)"
    by (rule map_ext_success [OF assms(1)]) blast
  have sp: "mp_addr m = addr" "mp_size m = len" using mapping_new_result(1) [OF m(1)] by (simp_all add: map_span_def)
  obtain n where n: "len div 4096 = Suc n" using assms(2) by (cases "len div 4096") auto
  have "[0..<Suc n] = 0 # [1..<Suc n]" by (simp add: upt_rec)
  then obtain tr x where "map_page m tr 0 u = (Inr (), x)"
    using m(2) by (auto simp: mapping_map_def with_vmo_def sp n sbind_eq_Inr simp del: upt_Suc split: option.splits)
  then show ?thesis using sp by (auto simp: map_page_def sbind_slift rbind_eq_Inr pt_map_def uadd_def umul_def split: sum.splits if_splits)
qed

subsection \<open>Pages of an object in an address space\<close>

definition shows_pages :: "'a hal_state_scheme \<Rightarrow> usize \<Rightarrow> usize \<Rightarrow> usize list \<Rightarrow> usize \<Rightarrow> prot set \<Rightarrow> bool" where
  \<comment> \<open>the pages at \<open>addr\<close> are the frames from offset \<open>off\<close>\<close>
  "shows_pages s addr len fs off prots \<longleftrightarrow>
     page_aligned addr \<and> page_aligned off \<and> page_aligned len \<and> off + len \<le> 4096 * length fs \<and>
     (\<forall>j < len div 4096. host_map s (addr + j * 4096) = Some (fs ! (off div 4096 + j), prots))"

lemma shown_byte:
  assumes "shows_pages s addr len fs off prots" and "p \<in> prots" and "x < len"
  shows "translate p s (addr + x) = Some (byte_addr fs (off + x))"
proof -
  obtain a o1 l where al: "addr = 4096 * a" "off = 4096 * o1" "len = 4096 * l"
    using assms(1) unfolding shows_pages_def page_aligned_iff by (metis mod_0_imp_dvd dvdE)
  have "x div 4096 < l" using assms(3) al(3) by (simp add: less_mult_imp_div_less mult.commute)
  then have pg: "host_map s (addr + x div 4096 * 4096) = Some (fs ! (off div 4096 + x div 4096), prots)"
    using assms(1) al(3) by (simp add: shows_pages_def)
  have "addr + x - (addr + x) mod 4096 = addr + x div 4096 * 4096" "(addr + x) mod 4096 = x mod 4096"
    "(off + x) mod 4096 = x mod 4096" "(off + x) div 4096 = off div 4096 + x div 4096"
    by (simp_all add: al minus_mod_eq_mult_div [symmetric] algebra_simps)
  then show ?thesis using pg assms(2) by (simp add: translate_def byte_addr_def)
qed

lemma shown_read:
  fixes s :: "'a vmo_state_scheme"
  assumes sh: "shows_pages s addr len (pg_frames pg) off prots" and "PROT_READ \<in> prots"
    and pg: "paged_objs s i = Some pg" "pg_cache pg = Cached" and ok: "paged_ok pg" and n: "x + length buf \<le> len"
  shows "\<exists>bs. paged_read i (off + x) buf s = Inr bs \<and> mem_load s (addr + x) (length buf) = Inr bs"
proof -
  have le: "off + x + length buf \<le> 4096 * length (pg_frames pg)" using sh n by (simp add: shows_pages_def)
  with paged_ok_size [OF ok] have "off + x + length buf < usize_lim" by simp
  from paged_read_bytes [OF pg ok le this]
  have "paged_read i (off + x) buf s = Inr (map (\<lambda>j. pmem s (byte_addr (pg_frames pg) (off + x + j))) [0..<length buf])" .
  moreover have "mem_load s (addr + x) (length buf) =
      Inr (map (\<lambda>j. pmem s (byte_addr (pg_frames pg) (off + x + j))) [0..<length buf])"
    using shown_byte [OF sh assms(2)] n by (intro mem_load_eq) (simp add: add.assoc)
  ultimately show ?thesis by blast
qed

lemma shown_write:
  fixes s :: "'a vmo_state_scheme"
  assumes sh: "shows_pages s addr len (pg_frames pg) off prots" and "PROT_WRITE \<in> prots"
    and pg: "paged_objs s i = Some pg" "pg_cache pg = Cached" and ok: "paged_ok pg" and n: "x + length data \<le> len"
  shows "\<exists>u. paged_write i (off + x) data s = (Inr (), u) \<and> mem_store (addr + x) data s = (Inr (), u)"
proof -
  let ?f = "\<lambda>j. byte_addr (pg_frames pg) (off + x + j)"
  have le: "off + x + length data \<le> 4096 * length (pg_frames pg)" using sh n by (simp add: shows_pages_def)
  with paged_ok_size [OF ok] have lim: "off + x + length data < usize_lim" by simp
  obtain m where m: "paged_write i (off + x) data s = (Inr (), s\<lparr>pmem := m\<rparr>)" "\<And>j. j < length data \<Longrightarrow> m (?f j) = data ! j"
    "\<And>y. y \<notin> byte_addr (pg_frames pg) ` {off + x ..< off + x + length data} \<Longrightarrow> m y = pmem s y"
    using paged_write_bytes [OF pg ok le lim] by metis
  have inj: "inj_on ?f {..<length data}"
  proof (rule inj_onI)
    fix a b assume "a \<in> {..<length data}" "b \<in> {..<length data}" "?f a = ?f b"
    then have "off + x + a = off + x + b"
      using byte_addr_inj [of "pg_frames pg" "off + x + a" "off + x + b"] ok le by (simp add: paged_ok_def)
    then show "a = b" by simp
  qed
  have tr: "translate PROT_WRITE s (addr + x + j) = Some (?f j)" if "j < length data" for j
    using shown_byte [OF sh assms(2), of "x + j"] n that by (simp add: add.assoc)
  obtain m' where m': "mem_store (addr + x) data s = (Inr (), s\<lparr>pmem := m'\<rparr>)" "\<forall>j < length data. m' (?f j) = data ! j"
    "\<forall>y. y \<notin> ?f ` {..<length data} \<longrightarrow> m' y = pmem s y"
    using mem_store_eq [OF tr inj] by blast
  have im: "byte_addr (pg_frames pg) ` {off + x ..< off + x + length data} = ?f ` {..<length data}"
    by (force simp: image_iff le_iff_add)
  have "m y = m' y" for y
    using m(2,3) m'(2,3) unfolding im by (cases "y \<in> ?f ` {..<length data}") auto
  then have "m = m'" by blast
  then show ?thesis using m(1) m'(1) by blast
qed

subsection \<open>The result of a mapping\<close>

lemma map_ext_shows:
  fixes s t :: "'a vmar_state_scheme"
  assumes map: "map_ext k vo vmo off len perm fl ov mr s = (Inr addr, t)" and "4096 \<le> len"
    and vob: "vmos s vmo = Some vob" "vo_trait vob = Paged i" and pg: "paged_objs s i = Some pg" "paged_ok pg"
  shows "shows_pages t addr len (pg_frames pg) off (to_mmap_prot fl)"
proof -
  have args: "map_args vmo off len perm fl ov mr s = Inr ()" by (rule map_ext_success [OF map]) blast
  then have al: "page_aligned off" "page_aligned len" by (simp_all add: map_args_def split: if_splits)
  have "off + len \<le> 4096 * length (pg_frames pg)"
    using args vob pg by (auto simp: map_args_def vmo_len_def get_vmo_def paged_len_def get_paged_def umul_def split: if_splits)
  then show ?thesis
    using map_ext_aligned [OF map assms(2)] al map_ext_pages [OF map vob(1)] vob pg
    by (fastforce simp: shows_pages_def paged_commit_page_def get_paged_def split: if_splits)
qed


definition demo_shared :: vmar_state where
  "demo_shared = demo_map_state (Paged 0)\<lparr>next_obj := 1\<rparr>"

lemma demo_shared_inv: "heap_inv demo_shared"
  by (simp add: demo_shared_def demo_map_state_def heap_inv_def paged_ok_def paged_default_def frame_ok_def page_aligned_iff PMEM_SIZE_def vmar_start_def
      vm_start_def vm_state.defs)


end
