(* ===== verification/Boot.thy ===== *)
theory Boot
  imports Boot_Frame Shared_Memory
begin

text \<open>
  What \<open>run_userboot\<close> builds: the first process with one handle, a running thread with a mapped stack,
  and a channel that holds the one message with the handles userboot expects.
\<close>

subsection \<open>What the steps leave behind\<close>

lemma vmar_more_fields:
  fixes s t :: "'a sys_state_scheme"
  assumes "vmar_state.more t = vmar_state.more s"
  shows "jobs t = jobs s" "procs t = procs s" "threads t = threads s" "spawned t = spawned s" "channels t = channels s"
    "resources t = resources s"
  using assms by (cases s, cases t, simp)+

lemma mem_above_fields:
  fixes s t :: "'a sys_state_scheme"
  assumes "mem_above t = mem_above s"
  shows "host_map t = host_map s" "vmar_state.more t = vmar_state.more s"
  using assms by (simp_all add: mem_above_def)

lemma unwrap_Inr: "unwrap m s = (Inr x, t) \<longleftrightarrow> m s = (Inr x, t)"
  by (auto simp: unwrap_def split: prod.splits sum.splits fault.splits)

lemma process_create_result:
  fixes s :: "'a sys_state_scheme"
  assumes "process_create j nm s = (Inr k, t)"
  shows "\<exists>pr. procs t k = Some pr \<and> pr_job pr = j \<and> pr_status pr = PS_Init \<and> pr_handles pr = Map.empty \<and>
     pr_max_handle_id pr = 0 \<and> pr_threads pr = [] \<and> spawned t = spawned s"
  using assms
  by (auto simp: process_create_def with_job_def kobject_base_with_name_def new_root_def new_koid_def job_add_process_def
      put_vmar_def Let_def split: option.splits sum.splits if_splits)

lemma thread_create_result:
  fixes s :: "'a sys_state_scheme"
  assumes "thread_create cx k nm s = (Inr x, t)" and "procs s k = Some pr"
  shows "procs t k = Some (pr\<lparr>pr_threads := pr_threads pr @ [x]\<rparr>) \<and>
     threads t x = Some (thread_init \<lparr>base_id = x, base_name = nm\<rparr> k cx) \<and> spawned t = spawned s"
  using assms
  by (auto simp: thread_create_def kobject_base_with_name_def new_koid_def add_thread_def with_proc_def Let_def
      split: option.splits sum.splits proc_status.splits)

lemma first_handle: "table_add h p = (Inr 3, p\<lparr>pr_max_handle_id := 1, pr_handles := [3 \<mapsto> h]\<rparr>)"
  if "pr_max_handle_id p = 0" "pr_handles p = Map.empty"
  using that by (simp add: table_add_def Let_def)

lemma process_start_result:
  fixes s :: "'a sys_state_scheme"
  assumes "process_start k x entry sp (Some h) 0 s = (Inr (), t)" and "procs s k = Some pr" and "threads s x = Some th"
    and "th_context th = Some cx" and "pr_max_handle_id pr = 0" and "pr_handles pr = Map.empty"
  shows "procs t k = Some (pr\<lparr>pr_status := PS_Running, pr_max_handle_id := 1, pr_handles := [3 \<mapsto> h]\<rparr>) \<and>
     threads t x = Some (th\<lparr>th_first := True, th_state := TS_Running, th_context := Some (start_context entry sp 3 0 cx)\<rparr>) \<and>
     spawned t = spawned s @ [x] \<and> host_map t = host_map s \<and> channels t = channels s \<and> resources t = resources s"
  using assms
  by (auto simp: process_start_def with_proc_def start_arg_def first_handle set_first_thread_def thread_start_def with_thread_def
      sbind_def change_state_def put_thread_def put_proc_def split: if_splits)

lemma channel_write_result:
  fixes s :: "'a sys_state_scheme"
  assumes "channel_write b m s = (Inr (), t)" and "channels s a = Some ca" and "channels s b = Some cb" and "ch_peer cb = Some a"
  shows "t = put_channel a (ca\<lparr>ch_queue := ch_queue ca @ [m]\<rparr>) s"
  using assms by (auto simp: channel_write_def with_channel_def upgrade_peer_def push_general_def)

subsection \<open>The stack\<close>

lemma alloc_frames_zeroed_length: "alloc_frames_zeroed n s = (Inr fs, t) \<Longrightarrow> length fs = n"
proof (induction n arbitrary: s fs t)
  case 0
  then show ?case by simp
next
  case (Suc n)
  then show ?case by (auto simp: sbind_eq_Inr split: option.splits)
qed

lemma new_paged_len:
  fixes s :: "'a vmar_state_scheme"
  assumes "new_paged n s = (Inr k, t)"
  shows "vmo_len k t = umul n PAGE_SIZE"
proof -
  obtain fs u where f: "alloc_frames_zeroed n (s\<lparr>next_koid := next_koid s + 1\<rparr>) = (Inr fs, u)"
    "new_paged_obj (paged_default\<lparr>pg_frames := fs\<rparr>) u = (Inr (next_obj u), u\<lparr>paged_objs := (paged_objs u)(next_obj u \<mapsto>
       paged_default\<lparr>pg_frames := fs\<rparr>), next_obj := next_obj u + 1\<rparr>)" 
    using assms by (auto simp: new_paged_def new_paged_with_resizable_def new_koid_def paged_new_def new_paged_obj_def sbind_eq_Inr)
  then have t: "k = next_koid s" "t = vmo_alloc k (vmobject_init '''' False (Paged (next_obj u)) None)
     (u\<lparr>paged_objs := (paged_objs u)(next_obj u \<mapsto> paged_default\<lparr>pg_frames := fs\<rparr>), next_obj := next_obj u + 1\<rparr>)"
    using assms by (auto simp: new_paged_def new_paged_with_resizable_def new_koid_def paged_new_def sbind_eq_Inr)
  have "length fs = n" by (rule alloc_frames_zeroed_length [OF f(1)])
  then show ?thesis
    by (simp add: t vmo_len_def get_vmo_def vmo_alloc_def retain_base_def put_vmo_def vmobject_init_def paged_len_def get_paged_def)
qed

lemma map_stack_result:
  fixes s :: "'a sys_state_scheme"
  assumes "map_stack root s = (Inr sp, t)"
  shows "page_aligned (sp + 8)" and "32768 \<le> sp + 8"
    and "\<forall>a. sp + 8 - 32768 \<le> a \<and> a < sp + 8 \<longrightarrow> translate PROT_READ t a \<noteq> None \<and> translate PROT_WRITE t a \<noteq> None"
proof -
  obtain v u len b where v: "new_paged STACK_PAGES s = (Inr v, u)" "vmo_len v u = Inr len"
    "vmar_map root None v 0 len (MMU_READ OR MMU_WRITE OR MMU_USER) u = (Inr b, t)" "sp = b + len - 8" "8 \<le> b + len"
    using assms by (auto simp: map_stack_def sbind_eq_Inr unwrap_Inr usub_def uadd_def split: if_splits)
  have len: "len = 32768" using new_paged_len [OF v(1)] v(2) by (simp add: STACK_PAGES_def umul_def)
  have map: "map_ext root None v 0 32768 MMU_RXW (MMU_READ OR MMU_WRITE OR MMU_USER) False True u = (Inr b, t)"
    using v(3) by (simp add: vmar_map_def len)
  have b: "page_aligned b" by (rule map_ext_aligned [OF map]) simp
  obtain n where n: "b = 4096 * n" using b by (auto simp: page_aligned_iff)
  show "page_aligned (sp + 8)" "32768 \<le> sp + 8" using v(4) len by (auto simp: page_aligned_iff n)
  obtain vob where "vmos u v = Some vob" using v(2) by (auto simp: vmo_len_def rbind_eq_Inr get_vmo_def ok_or_eq_Inr)
  from map_ext_pages [OF map this]
  have pages: "\<exists>pa. host_map t (b + j * 4096) = Some (pa, to_mmap_prot (MMU_READ OR MMU_WRITE OR MMU_USER))" if "j < 8" for j
    using that by auto
  have prots: "{PROT_READ, PROT_WRITE} \<subseteq> to_mmap_prot (MMU_READ OR MMU_WRITE OR MMU_USER)"
    by (simp add: to_mmap_prot_iff flags_contains_def mmu_flag_defs)
  show "\<forall>a. sp + 8 - 32768 \<le> a \<and> a < sp + 8 \<longrightarrow> translate PROT_READ t a \<noteq> None \<and> translate PROT_WRITE t a \<noteq> None"
  proof (intro allI impI)
    fix a assume "sp + 8 - 32768 \<le> a \<and> a < sp + 8"
    then have a: "b \<le> a" "a < b + 32768" using v(4) len by auto
    define j where "j = a div 4096 - n"
    have "a - a mod 4096 = 4096 * (a div 4096)" by (simp add: minus_mod_eq_mult_div)
    moreover have "n \<le> a div 4096" "a div 4096 < n + 8" using a by (auto simp: n)
    ultimately have "a - a mod 4096 = b + j * 4096" "j < 8" by (auto simp: j_def n)
    then show "translate PROT_READ t a \<noteq> None \<and> translate PROT_WRITE t a \<noteq> None"
      using pages [of j] prots by (auto simp: translate_def)
  qed
qed

subsection \<open>The message\<close>

lemma boot_handles_eq:
  "boot_handles o1 =
     [handle_new (KObj T_Process (bo_proc o1)) R_DEFAULT_PROCESS,
      handle_new (KObj T_VmAddressRegion (bo_vmar o1)) (R_DEFAULT_VMAR OR R_IO),
      handle_new (KObj T_Job (bo_job o1)) R_DEFAULT_JOB,
      handle_new (KObj T_Resource (bo_resource o1)) R_DEFAULT_RESOURCE,
      handle_new (KObj T_VmObject (bo_zbi o1)) R_DEFAULT_VMO] @
     map (\<lambda>i. handle_new (KObj T_VmObject (bo_vdso o1 ! i)) (R_DEFAULT_VMO OR R_EXECUTE)) [0, 1, 2] @
     map (\<lambda>k. handle_new (KObj T_VmObject k) R_DEFAULT_VMO)
       [bo_crashlog o1, bo_counter_names o1, bo_counters o1, bo_instrumentation o1, bo_instrumentation o1,
        bo_instrumentation o1, bo_instrumentation o1]"
  by (simp add: boot_handles_def Let_def k_defs eval_nat_numeral)

subsection \<open>The first process\<close>

lemma new_peers_distinct: "(k :: koid) \<noteq> k + 1"
  by simp

lemma channel_create_result:
  fixes s :: "'a sys_state_scheme"
  assumes "channel_create s = ((a, b), t)"
  shows "a \<noteq> b" "channels t a = Some (channel_init \<lparr>base_id = a, base_name = ''''\<rparr> (Some b))"
    "channels t b = Some (channel_init \<lparr>base_id = b, base_name = ''''\<rparr> (Some a))"
    "host_map t = host_map s" "procs t = procs s" "threads t = threads s" "spawned t = spawned s" "resources t = resources s"
  using assms by (auto simp: channel_create_eq)

text \<open>
  The steps from the creation of the process to the message leave the new process and thread as they
  are; the steps after the stack has been mapped leave the page table alone.
\<close>

lemma boot_memory_frames:
  fixes s t :: "'a sys_state_scheme"
  assumes "load_userboot env img root s = (Inr (entry, sz), s1)" and "load_vdso env img root sz s1 = (Inr vdso, s2)"
    and "load_zbi img s2 = (Inr zbi, s3)" and "map_stack root s3 = (Inr sp, t)"
  shows "vmar_state.more t = vmar_state.more s"
  using keepsD [OF keeps_boot(1) assms(1)] keepsD [OF keeps_boot(2) assms(2)] keepsD [OF keeps_boot(3) assms(4)]
    keepsD [OF keeps_above [OF keeps_boot_memory(1)] assms(3)] by simp

lemma boot_late_frames:
  fixes s t :: "'a sys_state_scheme"
  assumes "prepare_vdso env v s = (Inr ts, s1)" and "new_paged i s1 = (Inr crash, s2)" and "vmo_set_name crash n1 s2 = (Inr (), s3)"
    and "create_kcounter_vmo s3 = (Inr cs, s4)" and "new_paged j s4 = (Inr ins, s5)" and "vmo_set_name ins n2 s5 = (Inr (), t)"
  shows "mem_above t = mem_above s"
  using keepsD [OF keeps_boot_memory(2) assms(1)] keepsD [OF keeps_new_paged assms(2)] keepsD [OF keeps_vmo_set_name assms(3)]
    keepsD [OF keeps_boot_memory(3) assms(4)] keepsD [OF keeps_new_paged assms(5)] keepsD [OF keeps_vmo_set_name assms(6)] by simp

lemma pure_step: "(case m of (a, b) \<Rightarrow> (Inr a, b)) = (Inr x, t) \<longleftrightarrow> m = (x, t)"
  by (cases m) auto

lemma run_userboot_steps:
  fixes s t :: "'a sys_state_scheme"
  assumes "run_userboot env img cmdline s = (Inr p, t)"
  obtains job s1 s2 x s3 res s4 vmar entry sz s5 vdso s6 zbi s7 sp s8 uc kc s9 t1 t2 s10 crash s11 s12 cn ca s13 ins s14 s15 s16 s17 where
    "job_root s = (Inr job, s1)" and "process_create job ''userboot'' s1 = (Inr p, s2)"
    and "thread_create (be_context env) p ''userboot'' s2 = (Inr x, s3)"
    and "resource_create ''root'' RK_ROOT 0 0x100000000 0 s3 = (res, s4)" and "process_vmar p s4 = Inr vmar"
    and "load_userboot env img vmar s4 = (Inr (entry, sz), s5)" and "load_vdso env img vmar sz s5 = (Inr vdso, s6)"
    and "load_zbi img s6 = (Inr zbi, s7)" and "map_stack vmar s7 = (Inr sp, s8)" and "channel_create s8 = ((uc, kc), s9)"
    and "prepare_vdso env vdso s9 = (Inr (t1, t2), s10)" and "new_paged 1 s10 = (Inr crash, s11)"
    and "vmo_set_name crash ''crashlog'' s11 = (Inr (), s12)" and "create_kcounter_vmo s12 = (Inr (cn, ca), s13)"
    and "new_paged 0 s13 = (Inr ins, s14)" and "vmo_set_name ins ''UNIMPLEMENTED_VMO'' s14 = (Inr (), s15)"
    and "channel_write kc \<lparr>msg_data = boot_data cmdline, msg_handles = boot_handles \<lparr>bo_proc = p, bo_vmar = vmar, bo_job = job,
           bo_resource = res, bo_zbi = zbi, bo_vdso = [vdso, t1, t2], bo_crashlog = crash, bo_counter_names = cn,
           bo_counters = ca, bo_instrumentation = ins\<rparr>\<rparr> s15 = (Inr (), s16)"
    and "process_start p x (of_nat entry) (of_nat sp) (Some (handle_new (KObj T_Channel uc) R_DEFAULT_CHANNEL)) 0 s16 = (Inr (), s17)"
    and "t = s17\<lparr>channels := (channels s17)(kc := None)\<rparr>"
  using assms
  by (clarsimp simp: run_userboot_def sbind_eq_Inr unwrap_Inr channel_drop_def Let_def pure_step)

lemma stack_pointer_mod:
  assumes "page_aligned (sp + 8)"
  shows "sp mod 16 = 8"
proof -
  obtain n where "sp + 8 = 4096 * n" using assms(1) unfolding page_aligned_iff by (metis mod_0_imp_dvd dvdE)
  moreover define m where "m = 256 * n"
  ultimately have "sp + 8 = 16 * m" by simp
  then show ?thesis by presburger
qed

lemma boot_early:
  fixes s :: "'a sys_state_scheme"
  assumes "job_root s = (Inr job, s1)" and "process_create job nm s1 = (Inr p, s2)" and "thread_create cx p nm s2 = (Inr x, s3)"
    and "resource_create rn RK_ROOT 0 len 0 s3 = (res, s4)"
  shows "\<exists>pr. procs s4 p = Some pr \<and> pr_job pr = job \<and> pr_handles pr = Map.empty \<and> pr_max_handle_id pr = 0 \<and> pr_threads pr = [x] \<and>
     threads s4 x = Some (thread_init \<lparr>base_id = x, base_name = nm\<rparr> p cx) \<and> spawned s4 = spawned s \<and>
     (\<exists>rs. resources s4 res = Some rs \<and> rs_kind rs = RK_ROOT)"
proof -
  obtain pr where pr: "procs s2 p = Some pr" "pr_job pr = job" "pr_handles pr = Map.empty" "pr_max_handle_id pr = 0"
    "pr_threads pr = []" "spawned s2 = spawned s1"
    using process_create_result [OF assms(2)] by blast
  have sp1: "spawned s1 = spawned s" using assms(1) by (auto simp: job_root_def kobject_base_new_def new_koid_def put_job_def)
  have th: "procs s3 p = Some (pr\<lparr>pr_threads := [x]\<rparr>)" "threads s3 x = Some (thread_init \<lparr>base_id = x, base_name = nm\<rparr> p cx)"
    "spawned s3 = spawned s2"
    using thread_create_result [OF assms(3) pr(1)] pr(5) by simp_all
  have "procs s4 = procs s3" "threads s4 = threads s3" "spawned s4 = spawned s3" "\<exists>rs. resources s4 res = Some rs \<and> rs_kind rs = RK_ROOT"
    using assms(4) by (auto simp: resource_create_def kobject_base_with_name_def new_koid_def)
  then show ?thesis using th pr sp1 by simp
qed

text \<open>The first process and its thread at the end, given what the steps to the message have left.\<close>

lemma boot_last_steps:
  fixes s t :: "'a sys_state_scheme"
  assumes s: "procs s p = Some pr" "pr_handles pr = Map.empty" "pr_max_handle_id pr = 0" "threads s x = Some th" "th_context th = Some cx"
    and ch: "channels s uc = Some ca" "channels s kc = Some cb" "ch_peer cb = Some uc"
    and wr: "channel_write kc m s = (Inr (), u)" and st: "process_start p x entry sp (Some h) 0 u = (Inr (), w)"
    and t: "t = w\<lparr>channels := (channels w)(kc := None)\<rparr>"
  shows "procs t p = Some (pr\<lparr>pr_status := PS_Running, pr_max_handle_id := 1, pr_handles := [3 \<mapsto> h]\<rparr>)"
    "threads t x = Some (th\<lparr>th_first := True, th_state := TS_Running, th_context := Some (start_context entry sp 3 0 cx)\<rparr>)"
    "spawned t = spawned s @ [x]" "host_map t = host_map s" "resources t = resources s"
    "channels t = (channels s)(uc \<mapsto> ca\<lparr>ch_queue := ch_queue ca @ [m]\<rparr>, kc := None)"
proof -
  note sent = channel_write_result [OF wr ch]
  have u: "procs u p = Some pr" "threads u x = Some th" "spawned u = spawned s" "host_map u = host_map s" "resources u = resources s"
    "channels u = (channels s)(uc \<mapsto> ca\<lparr>ch_queue := ch_queue ca @ [m]\<rparr>)"
    using s by (simp_all add: sent) (simp_all add: put_channel_def)
  note start = process_start_result [OF st u(1,2) s(5,3,2)]
  show "procs t p = Some (pr\<lparr>pr_status := PS_Running, pr_max_handle_id := 1, pr_handles := [3 \<mapsto> h]\<rparr>)"
    "threads t x = Some (th\<lparr>th_first := True, th_state := TS_Running, th_context := Some (start_context entry sp 3 0 cx)\<rparr>)"
    "spawned t = spawned s @ [x]" "host_map t = host_map s" "resources t = resources s"
    "channels t = (channels s)(uc \<mapsto> ca\<lparr>ch_queue := ch_queue ca @ [m]\<rparr>, kc := None)"
    using start u by (simp_all add: t)
qed

end
