(* ===== verification/Boot_Run.thy ===== *)
theory Boot_Run
  imports Boot
begin

text \<open>
  \<open>run_userboot\<close> succeeds. Each step of the loader is a rule over what it needs: free frames, the sizes
  of the memory objects made so far and the address regions. The rules are then run on a small
  userboot and a vDSO.
\<close>

subsection \<open>What a step needs\<close>

definition has_pages :: "'a vmar_state_scheme \<Rightarrow> koid \<Rightarrow> nat \<Rightarrow> bool" where
  \<comment> \<open>a paged memory object of \<open>n\<close> pages, open to reading, writing and cloning\<close>
  "has_pages s x n \<longleftrightarrow> (\<exists>v i pg. vmos s x = Some v \<and> vo_trait v = Paged i \<and> paged_objs s i = Some pg \<and>
     vo_mapping_count v \<le> next_mapping s \<and> pg_cache pg = Cached \<and> \<not> pg_contiguous pg \<and> pg_pin pg = 0 \<and> length (pg_frames pg) = n)"

definition boot_mem ::
  "nat \<Rightarrow> koid \<Rightarrow> (koid \<Rightarrow> nat option) \<Rightarrow> (koid \<Rightarrow> vmar option) \<Rightarrow> 'a vmar_state_scheme \<Rightarrow> bool" where
  \<comment> \<open>\<open>f\<close> free frames and mappings, the next id \<open>k\<close>, memory objects of the sizes \<open>P\<close>, the regions \<open>V\<close>\<close>
  "boot_mem f k P V s \<longleftrightarrow>
     heap_inv s \<and> f \<le> length (avail_frames s) \<and> next_mapping s + f < usize_lim \<and> next_koid s = k \<and> vmars s = V \<and> (\<forall>x n. P x = Some n \<longrightarrow> has_pages s x n)"

lemma boot_memD:
  assumes "boot_mem f k P V s"
  shows "heap_inv s" "f \<le> length (avail_frames s)" "next_koid s = k" "vmars s = V" "P x = Some n \<Longrightarrow> has_pages s x n"
    "next_mapping s + f < usize_lim"
  using assms by (simp_all add: boot_mem_def)

lemma has_pagesE:
  assumes "has_pages s x n" and "heap_inv s"
  obtains v i pg where "vmos s x = Some v" and "vo_trait v = Paged i" and "paged_objs s i = Some pg" and "pg_cache pg = Cached"
    and "vo_mapping_count v \<le> next_mapping s" and "\<not> pg_contiguous pg" and "pg_pin pg = 0" and "length (pg_frames pg) = n" and "paged_ok pg" and "i < next_obj s"
    and "n * 4096 < usize_lim"
proof -
  obtain v i pg where v: "vmos s x = Some v" "vo_trait v = Paged i" "paged_objs s i = Some pg" "pg_cache pg = Cached"
    "vo_mapping_count v \<le> next_mapping s" "\<not> pg_contiguous pg" "pg_pin pg = 0" "length (pg_frames pg) = n"
    using assms(1) by (auto simp: has_pages_def)
  have "paged_ok pg" "i < next_obj s" using assms(2) v(3) by (auto simp: heap_inv_def)
  moreover from this(1) have "n * 4096 < usize_lim" using paged_ok_size [of pg] v(8) by (simp add: mult.commute)
  ultimately show thesis using v that by blast
qed

subsection \<open>Memory objects\<close>

lemma boot_new_paged:
  fixes s :: "'a vmar_state_scheme"
  assumes b: "boot_mem (n + f) k P V s"
  shows "\<exists>t. new_paged n s = (Inr k, t) \<and> boot_mem f (k + 1) (P(k \<mapsto> n)) V t"
proof -
  note B = boot_memD [OF b]
  let ?s1 = "s\<lparr>next_koid := next_koid s + 1\<rparr>"
  let ?pg = "paged_default\<lparr>pg_frames := take n (avail_frames s)\<rparr>" and ?v = "vmobject_init '''' False (Paged (next_obj s)) None"
  let ?u = "?s1\<lparr>avail_frames := drop n (avail_frames s), pmem := zero_all (take n (avail_frames s)) (pmem s),
      paged_objs := (paged_objs s)(next_obj s \<mapsto> ?pg), next_obj := Suc (next_obj s)\<rparr>"
  have inv: "heap_inv ?s1" using B(1) by (simp add: heap_inv_def)
  have n: "n \<le> length (avail_frames s)" using B(2) by simp
  have new: "paged_new n ?s1 = (Inr (next_obj s), ?u)" using paged_new_eq [OF inv, of n] n by simp
  then have "heap_inv ?u" using heap_inv_new [OF inv, of n] by simp
  then have hu: "heap_inv (vmo_alloc k ?v ?u)" by (simp add: heap_inv_def vmo_alloc_def retain_base_def put_vmo_def)
  have run: "new_paged n s = (Inr k, vmo_alloc k ?v ?u)"
    using new B(3) by (simp add: new_paged_def new_paged_with_resizable_def new_koid_def sbind_def)
  have fields: "next_mapping (vmo_alloc k ?v ?u) = next_mapping s" "vmos (vmo_alloc k ?v ?u) = (vmos s)(k \<mapsto> ?v)" "paged_objs (vmo_alloc k ?v ?u) = (paged_objs s)(next_obj s \<mapsto> ?pg)"
    by (simp_all add: vmo_alloc_def retain_base_def put_vmo_def)
  have pages: "has_pages (vmo_alloc k ?v ?u) x m" if "(P(k \<mapsto> n)) x = Some m" for x m
  proof (cases "x = k")
    case True
    then show ?thesis using that n unfolding has_pages_def fields by (simp add: vmobject_init_def paged_default_def)
  next
    case False
    then have "has_pages s x m" using that B(5) by simp
    then show ?thesis using False B(1)
      by (elim has_pagesE) (auto simp: has_pages_def fields intro!: exI)
  qed
  have "f \<le> length (avail_frames (vmo_alloc k ?v ?u))" "next_koid (vmo_alloc k ?v ?u) = k + 1" "vmars (vmo_alloc k ?v ?u) = V"
    "next_mapping (vmo_alloc k ?v ?u) + f < usize_lim"
    using B by (simp_all add: vmo_alloc_def retain_base_def put_vmo_def)
  then show ?thesis using run hu pages unfolding boot_mem_def by blast
qed

lemma boot_mem_pmem:
  fixes s :: "'a vmar_state_scheme"
  assumes "boot_mem f k P V s"
  shows "boot_mem f k P V (s\<lparr>pmem := m\<rparr>)"
  using assms by (auto simp: boot_mem_def has_pages_def heap_inv_def)

lemma boot_vmo_write:
  fixes s :: "'a vmar_state_scheme"
  assumes b: "boot_mem f k P V s" and P: "P x = Some n" and len: "off + length buf \<le> 4096 * n"
  shows "\<exists>t. vmo_write x off buf s = (Inr (), t) \<and> boot_mem f k P V t"
proof -
  obtain v i pg where v: "vmos s x = Some v" "vo_trait v = Paged i" "paged_objs s i = Some pg" "pg_cache pg = Cached"
    "length (pg_frames pg) = n" "paged_ok pg" "n * 4096 < usize_lim"
    by (rule has_pagesE [OF boot_memD(5) [OF b P] boot_memD(1) [OF b]]) blast
  have "off + length buf < usize_lim" using len v(7) by simp
  then obtain m where "paged_write i off buf s = (Inr (), s\<lparr>pmem := m\<rparr>)"
    using paged_write_bytes [OF v(3,4,6), of off buf] len v(5) by metis
  then have "vmo_write x off buf s = (Inr (), s\<lparr>pmem := m\<rparr>)" using v(1,2) by (simp add: vmo_write_def with_vmo_def)
  then show ?thesis using boot_mem_pmem [OF b] by blast
qed

lemma boot_vmo_set_name:
  fixes s :: "'a vmar_state_scheme"
  assumes b: "boot_mem f k P V s" and P: "P x = Some n"
  shows "\<exists>t. vmo_set_name x nm s = (Inr (), t) \<and> boot_mem f k P V t"
proof -
  obtain v where v: "vmos s x = Some v" by (rule has_pagesE [OF boot_memD(5) [OF b P] boot_memD(1) [OF b]]) blast
  have "has_pages (put_vmo x (v\<lparr>vo_name := nm\<rparr>) s) y m" if "has_pages s y m" for y m
    using that v by (cases "y = x") (auto simp: has_pages_def put_vmo_def)
  then have "boot_mem f k P V (put_vmo x (v\<lparr>vo_name := nm\<rparr>) s)"
    using b by (auto simp: boot_mem_def put_vmo_def heap_inv_def)
  then show ?thesis using v by (simp add: vmo_set_name_def with_vmo_def)
qed

lemma boot_vmo_len:
  fixes s :: "'a vmar_state_scheme"
  assumes b: "boot_mem f k P V s" and P: "P x = Some n"
  shows "vmo_len x s = Inr (n * 4096)"
  by (rule has_pagesE [OF boot_memD(5) [OF b P] boot_memD(1) [OF b]])
    (simp add: vmo_len_def get_vmo_def paged_len_def get_paged_def umul_def)

lemma boot_create_child:
  fixes s :: "'a vmar_state_scheme"
  assumes b: "boot_mem (n + f) k P V s" and P: "P x = Some n" and fresh: "P k = None"
  shows "\<exists>t. vmo_create_child x r 0 (n * 4096) s = (Inr k, t) \<and> boot_mem f (k + 1) (P(k \<mapsto> n)) V t"
proof -
  note B = boot_memD [OF b]
  obtain v i pg where v: "vmos s x = Some v" "vo_trait v = Paged i" "paged_objs s i = Some pg" "pg_cache pg = Cached"
    "\<not> pg_contiguous pg" "pg_pin pg = 0" "length (pg_frames pg) = n" "i < next_obj s" "n * 4096 < usize_lim"
    by (rule has_pagesE [OF boot_memD(5) [OF b P] boot_memD(1) [OF b]]) blast
  have xk: "x \<noteq> k" using P fresh by auto
  let ?s1 = "s\<lparr>next_koid := next_koid s + 1\<rparr>"
  have inv: "heap_inv ?s1" using B(1) by (simp add: heap_inv_def)
  have al: "page_aligned (n * 4096)" by (simp add: page_aligned_iff)
  have pn: "pages (n * 4096) = n" using pages_aligned [OF al v(9)] by simp
  have pg1: "paged_objs ?s1 i = Some pg" using v(3) by simp
  have ready: "child_ready pg 0 (n * 4096)" using v(4-6) al by (simp add: child_ready_def)
  obtain m fs where fs: "fs = take n (avail_frames s)" "length fs = n"
    "paged_create_child i 0 (n * 4096) ?s1 = (Inr (next_obj s), ?s1\<lparr>avail_frames := drop n (avail_frames s), pmem := m,
       paged_objs := (paged_objs s)(next_obj s \<mapsto> paged_default\<lparr>pg_frames := fs\<rparr>), next_obj := Suc (next_obj s)\<rparr>)"
    using inv pg1 ready by (cases rule: paged_create_child_cases) (use B(2) pn in auto)
  let ?u = "?s1\<lparr>avail_frames := drop n (avail_frames s), pmem := m,
       paged_objs := (paged_objs s)(next_obj s \<mapsto> paged_default\<lparr>pg_frames := fs\<rparr>), next_obj := Suc (next_obj s)\<rparr>"
  have hu: "heap_inv ?u" using heap_inv_create_child [OF inv, of i 0 "n * 4096"] fs(3) by simp
  define w where "w = vmobject_init (vo_name v) r (Paged (next_obj s)) (Some x)"
  define t where "t = snd (vmo_create_child x r 0 (n * 4096) s)"
  define cs where "cs = filter (vmo_alive (vmo_alloc k w ?u)) (vo_children v) @ [k]"
  have add: "add_child x k (vmo_alloc k w ?u) = (Inr (), put_vmo x (v\<lparr>vo_children := cs\<rparr>) (vmo_alloc k w ?u))"
    using v(1) xk by (simp add: add_child_def with_vmo_def cs_def) (simp add: vmo_alloc_def retain_base_def put_vmo_def)
  have run: "vmo_create_child x r 0 (n * 4096) s = (Inr k, put_vmo x (v\<lparr>vo_children := cs\<rparr>) (vmo_alloc k w ?u))"
    using v(1,2) fs(3) B(3) add by (simp add: vmo_create_child_def with_vmo_def new_koid_def sbind_def w_def)
  let ?t = "put_vmo x (v\<lparr>vo_children := cs\<rparr>) (vmo_alloc k w ?u)"
  have fields: "next_mapping ?t = next_mapping s" "vmos ?t = (vmos s)(k \<mapsto> w, x \<mapsto> v\<lparr>vo_children := cs\<rparr>)"
    "paged_objs ?t = (paged_objs s)(next_obj s \<mapsto> paged_default\<lparr>pg_frames := fs\<rparr>)"
    by (simp_all add: vmo_alloc_def retain_base_def put_vmo_def)
  have ht: "heap_inv ?t" using hu by (simp add: heap_inv_def vmo_alloc_def retain_base_def put_vmo_def)
  have pages: "has_pages ?t y m" if "(P(k \<mapsto> n)) y = Some m" for y m
  proof (cases "y = k")
    case True
    then show ?thesis using that fs(2) xk unfolding has_pages_def fields by (simp add: w_def vmobject_init_def paged_default_def)
  next
    case False
    then have "has_pages s y m" using that B(5) by simp
    then obtain v' i' pg' where *: "vmos s y = Some v'" "vo_trait v' = Paged i'" "paged_objs s i' = Some pg'" "pg_cache pg' = Cached"
      "vo_mapping_count v' \<le> next_mapping s" "\<not> pg_contiguous pg'" "pg_pin pg' = 0" "length (pg_frames pg') = m" "i' < next_obj s"
      by (rule has_pagesE [OF _ B(1)]) blast
    then show ?thesis using False v(1,2) unfolding has_pages_def fields by (cases "y = x") auto
  qed
  have "f \<le> length (avail_frames ?t)" "next_koid ?t = k + 1" "vmars ?t = V" "next_mapping ?t + f < usize_lim"
    using B by (simp_all add: vmo_alloc_def retain_base_def put_vmo_def)
  then show ?thesis using run ht pages unfolding boot_mem_def by blast
qed

subsection \<open>Address regions\<close>

lemma boot_allocate:
  fixes s :: "'a vmar_state_scheme"
  assumes b: "boot_mem f k P V s" and V: "V root = Some v" "va_inner v = Some inn" "root \<noteq> k"
    and d: "determine_offset s v inn o0 len PAGE_SIZE = Inr o1" and a: "va_addr v + o1 < usize_lim"
  shows "\<exists>t. allocate root o0 len fl PAGE_SIZE s = (Inr k, t) \<and>
     boot_mem f (k + 1) P (V(k \<mapsto> \<lparr>va_flags = fl, va_addr = va_addr v + o1, va_size = len, va_parent = Some root, va_inner = Some inner_default\<rparr>,
        root \<mapsto> v\<lparr>va_inner := Some (inn\<lparr>vin_children := vin_children inn @ [k]\<rparr>)\<rparr>)) t"
proof -
  note B = boot_memD [OF b]
  let ?t = "put_inner root (Some (inn\<lparr>vin_children := vin_children inn @ [k]\<rparr>))
     (put_vmar k \<lparr>va_flags = fl, va_addr = va_addr v + o1, va_size = len, va_parent = Some root, va_inner = Some inner_default\<rparr>
        (s\<lparr>next_koid := k + 1\<rparr>))"
  have "allocate root o0 len fl PAGE_SIZE s = (Inr k, ?t)"
    using B(3,4) V d a by (simp add: allocate_def with_inner_def sbind_def new_koid_def uadd_def)
  moreover have "boot_mem f (k + 1) P (V(k \<mapsto> \<lparr>va_flags = fl, va_addr = va_addr v + o1, va_size = len, va_parent = Some root,
      va_inner = Some inner_default\<rparr>, root \<mapsto> v\<lparr>va_inner := Some (inn\<lparr>vin_children := vin_children inn @ [k]\<rparr>)\<rparr>)) ?t"
    using b V by (simp add: boot_mem_def put_inner_def put_vmar_def heap_inv_def has_pages_def)
  ultimately show ?thesis by blast
qed

lemma rxw_permitted: "flags_contains MMU_RXW (fl AND MMU_RXW)"
  by (simp add: flags_contains_bits bit_and_iff)

lemma frame_aligned: "paged_ok pg \<Longrightarrow> i < length (pg_frames pg) \<Longrightarrow> page_aligned (pg_frames pg ! i)"
  by (auto simp: paged_ok_def frame_ok_def)

lemma boot_mapping_pages:
  fixes u :: "'a vmar_state_scheme"
  assumes "vmos u (mp_vmo mp) = Some w" and "vo_trait w = Paged i" and "paged_objs u i = Some pg" and ok: "paged_ok pg"
    and sp: "mp_size mp = m * 4096" "mp_vmo_offset mp = j * 4096" "length (mp_flags mp) = m" and jm: "j + m \<le> length (pg_frames pg)"
    and addr: "page_aligned (mp_addr mp)" "mp_addr mp + m * 4096 < usize_lim"
  shows "\<exists>h. mapping_map mp u = (Inr (), u\<lparr>host_map := h\<rparr>)"
proof -
  have lim: "length (pg_frames pg) < usize_lim" using paged_ok_size [OF ok] by simp
  have "\<exists>t. sfor (map_page mp (Paged i)) [0..<m] u = (Inr (), t) \<and> (\<exists>h. t = u\<lparr>host_map := h\<rparr>)"
  proof (rule sfor_all_ok)
    show "\<exists>h. u = u\<lparr>host_map := h\<rparr>" by (rule exI [of _ "host_map u"]) simp
  next
    fix q x assume q: "q \<in> set [0..<m]" and "\<exists>h. x = u\<lparr>host_map := h\<rparr>"
    then obtain h where x: "x = u\<lparr>host_map := h\<rparr>" by blast
    have qm: "q < m" using q by simp
    have idx: "j + q < length (pg_frames pg)" using qm jm by simp
    have "page_aligned (mp_addr mp + q * 4096)" using addr(1) by (simp add: page_aligned_iff)
    moreover have "page_aligned (pg_frames pg ! (j + q))" by (rule frame_aligned [OF ok idx])
    moreover have "q * 4096 < usize_lim" "mp_addr mp + q * 4096 < usize_lim" "j + q < usize_lim" using qm addr(2) idx lim by auto
    ultimately have "map_page mp (Paged i) q x = (Inr (), x\<lparr>host_map := (host_map x)(mp_addr mp + q * 4096 \<mapsto>
        (pg_frames pg ! (j + q), to_mmap_prot (mp_flags mp ! q)))\<rparr>)"
      using qm sp idx assms(3)
      by (simp add: map_page_def sbind_slift x uadd_def umul_def nth_flag_def paged_commit_page_def get_paged_def pt_map_def)
    then show "\<exists>t. map_page mp (Paged i) q x = (Inr (), t) \<and> (\<exists>h. t = u\<lparr>host_map := h\<rparr>)" using x by auto
  qed
  then show ?thesis using assms(1,2) sp(1) by (auto simp: mapping_map_def with_vmo_def)
qed

lemma boot_map:
  fixes s :: "'a vmar_state_scheme"
  assumes b: "boot_mem (Suc f) k P V s" and P: "P x = Some n" and V: "V root = Some v" "va_inner v = Some inn"
    and d: "determine_offset s v inn o0 (m * 4096) PAGE_SIZE = Inr o1" and tm: "test_map s v inn (m * 4096) PAGE_SIZE o1 = Inr True"
    and al: "page_aligned (va_addr v + o1)" and lim: "va_addr v + o1 + m * 4096 < usize_lim" and jm: "j + m \<le> n"
  shows "\<exists>t mp. vmar_map root o0 x (j * 4096) (m * 4096) fl s = (Inr (va_addr v + o1), t) \<and> map_span mp = (va_addr v + o1, m * 4096) \<and>
     boot_mem f k P (V(root \<mapsto> v\<lparr>va_inner := Some (inn\<lparr>vin_mappings := vin_mappings inn @ [mp]\<rparr>)\<rparr>)) t"
proof -
  note B = boot_memD [OF b]
  obtain w i pg where w: "vmos s x = Some w" "vo_trait w = Paged i" "paged_objs s i = Some pg" "pg_cache pg = Cached"
    "vo_mapping_count w \<le> next_mapping s" "length (pg_frames pg) = n" "paged_ok pg" "n * 4096 < usize_lim"
    by (rule has_pagesE [OF B(5) [OF P] B(1)]) blast
  have jm4: "j * 4096 + m * 4096 \<le> n * 4096" using jm by simp
  have args: "map_args x (j * 4096) (m * 4096) MMU_RXW fl False True s = Inr ()"
    using jm4 w(8) boot_vmo_len [OF b P] by (simp add: map_args_def page_aligned_iff rxw_permitted)
  obtain fl' where fl': "vmo_map_flags x fl s = Inr fl'"
    using w by (simp add: vmo_map_flags_def get_vmo_def paged_cache_policy_def get_paged_def)
  define mp where "mp = \<lparr>mp_id = next_mapping s, mp_permissions = MMU_RXW, mp_vmo = x, mp_flags = replicate (pages (m * 4096)) fl',
      mp_addr = va_addr v + o1, mp_size = m * 4096, mp_vmo_offset = j * 4096\<rparr>"
  define s1 where "s1 = s\<lparr>next_mapping := next_mapping s + 1, vmos := (vmos s)(x \<mapsto> w\<lparr>vo_mapping_count := vo_mapping_count w + 1\<rparr>),
      paged_objs := (paged_objs s)(i \<mapsto> pg\<lparr>pg_mappings := pg_mappings pg @ [next_mapping s]\<rparr>)\<rparr>"
  have cnt: "vo_mapping_count w + 1 < usize_lim" using w(5) B(6) by simp
  have new: "mapping_new (va_addr v + o1) (m * 4096) x (j * 4096) MMU_RXW fl' s = (Inr mp, s1)"
    using w cnt by (simp add: mapping_new_def vmo_append_mapping_def with_vmo_def sbind_slift uadd_def put_vmo_def
        paged_append_mapping_def with_paged_def put_paged_def Let_def mp_def s1_def sbind_def)
  have pm: "pages (m * 4096) = m" using pages_aligned [of "m * 4096"] jm4 w(8) by (simp add: page_aligned_iff)
  obtain h where h: "mapping_map mp s1 = (Inr (), s1\<lparr>host_map := h\<rparr>)"
    using boot_mapping_pages [of s1 mp "w\<lparr>vo_mapping_count := vo_mapping_count w + 1\<rparr>" i "pg\<lparr>pg_mappings := pg_mappings pg @ [next_mapping s]\<rparr>" m j]
      w al lim jm pm by (auto simp: mp_def s1_def paged_ok_def)
  let ?t = "put_inner root (Some (inn\<lparr>vin_mappings := vin_mappings inn @ [mp]\<rparr>)) (s1\<lparr>host_map := h\<rparr>)"
  have o1: "va_addr v + o1 < usize_lim" using lim by simp
  have run: "vmar_map root o0 x (j * 4096) (m * 4096) fl s = (Inr (va_addr v + o1), ?t)"
    using B(4) V args d fl' tm new h o1 by (simp add: vmar_map_def map_ext_def sbind_def with_inner_def uadd_def)
  have hs1: "heap_inv s1"
    using B(1) w(3) unfolding heap_inv_def s1_def by (auto simp: paged_ok_def split: if_splits) 
  have "has_pages ?t y q" if y: "has_pages s y q" for y q
  proof -
    obtain w' i' pg' where *: "vmos s y = Some w'" "vo_trait w' = Paged i'" "paged_objs s i' = Some pg'" "pg_cache pg' = Cached"
      "vo_mapping_count w' \<le> next_mapping s" "\<not> pg_contiguous pg'" "pg_pin pg' = 0" "length (pg_frames pg') = q"
      by (rule has_pagesE [OF y B(1)]) blast
    have f: "vmos ?t = vmos s1" "paged_objs ?t = paged_objs s1" "next_mapping ?t = next_mapping s + 1"
      by (simp_all add: put_inner_def put_vmar_def s1_def split: option.split)
    show ?thesis unfolding has_pages_def f
      using * w(1-3) by (cases "y = x"; cases "i' = i") (auto simp: s1_def)
  qed
  moreover have "heap_inv ?t" "f \<le> length (avail_frames ?t)" "next_koid ?t = k" "next_mapping ?t + f < usize_lim"
    "vmars ?t = V(root \<mapsto> v\<lparr>va_inner := Some (inn\<lparr>vin_mappings := vin_mappings inn @ [mp]\<rparr>)\<rparr>)"
    using hs1 B V by (simp_all add: put_inner_def put_vmar_def s1_def heap_inv_def)
  ultimately have "boot_mem f k P (V(root \<mapsto> v\<lparr>va_inner := Some (inn\<lparr>vin_mappings := vin_mappings inn @ [mp]\<rparr>)\<rparr>)) ?t"
    using B(5) by (simp add: boot_mem_def)
  then show ?thesis using run by (intro exI conjI) (auto simp: map_span_def mp_def)
qed

subsection \<open>Parts of the loader\<close>

lemma unwrap_ok: "m s = (Inr x, t) \<Longrightarrow> unwrap m s = (Inr x, t)"
  by (simp add: unwrap_Inr)

lemma image_fits: "length bs \<le> 4096 * (length bs div 4096 + 1)"
  using div_mult_mod_eq [of "length bs" 4096] mod_less_divisor [of 4096 "length bs"] by (simp add: algebra_simps)

lemma boot_load_zbi:
  fixes s :: "'a sys_state_scheme"
  assumes b: "boot_mem (length (img_zbi img) div 4096 + 1 + f) k P V s"
  shows "\<exists>t. load_zbi img s = (Inr k, t) \<and> boot_mem f (k + 1) (P(k \<mapsto> length (img_zbi img) div 4096 + 1)) V t"
proof -
  let ?n = "length (img_zbi img) div 4096 + 1"
  obtain t1 where t1: "new_paged ?n s = (Inr k, t1)" "boot_mem f (k + 1) (P(k \<mapsto> ?n)) V t1" using boot_new_paged [OF b] by blast
  have "0 + length (img_zbi img) \<le> 4096 * ?n" using image_fits [of "img_zbi img"] by simp
  then obtain t2 where t2: "vmo_write k 0 (img_zbi img) t1 = (Inr (), t2)" "boot_mem f (k + 1) (P(k \<mapsto> ?n)) V t2"
    using boot_vmo_write [OF t1(2), of k ?n 0 "img_zbi img"] by auto
  obtain t3 where t3: "vmo_set_name k ''zbi'' t2 = (Inr (), t3)" "boot_mem f (k + 1) (P(k \<mapsto> ?n)) V t3"
    using boot_vmo_set_name [OF t2(2), of k ?n] by auto
  have "load_zbi img s = (Inr k, t3)"
    using t1(1) t2(1) t3(1) by (simp add: load_zbi_def sbind_def unwrap_ok)
  then show ?thesis using t3(2) by blast
qed

lemma boot_kcounter:
  fixes s :: "'a sys_state_scheme"
  assumes b: "boot_mem (2 + f) k P V s"
  shows "\<exists>t. create_kcounter_vmo s = (Inr (k, k + 1), t) \<and> boot_mem f (k + 1 + 1) (P(k \<mapsto> 1, k + 1 \<mapsto> 1)) V t"
proof -
  let ?bs = "kcounter_header_bytes \<lparr>kc_magic = KCOUNTER_MAGIC, kc_max_cpu = 1, kc_counter_table_size = 0\<rparr>"
  have "boot_mem (1 + (1 + f)) k P V s" using b by simp
  then obtain t1 where t1: "new_paged 1 s = (Inr k, t1)" "boot_mem (1 + f) (k + 1) (P(k \<mapsto> 1)) V t1" using boot_new_paged by blast
  have "0 + length ?bs \<le> 4096 * 1" by (simp add: kcounter_header_bytes_def)
  then obtain t2 where t2: "vmo_write k 0 ?bs t1 = (Inr (), t2)" "boot_mem (1 + f) (k + 1) (P(k \<mapsto> 1)) V t2"
    using boot_vmo_write [OF t1(2), of k 1 0 ?bs] by auto
  obtain t3 where t3: "vmo_set_name k ''counters/desc'' t2 = (Inr (), t3)" "boot_mem (1 + f) (k + 1) (P(k \<mapsto> 1)) V t3"
    using boot_vmo_set_name [OF t2(2), of k 1] by auto
  obtain t4 where t4: "new_paged 1 t3 = (Inr (k + 1), t4)" "boot_mem f (k + 1 + 1) (P(k \<mapsto> 1, k + 1 \<mapsto> 1)) V t4"
    using boot_new_paged [OF t3(2)] by blast
  obtain t5 where t5: "vmo_set_name (k + 1) ''counters/arena'' t4 = (Inr (), t5)" "boot_mem f (k + 1 + 1) (P(k \<mapsto> 1, k + 1 \<mapsto> 1)) V t5"
    using boot_vmo_set_name [OF t4(2), of "k + 1" 1] by auto
  have "create_kcounter_vmo s = (Inr (k, k + 1), t5)"
    using t1(1) t2(1) t3(1) t4(1) t5(1) by (simp add: create_kcounter_vmo_def sbind_def unwrap_ok)
  then show ?thesis using t5(2) by blast
qed

lemma length_vdso_bytes:
  assumes "vdso_constants_of git = Inr c"
  shows "length (vdso_bytes c) \<le> 120"
  using assms
  by (auto simp: vdso_constants_of_def set_version_string_def vdso_bytes_def version_string_default_def vdso_initial_def
      vdso_version.defs Let_def split: if_splits prod.splits sum.splits)

lemma boot_prepare_vdso:
  fixes s :: "'a sys_state_scheme"
  assumes b: "boot_mem (n + (n + f)) k P V s" and P: "P x = Some n" "P k = None" "P (k + 1) = None"
    and c: "vdso_constants_of (be_git env) = Inr c" and n: "5 \<le> n"
  shows "\<exists>t. prepare_vdso env x s = (Inr (k, k + 1), t) \<and> boot_mem f (k + 1 + 1) (P(k \<mapsto> n, k + 1 \<mapsto> n)) V t"
proof -
  have ne: "x \<noteq> k" "x \<noteq> k + 1" using P by auto
  have "VDSO_DATA_CONSTANTS + length (vdso_bytes c) \<le> 4096 * n"
    using length_vdso_bytes [OF c] n by (simp add: VDSO_DATA_CONSTANTS_def)
  then obtain t1 where t1: "vmo_write x VDSO_DATA_CONSTANTS (vdso_bytes c) s = (Inr (), t1)" "boot_mem (n + (n + f)) k P V t1"
    using boot_vmo_write [OF b P(1)] by blast
  obtain t2 where t2: "vmo_set_name x ''vdso/full'' t1 = (Inr (), t2)" "boot_mem (n + (n + f)) k P V t2"
    using boot_vmo_set_name [OF t1(2) P(1)] by blast
  have len: "vmo_len x t2 = Inr (n * 4096)" by (rule boot_vmo_len [OF t2(2) P(1)])
  obtain t3 where t3: "vmo_create_child x False 0 (n * 4096) t2 = (Inr k, t3)" "boot_mem (n + f) (k + 1) (P(k \<mapsto> n)) V t3"
    using boot_create_child [OF t2(2) P(1,2)] by blast
  obtain t4 where t4: "vmo_set_name k ''vdso/test1'' t3 = (Inr (), t4)" "boot_mem (n + f) (k + 1) (P(k \<mapsto> n)) V t4"
    using boot_vmo_set_name [OF t3(2), of k n] by auto
  have P1: "(P(k \<mapsto> n)) x = Some n" "(P(k \<mapsto> n)) (k + 1) = None" using P ne by auto
  obtain t5 where t5: "vmo_create_child x False 0 (n * 4096) t4 = (Inr (k + 1), t5)" "boot_mem f (k + 1 + 1) (P(k \<mapsto> n, k + 1 \<mapsto> n)) V t5"
    using boot_create_child [OF t4(2) P1] by blast
  obtain t6 where t6: "vmo_set_name (k + 1) ''vdso/test2'' t5 = (Inr (), t6)" "boot_mem f (k + 1 + 1) (P(k \<mapsto> n, k + 1 \<mapsto> n)) V t6"
    using boot_vmo_set_name [OF t5(2), of "k + 1" n] by auto
  have "prepare_vdso env x s = (Inr (k, k + 1), t6)"
    using c t1(1) t2(1) len t3(1) t4(1) t5(1) t6(1) by (simp add: prepare_vdso_def sbind_def unwrap_ok)
  then show ?thesis using t6(2) by blast
qed

subsection \<open>Places in a region\<close>

definition placed ::
  "(koid \<Rightarrow> vmar option) \<Rightarrow> vmar \<Rightarrow> vmar_inner \<Rightarrow> usize option \<Rightarrow> usize \<Rightarrow> usize \<Rightarrow> bool" where
  \<comment> \<open>the region \<open>v\<close> gives \<open>len\<close> bytes at the offset \<open>o1\<close>\<close>
  "placed V v inn o0 len o1 \<longleftrightarrow>
     determine_offset (vmar_start []\<lparr>vmars := V\<rparr>) v inn o0 len PAGE_SIZE = Inr o1 \<and>
     test_map (vmar_start []\<lparr>vmars := V\<rparr>) v inn len PAGE_SIZE o1 = Inr True \<and>
     page_aligned (va_addr v + o1) \<and> va_addr v + o1 + len < usize_lim"

lemma placedD:
  fixes s :: "'a vmar_state_scheme"
  assumes "placed V v inn o0 len o1" and "vmars s = V"
  shows "determine_offset s v inn o0 len PAGE_SIZE = Inr o1" "test_map s v inn len PAGE_SIZE o1 = Inr True"
    "page_aligned (va_addr v + o1)" "va_addr v + o1 + len < usize_lim"
proof -
  let ?u = "vmar_start []\<lparr>vmars := V\<rparr>"
  have get: "get_vmar c s = get_vmar c ?u" for c using assms(2) by (simp add: get_vmar_def)
  have over: "vmar_overlap s a e c = vmar_overlap ?u a e c" for a e c by (simp add: vmar_overlap_def get)
  have any: "zx_any (vmar_overlap s a e) cs = zx_any (vmar_overlap ?u a e) cs" for a e cs by (induction cs) (simp_all add: over)
  have tm: "test_map s v inn len al o2 = test_map ?u v inn len al o2" for al o2 unfolding test_map_def any by (rule refl)
  have fnd: "zx_find (test_map s v inn len al) cs = zx_find (test_map ?u v inn len al) cs" for al cs
    by (induction cs) (simp_all add: tm)
  have "determine_offset s v inn o0 len PAGE_SIZE = determine_offset ?u v inn o0 len PAGE_SIZE"
    unfolding determine_offset_def find_free_area_def fnd tm get by (rule refl)
  then show "determine_offset s v inn o0 len PAGE_SIZE = Inr o1" "test_map s v inn len PAGE_SIZE o1 = Inr True"
    "page_aligned (va_addr v + o1)" "va_addr v + o1 + len < usize_lim"
    using assms(1) tm by (simp_all add: placed_def)
qed

lemma boot_map_stack:
  fixes s :: "'a sys_state_scheme"
  assumes b: "boot_mem (8 + Suc f) k P V s" and V: "V root = Some v" "va_inner v = Some inn"
    and pl: "placed V v inn None 32768 o1"
  shows "\<exists>t mp. map_stack root s = (Inr (va_addr v + o1 + 32760), t) \<and>
     boot_mem f (k + 1) (P(k \<mapsto> 8)) (V(root \<mapsto> v\<lparr>va_inner := Some (inn\<lparr>vin_mappings := vin_mappings inn @ [mp]\<rparr>)\<rparr>)) t"
proof -
  let ?fl = "MMU_READ OR MMU_WRITE OR MMU_USER"
  obtain t1 where t1: "new_paged STACK_PAGES s = (Inr k, t1)" "boot_mem (Suc f) (k + 1) (P(k \<mapsto> 8)) V t1"
    using boot_new_paged [OF b] by (auto simp: STACK_PAGES_def)
  have len: "vmo_len k t1 = Inr 32768" using boot_vmo_len [OF t1(2), of k 8] by simp
  note D = placedD [OF pl boot_memD(4) [OF t1(2)]]
  obtain t2 mp where t2: "vmar_map root None k 0 32768 ?fl t1 = (Inr (va_addr v + o1), t2)"
    "boot_mem f (k + 1) (P(k \<mapsto> 8)) (V(root \<mapsto> v\<lparr>va_inner := Some (inn\<lparr>vin_mappings := vin_mappings inn @ [mp]\<rparr>)\<rparr>)) t2"
    using boot_map [OF t1(2), of k 8 root v inn None 8 o1 0 ?fl] V D by auto
  have "map_stack root s = (Inr (va_addr v + o1 + 32760), t2)"
    using t1(1) len t2(1) D(4) by (simp add: map_stack_def sbind_def unwrap_ok uadd_def usub_def)
  then show ?thesis using t2(2) by blast
qed

subsection \<open>Images of one segment\<close>

definition flat_elf :: "elf_file \<Rightarrow> nat \<Rightarrow> bool" where
  \<comment> \<open>one loadable segment of \<open>n\<close> pages at address 0\<close>
  "flat_elf elf n \<longleftrightarrow> (\<exists>ph data. elf_programs elf = [ph] \<and> ph_type ph = Some PT_Load \<and> ph_virtual_addr ph = 0 \<and>
     ph_physical_addr ph = 0 \<and> ph_mem_size ph = n * 4096 \<and> ph_data ph = Some (Seg_Undefined data) \<and>
     length data \<le> n * 4096 \<and> 0 < n \<and> n \<le> 65536)"

lemma flat_elfE:
  assumes "flat_elf elf n"
  obtains ph data where "elf_programs elf = [ph]" "ph_type ph = Some PT_Load" "ph_virtual_addr ph = 0" "ph_physical_addr ph = 0"
    "ph_mem_size ph = n * 4096" "ph_data ph = Some (Seg_Undefined data)" "length data \<le> n * 4096" "0 < n" "n \<le> 65536"
  using assms by (auto simp: flat_elf_def)

lemma flat_pages: "n \<le> 65536 \<Longrightarrow> pages (n * 4096) = n"
  using pages_aligned [of "n * 4096"] by (simp add: page_aligned_iff)

lemma flat_size: "flat_elf elf n \<Longrightarrow> load_segment_size elf = Inr (n * 4096)"
  by (elim flat_elfE) (simp add: load_segment_size_def uadd_def umul_def flat_pages)

lemma placed_whole:
  assumes "va_inner w = Some inner_default" and "va_size w = m * 4096" and "page_aligned (va_addr w)" and "va_addr w + m * 4096 < usize_lim"
  shows "placed V w inner_default (Some 0) (m * 4096) 0"
  using assms by (simp add: placed_def determine_offset_def test_map_def inner_default_def uadd_def page_aligned_iff)

lemma boot_load_userboot:
  fixes s :: "'a sys_state_scheme"
  assumes b: "boot_mem (n + Suc f) k P V s" and V: "V root = Some v" "va_inner v = Some inn" "root \<noteq> k"
    and elf: "be_parse env (img_userboot img) = Some elf" "flat_elf elf n"
    and pl: "placed V v inn None (n * 4096) o1" and entry: "va_addr v + o1 + elf_entry_point elf < usize_lim"
  shows "\<exists>t mp. load_userboot env img root s = (Inr (va_addr v + o1 + elf_entry_point elf, n * 4096), t) \<and>
     boot_mem f (k + 1 + 1) (P(k + 1 \<mapsto> n))
       (V(root \<mapsto> v\<lparr>va_inner := Some (inn\<lparr>vin_children := vin_children inn @ [k]\<rparr>)\<rparr>,
          k \<mapsto> \<lparr>va_flags = VF_CAN_MAP_RXW, va_addr = va_addr v + o1, va_size = n * 4096, va_parent = Some root,
             va_inner = Some (inner_default\<lparr>vin_mappings := [mp]\<rparr>)\<rparr>)) t"
proof -
  let ?w = "\<lparr>va_flags = VF_CAN_MAP_RXW, va_addr = va_addr v + o1, va_size = n * 4096, va_parent = Some root, va_inner = Some inner_default\<rparr>"
  let ?r = "v\<lparr>va_inner := Some (inn\<lparr>vin_children := vin_children inn @ [k]\<rparr>)\<rparr>"
  let ?V = "V(root \<mapsto> ?r, k \<mapsto> ?w)"
  obtain ph data where ph: "elf_programs elf = [ph]" "ph_type ph = Some PT_Load" "ph_virtual_addr ph = 0" "ph_mem_size ph = n * 4096"
    "ph_data ph = Some (Seg_Undefined data)" "length data \<le> n * 4096" "n \<le> 65536"
    by (rule flat_elfE [OF elf(2)]) blast
  note D = placedD [OF pl boot_memD(4) [OF b]]
  have "va_addr v + o1 < usize_lim" using D(4) by simp
  from boot_allocate [OF b V D(1) this, of VF_CAN_MAP_RXW]
  obtain t1 where t1: "allocate root None (n * 4096) VF_CAN_MAP_RXW PAGE_SIZE s = (Inr k, t1)"
    "boot_mem (n + Suc f) (k + 1) P (V(k \<mapsto> ?w, root \<mapsto> ?r)) t1" by blast
  then have b1: "boot_mem (n + Suc f) (k + 1) P ?V t1" using V(3) by (simp add: fun_upd_twist)
  obtain t2 where t2: "new_paged n t1 = (Inr (k + 1), t2)" "boot_mem (Suc f) (k + 1 + 1) (P(k + 1 \<mapsto> n)) ?V t2"
    using boot_new_paged [OF b1] by blast
  obtain t3 where t3: "vmo_write (k + 1) 0 data t2 = (Inr (), t3)" "boot_mem (Suc f) (k + 1 + 1) (P(k + 1 \<mapsto> n)) ?V t3"
    using boot_vmo_write [OF t2(2), of "k + 1" n 0 data] ph(6) by auto
  have len: "vmo_len (k + 1) t3 = Inr (n * 4096)" using boot_vmo_len [OF t3(2), of "k + 1" n] by simp
  have pl0: "placed ?V ?w inner_default (Some 0) (n * 4096) 0" using D(3,4) by (intro placed_whole) simp_all
  note D0 = placedD [OF pl0 boot_memD(4) [OF t3(2)]]
  obtain t4 mp where t4: "vmar_map k (Some 0) (k + 1) 0 (n * 4096) (to_mmu_flags ph) t3 = (Inr (va_addr v + o1), t4)"
    "boot_mem f (k + 1 + 1) (P(k + 1 \<mapsto> n)) (?V(k \<mapsto> ?w\<lparr>va_inner := Some (inner_default\<lparr>vin_mappings := vin_mappings inner_default @ [mp]\<rparr>)\<rparr>)) t4"
    using boot_map [OF t3(2), of "k + 1" n k ?w inner_default "Some 0" n 0 0 "to_mmu_flags ph"] D0 by auto
  have load: "load_from_elf k elf t1 = (Inr (k + 1), t4)"
    using ph t2(1) t3(1) len t4(1)
    by (simp add: load_from_elf_def make_vmo_def sbind_def uadd_def flat_pages vmar_map_at_def)
  have addr: "vmar_addr k t4 = Inr (va_addr v + o1)" using boot_memD(4) [OF t4(2)] by (simp add: vmar_addr_def get_vmar_def)
  have "load_userboot env img root s = (Inr (va_addr v + o1 + elf_entry_point elf, n * 4096), t4)"
    using elf flat_size [OF elf(2)] t1(1) load addr entry
    by (simp add: load_userboot_def parse_elf_def ok_or_def sbind_def unwrap_ok uadd_def)
  moreover have "vin_mappings inner_default @ [mp] = [mp]" by (simp add: inner_default_def)
  ultimately show ?thesis using t4(2) by (intro exI [of _ t4] exI [of _ mp]) simp
qed

lemma boot_load_vdso:
  fixes s :: "'a sys_state_scheme"
  assumes b: "boot_mem (length (img_vdso img) div 4096 + 1 + Suc f) k P V s" and V: "V root = Some v" "va_inner v = Some inn" "root \<noteq> k + 1"
    and elf: "be_parse env (img_vdso img) = Some elf" "flat_elf elf m" "m \<le> length (img_vdso img) div 4096 + 1"
    and pl: "placed V v inn (Some us) (m * 4096) us"
    and sym: "get_symbol_address elf ''zcore_syscall_entry'' = Inr (Some off)" "off + 24 \<le> length (img_vdso img)"
  shows "\<exists>t mp. load_vdso env img root us s = (Inr k, t) \<and>
     boot_mem f (k + 1 + 1) (P(k \<mapsto> length (img_vdso img) div 4096 + 1))
       (V(root \<mapsto> v\<lparr>va_inner := Some (inn\<lparr>vin_children := vin_children inn @ [k + 1]\<rparr>)\<rparr>,
          k + 1 \<mapsto> \<lparr>va_flags = VF_CAN_MAP_RXW OR VF_SPECIFIC, va_addr = va_addr v + us, va_size = m * 4096, va_parent = Some root,
             va_inner = Some (inner_default\<lparr>vin_mappings := [mp]\<rparr>)\<rparr>)) t"
proof -
  let ?n = "length (img_vdso img) div 4096 + 1" and ?fl = "VF_CAN_MAP_RXW OR VF_SPECIFIC"
  let ?w = "\<lparr>va_flags = ?fl, va_addr = va_addr v + us, va_size = m * 4096, va_parent = Some root, va_inner = Some inner_default\<rparr>"
  let ?r = "v\<lparr>va_inner := Some (inn\<lparr>vin_children := vin_children inn @ [k + 1]\<rparr>)\<rparr>"
  let ?V = "V(root \<mapsto> ?r, k + 1 \<mapsto> ?w)" and ?P = "P(k \<mapsto> ?n)" and ?en = "le_bytes 8 (be_syscall_entry env)"
  obtain ph where ph: "elf_programs elf = [ph]" "ph_type ph = Some PT_Load" "ph_virtual_addr ph = 0" "ph_physical_addr ph = 0"
    "ph_mem_size ph = m * 4096" "m \<le> 65536"
    by (rule flat_elfE [OF elf(2)]) blast
  obtain t1 where t1: "new_paged ?n s = (Inr k, t1)" "boot_mem (Suc f) (k + 1) ?P V t1" using boot_new_paged [OF b] by blast
  have fits: "length (img_vdso img) \<le> 4096 * ?n" by (rule image_fits)
  obtain t2 where t2: "vmo_write k 0 (img_vdso img) t1 = (Inr (), t2)" "boot_mem (Suc f) (k + 1) ?P V t2"
    using boot_vmo_write [OF t1(2), of k ?n 0 "img_vdso img"] fits by auto
  note D = placedD [OF pl boot_memD(4) [OF t2(2)]]
  have "va_addr v + us < usize_lim" using D(4) by simp
  from boot_allocate [OF t2(2) V D(1) this, of ?fl]
  obtain t3 where t3: "allocate root (Some us) (m * 4096) ?fl PAGE_SIZE t2 = (Inr (k + 1), t3)"
    "boot_mem (Suc f) (k + 1 + 1) ?P (V(k + 1 \<mapsto> ?w, root \<mapsto> ?r)) t3" by blast
  then have b3: "boot_mem (Suc f) (k + 1 + 1) ?P ?V t3" using V(3) by (simp add: fun_upd_twist)
  have pl0: "placed ?V ?w inner_default (Some 0) (m * 4096) 0" using D(3,4) by (intro placed_whole) simp_all
  note D0 = placedD [OF pl0 boot_memD(4) [OF b3]]
  have fit: "0 + m \<le> ?n" using elf(3) by simp
  obtain t4 mp where t4: "vmar_map (k + 1) (Some 0) k 0 (m * 4096) (to_mmu_flags ph) t3 = (Inr (va_addr v + us), t4)"
    "boot_mem f (k + 1 + 1) ?P (?V(k + 1 \<mapsto> ?w\<lparr>va_inner := Some (inner_default\<lparr>vin_mappings := vin_mappings inner_default @ [mp]\<rparr>)\<rparr>)) t4"
    using boot_map [OF b3, of k ?n "k + 1" ?w inner_default "Some 0" m 0 0 "to_mmu_flags ph"] D0 fit by auto
  have load: "map_from_elf (k + 1) elf k t3 = (Inr (), t4)"
    using ph t4(1) flat_pages [of 0] by (simp add: map_from_elf_def map_segment_def sbind_def umul_def flat_pages vmar_map_at_def)
  let ?V4 = "?V(k + 1 \<mapsto> ?w\<lparr>va_inner := Some (inner_default\<lparr>vin_mappings := vin_mappings inner_default @ [mp]\<rparr>)\<rparr>)"
  have P: "?P k = Some ?n" by simp
  have en: "off + length ?en \<le> 4096 * ?n" "off + 8 + length ?en \<le> 4096 * ?n" "off + 16 + length ?en \<le> 4096 * ?n"
    using sym(2) fits by auto
  obtain t5 where t5: "vmo_write k off ?en t4 = (Inr (), t5)" "boot_mem f (k + 1 + 1) ?P ?V4 t5"
    using boot_vmo_write [OF t4(2) P en(1)] by blast
  obtain t6 where t6: "vmo_write k (off + 8) ?en t5 = (Inr (), t6)" "boot_mem f (k + 1 + 1) ?P ?V4 t6"
    using boot_vmo_write [OF t5(2) P en(2)] by blast
  obtain t7 where t7: "vmo_write k (off + 16) ?en t6 = (Inr (), t7)" "boot_mem f (k + 1 + 1) ?P ?V4 t7"
    using boot_vmo_write [OF t6(2) P en(3)] by blast
  have "?n * 4096 < usize_lim" by (rule has_pagesE [OF boot_memD(5) [OF t7(2) P] boot_memD(1) [OF t7(2)]])
  then have lim: "off + 16 < usize_lim" using en(3) by linarith
  have "load_vdso env img root us s = (Inr k, t7)"
    using elf(1) flat_size [OF elf(2)] t1(1) t2(1) t3(1) load sym(1) t5(1) t6(1) t7(1) lim
    by (simp add: load_vdso_def parse_elf_def ok_or_def sbind_def unwrap_ok allocate_at_def uadd_def Let_def)
  moreover have "vin_mappings inner_default @ [mp] = [mp]" by (simp add: inner_default_def)
  ultimately show ?thesis using t7(2) by (intro exI [of _ t7] exI [of _ mp]) simp
qed

subsection \<open>Places in the root region\<close>

definition root_region :: "vmar \<Rightarrow> bool" where
  "root_region v \<longleftrightarrow> page_aligned (va_addr v) \<and> va_size v = ROOT_SIZE \<and> va_addr v + ROOT_SIZE < usize_lim"

lemma userboot_place:
  assumes "root_region v" and "n \<le> 65536"
  shows "placed V v inner_default None (n * 4096) 0"
  using assms
  by (simp add: root_region_def placed_def determine_offset_def find_free_area_def test_map_def inner_default_def uadd_def ROOT_SIZE_def
      page_aligned_iff)

lemma vdso_place:
  assumes "root_region v" and "n \<le> 65536" and "m \<le> 65536"
    and "V k = Some w" "va_addr w = va_addr v" "va_size w = n * 4096"
  shows "placed V v (inner_default\<lparr>vin_children := [k]\<rparr>) (Some (n * 4096)) (m * 4096) (n * 4096)"
  using assms
  by (simp add: root_region_def placed_def determine_offset_def test_map_def inner_default_def uadd_def ROOT_SIZE_def page_aligned_iff
      vmar_overlap_def get_vmar_def range_overlap_def ok_or_def)

lemma stack_place:
  assumes v: "root_region v" and n: "0 < n" "n \<le> 65536" and m: "0 < m" "m \<le> 65536"
    and w: "V k = Some w" "va_addr w = va_addr v" "va_size w = n * 4096"
    and u: "V l = Some u" "va_addr u = va_addr v + n * 4096" "va_size u = m * 4096"
  shows "placed V v (inner_default\<lparr>vin_children := [k, l]\<rparr>) None 32768 ((n + m) * 4096)"
proof -
  let ?s = "vmar_start []\<lparr>vmars := V\<rparr>" and ?inn = "inner_default\<lparr>vin_children := [k, l]\<rparr>"
  have get: "get_vmar k ?s = Inr w" "get_vmar l ?s = Inr u" using w(1) u(1) by (simp_all add: get_vmar_def ok_or_def)
  note defs = test_map_def vmar_overlap_def get range_overlap_def uadd_def inner_default_def w u page_aligned_iff ROOT_SIZE_def
  have r: "va_addr v mod 4096 = 0" "va_size v = ROOT_SIZE" "va_addr v + 0x10000000000 < usize_lim"
    using v by (simp_all add: root_region_def page_aligned_iff ROOT_SIZE_def)
  have 1: "test_map ?s v ?inn 32768 4096 0 = Inr False" using r n by (simp add: defs)
  have 2: "test_map ?s v ?inn 32768 4096 (n * 4096) = Inr False" using r n m by (simp add: defs)
  define q where "q = (n + m) * 4096"
  have 3: "test_map ?s v ?inn 32768 4096 q = Inr True" using r n m by (simp add: defs q_def)
  have e: "end_offset v (va_addr w) (va_size w) = Inr (n * 4096)" "end_offset v (va_addr u) (va_size u) = Inr q"
    using r n m by (simp_all add: q_def end_offset_def uadd_def usub_def w u ROOT_SIZE_def algebra_simps)
  have ch: "vin_children ?inn = [k, l]" "vin_mappings ?inn = []" by (simp_all add: inner_default_def)
  have "find_free_area ?s v ?inn 0 32768 4096 = Inr (Some q)"
    by (simp add: find_free_area_def page_aligned_iff ch get e 1 2 3)
  then have "determine_offset ?s v ?inn None 32768 4096 = Inr q"
    using r by (simp add: determine_offset_def page_aligned_iff ROOT_SIZE_def)
  moreover have "va_addr v + q + 32768 < usize_lim" using r n m by (simp add: q_def)
  moreover have "(va_addr v + q) mod 4096 = 0" unfolding q_def using r(1) by (simp only: mod_mult_self1)
  ultimately show ?thesis using 3 unfolding q_def [symmetric] by (simp add: placed_def page_aligned_iff)
qed

subsection \<open>The whole run\<close>

definition boot_root :: vmar where
  "boot_root = \<lparr>va_flags = VF_ROOT_FLAGS, va_addr = ROOT_BASE, va_size = ROOT_SIZE, va_parent = None, va_inner = Some inner_default\<rparr>"

lemma boot_root_region: "root_region boot_root" "root_region (boot_root\<lparr>va_inner := i\<rparr>)"
  by (simp_all add: root_region_def boot_root_def ROOT_BASE_def ROOT_SIZE_def page_aligned_iff)

lemma boot_tasks:
  fixes s :: "'a sys_state_scheme"
  assumes "heap_inv s" and "next_koid s = 1024" and "next_root s = 0" and "next_mapping s + f < usize_lim" and "f \<le> length (avail_frames s)"
  shows "\<exists>s1 s2 s3 s4 pr th. job_root s = (Inr 1024, s1) \<and> process_create 1024 ''userboot'' s1 = (Inr 1025, s2) \<and>
     thread_create cx 1025 ''userboot'' s2 = (Inr 1027, s3) \<and> resource_create ''root'' RK_ROOT 0 0x100000000 0 s3 = (1028, s4) \<and>
     process_vmar 1025 s4 = Inr 1026 \<and> procs s4 1025 = Some pr \<and> pr_threads pr = [1027] \<and> pr_status pr = PS_Init \<and> pr_max_handle_id pr = 0 \<and>
     pr_handles pr = Map.empty \<and> threads s4 1027 = Some th \<and> th_context th = Some cx \<and> th_state th = TS_New \<and>
     boot_mem f 1029 Map.empty ((vmars s)(1026 \<mapsto> boot_root)) s4"
  using assms
  by (simp add: job_root_def kobject_base_new_def kobject_base_with_name_def new_koid_def put_job_def process_create_def with_job_def
      new_root_def put_vmar_def put_proc_def job_add_process_def thread_create_def put_thread_def thread_init_def add_thread_def with_proc_def
      resource_create_def process_vmar_def get_proc_def boot_mem_def heap_inv_def boot_root_def umul_def uadd_def ROOT_BASE_def ROOT_SIZE_def)

lemma boot_channel_create:
  fixes s :: "'a sys_state_scheme"
  assumes "boot_mem f k P V s"
  shows "\<exists>t. channel_create s = ((k, k + 1), t) \<and> boot_mem f (k + 1 + 1) P V t"
  using assms by (simp add: channel_create_eq boot_mem_def heap_inv_def has_pages_def)

lemma boot_process_start:
  fixes s :: "'a sys_state_scheme"
  assumes "procs s p = Some pr" "x \<in> set (pr_threads pr)" "pr_status pr = PS_Init" "pr_max_handle_id pr = 0" "pr_handles pr = Map.empty"
    and "threads s x = Some th" "th_context th = Some cx"
  shows "\<exists>t. process_start p x entry sp (Some h) 0 s = (Inr (), t)"
  using assms
  by (simp add: process_start_def with_proc_def contains_thread_def start_arg_def first_handle set_first_thread_def thread_start_def
      with_thread_def put_proc_def put_thread_def change_state_def sbind_def)

definition bootable :: "boot_env \<Rightarrow> images \<Rightarrow> nat \<Rightarrow> nat \<Rightarrow> bool" where
  \<comment> \<open>userboot and the vDSO are images of one segment of \<open>n\<close> and \<open>m\<close> pages, and the file of the vDSO has a place for
     the constants and for the three words at its symbol\<close>
  "bootable env img n m \<longleftrightarrow>
     (\<exists>elf. be_parse env (img_userboot img) = Some elf \<and> flat_elf elf n \<and> elf_entry_point elf < 0x100000000) \<and>
     (\<exists>elf off. be_parse env (img_vdso img) = Some elf \<and> flat_elf elf m \<and> m \<le> length (img_vdso img) div 4096 + 1 \<and>
        get_symbol_address elf ''zcore_syscall_entry'' = Inr (Some off) \<and> off + 24 \<le> length (img_vdso img)) \<and>
     16384 \<le> length (img_vdso img) \<and> length (be_git env) \<le> 64"

definition boot_frames :: "images \<Rightarrow> nat \<Rightarrow> nat" where
  \<comment> \<open>the frames of userboot, of the vDSO and its two copies, of the ramdisk, the stack and the small objects\<close>
  "boot_frames img n = n + 3 * (length (img_vdso img) div 4096 + 1) + (length (img_zbi img) div 4096 + 1) + 8 + 3 + 3"

text \<open>The three steps that use the root region, with what the later ones need of it.\<close>

definition child_at :: "(koid \<Rightarrow> vmar option) \<Rightarrow> koid \<Rightarrow> usize \<Rightarrow> usize \<Rightarrow> bool" where
  "child_at V k a n \<longleftrightarrow> (\<exists>w. V k = Some w \<and> va_addr w = a \<and> va_size w = n)"

definition boot_space ::
  "nat \<Rightarrow> koid \<Rightarrow> (koid \<Rightarrow> nat option) \<Rightarrow> koid \<Rightarrow> koid list \<Rightarrow> (koid \<times> usize \<times> usize) list \<Rightarrow> 'a vmar_state_scheme \<Rightarrow> bool" where
  \<comment> \<open>as \<open>boot_mem\<close>, with the children of the root region and their ranges\<close>
  "boot_space f k P root cs spans s \<longleftrightarrow> (\<exists>V. boot_mem f k P V s \<and>
     V root = Some (boot_root\<lparr>va_inner := Some (inner_default\<lparr>vin_children := cs\<rparr>)\<rparr>) \<and>
     (\<forall>(c, a, n) \<in> set spans. child_at V c a n))"

lemma boot_space_userboot:
  fixes s :: "'a sys_state_scheme"
  assumes b: "boot_space (n + Suc f) k P root [] [] s" and "root \<noteq> k"
    and elf: "be_parse env (img_userboot img) = Some elf" "flat_elf elf n" "elf_entry_point elf < 0x100000000"
  shows "\<exists>t. load_userboot env img root s = (Inr (ROOT_BASE + elf_entry_point elf, n * 4096), t) \<and>
     boot_space f (k + 1 + 1) (P(k + 1 \<mapsto> n)) root [k] [(k, ROOT_BASE, n * 4096)] t"
proof -
  let ?v = "boot_root\<lparr>va_inner := Some (inner_default\<lparr>vin_children := []\<rparr>)\<rparr>"
  have dflt: "inner_default\<lparr>vin_children := []\<rparr> = inner_default" by (simp add: inner_default_def)
  obtain V where V: "boot_mem (n + Suc f) k P V s" "V root = Some ?v" using b by (auto simp: boot_space_def)
  have n: "n \<le> 65536" using elf(2) by (auto simp: flat_elf_def)
  have pl: "placed V ?v inner_default None (n * 4096) 0" by (rule userboot_place [OF boot_root_region(2) n])
  have entry: "va_addr ?v + 0 + elf_entry_point elf < usize_lim" using elf(3) by (simp add: boot_root_def ROOT_BASE_def)
  have inn: "va_inner ?v = Some inner_default" by (simp add: dflt)
  obtain t mp where t: "load_userboot env img root s = (Inr (va_addr ?v + 0 + elf_entry_point elf, n * 4096), t)"
    "boot_mem f (k + 1 + 1) (P(k + 1 \<mapsto> n))
       (V(root \<mapsto> ?v\<lparr>va_inner := Some (inner_default\<lparr>vin_children := vin_children inner_default @ [k]\<rparr>)\<rparr>,
          k \<mapsto> \<lparr>va_flags = VF_CAN_MAP_RXW, va_addr = va_addr ?v + 0, va_size = n * 4096, va_parent = Some root,
             va_inner = Some (inner_default\<lparr>vin_mappings := [mp]\<rparr>)\<rparr>)) t" (is "boot_mem _ _ _ ?V _")
    using boot_load_userboot [OF V inn assms(2) elf(1,2) pl entry] by blast
  have "?V root = Some (boot_root\<lparr>va_inner := Some (inner_default\<lparr>vin_children := [k]\<rparr>)\<rparr>)"
    using assms(2) by (simp add: inner_default_def)
  moreover have "child_at ?V k ROOT_BASE (n * 4096)" by (simp add: child_at_def boot_root_def)
  ultimately have "boot_space f (k + 1 + 1) (P(k + 1 \<mapsto> n)) root [k] [(k, ROOT_BASE, n * 4096)] t"
    using t(2) unfolding boot_space_def by (intro exI [of _ ?V] conjI) auto
  then show ?thesis using t(1) by (auto simp: boot_root_def)
qed

lemma boot_space_vdso:
  fixes s :: "'a sys_state_scheme"
  assumes b: "boot_space (length (img_vdso img) div 4096 + 1 + Suc f) k P root [q] [(q, ROOT_BASE, n * 4096)] s"
    and ne: "root \<noteq> k + 1" "q \<noteq> root" "q \<noteq> k + 1" and n: "n \<le> 65536"
    and elf: "be_parse env (img_vdso img) = Some elf" "flat_elf elf m" "m \<le> length (img_vdso img) div 4096 + 1"
    and sym: "get_symbol_address elf ''zcore_syscall_entry'' = Inr (Some off)" "off + 24 \<le> length (img_vdso img)"
  shows "\<exists>t. load_vdso env img root (n * 4096) s = (Inr k, t) \<and>
     boot_space f (k + 1 + 1) (P(k \<mapsto> length (img_vdso img) div 4096 + 1)) root [q, k + 1]
       [(q, ROOT_BASE, n * 4096), (k + 1, ROOT_BASE + n * 4096, m * 4096)] t"
proof -
  let ?inn = "inner_default\<lparr>vin_children := [q]\<rparr>"
  let ?v = "boot_root\<lparr>va_inner := Some ?inn\<rparr>"
  obtain V w where V: "boot_mem (length (img_vdso img) div 4096 + 1 + Suc f) k P V s" "V root = Some ?v"
    and w: "V q = Some w" "va_addr w = ROOT_BASE" "va_size w = n * 4096"
    using b by (auto simp: boot_space_def child_at_def)
  have m: "m \<le> 65536" using elf(2) by (auto simp: flat_elf_def)
  have wa: "va_addr w = va_addr ?v" using w(2) by (simp add: boot_root_def)
  have reg: "root_region ?v" by (rule boot_root_region(2))
  have pl: "placed V ?v ?inn (Some (n * 4096)) (m * 4096) (n * 4096)" 
    by (rule vdso_place [where k = q and v = ?v and V = V and w = w]) (use reg n m w wa in simp_all)
  have inn: "va_inner ?v = Some ?inn" by simp
  obtain t mp where t: "load_vdso env img root (n * 4096) s = (Inr k, t)"
    "boot_mem f (k + 1 + 1) (P(k \<mapsto> length (img_vdso img) div 4096 + 1))
       (V(root \<mapsto> ?v\<lparr>va_inner := Some (?inn\<lparr>vin_children := vin_children ?inn @ [k + 1]\<rparr>)\<rparr>,
          k + 1 \<mapsto> \<lparr>va_flags = VF_CAN_MAP_RXW OR VF_SPECIFIC, va_addr = va_addr ?v + n * 4096, va_size = m * 4096, va_parent = Some root,
             va_inner = Some (inner_default\<lparr>vin_mappings := [mp]\<rparr>)\<rparr>)) t" (is "boot_mem _ _ _ ?V _")
    using boot_load_vdso [OF V inn ne(1) elf pl sym] by blast
  have "?V root = Some (boot_root\<lparr>va_inner := Some (inner_default\<lparr>vin_children := [q, k + 1]\<rparr>)\<rparr>)"
    using ne(1) by (simp add: inner_default_def)
  moreover have "child_at ?V q ROOT_BASE (n * 4096)" "child_at ?V (k + 1) (ROOT_BASE + n * 4096) (m * 4096)"
    using w ne by (simp_all add: child_at_def boot_root_def)
  ultimately have "boot_space f (k + 1 + 1) (P(k \<mapsto> length (img_vdso img) div 4096 + 1)) root [q, k + 1]
      [(q, ROOT_BASE, n * 4096), (k + 1, ROOT_BASE + n * 4096, m * 4096)] t"
    using t(2) unfolding boot_space_def by (intro exI [of _ ?V] conjI) auto
  then show ?thesis using t(1) by blast
qed

lemma boot_space_stack:
  fixes s :: "'a sys_state_scheme"
  assumes b: "boot_space (8 + Suc f) k P root [q, r] [(q, ROOT_BASE, n * 4096), (r, ROOT_BASE + n * 4096, m * 4096)] s"
    and nm: "0 < n" "n \<le> 65536" "0 < m" "m \<le> 65536"
  shows "\<exists>t sp V. map_stack root s = (Inr sp, t) \<and> boot_mem f (k + 1) (P(k \<mapsto> 8)) V t"
proof -
  let ?inn = "inner_default\<lparr>vin_children := [q, r]\<rparr>"
  let ?v = "boot_root\<lparr>va_inner := Some ?inn\<rparr>"
  obtain V w u where V: "boot_mem (8 + Suc f) k P V s" "V root = Some ?v" and w: "V q = Some w" "va_addr w = ROOT_BASE" "va_size w = n * 4096"
    and u: "V r = Some u" "va_addr u = ROOT_BASE + n * 4096" "va_size u = m * 4096"
    using b by (auto simp: boot_space_def child_at_def)
  have a: "va_addr w = va_addr ?v" "va_addr u = va_addr ?v + n * 4096" using w(2) u(2) by (simp_all add: boot_root_def)
  have inn: "va_inner ?v = Some ?inn" by simp
  have reg: "root_region ?v" by (rule boot_root_region(2))
  show ?thesis
    using boot_map_stack [OF V inn stack_place [OF reg nm w(1) a(1) w(3) u(1) a(2) u(3)]] by blast
qed

lemma vdso_constants_ok: "length git \<le> 64 \<Longrightarrow> \<exists>c. vdso_constants_of git = Inr c"
  by (simp add: vdso_constants_of_def set_version_string_def Let_def)

lemma userboot_starts:
  fixes s :: "'a sys_state_scheme"
  assumes s: "heap_inv s" "next_koid s = 1024" "next_root s = 0" "next_mapping s = 0"
    and mem: "boot_frames img n \<le> length (avail_frames s)" "boot_frames img n < usize_lim" and img: "bootable env img n m"
  shows "\<exists>t. run_userboot env img cmdline s = (Inr 1025, t)"
proof -
  define vd where "vd = length (img_vdso img) div 4096 + 1"
  define g :: nat where "g = 1 + 2"
  define z where "z = length (img_zbi img) div 4096 + 1"
  let ?cx = "be_context env"
  obtain elf where elf: "be_parse env (img_userboot img) = Some elf" "flat_elf elf n" "elf_entry_point elf < 0x100000000"
    using img unfolding bootable_def by blast
  obtain elv off where elv: "be_parse env (img_vdso img) = Some elv" "flat_elf elv m" "m \<le> vd"
    "get_symbol_address elv ''zcore_syscall_entry'' = Inr (Some off)" "off + 24 \<le> length (img_vdso img)"
    using img unfolding bootable_def vd_def by blast
  have len: "16384 \<le> length (img_vdso img)" "length (be_git env) \<le> 64" using img unfolding bootable_def by blast+
  have vd5: "5 \<le> vd" using div_le_mono [OF len(1), of 4096] by (simp add: vd_def)
  obtain c where c: "vdso_constants_of (be_git env) = Inr c" using vdso_constants_ok [OF len(2)] by blast
  have nm: "0 < n" "n \<le> 65536" "0 < m" "m \<le> 65536" using elf(2) elv(2) by (auto simp: flat_elf_def)
  have f: "next_mapping s + boot_frames img n < usize_lim" using s(4) mem(2) by simp
  obtain s1 s2 s3 s4 pr th where tasks: "job_root s = (Inr 1024, s1)" "process_create 1024 ''userboot'' s1 = (Inr 1025, s2)"
    "thread_create ?cx 1025 ''userboot'' s2 = (Inr 1027, s3)" "resource_create ''root'' RK_ROOT 0 0x100000000 0 s3 = (1028, s4)"
    "process_vmar 1025 s4 = Inr 1026" "procs s4 1025 = Some pr" "pr_threads pr = [1027]" "pr_status pr = PS_Init"
    "pr_max_handle_id pr = 0" "pr_handles pr = Map.empty" "threads s4 1027 = Some th" "th_context th = Some ?cx"
    and b4: "boot_mem (boot_frames img n) 1029 Map.empty ((vmars s)(1026 \<mapsto> boot_root)) s4"
    using boot_tasks [OF s(1-3) f mem(1), of ?cx] by blast
  let ?V = "(vmars s)(1026 \<mapsto> boot_root)" and ?f = "8 + Suc (vd + (vd + g))"
  have "boot_frames img n = n + Suc (vd + Suc (z + ?f))" by (simp add: boot_frames_def vd_def z_def g_def)
  with b4 have b4': "boot_mem (n + Suc (vd + Suc (z + ?f))) 1029 Map.empty ?V s4" by simp
  have "inner_default\<lparr>vin_children := []\<rparr> = inner_default" by (simp add: inner_default_def)
  then have "boot_space (n + Suc (vd + Suc (z + ?f))) 1029 Map.empty 1026 [] [] s4"
    using b4' unfolding boot_space_def by (intro exI [of _ ?V] conjI) (simp_all add: boot_root_def)
  from boot_space_userboot [OF this _ elf]
  obtain s5 where s5: "load_userboot env img 1026 s4 = (Inr (ROOT_BASE + elf_entry_point elf, n * 4096), s5)"
    "boot_space (vd + Suc (z + ?f)) 1031 [1030 \<mapsto> n] 1026 [1029] [(1029, ROOT_BASE, n * 4096)] s5"
    by auto
  from boot_space_vdso [OF s5(2) [unfolded vd_def] _ _ _ nm(2) elv(1,2) elv(3) [unfolded vd_def] elv(4,5)]
  obtain s6 where s6: "load_vdso env img 1026 (n * 4096) s5 = (Inr 1031, s6)"
    "boot_space (z + ?f) 1033 [1030 \<mapsto> n, 1031 \<mapsto> vd] 1026 [1029, 1032] [(1029, ROOT_BASE, n * 4096), (1032, ROOT_BASE + n * 4096, m * 4096)] s6"
    by (auto simp: vd_def)
  have s6': "boot_space (z + ?f) 1033 [1030 \<mapsto> n, 1031 \<mapsto> vd] 1026 [1029, 1032]
      [(1029, ROOT_BASE, n * 4096), (1032, ROOT_BASE + n * 4096, m * 4096)] s6" by (rule s6(2))
  obtain V6 where V6: "boot_mem (z + ?f) 1033 [1030 \<mapsto> n, 1031 \<mapsto> vd] V6 s6" 
    "V6 1026 = Some (boot_root\<lparr>va_inner := Some (inner_default\<lparr>vin_children := [1029, 1032]\<rparr>)\<rparr>)"
    "\<forall>(c, a, k) \<in> set [(1029, ROOT_BASE, n * 4096), (1032, ROOT_BASE + n * 4096, m * 4096)]. child_at V6 c a k"
    using s6' unfolding boot_space_def by blast
  obtain s7 where s7: "load_zbi img s6 = (Inr 1033, s7)" "boot_mem ?f (1033 + 1) ([1030 \<mapsto> n, 1031 \<mapsto> vd](1033 \<mapsto> z)) V6 s7"
    using boot_load_zbi [OF V6(1) [unfolded z_def]] unfolding z_def by blast
  let ?P7 = "[1030 \<mapsto> n, 1031 \<mapsto> vd](1033 \<mapsto> z)"
  have "boot_space ?f 1034 ?P7 1026 [1029, 1032] [(1029, ROOT_BASE, n * 4096), (1032, ROOT_BASE + n * 4096, m * 4096)] s7"
    unfolding boot_space_def using s7(2) V6(2,3) by (intro exI [of _ V6] conjI) simp_all
  from boot_space_stack [OF this nm]
  obtain s8 sp V where s8: "map_stack 1026 s7 = (Inr sp, s8)" "boot_mem (vd + (vd + g)) (1034 + 1) (?P7(1034 \<mapsto> 8)) V s8" by blast
  let ?P = "?P7(1034 \<mapsto> 8)"
  obtain s9 where s9: "channel_create s8 = ((1034 + 1, 1034 + 1 + 1), s9)" "boot_mem (vd + (vd + g)) (1034 + 1 + 1 + 1) ?P V s9"
    using boot_channel_create [OF s8(2)] by blast
  have P: "?P (1031 :: koid) = Some vd" "?P (1034 + 1 + 1 + 1 :: koid) = None" "?P (1034 + 1 + 1 + 1 + 1 :: koid) = None" by simp_all
  have num: "(1034 + 1 + 1 + 1 :: koid) = 1037" "(1037 + 1 :: koid) = 1038" "(1038 + 1 :: koid) = 1039" by simp_all
  obtain s10 where s10: "prepare_vdso env 1031 s9 = (Inr (1037, 1038), s10)" "boot_mem g 1039 (?P(1037 \<mapsto> vd, 1038 \<mapsto> vd)) V s10"
    using boot_prepare_vdso [OF s9(2) P c vd5] unfolding num by blast
  let ?Q = "?P(1037 \<mapsto> vd, 1038 \<mapsto> vd)"
  obtain s11 where s11: "new_paged 1 s10 = (Inr 1039, s11)" "boot_mem 2 (1039 + 1) (?Q(1039 \<mapsto> 1)) V s11"
    using boot_new_paged [OF s10(2) [unfolded g_def]] by blast
  obtain s12 where s12: "vmo_set_name 1039 ''crashlog'' s11 = (Inr (), s12)" "boot_mem (2 + 0) (1039 + 1) (?Q(1039 \<mapsto> 1)) V s12"
    using boot_vmo_set_name [OF s11(2), of 1039 1 "''crashlog''"] by auto
  from boot_kcounter [OF s12(2)]
  obtain s13 where s13: "create_kcounter_vmo s12 = (Inr (1040, 1041), s13)" "boot_mem (0 + 0) 1042 (?Q(1039 \<mapsto> 1, 1040 \<mapsto> 1, 1041 \<mapsto> 1)) V s13"
    by auto
  obtain s14 where s14: "new_paged 0 s13 = (Inr 1042, s14)" "boot_mem 0 (1042 + 1) (?Q(1039 \<mapsto> 1, 1040 \<mapsto> 1, 1041 \<mapsto> 1, 1042 \<mapsto> 0)) V s14"
    using boot_new_paged [OF s13(2)] by blast
  obtain s15 where s15: "vmo_set_name 1042 ''UNIMPLEMENTED_VMO'' s14 = (Inr (), s15)"
    using boot_vmo_set_name [OF s14(2), of 1042 0 "''UNIMPLEMENTED_VMO''"] by auto
  have ch0: "channel_create s8 = ((1035, 1036), s9)" using s9(1) by simp
  note early = vmar_more_fields [OF boot_memory_frames [OF s5(1) s6(1) s7(1) s8(1)]]
  note ch = channel_create_result [OF ch0]
  note later = vmar_more_fields [OF mem_above_fields(2) [OF boot_late_frames [OF s10(1) s11(1) s12(1) s13(1) s14(1) s15]]]
  let ?m = "\<lparr>msg_data = boot_data cmdline, msg_handles = boot_handles \<lparr>bo_proc = 1025, bo_vmar = 1026, bo_job = 1024,
           bo_resource = 1028, bo_zbi = 1033, bo_vdso = [1031, 1037, 1038], bo_crashlog = 1039, bo_counter_names = 1040,
           bo_counters = 1041, bo_instrumentation = 1042\<rparr>\<rparr>"
  obtain ca cb where "channels s15 1036 = Some ca" "ch_peer ca = Some 1035" "channels s15 1035 = Some cb"
    using ch(2,3) later(5) by (simp add: channel_init_def)
  from channel_write_ok [OF this, of ?m]
  obtain s16 where s16: "channel_write 1036 ?m s15 = (Inr (), s16)" "procs s16 = procs s15" "threads s16 = threads s15" by simp
  have "procs s16 1025 = Some pr" "1027 \<in> set (pr_threads pr)" "threads s16 1027 = Some th"
    using tasks(6,7,11) s16(2,3) early ch later by simp_all
  from boot_process_start [OF this(1,2) tasks(8-10) this(3) tasks(12)]
  obtain s17 where s17: "process_start 1025 1027 (of_nat (ROOT_BASE + elf_entry_point elf)) (of_nat sp)
      (Some (handle_new (KObj T_Channel 1035) R_DEFAULT_CHANNEL)) 0 s16 = (Inr (), s17)" by blast
  have "run_userboot env img cmdline s = (Inr 1025, s17\<lparr>channels := (channels s17)(1036 := None)\<rparr>)"
    unfolding run_userboot_def Let_def
    using tasks(1-5) s5(1) s6(1) s7(1) s8(1) ch0 s10(1) s11(1) s12(1) s13(1) s14(1) s15 s16(1) s17
    by (simp add: sbind_def unwrap_ok channel_drop_def)
  then show ?thesis by blast
qed

subsection \<open>The properties\<close>



subsection \<open>A small system\<close>

definition power_on :: sys_state where
  "power_on = resource_state.extend (dlog_state.extend (channel_state.extend (task_state.extend (vmar_state.extend (vmar_start init_frames)
      \<lparr>jobs = Map.empty, procs = Map.empty, threads = Map.empty, woken = [], spawned = []\<rparr>)
      \<lparr>channels = Map.empty\<rparr>) \<lparr>dlog_buf = [], dlogs = Map.empty\<rparr>) \<lparr>resources = Map.empty\<rparr>) \<lparr>serial = []\<rparr>"

lemma power_on_simps:
  "next_koid power_on = 1024" "next_root power_on = 0" "next_mapping power_on = 0" "avail_frames power_on = init_frames"
  "paged_objs power_on = Map.empty" "spawned power_on = []"
  by (simp_all add: power_on_def vmar_start_def vm_start_def vm_state.defs vmar_state.defs task_state.defs channel_state.defs
      dlog_state.defs resource_state.defs sys_state.defs init_koid_def)

definition demo_ph :: program_header where
  "demo_ph = \<lparr>ph_type = Some PT_Load, ph_is_read = True, ph_is_write = False, ph_is_execute = True, ph_offset = 0, ph_virtual_addr = 0,
     ph_physical_addr = 0, ph_mem_size = 4096, ph_data = Some (Seg_Undefined [0x90])\<rparr>"

definition demo_vdso_elf :: elf_file where
  "demo_vdso_elf = \<lparr>elf_programs = [demo_ph], elf_sections = [\<lparr>sec_name = ''.symtab'', sec_data = Some (Sec_SymbolTable64
     [\<lparr>sym_name = Some ''zcore_syscall_entry'', sym_value = 256, sym_shndx = 1\<rparr>])\<rparr>], elf_entry_point = 0, elf_ph_offset = 64\<rparr>"

definition demo_env :: boot_env where
  "demo_env = \<lparr>be_parse = (\<lambda>bs. Some (if bs = [0x90] then \<lparr>elf_programs = [demo_ph], elf_sections = [], elf_entry_point = 16, elf_ph_offset = 64\<rparr>
     else demo_vdso_elf)), be_context = (\<lambda>_. 0), be_syscall_entry = 0x10000, be_git = [103]\<rparr>"

definition demo_images :: images where
  "demo_images = \<lparr>img_userboot = [0x90], img_vdso = replicate 16384 0, img_zbi = [1, 2, 3]\<rparr>"

lemma demo_bootable: "bootable demo_env demo_images 1 1" "boot_frames demo_images 1 = 31"
proof -
  have "replicate 16384 (0 :: u8) \<noteq> [0x90]" by (metis length_replicate list.size(3,4) numeral_eq_one_iff One_nat_def plus_nat.add_0 num.distinct(1))
  then show "bootable demo_env demo_images 1 1"
    by (simp add: bootable_def demo_env_def demo_images_def flat_elf_def demo_ph_def demo_vdso_elf_def get_symbol_address_def)
  show "boot_frames demo_images 1 = 31" by (simp add: boot_frames_def demo_images_def)
qed

lemma power_on_inv: "heap_inv power_on" "boot_frames demo_images 1 \<le> length (avail_frames power_on)" "boot_frames demo_images 1 < usize_lim"
proof -
  show "heap_inv power_on" by (rule heap_inv_init) (simp_all add: power_on_simps)
  show "boot_frames demo_images 1 \<le> length (avail_frames power_on)" "boot_frames demo_images 1 < usize_lim"
    unfolding power_on_simps demo_bootable(2) init_frames_length by simp_all
qed



end
