(* ===== verification/Elf_Image.thy ===== *)
theory Elf_Image
  imports Elf_Loader Shared_Memory
begin

text \<open>
  A loaded program is the image of its file: after \<open>load_from_elf\<close> every loadable segment is found in
  the address space at its virtual address, with the bytes of the file followed by zeros, under the
  protection the segment asks for. The proof follows the loop of \<open>load_from_elf\<close>: each segment is
  put into an object of its own and mapped where nothing is mapped yet, so that later segments
  leave the earlier ones as they are.
\<close>

subsection \<open>Layout of a segment\<close>

definition seg_offset :: "program_header \<Rightarrow> nat" where
  "seg_offset ph = ph_virtual_addr ph mod 4096"

definition seg_base :: "program_header \<Rightarrow> usize" where
  "seg_base ph = ph_virtual_addr ph div 4096 * 4096"

definition seg_pages :: "program_header \<Rightarrow> nat" where
  "seg_pages ph = (ph_mem_size ph + seg_offset ph + 4095) div 4096"

definition seg_bytes :: "program_header \<Rightarrow> u8 list" where
  "seg_bytes ph = (case ph_data ph of Some (Seg_Undefined d) \<Rightarrow> d | _ \<Rightarrow> [])"

definition seg_content :: "program_header \<Rightarrow> u8 list" where
  \<comment> \<open>the object of a segment: zeros with the bytes of the file in their place\<close>
  "seg_content ph = splice_at (replicate (4096 * seg_pages ph) 0) (seg_offset ph) (seg_bytes ph)"

definition seg_prot :: "program_header \<Rightarrow> prot set" where
  "seg_prot ph = to_mmap_prot (to_mmu_flags ph)"

definition seg_fits :: "program_header \<Rightarrow> bool" where
  \<comment> \<open>a loadable segment holds its bytes and its size does not wrap\<close>
  "seg_fits ph \<longleftrightarrow> ph_type ph = Some PT_Load \<longrightarrow>
     length (seg_bytes ph) \<le> ph_mem_size ph \<and> ph_mem_size ph + 8192 < usize_lim"

lemma seg_address: "seg_base ph + seg_offset ph = ph_virtual_addr ph"
  by (simp add: seg_base_def seg_offset_def)

lemma seg_size_le:
  "ph_mem_size ph + seg_offset ph \<le> 4096 * seg_pages ph"
  unfolding seg_pages_def
  using div_mult_mod_eq [of "ph_mem_size ph + seg_offset ph + 4095" 4096]
    mod_less_divisor [of 4096 "ph_mem_size ph + seg_offset ph + 4095"] by linarith

lemma seg_offset_less: "seg_offset ph < 4096"
  by (simp add: seg_offset_def)

lemma pages_seg:
  assumes "seg_fits ph" and "ph_type ph = Some PT_Load"
  shows "pages (ph_mem_size ph + seg_offset ph) = seg_pages ph"
proof -
  have "ph_mem_size ph + seg_offset ph + 4095 < usize_lim" using assms seg_offset_less [of ph] by (simp add: seg_fits_def)
  then show ?thesis by (simp add: seg_pages_def pages_no_wrap)
qed

lemma length_seg_content:
  assumes "seg_fits ph" and "ph_type ph = Some PT_Load"
  shows "length (seg_content ph) = 4096 * seg_pages ph"
  using assms seg_size_le [of ph] by (simp add: seg_content_def seg_fits_def)

lemma seg_content_part:
  assumes "seg_fits ph" and "ph_type ph = Some PT_Load"
  shows "take (ph_mem_size ph) (drop (seg_offset ph) (seg_content ph)) =
     seg_bytes ph @ replicate (ph_mem_size ph - length (seg_bytes ph)) 0"
  using assms seg_size_le [of ph] by (simp add: seg_content_def seg_fits_def splice_at_def min_def)

subsection \<open>The object of a segment\<close>

lemma new_paged_contents:
  fixes s :: "'a vmar_state_scheme"
  assumes inv: "heap_inv s" and run: "new_paged n s = (Inr vmo, t)"
  shows "heap_inv t" "contents t = (contents s)(next_obj s \<mapsto> replicate (4096 * n) 0)"
    "\<exists>vob. vmos t vmo = Some vob \<and> vo_trait vob = Paged (next_obj s)"
    "\<And>i pg. paged_objs s i = Some pg \<Longrightarrow> paged_objs t i = Some pg" "host_map t = host_map s" "vmars t = vmars s"
proof -
  let ?s1 = "snd (new_koid s)"
  have s1: "?s1 = s\<lparr>next_koid := next_koid s + 1\<rparr>" by (simp add: new_koid_def)
  have inv1: "heap_inv ?s1" using inv by (simp add: heap_inv_def s1)
  obtain r u where new: "paged_new n ?s1 = (r, u)" by (cases "paged_new n ?s1")
  obtain i where i: "r = Inr i" "t = vmo_alloc vmo (vmobject_init '''' False (Paged i) None) u"
    using run new by (auto simp: new_paged_def new_paged_with_resizable_def new_koid_def s1 sbind_def split: sum.splits)
  have n: "n \<le> length (avail_frames ?s1)" using new i(1) by (simp add: paged_new_eq [OF inv1] split: if_splits)
  note c = contents_new [OF inv1 n new]
  have io: "i = next_obj s" using c(1) i(1) s1 by simp
  have u: "heap_inv u" using heap_inv_new [OF inv1, of n] new by simp
  have tf: "paged_objs t = paged_objs u" "pmem t = pmem u" "avail_frames t = avail_frames u" "next_obj t = next_obj u"
    "host_map t = host_map u" "vmars t = vmars u" "vmos t = (vmos u)(vmo \<mapsto> vmobject_init '''' False (Paged i) None)"
    by (simp_all add: i(2) vmo_alloc_def retain_base_def put_vmo_def)
  show "heap_inv t" using u heap_inv_cong [OF tf(3,1,4)] by simp
  have "contents ?s1 = contents s" by (simp add: contents_def s1 fun_eq_iff split: option.split)
  moreover have "contents t = contents u" by (simp add: contents_def tf fun_eq_iff split: option.split)
  ultimately show "contents t = (contents s)(next_obj s \<mapsto> replicate (4096 * n) 0)" using c(2) s1 by simp
  show "\<exists>vob. vmos t vmo = Some vob \<and> vo_trait vob = Paged (next_obj s)" by (simp add: tf vmobject_init_def io)
  have uf: "host_map u = host_map s" "vmars u = vmars s" "paged_objs u = (paged_objs s)(next_obj s \<mapsto> paged_default\<lparr>pg_frames := take n (avail_frames s)\<rparr>)"
    using new n unfolding paged_new_eq [OF inv1] by (auto simp: s1)
  show "host_map t = host_map s" "vmars t = vmars s" using tf uf by simp_all
  show "paged_objs t i = Some pg" if "paged_objs s i = Some pg" for i pg
    using that heap_invD(1) [OF inv that] tf uf by simp
qed

lemma write_only_contents:
  fixes s :: "'a vmar_state_scheme"
  assumes inv: "heap_inv s" and v: "vmos s vmo = Some vob" "vo_trait vob = Paged i" and c: "contents s i = Some bs"
    and len: "off + length data \<le> length bs"
  shows "\<exists>m. vmo_write vmo off data s = (Inr (), s\<lparr>pmem := m\<rparr>) \<and> heap_inv (s\<lparr>pmem := m\<rparr>) \<and>
     contents (s\<lparr>pmem := m\<rparr>) = (contents s)(i \<mapsto> splice_at bs off data)"
proof -
  obtain pg where pg: "paged_objs s i = Some pg" "pg_cache pg = Cached"
    and bs: "bs = map (\<lambda>x. pmem s (byte_addr (pg_frames pg) x)) [0..<4096 * length (pg_frames pg)]"
    using c by (rule contents_SomeD)
  have ok: "paged_ok pg" using heap_invD(2) [OF inv pg(1)] .
  have le: "off + length data \<le> 4096 * length (pg_frames pg)" using len bs by simp
  with paged_ok_size [OF ok] have lim: "off + length data < usize_lim" by simp
  obtain m where "paged_write i off data s = (Inr (), s\<lparr>pmem := m\<rparr>)"
    using paged_write_bytes [OF pg ok le lim] by metis
  with paged_write_contents [OF inv c len] v show ?thesis by (auto simp: vmo_write_def with_vmo_def)
qed

lemma make_vmo_result:
  fixes s :: "'a vmar_state_scheme"
  assumes inv: "heap_inv s" and fits: "seg_fits ph" and run: "make_vmo ph s = (Inr vmo, t)"
  shows "heap_inv t" "contents t = (contents s)(next_obj s \<mapsto> seg_content ph)"
    "\<exists>vob. vmos t vmo = Some vob \<and> vo_trait vob = Paged (next_obj s)"
    "\<And>i pg. paged_objs s i = Some pg \<Longrightarrow> paged_objs t i = Some pg" "host_map t = host_map s" "vmars t = vmars s"
proof -
  have ty: "ph_type ph = Some PT_Load" using run by (auto simp: make_vmo_def split: if_splits)
  obtain u d where u: "new_paged (seg_pages ph) s = (Inr vmo, u)" "ph_data ph = Some (Seg_Undefined d)"
      "vmo_write vmo (seg_offset ph) d u = (Inr (), t)"
    using run ty pages_seg [OF fits ty]
    by (cases "ph_data ph"; cases "the (ph_data ph)")
      (auto simp: make_vmo_def seg_offset_def [symmetric] Let_def sbind_slift sbind_eq_Inr uadd_def split: if_splits)
  note N = new_paged_contents [OF inv u(1)]
  have d: "seg_bytes ph = d" using u(2) by (simp add: seg_bytes_def)
  have len: "seg_offset ph + length d \<le> length (replicate (4096 * seg_pages ph) (0 :: u8))"
    using fits ty d seg_size_le [of ph] by (simp add: seg_fits_def)
  obtain vob where vob: "vmos u vmo = Some vob" "vo_trait vob = Paged (next_obj s)" using N(3) by blast
  have c: "contents u (next_obj s) = Some (replicate (4096 * seg_pages ph) 0)" using N(2) by simp
  obtain m where m: "t = u\<lparr>pmem := m\<rparr>" "heap_inv t" "contents t = (contents u)(next_obj s \<mapsto> splice_at (replicate (4096 * seg_pages ph) 0) (seg_offset ph) d)"
    using write_only_contents [OF N(1) vob c len] u(3) by auto
  show "heap_inv t" by (rule m(2))
  show "contents t = (contents s)(next_obj s \<mapsto> seg_content ph)" using m(3) N(2) d by (simp add: seg_content_def)
  show "\<exists>vob. vmos t vmo = Some vob \<and> vo_trait vob = Paged (next_obj s)" using vob m(1) by simp
  show "host_map t = host_map s" "vmars t = vmars s" using N(5,6) m(1) by simp_all
  show "paged_objs t i = Some pg" if "paged_objs s i = Some pg" for i pg using N(4) [OF that] m(1) by simp
qed

subsection \<open>Mapping a segment\<close>

definition seg_shown :: "'a vmar_state_scheme \<Rightarrow> usize \<Rightarrow> vm_mapping list \<Rightarrow> program_header \<Rightarrow> bool" where
  \<comment> \<open>one of the mappings of the region at \<open>a\<close> shows an object with the content of the segment\<close>
  "seg_shown s a ms ph \<longleftrightarrow>
     (\<exists>m i pg. m \<in> set ms \<and> map_span m = (a + seg_base ph, 4096 * seg_pages ph) \<and>
        paged_objs s i = Some pg \<and> contents s i = Some (seg_content ph) \<and>
        (0 < seg_pages ph \<longrightarrow>
          shows_pages s (a + seg_base ph) (4096 * seg_pages ph) (pg_frames pg) 0 (seg_prot ph)))"

lemma seg_shown_keep:
  fixes s t :: "'a vmar_state_scheme"
  assumes sh: "seg_shown s a ms ph" and ms: "set ms \<subseteq> set ms'"
    and c: "\<And>i bs. contents s i = Some bs \<Longrightarrow> contents t i = Some bs"
    and p: "\<And>i pg. paged_objs s i = Some pg \<Longrightarrow> \<exists>pg'. paged_objs t i = Some pg' \<and> pg_frames pg' = pg_frames pg"
    and h: "\<And>m x. m \<in> set ms \<Longrightarrow> mp_addr m \<le> x \<Longrightarrow> x < mp_addr m + mp_size m \<Longrightarrow> host_map t x = host_map s x"
  shows "seg_shown t a ms' ph"
proof -
  obtain m i pg where m: "m \<in> set ms" "map_span m = (a + seg_base ph, 4096 * seg_pages ph)"
    "paged_objs s i = Some pg" "contents s i = Some (seg_content ph)"
    "0 < seg_pages ph \<longrightarrow> shows_pages s (a + seg_base ph) (4096 * seg_pages ph) (pg_frames pg) 0 (seg_prot ph)"
    using sh unfolding seg_shown_def by (elim exE conjE) (rule that)
  obtain pg' where pg': "paged_objs t i = Some pg'" "pg_frames pg' = pg_frames pg" using p [OF m(3)] by blast
  have sp: "mp_addr m = a + seg_base ph" "mp_size m = 4096 * seg_pages ph" using m(2) by (simp_all add: map_span_def)
  have "host_map t (a + seg_base ph + j * 4096) = host_map s (a + seg_base ph + j * 4096)" if "j < seg_pages ph" for j
    using that by (intro h [OF m(1)]) (simp_all add: sp)
  then have "shows_pages t (a + seg_base ph) (4096 * seg_pages ph) (pg_frames pg') 0 (seg_prot ph)" if "0 < seg_pages ph"
    using m(5) that by (simp add: shows_pages_def pg'(2))
  with m(1,2) ms pg'(1) c [OF m(4)] show ?thesis
    unfolding seg_shown_def by (intro exI [of _ m] exI [of _ i] exI [of _ pg'] conjI impI) (simp_all add: subset_iff)
qed

lemma determine_offset_Some:
  "determine_offset s v inn (Some off) len align = Inr o1 \<Longrightarrow> o1 = off"
  by (simp add: determine_offset_def rbind_eq_Inr) (auto simp: rbind_eq_Inr split: if_splits)

lemma map_ext_offset:
  fixes s :: "'a vmar_state_scheme"
  assumes run: "map_ext k (Some off) vmo vo len perm fl ov mr s = (Inr addr, t)" and "vmars s k = Some v"
  shows "addr = va_addr v + off"
proof -
  from run assms(2) obtain inn o1 f m u where *: "determine_offset s v inn (Some off) len PAGE_SIZE = Inr o1"
    "(case mapping_map m u of
             (Inl (Err e), s1) \<Rightarrow> sbind (mapping_drop m) (\<lambda>_. sfail (Err e)) s1
           | (Inl f, s1) \<Rightarrow> (Inl f, s1)
           | (Inr _, s1) \<Rightarrow>
               (Inr (va_addr v + o1), put_inner k (Some (inn\<lparr>vin_mappings := vin_mappings inn @ [m]\<rparr>)) s1))
     = (Inr addr, t)"
    by (auto simp: map_ext_def with_inner_def sbind_slift sbind_eq_Inr split: sum.splits option.splits if_splits)
  have "addr = va_addr v + o1" using *(2)
    by (cases "mapping_map m u"; cases "fst (mapping_map m u)") (auto simp: sbind_eq_Inr split: fault.splits)
  then show ?thesis using determine_offset_Some [OF *(1)] by simp
qed

lemma heap_inv_view:
  fixes s t :: "'a vmar_state_scheme"
  assumes inv: "heap_inv s" and av: "avail_frames t = avail_frames s" "next_obj t = next_obj s"
    and view: "\<And>i. map_option object_view (paged_objs t i) = map_option object_view (paged_objs s i)"
  shows "heap_inv t"
proof -
  have orig: "\<exists>pg'. paged_objs s i = Some pg' \<and> pg_frames pg' = pg_frames pg" if "paged_objs t i = Some pg" for i pg
    using view [of i] that by (cases "paged_objs s i") (auto simp: object_view_def)
  have ok: "paged_ok pg = paged_ok pg'" if "pg_frames pg' = pg_frames pg" for pg pg' using that by (simp add: paged_ok_def)
  show ?thesis unfolding heap_inv_def av
  proof (intro conjI allI impI)
    show "distinct (avail_frames s)" "\<forall>p\<in>set (avail_frames s). frame_ok p" using inv by (simp_all add: heap_inv_def)
  next
    fix i pg assume "paged_objs t i = Some pg"
    from orig [OF this] obtain pg' where pg': "paged_objs s i = Some pg'" "pg_frames pg' = pg_frames pg" by blast
    show "i < next_obj s" "paged_ok pg" "set (pg_frames pg) \<inter> set (avail_frames s) = {}"
      using heap_invD [OF inv pg'(1)] pg'(2) ok [OF pg'(2)] by simp_all
  next
    fix i j pg pg' assume ne: "i \<noteq> j" and "paged_objs t i = Some pg" "paged_objs t j = Some pg'"
    with orig [of i pg] orig [of j pg'] obtain qg qg' where "paged_objs s i = Some qg" "pg_frames qg = pg_frames pg"
      "paged_objs s j = Some qg'" "pg_frames qg' = pg_frames pg'" by blast
    with heap_inv_disjoint [OF inv ne] show "set (pg_frames pg) \<inter> set (pg_frames pg') = {}" by metis
  qed
qed

lemma contents_view:
  fixes s t :: "'a vmar_state_scheme"
  assumes "pmem t = pmem s" and "\<And>i. map_option object_view (paged_objs t i) = map_option object_view (paged_objs s i)"
  shows "contents t = contents s"
proof
  fix i
  show "contents t i = contents s i" using assms(2) [of i] assms(1)
    by (cases "paged_objs t i"; cases "paged_objs s i") (auto simp: contents_def object_view_def)
qed

lemma append_mapping_avail:
  fixes s :: "'a vmar_state_scheme"
  shows "avail_frames (snd (vmo_append_mapping k m s)) = avail_frames s"
    and "next_obj (snd (vmo_append_mapping k m s)) = next_obj s"
proof -
  have *: "avail_frames (snd (trait_append_mapping t m s)) = avail_frames s \<and> next_obj (snd (trait_append_mapping t m s)) = next_obj s"
    for t and s :: "'a vmar_state_scheme"
    by (cases t) (auto simp: paged_append_mapping_def with_paged_def put_paged_def split: option.splits)
  show "avail_frames (snd (vmo_append_mapping k m s)) = avail_frames s" "next_obj (snd (vmo_append_mapping k m s)) = next_obj s"
    using * by (auto simp: vmo_append_mapping_def with_vmo_def sbind_def put_vmo_def split: option.splits sum.splits)
qed

lemma map_ext_region:
  fixes s t :: "'a vmar_state_scheme"
  assumes "map_ext k vo vmo off len perm fl ov mr s = (Inr addr, t)" and "vmars s k = Some v" "va_inner v = Some inn"
  obtains m where "map_span m = (addr, len)" "\<forall>r \<in> set (vin_mappings inn). sep (addr, len) (map_span r)"
    "vmars t = (vmars s)(k \<mapsto> v\<lparr>va_inner := Some (inn\<lparr>vin_mappings := vin_mappings inn @ [m]\<rparr>)\<rparr>)"
    "avail_frames t = avail_frames s" "next_obj t = next_obj s"
proof -
  obtain v' inn' o1 m u w f where m': "vmars s k = Some v'" "va_inner v' = Some inn'"
    "test_map s v' inn' len 4096 o1 = Inr True" "addr = va_addr v' + o1"
    "mapping_new addr len vmo off perm f s = (Inr m, u)" "mapping_map m u = (Inr (), w)"
    "t = put_inner k (Some (inn'\<lparr>vin_mappings := vin_mappings inn' @ [m]\<rparr>)) w"
    by (rule map_ext_success [OF assms(1)]) (rule that)
  have same: "v' = v" "inn' = inn" using m'(1,2) assms(2,3) by auto
  note m = m'(3-7) [unfolded same]
  have "pt_only u (snd (mapping_map m u))" by (rule mapping_map_pt_only)
  then obtain h where w: "w = u\<lparr>host_map := h\<rparr>" using m(4) by (auto simp: pt_only_def)
  have u: "u = snd (vmo_append_mapping vmo (next_mapping s) (s\<lparr>next_mapping := next_mapping s + 1\<rparr>))"
    by (rule mapping_new_result(7) [OF m(3)])
  have vu: "vmars u = vmars s" by (rule mapping_new_frame(1) [OF m(3)])
  show ?thesis
  proof (rule that [of m])
    show "map_span m = (addr, len)" by (rule mapping_new_result(1) [OF m(3)])
    show "\<forall>r \<in> set (vin_mappings inn). sep (addr, len) (map_span r)"
      using test_map_True(2) [OF m(1)] by (simp add: m(2) sub_ranges_def)
    show "vmars t = (vmars s)(k \<mapsto> v\<lparr>va_inner := Some (inn\<lparr>vin_mappings := vin_mappings inn @ [m]\<rparr>)\<rparr>)"
      using assms(2) vu by (simp add: m(5) put_inner_def put_vmar_def w)
    show "avail_frames t = avail_frames s" "next_obj t = next_obj s"
      by (simp_all add: m(5) put_inner_def put_vmar_def w u append_mapping_avail split: option.split)
  qed
qed

lemma map_segment_result:
  fixes s t :: "'a vmar_state_scheme"
  assumes inv: "heap_inv s" and v: "vmars s k = Some v" "va_inner v = Some inn"
    and vob: "vmos s vmo = Some vob" "vo_trait vob = Paged i" and c: "contents s i = Some (seg_content ph)"
    and len: "length (seg_content ph) = 4096 * seg_pages ph" "vmo_len vmo s = Inr len"
    and run: "vmar_map_at k (seg_base ph) vmo 0 len (to_mmu_flags ph) s = (Inr addr, t)"
  obtains m where "heap_inv t" "contents t = contents s"
    "\<And>x. (\<forall>j < seg_pages ph. x \<noteq> va_addr v + seg_base ph + j * 4096) \<Longrightarrow> host_map t x = host_map s x"
    "vmars t = (vmars s)(k \<mapsto> v\<lparr>va_inner := Some (inn\<lparr>vin_mappings := vin_mappings inn @ [m]\<rparr>)\<rparr>)"
    "seg_shown t (va_addr v) (vin_mappings inn @ [m]) ph"
    "\<And>ph'. seg_shown s (va_addr v) (vin_mappings inn) ph' \<Longrightarrow> seg_shown t (va_addr v) (vin_mappings inn @ [m]) ph'"
proof -
  note map = run [unfolded vmar_map_at_def vmar_map_def]
  obtain pg where pg: "paged_objs s i = Some pg" "length (pg_frames pg) = seg_pages ph"
    using c len(1) by (auto elim: contents_SomeD)
  have ok: "paged_ok pg" by (rule heap_invD(2) [OF inv pg(1)])
  have l: "len = 4096 * seg_pages ph"
    using len(2) vob pg by (auto simp: vmo_len_def get_vmo_def paged_len_def get_paged_def umul_def split: if_splits)
  have addr: "addr = va_addr v + seg_base ph" by (rule map_ext_offset [OF map v(1)])
  obtain m where m: "map_span m = (addr, len)" "\<forall>r \<in> set (vin_mappings inn). sep (addr, len) (map_span r)"
    "vmars t = (vmars s)(k \<mapsto> v\<lparr>va_inner := Some (inn\<lparr>vin_mappings := vin_mappings inn @ [m]\<rparr>)\<rparr>)"
    "avail_frames t = avail_frames s" "next_obj t = next_obj s"
    by (rule map_ext_region [OF map v])
  note view = map_ext_view [OF map]
  have inv': "heap_inv t" by (rule heap_inv_view [OF inv m(4,5) view(2)])
  have c': "contents t = contents s" by (rule contents_view [OF view(1,2)])
  have p: "\<exists>qg'. paged_objs t j = Some qg' \<and> pg_frames qg' = pg_frames qg" if "paged_objs s j = Some qg" for j qg
    using view(2) [of j] that by (cases "paged_objs t j") (auto simp: object_view_def)
  obtain pg' where pg': "paged_objs t i = Some pg'" "pg_frames pg' = pg_frames pg" using p [OF pg(1)] by blast
  have "seg_shown t (va_addr v) (vin_mappings inn @ [m]) ph"
    unfolding seg_shown_def
  proof (intro exI conjI impI)
    show "m \<in> set (vin_mappings inn @ [m])" by simp
    show "map_span m = (va_addr v + seg_base ph, 4096 * seg_pages ph)" using m(1) l addr by simp
    show "paged_objs t i = Some pg'" by (rule pg'(1))
    show "contents t i = Some (seg_content ph)" using c c' by simp
  next
    assume "0 < seg_pages ph"
    then have "4096 \<le> len" using l by simp
    from map_ext_shows [OF map this vob pg(1) ok]
    show "shows_pages t (va_addr v + seg_base ph) (4096 * seg_pages ph) (pg_frames pg') 0 (seg_prot ph)"
      by (simp add: l addr pg'(2) seg_prot_def)
  qed
  moreover have "host_map t x = host_map s x" if r: "r \<in> set (vin_mappings inn)" "mp_addr r \<le> x" "x < mp_addr r + mp_size r" for r x
  proof -
    have "sep (addr, len) (mp_addr r, mp_size r)" using m(2) r(1) by (auto simp: map_span_def)
    then have "x \<noteq> addr + j * 4096" if "j < len div 4096" for j using that r l by (auto simp: sep_def)
    then show ?thesis using map_ext_pages [OF map vob(1)] by blast
  qed
  moreover have "host_map t x = host_map s x" if "\<forall>j < seg_pages ph. x \<noteq> va_addr v + seg_base ph + j * 4096" for x
    using map_ext_pages [OF map vob(1)] that by (simp add: l addr)
  ultimately show ?thesis
    using inv' m(3) seg_shown_keep [of s "va_addr v" "vin_mappings inn" _ "vin_mappings inn @ [m]" t] c' p
    by (intro that [of m]) auto
qed

subsection \<open>The loop\<close>

definition region_mappings :: "vmar \<Rightarrow> vm_mapping list" where
  "region_mappings v = (case va_inner v of None \<Rightarrow> [] | Some inn \<Rightarrow> vin_mappings inn)"

definition load_headers :: "program_header list \<Rightarrow> program_header list" where
  "load_headers phs = filter (\<lambda>ph. ph_type ph = Some PT_Load) phs"

lemma load_headers_simps [simp]:
  "load_headers [] = []"
  "load_headers (ph # phs) = (if ph_type ph = Some PT_Load then ph # load_headers phs else load_headers phs)"
  by (simp_all add: load_headers_def)

definition image_loaded :: "'a vmar_state_scheme \<Rightarrow> koid \<Rightarrow> vmar \<Rightarrow> program_header list \<Rightarrow> 'a vmar_state_scheme \<Rightarrow> bool" where
  \<comment> \<open>from \<open>s\<close> to \<open>t\<close> the segments have been added to the region, and nothing else has changed\<close>
  "image_loaded s k v phs t \<longleftrightarrow>
     heap_inv t \<and> (\<forall>i bs. contents s i = Some bs \<longrightarrow> contents t i = Some bs) \<and>
     (\<forall>x. (\<forall>ph \<in> set (load_headers phs). \<forall>j < seg_pages ph. x \<noteq> va_addr v + seg_base ph + j * 4096) \<longrightarrow>
        host_map t x = host_map s x) \<and>
     (\<exists>w. vmars t k = Some w \<and> va_addr w = va_addr v \<and>
        (\<forall>ph \<in> set (load_headers phs). seg_shown t (va_addr v) (region_mappings w) ph) \<and>
        (\<forall>ph. seg_shown s (va_addr v) (region_mappings v) ph \<longrightarrow> seg_shown t (va_addr v) (region_mappings w) ph))"

lemma load_one_segment:
  fixes s :: "'a vmar_state_scheme"
  assumes inv: "heap_inv s" and v: "vmars s k = Some v" and fits: "seg_fits ph" and ty: "ph_type ph = Some PT_Load"
    and make: "make_vmo ph s = (Inr vmo, s1)" and len: "vmo_len vmo s1 = Inr len"
    and map: "vmar_map_at k (seg_base ph) vmo 0 len (to_mmu_flags ph) s1 = (Inr addr, s2)"
  shows "image_loaded s k v [ph] s2"
proof -
  note M = make_vmo_result [OF inv fits make]
  have v1: "vmars s1 k = Some v" using v M(6) by simp
  obtain v' inn' where "vmars s1 k = Some v'" "va_inner v' = Some inn'"
    by (rule map_ext_success [OF map [unfolded vmar_map_at_def vmar_map_def]]) (rule that)
  then have inn: "va_inner v = Some inn'" using v1 by simp
  obtain vob where vob: "vmos s1 vmo = Some vob" "vo_trait vob = Paged (next_obj s)" using M(3) by blast
  have c: "contents s1 (next_obj s) = Some (seg_content ph)" using M(2) by simp
  have fresh: "contents s (next_obj s) = None"
    using heap_invD(1) [OF inv, of "next_obj s"] by (auto simp: contents_def split: option.split)
  have kc: "contents s1 i = Some bs" if "contents s i = Some bs" for i bs using that fresh M(2) by (cases "i = next_obj s") auto
  have keep: "seg_shown s1 (va_addr v) (vin_mappings inn') ph'" if "seg_shown s (va_addr v) (vin_mappings inn') ph'" for ph'
    using M(4,5) kc by (intro seg_shown_keep [OF that]) auto
  obtain m where m: "heap_inv s2" "contents s2 = contents s1"
    "\<And>x. (\<forall>j < seg_pages ph. x \<noteq> va_addr v + seg_base ph + j * 4096) \<Longrightarrow> host_map s2 x = host_map s1 x"
    "vmars s2 = (vmars s1)(k \<mapsto> v\<lparr>va_inner := Some (inn'\<lparr>vin_mappings := vin_mappings inn' @ [m]\<rparr>)\<rparr>)"
    "seg_shown s2 (va_addr v) (vin_mappings inn' @ [m]) ph"
    "\<And>ph'. seg_shown s1 (va_addr v) (vin_mappings inn') ph' \<Longrightarrow> seg_shown s2 (va_addr v) (vin_mappings inn' @ [m]) ph'"
    by (rule map_segment_result [OF M(1) v1 inn vob c length_seg_content [OF fits ty] len map]) (rule that)
  have "vmars s2 k = Some (v\<lparr>va_inner := Some (inn'\<lparr>vin_mappings := vin_mappings inn' @ [m]\<rparr>)\<rparr>)" using m(4) by simp
  then show ?thesis
    using m(1,2,3,5,6) kc keep ty inn M(5) by (simp add: image_loaded_def region_mappings_def)
qed

lemma image_loaded_trans:
  assumes "image_loaded s k v phs t" and "\<And>w. vmars t k = Some w \<Longrightarrow> image_loaded t k w qhs u"
  shows "image_loaded s k v (phs @ qhs) u"
proof -
  obtain w where w: "vmars t k = Some w" "va_addr w = va_addr v"
    "\<forall>ph \<in> set (load_headers phs). seg_shown t (va_addr v) (region_mappings w) ph"
    "\<forall>ph. seg_shown s (va_addr v) (region_mappings v) ph \<longrightarrow> seg_shown t (va_addr v) (region_mappings w) ph"
    using assms(1) unfolding image_loaded_def by blast
  note U = assms(2) [OF w(1)]
  obtain x where x: "vmars u k = Some x" "va_addr x = va_addr v"
    "\<forall>ph \<in> set (load_headers qhs). seg_shown u (va_addr v) (region_mappings x) ph"
    "\<forall>ph. seg_shown t (va_addr v) (region_mappings w) ph \<longrightarrow> seg_shown u (va_addr v) (region_mappings x) ph"
    using U unfolding image_loaded_def w(2) by blast
  have app: "set (load_headers (phs @ qhs)) = set (load_headers phs) \<union> set (load_headers qhs)" by (simp add: load_headers_def)
  have "heap_inv u" "\<forall>i bs. contents s i = Some bs \<longrightarrow> contents u i = Some bs"
    using U assms(1) unfolding image_loaded_def by blast+
  moreover have "host_map u y = host_map s y"
    if "\<forall>ph \<in> set (load_headers (phs @ qhs)). \<forall>j < seg_pages ph. y \<noteq> va_addr v + seg_base ph + j * 4096" for y
  proof -
    have "host_map u y = host_map t y" using U that unfolding image_loaded_def w(2) app by blast
    moreover have "host_map t y = host_map s y" using assms(1) that unfolding image_loaded_def app by blast
    ultimately show ?thesis by simp
  qed
  moreover have "\<forall>ph \<in> set (load_headers (phs @ qhs)). seg_shown u (va_addr v) (region_mappings x) ph"
    using w(3) x(3,4) unfolding app by blast
  ultimately show ?thesis using x(1,2,4) w(4) unfolding image_loaded_def by blast
qed

lemma load_segments_image:
  fixes s :: "'a vmar_state_scheme"
  assumes "heap_inv s" and "vmars s k = Some v" and "\<forall>ph \<in> set phs. seg_fits ph"
    and "load_segments k phs first_vmo s = (Inr r, t)"
  shows "image_loaded s k v phs t"
  using assms
proof (induction phs arbitrary: s v first_vmo)
  case Nil
  then show ?case by (simp add: image_loaded_def)
next
  case (Cons ph phs)
  obtain ty where ty: "ph_type ph = Some ty" using Cons.prems(4) by (auto split: option.splits)
  show ?case
  proof (cases "ty = PT_Load")
    case False
    with Cons ty show ?thesis by (simp add: image_loaded_def)
  next
    case True
    then have ty: "ph_type ph = Some PT_Load" using ty by simp
    obtain vmo s1 len addr s2 first' where run: "make_vmo ph s = (Inr vmo, s1)" "vmo_len vmo s1 = Inr len"
      "vmar_map_at k (seg_base ph) vmo 0 len (to_mmu_flags ph) s1 = (Inr addr, s2)" "load_segments k phs first' s2 = (Inr r, t)"
      using Cons.prems(4) ty by (auto simp: seg_base_def Let_def sbind_eq_Inr slift_def)
    have one: "image_loaded s k v [ph] s2"
      using Cons.prems(3) by (intro load_one_segment [OF Cons.prems(1,2) _ ty run(1-3)]) simp
    then have inv: "heap_inv s2" by (simp add: image_loaded_def)
    have "image_loaded s2 k w phs t" if "vmars s2 k = Some w" for w
      using Cons.prems(3) by (intro Cons.IH [OF inv that _ run(4)]) simp
    from image_loaded_trans [OF one this] show ?thesis by simp
  qed
qed

lemma load_from_elf_image:
  fixes s :: "'a vmar_state_scheme"
  assumes "load_from_elf k elf s = (Inr vmo, t)" and "heap_inv s" and "vmars s k = Some v" and "\<forall>ph \<in> set (elf_programs elf). seg_fits ph"
  shows "image_loaded s k v (elf_programs elf) t"
proof -
  obtain r where "load_segments k (elf_programs elf) None s = (Inr r, t)"
    using assms(1) by (auto simp: load_from_elf_def sbind_eq_Inr split: option.splits)
  then show ?thesis by (rule load_segments_image [OF assms(2-4)])
qed

subsection \<open>The bytes of a segment in memory\<close>

lemma shown_prot:
  assumes "shows_pages s addr len fs off prots" and "x < len" and "translate p s (addr + x) \<noteq> None"
  shows "p \<in> prots"
proof -
  have al: "4096 dvd addr" "4096 dvd len" using assms(1) by (auto simp: shows_pages_def page_aligned_iff)
  have "x div 4096 < len div 4096" using al(2) assms(2) by (auto elim!: dvdE simp: less_mult_imp_div_less mult.commute)
  then have "host_map s (addr + x div 4096 * 4096) = Some (fs ! (off div 4096 + x div 4096), prots)"
    using assms(1) by (simp add: shows_pages_def)
  moreover have "addr + x - (addr + x) mod 4096 = addr + x div 4096 * 4096"
    using al(1) by (auto elim!: dvdE simp: minus_mod_eq_mult_div [symmetric] algebra_simps)
  ultimately show ?thesis using assms(3) by (auto simp: translate_def split: if_splits)
qed

primrec seg_permits :: "program_header \<Rightarrow> prot \<Rightarrow> bool" where
  "seg_permits ph PROT_READ = ph_is_read ph"
| "seg_permits ph PROT_WRITE = ph_is_write ph"
| "seg_permits ph PROT_EXEC = ph_is_execute ph"

lemma seg_prot_iff: "p \<in> seg_prot ph \<longleftrightarrow> seg_permits ph p"
  by (cases p) (simp_all add: seg_prot_def to_mmap_prot_iff to_mmu_flags_def Let_def flags_contains_def mmu_flag_defs)

lemma seg_shown_memory:
  fixes s :: "'a vmar_state_scheme"
  assumes sh: "seg_shown s a ms ph" and fits: "seg_fits ph" and ty: "ph_type ph = Some PT_Load"
  shows "x < ph_mem_size ph \<Longrightarrow> translate p s (a + ph_virtual_addr ph + x) \<noteq> None \<longleftrightarrow> seg_permits ph p"
    and "ph_is_read ph \<Longrightarrow> mem_load s (a + ph_virtual_addr ph) (ph_mem_size ph) =
       Inr (seg_bytes ph @ replicate (ph_mem_size ph - length (seg_bytes ph)) 0)"
proof -
  obtain i pg where i: "paged_objs s i = Some pg" "contents s i = Some (seg_content ph)"
    "0 < seg_pages ph \<longrightarrow> shows_pages s (a + seg_base ph) (4096 * seg_pages ph) (pg_frames pg) 0 (seg_prot ph)"
    using sh unfolding seg_shown_def by (elim exE conjE) (rule that)
  have at: "a + ph_virtual_addr ph = a + seg_base ph + seg_offset ph" by (simp add: seg_address [symmetric])
  have in_seg: "seg_offset ph + x < 4096 * seg_pages ph" if "x < ph_mem_size ph" for x using that seg_size_le [of ph] by linarith
  have sp: "shows_pages s (a + seg_base ph) (4096 * seg_pages ph) (pg_frames pg) 0 (seg_prot ph)" if "x < ph_mem_size ph" for x
    using i(3) in_seg [OF that] by (cases "seg_pages ph = 0") simp_all
  have byte: "translate p s (a + ph_virtual_addr ph + x) = Some (byte_addr (pg_frames pg) (seg_offset ph + x))"
    if "x < ph_mem_size ph" "seg_permits ph p" for x p
    using shown_byte [OF sp [OF that(1)], of p "seg_offset ph + x"] in_seg [OF that(1)] that(2) by (simp add: at seg_prot_iff add.assoc)
  show "translate p s (a + ph_virtual_addr ph + x) \<noteq> None \<longleftrightarrow> seg_permits ph p" if x: "x < ph_mem_size ph"
    using byte [OF x] shown_prot [OF sp [OF x], of "seg_offset ph + x" p] in_seg [OF x] by (auto simp: at seg_prot_iff add.assoc)
  assume rd: "ph_is_read ph"
  have "pmem s (byte_addr (pg_frames pg) (seg_offset ph + j)) = seg_content ph ! (seg_offset ph + j)" if "j < ph_mem_size ph" for j
  proof -
    have c: "seg_content ph = map (\<lambda>x. pmem s (byte_addr (pg_frames pg) x)) [0..<4096 * length (pg_frames pg)]"
      using i(1,2) by (auto elim: contents_SomeD)
    then have "seg_offset ph + j < 4096 * length (pg_frames pg)" using in_seg [OF that] length_seg_content [OF fits ty] by simp
    then show ?thesis by (simp add: c)
  qed
  moreover have "take (ph_mem_size ph) (drop (seg_offset ph) (seg_content ph)) = map (\<lambda>j. seg_content ph ! (seg_offset ph + j)) [0..<ph_mem_size ph]"
    using seg_size_le [of ph] length_seg_content [OF fits ty] by (intro nth_equalityI) simp_all
  ultimately show "mem_load s (a + ph_virtual_addr ph) (ph_mem_size ph) = Inr (seg_bytes ph @ replicate (ph_mem_size ph - length (seg_bytes ph)) 0)"
    unfolding seg_content_part [OF fits ty, symmetric]
    using mem_load_eq [of "ph_mem_size ph" s "a + ph_virtual_addr ph" "\<lambda>j. byte_addr (pg_frames pg) (seg_offset ph + j)"] byte rd by simp
qed

text \<open>C13. After \<open>load_from_elf\<close> succeeds, every byte of every loadable segment is mapped at the virtual
  address of the segment, relative to the region, for exactly the accesses its header permits; a
  readable segment reads as the bytes of the file followed by zeros up to its size in memory. No
  page outside the segments is mapped differently, and the objects that existed keep their contents.\<close>

theorem elf_image_loaded:
  fixes s t :: "'a vmar_state_scheme"
  assumes "load_from_elf k elf s = (Inr vmo, t)" and "heap_inv s" and "vmars s k = Some v"
    and "\<forall>ph \<in> set (elf_programs elf). seg_fits ph"
  shows "(\<forall>ph \<in> set (load_headers (elf_programs elf)).
       (\<forall>p. \<forall>x < ph_mem_size ph. translate p t (va_addr v + ph_virtual_addr ph + x) \<noteq> None \<longleftrightarrow> seg_permits ph p) \<and>
       (ph_is_read ph \<longrightarrow> mem_load t (va_addr v + ph_virtual_addr ph) (ph_mem_size ph) =
          Inr (seg_bytes ph @ replicate (ph_mem_size ph - length (seg_bytes ph)) 0))) \<and>
     (\<forall>a. (\<forall>ph \<in> set (load_headers (elf_programs elf)). \<forall>j < seg_pages ph. a \<noteq> va_addr v + seg_base ph + j * 4096) \<longrightarrow>
        host_map t a = host_map s a) \<and>
     (\<forall>i bs. contents s i = Some bs \<longrightarrow> contents t i = Some bs)"
proof -
  note L = load_from_elf_image [OF assms]
  have "(\<forall>p. \<forall>x < ph_mem_size ph. translate p t (va_addr v + ph_virtual_addr ph + x) \<noteq> None \<longleftrightarrow> seg_permits ph p) \<and>
       (ph_is_read ph \<longrightarrow> mem_load t (va_addr v + ph_virtual_addr ph) (ph_mem_size ph) =
          Inr (seg_bytes ph @ replicate (ph_mem_size ph - length (seg_bytes ph)) 0))"
    if ph: "ph \<in> set (load_headers (elf_programs elf))" for ph
  proof -
    obtain w where "seg_shown t (va_addr v) (region_mappings w) ph" using L ph unfolding image_loaded_def by blast
    moreover have "seg_fits ph" "ph_type ph = Some PT_Load" using ph assms(4) by (auto simp: load_headers_def)
    ultimately show ?thesis using seg_shown_memory by blast
  qed
  then show ?thesis using L unfolding image_loaded_def by blast
qed

text \<open>An example: a text segment of three bytes that does not start on a page, and a data segment
  whose end the file leaves out.\<close>

lemma make_vmo_ok:
  fixes s :: "'a vmar_state_scheme"
  assumes inv: "heap_inv s" and fits: "seg_fits ph" and ty: "ph_type ph = Some PT_Load" and d: "ph_data ph = Some (Seg_Undefined d)"
    and n: "seg_pages ph \<le> length (avail_frames s)"
  shows "\<exists>m. make_vmo ph s = (Inr (next_koid s), (vmo_alloc (next_koid s) (vmobject_init '''' False (Paged (next_obj s)) None)
     (s\<lparr>next_koid := next_koid s + 1, avail_frames := drop (seg_pages ph) (avail_frames s),
       paged_objs := (paged_objs s)(next_obj s \<mapsto> paged_default\<lparr>pg_frames := take (seg_pages ph) (avail_frames s)\<rparr>),
       next_obj := Suc (next_obj s)\<rparr>))\<lparr>pmem := m\<rparr>)"
proof -
  let ?k = "next_koid s" and ?s1 = "s\<lparr>next_koid := next_koid s + 1\<rparr>"
  have inv1: "heap_inv ?s1" using inv by (simp add: heap_inv_def)
  let ?u = "vmo_alloc ?k (vmobject_init '''' False (Paged (next_obj s)) None) (snd (paged_new (seg_pages ph) ?s1))"
  have new: "new_paged (seg_pages ph) s = (Inr ?k, ?u)"
    using n by (simp add: new_paged_def new_paged_with_resizable_def new_koid_def sbind_def paged_new_eq [OF inv1])
  note N = new_paged_contents [OF inv new]
  have len: "seg_offset ph + length d \<le> length (replicate (4096 * seg_pages ph) (0 :: u8))"
    using fits ty d seg_size_le [of ph] by (simp add: seg_fits_def seg_bytes_def)
  have c: "contents ?u (next_obj s) = Some (replicate (4096 * seg_pages ph) 0)" using N(2) by simp
  obtain vob where vob: "vmos ?u ?k = Some vob" "vo_trait vob = Paged (next_obj s)" using N(3) by blast
  obtain m where m: "vmo_write ?k (seg_offset ph) d ?u = (Inr (), ?u\<lparr>pmem := m\<rparr>)"
    using write_only_contents [OF N(1) vob c len] by blast
  have sz: "ph_mem_size ph + seg_offset ph < usize_lim" using fits ty seg_offset_less [of ph] by (simp add: seg_fits_def)
  have "make_vmo ph s = (Inr ?k, ?u\<lparr>pmem := m\<rparr>)"
    using ty d sz new m pages_seg [OF fits ty] by (simp add: make_vmo_def Let_def seg_offset_def [symmetric] uadd_def sbind_def)
  then show ?thesis using n by (auto simp: paged_new_eq [OF inv1] vmo_alloc_def retain_base_def put_vmo_def)
qed

definition demo_text :: program_header where
  "demo_text = \<lparr>ph_type = Some PT_Load, ph_is_read = True, ph_is_write = False, ph_is_execute = True, ph_offset = 0,
     ph_virtual_addr = 16, ph_physical_addr = 16, ph_mem_size = 3, ph_data = Some (Seg_Undefined [1, 2, 3])\<rparr>"

definition demo_data :: program_header where
  "demo_data = \<lparr>ph_type = Some PT_Load, ph_is_read = True, ph_is_write = True, ph_is_execute = False, ph_offset = 4096,
     ph_virtual_addr = 4096, ph_physical_addr = 4096, ph_mem_size = 3, ph_data = Some (Seg_Undefined [4])\<rparr>"

definition demo_elf :: elf_file where
  "demo_elf = \<lparr>elf_programs = [demo_text, demo_data], elf_sections = [], elf_entry_point = 16, elf_ph_offset = 64\<rparr>"

definition demo_load :: vmar_state where
  "demo_load = (vmar_start [4096, 8192])\<lparr>vmars := [2 \<mapsto> \<lparr>va_flags = VF_ROOT_FLAGS, va_addr = ROOT_BASE,
     va_size = ROOT_SIZE, va_parent = None, va_inner = Some inner_default\<rparr>]\<rparr>"

lemma demo_seg_simps:
  "ph_type demo_text = Some PT_Load" "ph_type demo_data = Some PT_Load" "seg_pages demo_text = 1" "seg_pages demo_data = 1"
  "seg_base demo_text = 0" "seg_base demo_data = 4096" "seg_fits demo_text" "seg_fits demo_data"
  "seg_bytes demo_text = [1, 2, 3]" "seg_bytes demo_data = [4]" "ph_mem_size demo_text = 3" "ph_mem_size demo_data = 3"
  "ph_virtual_addr demo_text = 16" "ph_virtual_addr demo_data = 4096" "ph_is_read demo_text" "ph_is_read demo_data"
  "ph_data demo_text = Some (Seg_Undefined [1, 2, 3])" "ph_data demo_data = Some (Seg_Undefined [4])"
  by (simp_all add: demo_text_def demo_data_def seg_pages_def seg_base_def seg_fits_def seg_bytes_def seg_offset_def)

lemma demo_load_inv: "heap_inv demo_load"
  by (simp add: demo_load_def vmar_start_def vm_start_def vm_state.defs heap_inv_def frame_ok_def page_aligned_iff PMEM_SIZE_def)

lemma demo_load_runs: "\<exists>vmo t. load_from_elf 2 demo_elf demo_load = (Inr vmo, t)"
proof -
  let ?s = "demo_load" and ?w = "\<lambda>ms. \<lparr>va_flags = VF_ROOT_FLAGS, va_addr = ROOT_BASE, va_size = ROOT_SIZE, va_parent = None,
     va_inner = Some \<lparr>vin_children = [], vin_mappings = ms\<rparr>\<rparr>"
  note eval = vmar_map_at_def vmar_map_def vmo_alloc_def retain_base_def to_mmu_flags_def demo_map_defs sbind_def init_koid_def
  have s: "avail_frames ?s = [4096, 8192]" "next_koid ?s = 1024" "vmars ?s 2 = Some (?w [])"
    by (simp_all add: demo_load_def vmar_start_def vm_start_def vm_state.defs init_koid_def inner_default_def)
  obtain m where m: "make_vmo demo_text ?s = (Inr 1024, (vmo_alloc 1024 (vmobject_init '''' False (Paged (next_obj ?s)) None)
     (?s\<lparr>next_koid := 1025, avail_frames := [8192],
       paged_objs := (paged_objs ?s)(next_obj ?s \<mapsto> paged_default\<lparr>pg_frames := [4096]\<rparr>), next_obj := Suc (next_obj ?s)\<rparr>))\<lparr>pmem := m\<rparr>)"
      (is "_ = (_, ?s1)")
    using make_vmo_ok [OF demo_load_inv demo_seg_simps(7,1,17)] by (auto simp: demo_seg_simps s)
  have l1: "vmo_len 1024 ?s1 = Inr 4096" by (simp add: eval)
  obtain s2 mm where s2: "vmar_map_at 2 0 1024 0 4096 (to_mmu_flags demo_text) ?s1 = (Inr ROOT_BASE, s2)"
    "next_koid s2 = 1025" "avail_frames s2 = [8192]" "next_mapping s2 = 1" "vmars s2 2 = Some (?w [mm])" "mp_addr mm = ROOT_BASE" "mp_size mm = 4096"
    by (simp add: demo_load_def demo_text_def eval)
  have "image_loaded ?s 2 (?w []) [demo_text] s2"
    using l1 m s2(1) s(3) demo_seg_simps by (intro load_one_segment [OF demo_load_inv]) auto
  then have inv: "heap_inv s2" by (simp add: image_loaded_def)
  obtain m' where m': "make_vmo demo_data s2 = (Inr 1025, (vmo_alloc 1025 (vmobject_init '''' False (Paged (next_obj s2)) None)
     (s2\<lparr>next_koid := 1026, avail_frames := [],
       paged_objs := (paged_objs s2)(next_obj s2 \<mapsto> paged_default\<lparr>pg_frames := [8192]\<rparr>), next_obj := Suc (next_obj s2)\<rparr>))\<lparr>pmem := m'\<rparr>)"
      (is "_ = (_, ?s3)")
    using make_vmo_ok [OF inv demo_seg_simps(8,2,18)] by (auto simp: demo_seg_simps s2(2,3))
  have l3: "vmo_len 1025 ?s3 = Inr 4096" by (simp add: eval)
  obtain s4 where s4: "vmar_map_at 2 4096 1025 0 4096 (to_mmu_flags demo_data) ?s3 = (Inr (ROOT_BASE + 4096), s4)"
    using s2(4-7) by (simp add: demo_data_def eval map_overlap_def range_overlap_def)
  show ?thesis
    using m l1 s2(1) m' l3 s4 by (simp add: load_from_elf_def demo_elf_def sbind_def demo_seg_simps seg_base_def [symmetric])
qed

lemma elf_image_loaded_witness:
  "\<exists>vmo t. load_from_elf 2 demo_elf demo_load = (Inr vmo, t) \<and>
     mem_load t (ROOT_BASE + 16) 3 = Inr [1, 2, 3] \<and> mem_load t (ROOT_BASE + 4096) 3 = Inr [4, 0, 0] \<and>
     translate PROT_WRITE t (ROOT_BASE + 16 + 1) = None \<and> translate PROT_WRITE t (ROOT_BASE + 4096 + 1) \<noteq> None"
proof -
  obtain vmo t where t: "load_from_elf 2 demo_elf demo_load = (Inr vmo, t)" using demo_load_runs by blast
  have fits: "\<forall>ph \<in> set (elf_programs demo_elf). seg_fits ph" by (simp add: demo_elf_def demo_seg_simps)
  have v: "vmars demo_load 2 = Some \<lparr>va_flags = VF_ROOT_FLAGS, va_addr = ROOT_BASE, va_size = ROOT_SIZE, va_parent = None,
     va_inner = Some inner_default\<rparr>" by (simp add: demo_load_def)
  note seg = bspec [OF conjunct1 [OF elf_image_loaded [OF t demo_load_inv v fits]]]
  have "demo_text \<in> set (load_headers (elf_programs demo_elf))" "demo_data \<in> set (load_headers (elf_programs demo_elf))"
    by (simp_all add: demo_elf_def demo_seg_simps)
  note tx = seg [OF this(1), simplified demo_seg_simps vmar.simps] and dt = seg [OF this(2), simplified demo_seg_simps vmar.simps]
  have "mem_load t (ROOT_BASE + 16) 3 = Inr [1, 2, 3]" "mem_load t (ROOT_BASE + 4096) 3 = Inr [4, 0, 0]"
    using tx dt by (simp_all add: numeral_2_eq_2)
  moreover have "translate PROT_WRITE t (ROOT_BASE + 16 + 1) = None" "translate PROT_WRITE t (ROOT_BASE + 4096 + 1) \<noteq> None"
    using tx dt by (auto simp: demo_text_def demo_data_def simp del: not_None_eq dest!: conjunct1 spec [of _ PROT_WRITE] spec [of _ "1 :: nat"])
  ultimately show ?thesis using t by blast
qed

end
