(* ===== verification/Userboot_Image.thy ===== *)
theory Userboot_Image
  imports Boot_Run Elf_Image
begin

text \<open>
  The first thread starts in the program it was given. \<open>run_userboot\<close> loads userboot first and then
  goes on for a dozen steps: it loads and maps the vDSO, writes into it, maps a stack, clones
  objects. None of them reaches the image of userboot: they write into objects of their own and map
  pages outside its region. The relation \<open>later\<close> collects what such a step leaves alone; each
  operation the loader uses has a rule for it.
\<close>

subsection \<open>A write stays in its object\<close>

lemma page_part_in:
  assumes "page_part fs off b = Inr (pa, lo, hi)" and "block_ok 12 b"
  shows "\<exists>p \<in> set fs. p \<le> pa \<and> pa + (hi - lo) \<le> p + 4096"
proof -
  have b: "br_log2 b = 12" "br_begin b < br_end b" "br_end b \<le> 4096" using assms(2) by (simp_all add: block_ok_def)
  have k: "br_block b < length fs" "pa = fs ! br_block b + br_begin b" "hi - lo \<le> br_end b - br_begin b"
    using assms(1) b by (auto simp: page_part_def origin_begin_def origin_end_def origin_def rbind_eq_Inr usub_def uadd_def umul_def split: if_splits)
  then show ?thesis using b nth_mem [OF k(1)] by (intro bexI [of _ "fs ! br_block b"]) auto
qed

lemma write_part_outside:
  assumes "write_part buf (pa, lo, hi) s = (r, t)" and "p \<le> pa" and "pa + (hi - lo) \<le> p + 4096" and "p \<in> set fs" and "\<not> in_frames fs a"
  shows "pmem t a = pmem s a"
proof -
  have "\<not> (p \<le> a \<and> a < p + 4096)" using assms(4,5) by (auto simp: in_frames_def)
  then have "a < pa \<or> pa + length (take (hi - lo) (drop lo buf)) \<le> a" using assms(2,3) by auto
  then show ?thesis using assms(1) by (auto simp: write_part_def pmem_write_def pmem_store_def split: sum.splits)
qed

lemma for_each_page_outside:
  assumes "for_each_page fs off n (write_part buf) s = (r, t)" and "\<not> in_frames fs a"
  shows "pmem t a = pmem s a"
proof (cases "off + n < usize_lim")
  case False
  then show ?thesis using assms(1) by (simp add: for_each_page_def sbind_def uadd_def)
next
  case True
  let ?it = "\<lparr>bi_begin = off, bi_end = off + n, bi_log2 = 12\<rparr>"
  obtain bs where bs: "block_all ?it = (Inr bs :: (block_range list) zx)" "list_all (block_ok 12) bs"
    using block_all_partition [of ?it] True by auto
  have "sfor (\<lambda>b. sbind (slift (\<lambda>_. page_part fs off b)) (write_part buf)) bs s = (r, t)"
    using assms(1) bs(1) True by (simp add: for_each_page_def sbind_slift uadd_def)
  then show ?thesis
  proof (rule sfor_invariant [where P = "\<lambda>u. pmem u a = pmem s a"])
    fix b u q u' assume b: "b \<in> set bs" and u: "pmem u a = pmem s a"
      and step: "sbind (slift (\<lambda>_. page_part fs off b)) (write_part buf) u = (q, u')"
    have ok: "block_ok 12 b" using bs(2) b by (simp add: list_all_iff)
    show "pmem u' a = pmem s a"
    proof (cases "page_part fs off b")
      case (Inl e)
      then show ?thesis using step u by (simp add: sbind_slift)
    next
      case (Inr part)
      obtain pa lo hi where part: "part = (pa, lo, hi)" by (cases part)
      obtain p where "p \<in> set fs" "p \<le> pa" "pa + (hi - lo) \<le> p + 4096" using page_part_in [OF Inr [unfolded part] ok] by blast
      with step Inr part u assms(2) show ?thesis using write_part_outside [of buf pa lo hi u q u' p fs a] by (simp add: sbind_slift)
    qed
  qed simp
qed

lemma paged_write_elsewhere:
  fixes s t :: "'a vmo_state_scheme"
  assumes inv: "heap_inv s" and run: "paged_write i off data s = (r, t)"
  shows "heap_inv t" "paged_objs t = paged_objs s" "next_obj t = next_obj s" "j \<noteq> i \<Longrightarrow> contents t j = contents s j"
proof -
  have same: "same_heap s t" using paged_write_same [of s i off data] run by simp
  then show "heap_inv t" "paged_objs t = paged_objs s" "next_obj t = next_obj s"
    using same_heap_inv [OF same] inv by (simp_all add: same_heap_def)
  assume ji: "j \<noteq> i"
  show "contents t j = contents s j"
  proof (rule contents_cong)
    show "paged_objs t j = paged_objs s j" using same by (simp add: same_heap_def)
    fix pg a assume pg: "paged_objs s j = Some pg" "in_frames (pg_frames pg) a"
    show "pmem t a = pmem s a"
    proof (cases "paged_objs s i")
      case None
      then show ?thesis using run by (simp add: paged_write_def with_paged_def)
    next
      case (Some pg')
      have ok: "\<forall>p \<in> set (pg_frames pg). frame_ok p" "\<forall>p \<in> set (pg_frames pg'). frame_ok p"
        using heap_invD(2) [OF inv pg(1)] heap_invD(2) [OF inv Some] by (simp_all add: paged_ok_def)
      have out: "\<not> in_frames (pg_frames pg') a"
        using in_frames_disjoint [OF ok heap_inv_disjoint [OF inv ji pg(1) Some] pg(2)] .
      show ?thesis using run Some for_each_page_outside [OF _ out] by (auto simp: paged_write_def with_paged_def split: if_splits)
    qed
  qed
qed

lemma paged_write_memory:
  fixes s :: "'a vmar_state_scheme"
  assumes "paged_write i off data s = (r, t)"
  obtains m where "t = s\<lparr>pmem := m\<rparr>"
proof -
  let ?P = "\<lambda>s :: 'a vmar_state_scheme. s\<lparr>pmem := (\<lambda>_. 0)\<rparr>"
  have part: "keeps ?P (write_part data x)" for x
    by (auto simp: keeps_def write_part_def pmem_write_def split: prod.split sum.split)
  have "keeps ?P (paged_write i off data)"
    unfolding paged_write_def for_each_page_def by (rule part keeps_intro)+
  then have "t\<lparr>pmem := (\<lambda>_. 0)\<rparr> = s\<lparr>pmem := (\<lambda>_. 0)\<rparr>" using assms by (rule keepsD)
  then have "t = s\<lparr>pmem := pmem t\<rparr>" by (cases s; cases t) simp
  then show ?thesis by (rule that)
qed

subsection \<open>What later steps leave alone\<close>

definition high :: "nat \<Rightarrow> 'a vmar_state_scheme \<Rightarrow> koid \<Rightarrow> bool" where
  \<comment> \<open>a memory object with pages of its own, made when \<open>i0\<close> objects existed\<close>
  "high i0 s k \<longleftrightarrow> (\<exists>v i. vmos s k = Some v \<and> vo_trait v = Paged i \<and> i0 \<le> i)"

definition later :: "nat \<Rightarrow> usize \<times> usize \<Rightarrow> 'a vmar_state_scheme \<Rightarrow> 'a vmar_state_scheme \<Rightarrow> bool" where
  \<comment> \<open>from \<open>s\<close> to \<open>t\<close> the first \<open>i0\<close> objects and the pages of the range \<open>q\<close> stay as they are\<close>
  "later i0 q s t \<longleftrightarrow>
     heap_inv t \<and> i0 \<le> next_obj t \<and>
     (\<forall>i < i0. contents t i = contents s i \<and> map_option object_view (paged_objs t i) = map_option object_view (paged_objs s i)) \<and>
     (\<forall>x. fst q \<le> x \<longrightarrow> x < fst q + snd q \<longrightarrow> host_map t x = host_map s x) \<and>
     (\<forall>k. high i0 s k \<longrightarrow> high i0 t k)"

definition at :: "nat \<Rightarrow> 'a vmar_state_scheme \<Rightarrow> bool" where
  "at i0 s \<longleftrightarrow> heap_inv s \<and> i0 \<le> next_obj s"

lemma later_at: "later i0 q s t \<Longrightarrow> at i0 t"
  by (simp add: later_def at_def)

lemma later_trans:
  assumes "later i0 q s t" and "later i0 q t u"
  shows "later i0 q s u"
proof -
  have "heap_inv u" "i0 \<le> next_obj u" using assms(2) by (simp_all add: later_def)
  moreover have "contents u i = contents s i \<and> map_option object_view (paged_objs u i) = map_option object_view (paged_objs s i)" if "i < i0" for i
    using assms that by (simp add: later_def)
  moreover have "host_map u x = host_map s x" if "fst q \<le> x" "x < fst q + snd q" for x using assms that by (simp add: later_def)
  moreover have "high i0 u k" if "high i0 s k" for k using assms that by (simp add: later_def)
  ultimately show ?thesis unfolding later_def by blast
qed

lemma later_same:
  assumes "at i0 s" and "vmar_state.truncate t = vmar_state.truncate (s\<lparr>next_koid := n\<rparr>)"
  shows "later i0 q s t"
proof -
  have f: "pmem t = pmem s" "avail_frames t = avail_frames s" "host_map t = host_map s" "paged_objs t = paged_objs s" "next_obj t = next_obj s" "vmos t = vmos s"
    using assms(2) by (simp_all add: vmar_state.defs)
  have "heap_inv t = heap_inv s" by (rule heap_inv_cong) (simp_all add: f)
  then show ?thesis using assms(1) by (simp add: later_def at_def high_def contents_def f split: option.split)
qed

lemma later_new_paged:
  fixes s :: "'a vmar_state_scheme"
  assumes "at i0 s" and "new_paged n s = (Inr k, t)"
  shows "later i0 q s t" "high i0 t k" "vmars t = vmars s" "next_koid t = next_koid s + 1"
proof -
  have inv: "heap_inv s" and le: "i0 \<le> next_obj s" using assms(1) by (simp_all add: at_def)
  note N = new_paged_contents [OF inv assms(2)]
  obtain u where u: "paged_new n (s\<lparr>next_koid := next_koid s + 1\<rparr>) = (Inr (next_obj s), u)" "k = next_koid s"
    "t = vmo_alloc k (vmobject_init '''' False (Paged (next_obj s)) None) u"
    using assms(2) N(3) by (auto simp: new_paged_def new_paged_with_resizable_def new_koid_def sbind_eq_Inr vmo_alloc_def retain_base_def put_vmo_def vmobject_init_def)
  have inv1: "heap_inv (s\<lparr>next_koid := next_koid s + 1\<rparr>)" using inv by (simp add: heap_inv_def)
  have f: "vmos u = vmos s" "next_koid u = next_koid s + 1" "next_obj u = Suc (next_obj s)"
    "paged_objs u = (paged_objs s)(next_obj s \<mapsto> paged_default\<lparr>pg_frames := take n (avail_frames s)\<rparr>)"
    using u(1) by (auto simp: paged_new_eq [OF inv1] split: if_splits)
  have t: "vmos t = (vmos s)(k \<mapsto> vmobject_init '''' False (Paged (next_obj s)) None)" "next_koid t = next_koid s + 1" "next_obj t = Suc (next_obj s)"
    "paged_objs t = paged_objs u" by (simp_all add: u(3) f vmo_alloc_def retain_base_def put_vmo_def)
  show hk: "high i0 t k" using le by (simp add: high_def t vmobject_init_def)
  have "high i0 t j" if "high i0 s j" for j using that hk by (cases "j = k") (auto simp: high_def t)
  then show "later i0 q s t" using N(1,2,5) le t(3) by (auto simp: later_def t(4) f(4))
  show "vmars t = vmars s" by (rule N(6))
  show "next_koid t = next_koid s + 1" by (rule t(2))
qed

lemma later_vmo_write:
  fixes s :: "'a vmar_state_scheme"
  assumes "at i0 s" and "high i0 s k" and "vmo_write k off data s = (r, t)"
  shows "later i0 q s t" "vmars t = vmars s" "next_koid t = next_koid s"
proof -
  obtain v i where v: "vmos s k = Some v" "vo_trait v = Paged i" "i0 \<le> i" using assms(2) by (auto simp: high_def)
  have run: "paged_write i off data s = (r, t)" using assms(3) v by (simp add: vmo_write_def with_vmo_def)
  have inv: "heap_inv s" "i0 \<le> next_obj s" using assms(1) by (simp_all add: at_def)
  note W = paged_write_elsewhere [OF inv(1) run]
  obtain m where t: "t = s\<lparr>pmem := m\<rparr>" using run by (rule paged_write_memory)
  show "later i0 q s t" using W inv(2) v(3) by (auto simp: later_def high_def t)
  show "vmars t = vmars s" "next_koid t = next_koid s" by (simp_all add: t)
qed

lemma later_set_name:
  fixes s :: "'a vmar_state_scheme"
  assumes "at i0 s" and "vmo_set_name k nm s = (r, t)"
  shows "later i0 q s t" "vmars t = vmars s" "next_koid t = next_koid s"
proof -
  have f: "pmem t = pmem s" "avail_frames t = avail_frames s" "host_map t = host_map s" "paged_objs t = paged_objs s" "next_obj t = next_obj s"
    using assms(2) by (auto simp: vmo_set_name_def with_vmo_def put_vmo_def split: option.splits)
  have "high i0 t j" if "high i0 s j" for j
    using assms(2) that by (auto simp: vmo_set_name_def with_vmo_def put_vmo_def high_def split: option.splits)
  moreover have "heap_inv t = heap_inv s" by (rule heap_inv_cong) (simp_all add: f)
  ultimately show "later i0 q s t" using assms(1) by (simp add: later_def at_def contents_def f split: option.split)
  show "vmars t = vmars s" "next_koid t = next_koid s"
    using assms(2) by (auto simp: vmo_set_name_def with_vmo_def put_vmo_def split: option.splits)
qed

lemma create_child_elsewhere:
  fixes s t :: "'a vmar_state_scheme"
  assumes inv: "heap_inv s" and run: "paged_create_child i off len s = (Inr c, t)"
  shows "heap_inv t" "c = next_obj s" "next_obj t = Suc (next_obj s)" "host_map t = host_map s" "vmos t = vmos s" "vmars t = vmars s"
    "next_koid t = next_koid s"
    "j \<noteq> c \<Longrightarrow> paged_objs t j = paged_objs s j \<and> contents t j = contents s j"
proof -
  obtain pg where pg: "paged_objs s i = Some pg" "child_ready pg off len"
    using run by (auto simp: paged_create_child_def with_paged_def child_ready_def split: if_splits option.splits)
  show "heap_inv t" using heap_inv_create_child [OF inv, of i off len] run by simp
  obtain m fs where fs: "fs = take (pages len) (avail_frames s)" "\<And>a. \<not> in_frames fs a \<Longrightarrow> m a = pmem s a"
    and eq: "paged_create_child i off len s = (Inr (next_obj s),
            s\<lparr>avail_frames := drop (pages len) (avail_frames s), pmem := m,
              paged_objs := (paged_objs s)(next_obj s \<mapsto> paged_default\<lparr>pg_frames := fs\<rparr>),
              next_obj := Suc (next_obj s)\<rparr>)"
    using inv pg by (cases rule: paged_create_child_cases) (use run in auto)
  show "c = next_obj s" "next_obj t = Suc (next_obj s)" "host_map t = host_map s" "vmos t = vmos s" "vmars t = vmars s" "next_koid t = next_koid s"
    using eq run by auto
  show "paged_objs t j = paged_objs s j \<and> contents t j = contents s j" if "j \<noteq> c"
  proof
    show p: "paged_objs t j = paged_objs s j" using eq run that by auto
    show "contents t j = contents s j"
      by (rule contents_other [OF inv p, of fs]) (use eq run fs in \<open>auto dest: in_set_takeD\<close>)
  qed
qed

lemma later_create_child:
  fixes s :: "'a vmar_state_scheme"
  assumes "at i0 s" and "high i0 s k" and "vmo_create_child k rs off len s = (Inr c, t)"
  shows "later i0 q s t" "high i0 t c" "vmars t = vmars s" "next_koid t = next_koid s + 1"
proof -
  obtain v i where v: "vmos s k = Some v" "vo_trait v = Paged i" "i0 \<le> i" using assms(2) by (auto simp: high_def)
  let ?s1 = "s\<lparr>next_koid := next_koid s + 1\<rparr>"
  have inv: "heap_inv ?s1" "i0 \<le> next_obj s" using assms(1) by (simp_all add: at_def heap_inv_def)
  obtain d u where u: "paged_create_child i off len ?s1 = (Inr d, u)" "c = next_koid s"
    "add_child k c (vmo_alloc c (vmobject_init (vo_name v) rs (Paged d) (Some k)) u) = (Inr (), t)"
    using assms(3) v(1,2) by (auto simp: vmo_create_child_def with_vmo_def new_koid_def sbind_eq_Inr)
  note C = create_child_elsewhere [OF inv(1) u(1)]
  let ?w = "vmo_alloc c (vmobject_init (vo_name v) rs (Paged d) (Some k)) u"
  have w: "pmem ?w = pmem u" "avail_frames ?w = avail_frames u" "host_map ?w = host_map u" "paged_objs ?w = paged_objs u" "next_obj ?w = next_obj u"
    "vmars ?w = vmars u" "next_koid ?w = next_koid u" "vmos ?w = (vmos u)(c \<mapsto> vmobject_init (vo_name v) rs (Paged d) (Some k))"
    by (simp_all add: vmo_alloc_def retain_base_def put_vmo_def)
  have t: "pmem t = pmem u" "avail_frames t = avail_frames u" "host_map t = host_map u" "paged_objs t = paged_objs u" "next_obj t = next_obj u"
    "vmars t = vmars u" "next_koid t = next_koid u"
    using u(3) w by (auto simp: add_child_def with_vmo_def put_vmo_def split: option.splits)
  have tr: "map_option vo_trait (vmos t j) = map_option vo_trait (vmos ?w j)" for j
    using u(3) by (auto simp: add_child_def with_vmo_def put_vmo_def split: option.splits)
  have hi: "high i0 t j \<longleftrightarrow> (\<exists>i. map_option vo_trait (vmos ?w j) = Some (Paged i) \<and> i0 \<le> i)" for j
    unfolding tr [symmetric] high_def by auto
  have d: "d = next_obj s" using C(2) by simp
  show "high i0 t c" unfolding hi w(8) by (simp add: vmobject_init_def d inv(2))
  have "high i0 t j" if "high i0 s j" for j
    using that inv(2) unfolding hi w(8) by (auto simp: high_def C(5) vmobject_init_def d)
  moreover have "heap_inv t = heap_inv u" by (rule heap_inv_cong) (simp_all add: t)
  moreover have "contents t j = contents u j" for j by (simp add: contents_def t split: option.split)
  moreover have "contents ?s1 j = contents s j" for j by (simp add: contents_def split: option.split)
  ultimately show "later i0 q s t" using C(1,3,4,8) inv(2) d by (auto simp: later_def t)
  show "vmars t = vmars s" "next_koid t = next_koid s + 1" by (simp_all add: t C(6,7))
qed

subsection \<open>Regions\<close>

definition reserved :: "koid \<Rightarrow> koid \<Rightarrow> usize \<times> usize \<Rightarrow> 'a vmar_state_scheme \<Rightarrow> bool" where
  \<comment> \<open>\<open>c\<close> is listed in the region \<open>root\<close> and has the range \<open>q\<close>\<close>
  "reserved root c q s \<longleftrightarrow>
     (\<exists>v inn w. vmars s root = Some v \<and> va_inner v = Some inn \<and> c \<in> set (vin_children inn) \<and>
        vmars s c = Some w \<and> (va_addr w, va_size w) = q)"

definition apart :: "koid \<Rightarrow> usize \<times> usize \<Rightarrow> 'a vmar_state_scheme \<Rightarrow> bool" where
  "apart d q s \<longleftrightarrow> (\<exists>w. vmars s d = Some w \<and> sep (va_addr w, va_size w) q)"

lemma sub_range_sep:
  assumes "\<forall>r \<in> set (sub_ranges s inn). sep x r" and "c \<in> set (vin_children inn)" and "vmars s c = Some w"
  shows "sep x (va_addr w, va_size w)"
proof -
  have "vmar_range s c \<in> set (sub_ranges s inn)" using assms(2) by (simp add: sub_ranges_def)
  with assms(1,3) show ?thesis by (auto simp: vmar_range_def)
qed

lemma allocate_result:
  fixes s t :: "'a vmar_state_scheme"
  assumes "allocate root off len fl align s = (Inr c, t)" and "root \<noteq> next_koid s"
  obtains v inn w where "c = next_koid s" "next_koid t = next_koid s + 1" "vmars s root = Some v" "va_inner v = Some inn"
    "vmars t = (vmars s)(c \<mapsto> w, root \<mapsto> v\<lparr>va_inner := Some (inn\<lparr>vin_children := vin_children inn @ [c]\<rparr>)\<rparr>)"
    "va_size w = len" "va_inner w = Some inner_default" "\<forall>r \<in> set (sub_ranges s inn). sep (va_addr w, len) r"
    "t = s\<lparr>next_koid := next_koid t, vmars := vmars t\<rparr>"
proof -
  obtain v inn o1 a where v: "vmars s root = Some v" "va_inner v = Some inn" "determine_offset s v inn off len align = Inr o1"
    "uadd (va_addr v) o1 = (Inr a :: usize zx)"
    using assms(1) by (auto simp: allocate_def with_inner_def sbind_slift new_koid_def split: option.splits sum.splits)
  have a: "a = va_addr v + o1" using v(4) by (simp add: uadd_def split: if_splits)
  have tm: "test_map s v inn len align o1 = Inr True"
    using v(3) by (auto simp: determine_offset_def rbind_eq_Inr find_free_area_def split: if_splits option.splits dest!: zx_find_Some)
  let ?w = "\<lparr>va_flags = fl, va_addr = a, va_size = len, va_parent = Some root, va_inner = Some inner_default\<rparr>"
  have t: "c = next_koid s" "t = put_inner root (Some (inn\<lparr>vin_children := vin_children inn @ [next_koid s]\<rparr>))
      (put_vmar (next_koid s) ?w (s\<lparr>next_koid := next_koid s + 1\<rparr>))"
    using assms(1) v by (auto simp: allocate_def with_inner_def sbind_slift new_koid_def)
  show ?thesis
    by (rule that [of v inn ?w])
      (use v(1,2) assms(2) t test_map_True(2) [OF tm] in \<open>simp_all add: put_inner_def put_vmar_def a fun_upd_twist\<close>)
qed

lemma later_allocate:
  fixes s t :: "'a vmar_state_scheme"
  assumes "at i0 s" and "allocate root off len fl align s = (Inr d, t)" and "root \<noteq> next_koid s"
  shows "later i0 q s t" "next_koid t = next_koid s + 1" "d = next_koid s"
    "reserved root c q s \<Longrightarrow> c \<noteq> root \<Longrightarrow> c \<noteq> next_koid s \<Longrightarrow> reserved root c q t \<and> apart d q t"
    "\<exists>a. reserved root d (a, len) t"
proof -
  obtain v inn w where d: "d = next_koid s" "next_koid t = next_koid s + 1" "vmars s root = Some v" "va_inner v = Some inn"
    "vmars t = (vmars s)(d \<mapsto> w, root \<mapsto> v\<lparr>va_inner := Some (inn\<lparr>vin_children := vin_children inn @ [d]\<rparr>)\<rparr>)"
    "va_size w = len" "va_inner w = Some inner_default" "\<forall>r \<in> set (sub_ranges s inn). sep (va_addr w, len) r"
    and t: "t = s\<lparr>next_koid := next_koid t, vmars := vmars t\<rparr>"
    by (rule allocate_result [OF assms(2,3)])
  obtain n va where t': "t = s\<lparr>next_koid := n, vmars := va\<rparr>" using t by blast
  show "next_koid t = next_koid s + 1" "d = next_koid s" by (rule d(2), rule d(1))
  have "heap_inv t = heap_inv s" by (rule heap_inv_cong) (simp_all add: t')
  then show "later i0 q s t" using assms(1) by (simp add: later_def at_def high_def contents_def t' split: option.split)
  have dr: "d \<noteq> root" using assms(3) d(1) by simp
  then show "\<exists>a. reserved root d (a, len) t" by (simp add: reserved_def d(5,6))
  assume r: "reserved root c q s" and c: "c \<noteq> root" "c \<noteq> next_koid s"
  obtain w' where w': "c \<in> set (vin_children inn)" "vmars s c = Some w'" "(va_addr w', va_size w') = q"
    using r d(3,4) by (auto simp: reserved_def)
  have "sep (va_addr w, len) q" using sub_range_sep [OF d(8) w'(1,2)] w'(3) by simp
  with w' c d(1,5,6) dr show "reserved root c q t \<and> apart d q t" by (auto simp: reserved_def apart_def)
qed

lemma map_ext_where:
  fixes s t :: "'a vmar_state_scheme"
  assumes "map_ext k vo vmo off len perm fl ov mr s = (Inr addr, t)"
  obtains v inn m vob where "vmars s k = Some v" "va_inner v = Some inn" "vmos s vmo = Some vob"
    "inside (addr, len) (va_addr v, va_size v)" "\<forall>r \<in> set (sub_ranges s inn). sep (addr, len) r"
    "vmars t = (vmars s)(k \<mapsto> v\<lparr>va_inner := Some (inn\<lparr>vin_mappings := vin_mappings inn @ [m]\<rparr>)\<rparr>)"
    "next_koid t = next_koid s"
proof (rule map_ext_success [OF assms])
  fix v inn o1 m u w vob pol
  assume v: "vmars s k = Some v" "va_inner v = Some inn" "test_map s v inn len 4096 o1 = Inr True" "addr = va_addr v + o1"
    "vmos s vmo = Some vob"
    and m: "mapping_new addr len vmo off perm (fl OR mmu_from_bits_truncate (of_nat (unat (cache_policy_code pol)))) s = (Inr m, u)"
    "mapping_map m u = (Inr (), w)" "t = put_inner k (Some (inn\<lparr>vin_mappings := vin_mappings inn @ [m]\<rparr>)) w"
  note fr = mapping_new_frame [OF m(1)]
  have "pt_only u (snd (mapping_map m u))" by (rule mapping_map_pt_only)
  then have w: "vmars w = vmars s" "next_koid w = next_koid s" using m(2) fr by (auto dest: pt_only_vmars)
  show thesis
    by (rule that [of v inn vob m])
      (use v w m(3) test_map_True(1,2) [OF v(3)] in \<open>simp_all add: put_inner_def put_vmar_def\<close>)
qed

lemma inside_sep: "inside r p \<Longrightarrow> sep p q \<Longrightarrow> sep r q"
  by (auto simp: inside_def sep_def)

lemma later_map_ext:
  fixes s t :: "'a vmar_state_scheme"
  assumes "at i0 s" and "map_ext k vo vmo off len perm fl ov mr s = (Inr addr, t)" and "reserved k c q s \<or> apart k q s"
  shows "later i0 q s t" "next_koid t = next_koid s"
    "k \<noteq> c \<Longrightarrow> reserved root c q s \<Longrightarrow> reserved root c q t" "apart d q s \<Longrightarrow> apart d q t"
proof -
  obtain v inn m vob where v: "vmars s k = Some v" "va_inner v = Some inn" "vmos s vmo = Some vob"
    "inside (addr, len) (va_addr v, va_size v)" "\<forall>r \<in> set (sub_ranges s inn). sep (addr, len) r"
    "vmars t = (vmars s)(k \<mapsto> v\<lparr>va_inner := Some (inn\<lparr>vin_mappings := vin_mappings inn @ [m]\<rparr>)\<rparr>)"
    "next_koid t = next_koid s"
    by (rule map_ext_where [OF assms(2)])
  show "next_koid t = next_koid s" by (rule v(7))
  show "k \<noteq> c \<Longrightarrow> reserved root c q s \<Longrightarrow> reserved root c q t" "apart d q s \<Longrightarrow> apart d q t"
    using v(1,2,6) by (auto simp: reserved_def apart_def)
  obtain m' where av: "avail_frames t = avail_frames s" "next_obj t = next_obj s"
    by (rule map_ext_region [OF assms(2) v(1,2)]) (rule that)
  note view = map_ext_view [OF assms(2)]
  have "heap_inv t" using assms(1) by (intro heap_inv_view [OF _ av view(2)]) (simp add: at_def)
  moreover have "contents t = contents s" by (rule contents_view [OF view(1,2)])
  moreover have "host_map t x = host_map s x" if x: "fst q \<le> x" "x < fst q + snd q" for x
  proof -
    have "sep (addr, len) q"
      using assms(3) v(1,2,5) sub_range_sep [OF v(5)] inside_sep [OF v(4), of q] by (auto simp: reserved_def apart_def)
    then have "x \<noteq> addr + j * 4096" if "j < len div 4096" for j using x that by (auto simp: sep_def)
    then show ?thesis using map_ext_pages [OF assms(2) v(3)] by blast
  qed
  moreover have "high i0 t j" if "high i0 s j" for j
    using that view(3) [of j] by (cases "vmos t j") (auto simp: high_def)
  ultimately show "later i0 q s t" using assms(1) view(2) av(2) by (simp add: later_def at_def)
qed

subsection \<open>The region of a loaded program\<close>

lemma make_vmo_koid:
  fixes s t :: "'a vmar_state_scheme"
  assumes "make_vmo ph s = (Inr vmo, t)" and "seg_fits ph" and inv: "heap_inv s"
  shows "vmars t = vmars s" "next_koid t = next_koid s + 1" "vmo_len vmo t = umul (seg_pages ph) PAGE_SIZE"
proof -
  have ty: "ph_type ph = Some PT_Load" using assms(1) by (auto simp: make_vmo_def split: if_splits)
  obtain u d where u: "new_paged (seg_pages ph) s = (Inr vmo, u)" "vmo_write vmo (seg_offset ph) d u = (Inr (), t)"
    using assms(1) ty pages_seg [OF assms(2) ty]
    by (cases "ph_data ph"; cases "the (ph_data ph)")
      (auto simp: make_vmo_def seg_offset_def [symmetric] Let_def sbind_slift sbind_eq_Inr uadd_def split: if_splits)
  have at: "at 0 s" using inv by (simp add: at_def)
  note N = later_new_paged [OF at u(1)]
  note W = later_vmo_write [OF later_at [OF N(1)] N(2) u(2)]
  show "vmars t = vmars s" "next_koid t = next_koid s + 1" using N(3,4) W(2,3) by simp_all
  obtain v i where v: "vmos u vmo = Some v" "vo_trait v = Paged i" using N(2) by (auto simp: high_def)
  have "paged_write i (seg_offset ph) d u = (Inr (), t)" using u(2) v by (simp add: vmo_write_def with_vmo_def)
  then obtain m where t: "t = u\<lparr>pmem := m\<rparr>" by (rule paged_write_memory)
  show "vmo_len vmo t = umul (seg_pages ph) PAGE_SIZE"
    using new_paged_len [OF u(1)] v by (simp add: t vmo_len_def get_vmo_def paged_len_def get_paged_def)
qed

definition segs_inside :: "usize \<times> usize \<Rightarrow> program_header list \<Rightarrow> bool" where
  "segs_inside q phs \<longleftrightarrow> (\<forall>ph \<in> set (load_headers phs). inside (fst q + seg_base ph, 4096 * seg_pages ph) q)"

lemma load_segments_region:
  fixes s :: "'a vmar_state_scheme"
  assumes "heap_inv s" and "vmars s k = Some v" and "\<forall>ph \<in> set phs. seg_fits ph"
    and "load_segments k phs first_vmo s = (Inr r, t)"
  shows "next_koid t = next_koid s + of_nat (length (load_headers phs)) \<and> segs_inside (va_addr v, va_size v) phs \<and>
    (\<exists>w. vmars t = (vmars s)(k \<mapsto> w) \<and> va_addr w = va_addr v \<and> va_size w = va_size v)"
  using assms
proof (induction phs arbitrary: s v first_vmo)
  case Nil
  then show ?case by (auto simp: segs_inside_def intro!: exI [of _ v])
next
  case (Cons ph phs)
  obtain ty where ty: "ph_type ph = Some ty" using Cons.prems(4) by (auto split: option.splits)
  show ?case
  proof (cases "ty = PT_Load")
    case False
    with Cons ty show ?thesis by (simp add: segs_inside_def)
  next
    case True
    then have ty: "ph_type ph = Some PT_Load" using ty by simp
    obtain vmo s1 len addr s2 first' where run: "make_vmo ph s = (Inr vmo, s1)" "vmo_len vmo s1 = Inr len"
      "vmar_map_at k (seg_base ph) vmo 0 len (to_mmu_flags ph) s1 = (Inr addr, s2)" "load_segments k phs first' s2 = (Inr r, t)"
      using Cons.prems(4) ty by (auto simp: seg_base_def Let_def sbind_eq_Inr slift_def)
    have fits: "seg_fits ph" using Cons.prems(3) by simp
    have "image_loaded s k v [ph] s2"
      by (rule load_one_segment [OF Cons.prems(1,2) fits ty run(1-3)])
    then have inv: "heap_inv s2" by (simp add: image_loaded_def)
    note M = make_vmo_koid [OF run(1) fits Cons.prems(1)]
    have len: "len = 4096 * seg_pages ph" using run(2) M(3) by (auto simp: umul_def split: if_splits)
    note map = run(3) [unfolded vmar_map_at_def vmar_map_def]
    have v1: "vmars s1 k = Some v" using M(1) Cons.prems(2) by simp
    have addr: "addr = va_addr v + seg_base ph" by (rule map_ext_offset [OF map v1])
    obtain w where w: "vmars s2 = (vmars s)(k \<mapsto> w)" "va_addr w = va_addr v" "va_size w = va_size v" "next_koid s2 = next_koid s + 1"
      "inside (addr, len) (va_addr v, va_size v)"
      by (rule map_ext_where [OF map]) (use v1 M(1,2) in auto)
    have "vmars s2 k = Some w" by (simp add: w(1))
    moreover have "\<forall>ph \<in> set phs. seg_fits ph" using Cons.prems(3) by simp
    ultimately have IH: "next_koid t = next_koid s2 + of_nat (length (load_headers phs)) \<and> segs_inside (va_addr w, va_size w) phs \<and>
      (\<exists>x. vmars t = (vmars s2)(k \<mapsto> x) \<and> va_addr x = va_addr w \<and> va_size x = va_size w)"
      using Cons.IH [OF inv _ _ run(4)] by blast
    obtain x where x: "vmars t = (vmars s2)(k \<mapsto> x)" "va_addr x = va_addr v" "va_size x = va_size v" using IH w(2,3) by auto
    have "vmars t = (vmars s)(k \<mapsto> x)" unfolding x(1) w(1) by (rule fun_upd_upd)
    with x(2,3) have "\<exists>w. vmars t = (vmars s)(k \<mapsto> w) \<and> va_addr w = va_addr v \<and> va_size w = va_size v" by blast
    moreover have "next_koid t = next_koid s + of_nat (length (load_headers (ph # phs)))" using IH w(4) ty by simp
    moreover have "segs_inside (va_addr v, va_size v) (ph # phs)" using IH w(2,3,5) ty addr len by (simp add: segs_inside_def)
    ultimately show ?thesis by blast
  qed
qed

lemma load_from_elf_region:
  fixes s :: "'a vmar_state_scheme"
  assumes "load_from_elf k elf s = (Inr vmo, t)" and "heap_inv s" and "vmars s k = Some v" and "\<forall>ph \<in> set (elf_programs elf). seg_fits ph"
  shows "next_koid t = next_koid s + of_nat (length (load_headers (elf_programs elf))) \<and> segs_inside (va_addr v, va_size v) (elf_programs elf) \<and>
    (\<exists>w. vmars t = (vmars s)(k \<mapsto> w) \<and> va_addr w = va_addr v \<and> va_size w = va_size v)"
proof -
  obtain r where "load_segments k (elf_programs elf) None s = (Inr r, t)"
    using assms(1) by (auto simp: load_from_elf_def sbind_eq_Inr split: option.splits)
  then show ?thesis by (rule load_segments_region [OF assms(2-4)])
qed

subsection \<open>The image stays\<close>

definition image_shown :: "'a vmar_state_scheme \<Rightarrow> usize \<Rightarrow> program_header list \<Rightarrow> bool" where
  "image_shown s a phs \<longleftrightarrow> (\<forall>ph \<in> set (load_headers phs). \<exists>m. seg_shown s a [m] ph)"

lemma seg_shown_one:
  assumes "seg_shown s a ms ph"
  shows "\<exists>m. seg_shown s a [m] ph"
proof -
  obtain m i pg where "m \<in> set ms" "map_span m = (a + seg_base ph, 4096 * seg_pages ph)"
    "paged_objs s i = Some pg" "contents s i = Some (seg_content ph)"
    "0 < seg_pages ph \<longrightarrow> shows_pages s (a + seg_base ph) (4096 * seg_pages ph) (pg_frames pg) 0 (seg_prot ph)"
    using assms unfolding seg_shown_def by (elim exE conjE) (rule that)
  then show ?thesis
    unfolding seg_shown_def by (intro exI [of _ m] exI [of _ i] exI [of _ pg] conjI) simp_all
qed

lemma image_later:
  fixes s t :: "'a vmar_state_scheme"
  assumes im: "image_shown s (fst q) phs" and ins: "segs_inside q phs" and inv: "heap_inv s" and lt: "later (next_obj s) q s t"
  shows "image_shown t (fst q) phs"
  unfolding image_shown_def
proof
  fix ph assume ph: "ph \<in> set (load_headers phs)"
  obtain m where m: "seg_shown s (fst q) [m] ph" using im ph by (auto simp: image_shown_def)
  then have sp: "mp_addr m = fst q + seg_base ph" "mp_size m = 4096 * seg_pages ph" by (auto simp: seg_shown_def map_span_def)
  have i: "inside (fst q + seg_base ph, 4096 * seg_pages ph) q" using ins ph by (simp add: segs_inside_def)
  have "seg_shown t (fst q) [m] ph"
  proof (rule seg_shown_keep [OF m])
    show "contents t i = Some bs" if "contents s i = Some bs" for i bs
    proof -
      obtain pg where "paged_objs s i = Some pg" using \<open>contents s i = Some bs\<close> by (auto elim: contents_SomeD)
      then show ?thesis using that lt heap_invD(1) [OF inv] by (simp add: later_def)
    qed
    show "\<exists>pg'. paged_objs t i = Some pg' \<and> pg_frames pg' = pg_frames pg" if "paged_objs s i = Some pg" for i pg
    proof -
      have "map_option object_view (paged_objs t i) = Some (object_view pg)"
        using lt heap_invD(1) [OF inv that] that by (simp add: later_def)
      then show ?thesis by (auto simp: object_view_def)
    qed
    show "host_map t x = host_map s x" if "m' \<in> set [m]" "mp_addr m' \<le> x" "x < mp_addr m' + mp_size m'" for m' x
      using lt that i sp by (auto simp: later_def inside_def)
  qed simp
  then show "\<exists>m. seg_shown t (fst q) [m] ph" by blast
qed

lemma load_userboot_image:
  fixes s t :: "'a sys_state_scheme"
  assumes run: "load_userboot env img root s = (Inr (entry, sz), t)" and elf: "be_parse env (img_userboot img) = Some elf"
    and inv: "heap_inv s" and fits: "\<forall>ph \<in> set (elf_programs elf). seg_fits ph" and root: "root \<noteq> next_koid s"
  shows "\<exists>a. entry = a + elf_entry_point elf \<and> heap_inv t \<and> reserved root (next_koid s) (a, sz) t \<and>
     image_shown t a (elf_programs elf) \<and> segs_inside (a, sz) (elf_programs elf) \<and>
     next_koid t = next_koid s + 1 + of_nat (length (load_headers (elf_programs elf)))"
proof -
  obtain c u vmo a where c: "allocate root None sz VF_CAN_MAP_RXW PAGE_SIZE s = (Inr c, u)" "load_from_elf c elf u = (Inr vmo, t)"
    "vmar_addr c t = Inr a" "entry = a + elf_entry_point elf"
    using run elf by (auto simp: load_userboot_def parse_elf_def slift_def sbind_eq_Inr unwrap_Inr uadd_def split: if_splits)
  have at: "at 0 s" using inv by (simp add: at_def)
  note A = later_allocate [OF at c(1) root]
  obtain b where b: "reserved root c (b, sz) u" using A(5) by blast
  have iu: "heap_inv u" using A(1) by (simp add: later_def)
  obtain w where w: "vmars u c = Some w" "va_addr w = b" "va_size w = sz" using b by (auto simp: reserved_def)
  note R = load_from_elf_region [OF c(2) iu w(1) fits, unfolded w(2,3)]
  obtain w' where w': "vmars t = (vmars u)(c \<mapsto> w')" "va_addr w' = b" "va_size w' = sz" using R by blast
  have "a = b" using c(3) w' by (simp add: vmar_addr_def get_vmar_def rbind_eq_Inr)
  have im: "image_loaded u c w (elf_programs elf) t" by (rule load_from_elf_image [OF c(2) iu w(1) fits])
  have "\<exists>m. seg_shown t b [m] ph" if ph: "ph \<in> set (load_headers (elf_programs elf))" for ph
  proof -
    obtain x where "\<forall>ph \<in> set (load_headers (elf_programs elf)). seg_shown t b (region_mappings x) ph"
      using im unfolding image_loaded_def w(2) by (elim exE conjE) (rule that)
    then obtain ms where "seg_shown t b ms ph" using ph by blast
    then show ?thesis by (rule seg_shown_one)
  qed
  moreover have "heap_inv t" using im by (simp add: image_loaded_def)
  moreover have "reserved root c (b, sz) t" using b w' root A(3) by (auto simp: reserved_def)
  moreover have "next_koid t = next_koid s + 1 + of_nat (length (load_headers (elf_programs elf)))" using R A(2) by simp
  moreover have "segs_inside (b, sz) (elf_programs elf)" using R by blast
  ultimately show ?thesis
    using c(4) unfolding \<open>a = b\<close> A(3) [symmetric] image_shown_def by blast
qed

subsection \<open>The steps of the loader\<close>

lemma high_later: "later i0 q s t \<Longrightarrow> high i0 s k \<Longrightarrow> high i0 t k"
  by (simp add: later_def)

lemma reserved_vmars: "vmars t = vmars s \<Longrightarrow> reserved root c q t = reserved root c q s"
  by (simp add: reserved_def)

lemma sfor_ok:
  assumes "sfor f xs s = (Inr (), t)" and "P s" and "\<And>x u u'. P u \<Longrightarrow> f x u = (Inr (), u') \<Longrightarrow> P u'"
  shows "P t"
  using assms(1,2)
proof (induction xs arbitrary: s)
  case (Cons x xs)
  then show ?case using assms(3) by (auto simp: sbind_eq_Inr)
qed simp

lemma later_map_from_elf:
  fixes s t :: "'a vmar_state_scheme"
  assumes "at i0 s" and "map_from_elf d elf vmo s = (Inr (), t)" and "apart d q s" and "reserved root c q s" and "d \<noteq> c"
  shows "later i0 q s t \<and> reserved root c q t"
proof -
  have "later i0 q s t \<and> apart d q t \<and> reserved root c q t"
    using assms(2) unfolding map_from_elf_def
  proof (rule sfor_ok [where P = "\<lambda>u. later i0 q s u \<and> apart d q u \<and> reserved root c q u"])
    show "later i0 q s s \<and> apart d q s \<and> reserved root c q s" using assms by (simp add: later_def at_def)
    fix ph u u' assume u: "later i0 q s u \<and> apart d q u \<and> reserved root c q u" and step: "map_segment d vmo ph u = (Inr (), u')"
    consider "u' = u" | x off len addr where "map_ext d x vmo off len MMU_RXW (to_mmu_flags ph) False True u = (Inr addr, u')"
      using step by (auto simp: map_segment_def slift_def sbind_eq_Inr vmar_map_at_def vmar_map_def split: option.splits if_splits)
    then show "later i0 q s u' \<and> apart d q u' \<and> reserved root c q u'"
    proof cases
      case 1
      then show ?thesis using u by simp
    next
      case 2
      have at: "at i0 u" using u by (blast intro: later_at)
      note M = later_map_ext [OF at 2, of _ q]
      show ?thesis using M(1) M(3) [of c] M(4) u assms(5) later_trans by blast
    qed
  qed
  then show ?thesis by blast
qed

lemma later_load_vdso:
  fixes s t :: "'a sys_state_scheme"
  assumes at: "at i0 s" and run: "load_vdso env img root sz s = (Inr vdso, t)" and r: "reserved root c q s"
    and ne: "c \<noteq> root" "c \<noteq> next_koid s + 1" "root \<noteq> next_koid s + 1"
  shows "later i0 q s t \<and> reserved root c q t \<and> high i0 t vdso"
proof -
  obtain elf n s1 b0 s2 len fl d s3 s4 o1 b1 s5 o2 b2 s6 o3 b3 where
    s1: "new_paged n s = (Inr vdso, s1)" and s2: "vmo_write vdso 0 b0 s1 = (Inr (), s2)"
    and s3: "allocate root (Some sz) len fl PAGE_SIZE s2 = (Inr d, s3)" and s4: "map_from_elf d elf vdso s3 = (Inr (), s4)"
    and s5: "vmo_write vdso o1 b1 s4 = (Inr (), s5)" and s6: "vmo_write vdso o2 b2 s5 = (Inr (), s6)" and t: "vmo_write vdso o3 b3 s6 = (Inr (), t)"
    using run by (auto simp: load_vdso_def slift_def sbind_eq_Inr unwrap_Inr allocate_at_def Let_def split: if_splits)
  note N = later_new_paged [OF at s1]
  note W = later_vmo_write [OF later_at [OF N(1)] N(2) s2]
  have k: "next_koid s2 = next_koid s + 1" using N(4) W(3) by simp
  have r2: "reserved root c q s2" using r reserved_vmars N(3) W(2) by metis
  note A = later_allocate [OF later_at [OF W(1)] s3 ne(3) [folded k]]
  have r3: "reserved root c q s3" "apart d q s3" using A(4) [OF r2 ne(1) ne(2) [folded k]] by simp_all
  have "d \<noteq> c" using A(3) k ne(2) by simp
  note M = later_map_from_elf [OF later_at [OF A(1)] s4 r3(2,1) this]
  have l4: "later i0 q s s4" using N(1) W(1) A(1) M by (blast intro: later_trans)
  have h4: "high i0 s4 vdso" using N(2) W(1) A(1) M high_later by blast
  note W1 = later_vmo_write [OF later_at [OF l4] h4 s5]
  note W2 = later_vmo_write [OF later_at [OF W1(1)] high_later [OF W1(1) h4] s6]
  note W3 = later_vmo_write [OF later_at [OF W2(1)] high_later [OF W2(1) high_later [OF W1(1) h4]] t]
  have "later i0 q s t" using l4 W1(1) W2(1) W3(1) by (blast intro: later_trans)
  moreover have "reserved root c q t" using M reserved_vmars W1(2) W2(2) W3(2) by metis
  moreover have "high i0 t vdso" using h4 W1(1) W2(1) W3(1) high_later by blast
  ultimately show ?thesis by blast
qed

lemma later_load_zbi:
  fixes s t :: "'a sys_state_scheme"
  assumes at: "at i0 s" and run: "load_zbi img s = (Inr zbi, t)"
  shows "later i0 q s t" "vmars t = vmars s"
proof -
  obtain n s1 b s2 where s1: "new_paged n s = (Inr zbi, s1)" and s2: "vmo_write zbi 0 b s1 = (Inr (), s2)" and t: "vmo_set_name zbi ''zbi'' s2 = (Inr (), t)"
    using run by (auto simp: load_zbi_def sbind_eq_Inr unwrap_Inr)
  note N = later_new_paged [OF at s1]
  note W = later_vmo_write [OF later_at [OF N(1)] N(2) s2]
  note S = later_set_name [OF later_at [OF W(1)] t]
  show "later i0 q s t" using N(1) W(1) S(1) by (blast intro: later_trans)
  show "vmars t = vmars s" using N(3) W(2) S(2) by simp
qed

lemma later_map_stack:
  fixes s t :: "'a sys_state_scheme"
  assumes at: "at i0 s" and run: "map_stack root s = (Inr sp, t)" and r: "reserved root c q s"
  shows "later i0 q s t"
proof -
  obtain v u len b where v: "new_paged STACK_PAGES s = (Inr v, u)" "vmar_map root None v 0 len (MMU_READ OR MMU_WRITE OR MMU_USER) u = (Inr b, t)"
    using run by (auto simp: map_stack_def sbind_eq_Inr unwrap_Inr slift_def)
  note N = later_new_paged [OF at v(1)]
  have "reserved root c q u" using r N(3) reserved_vmars by metis
  then have "later i0 q u t" using later_map_ext(1) [OF later_at [OF N(1)] v(2) [unfolded vmar_map_def]] by blast
  with N(1) show ?thesis by (rule later_trans)
qed

lemma later_late_steps:
  fixes s t :: "'a sys_state_scheme"
  assumes at: "at i0 s" and hi: "high i0 s v" and s1: "prepare_vdso env v s = (Inr ts, s1)" and s2: "new_paged i s1 = (Inr crash, s2)"
    and s3: "vmo_set_name crash n1 s2 = (Inr (), s3)" and s4: "create_kcounter_vmo s3 = (Inr cs, s4)"
    and s5: "new_paged j s4 = (Inr ins, s5)" and t: "vmo_set_name ins n2 s5 = (Inr (), t)"
  shows "later i0 q s t"
proof -
  obtain o1 b1 a1 a2 c1 l a3 a4 m1 m2 m3 c2 a5 where p: "vmo_write v o1 b1 s = (Inr (), a1)" "vmo_set_name v m1 a1 = (Inr (), a2)"
    "vmo_create_child v False 0 l a2 = (Inr c1, a3)" "vmo_set_name c1 m2 a3 = (Inr (), a4)"
    "vmo_create_child v False 0 l a4 = (Inr c2, a5)" "vmo_set_name c2 m3 a5 = (Inr (), s1)"
    using s1 by (auto simp: prepare_vdso_def slift_def sbind_eq_Inr unwrap_Inr)
  note P1 = later_vmo_write [OF at hi p(1)]
  note P2 = later_set_name [OF later_at [OF P1(1)] p(2)]
  have h2: "high i0 a2 v" using hi P1(1) P2(1) high_later by blast
  note P3 = later_create_child [OF later_at [OF P2(1)] h2 p(3)]
  note P4 = later_set_name [OF later_at [OF P3(1)] p(4)]
  have h4: "high i0 a4 v" using h2 P3(1) P4(1) high_later by blast
  note P5 = later_create_child [OF later_at [OF P4(1)] h4 p(5)]
  note P6 = later_set_name [OF later_at [OF P5(1)] p(6)]
  note L2 = later_new_paged [OF later_at [OF P6(1)] s2]
  note L3 = later_set_name [OF later_at [OF L2(1)] s3]
  obtain k1 e1 h e2 k2 e3 e4 where e: "new_paged 1 s3 = (Inr k1, e1)" "vmo_write k1 0 h e1 = (Inr (), e2)"
    "vmo_set_name k1 ''counters/desc'' e2 = (Inr (), e3)" "new_paged 1 e3 = (Inr k2, e4)" "vmo_set_name k2 ''counters/arena'' e4 = (Inr (), s4)"
    using s4 by (auto simp: create_kcounter_vmo_def sbind_eq_Inr unwrap_Inr)
  note E1 = later_new_paged [OF later_at [OF L3(1)] e(1)]
  note E2 = later_vmo_write [OF later_at [OF E1(1)] E1(2) e(2)]
  note E3 = later_set_name [OF later_at [OF E2(1)] e(3)]
  note E4 = later_new_paged [OF later_at [OF E3(1)] e(4)]
  note E5 = later_set_name [OF later_at [OF E4(1)] e(5)]
  note L5 = later_new_paged [OF later_at [OF E5(1)] s5]
  note L6 = later_set_name [OF later_at [OF L5(1)] t]
  show ?thesis
    by (rule later_trans [OF P1(1)] later_trans [OF P2(1)] later_trans [OF P3(1)] later_trans [OF P4(1)] later_trans [OF P5(1)]
        later_trans [OF P6(1)] later_trans [OF L2(1)] later_trans [OF L3(1)] later_trans [OF E1(1)] later_trans [OF E2(1)]
        later_trans [OF E3(1)] later_trans [OF E4(1)] later_trans [OF E5(1)] later_trans [OF L5(1)] L6(1))+
qed

subsection \<open>The first thread\<close>

lemma process_start_memory:
  fixes s t :: "'a sys_state_scheme"
  assumes "process_start k x entry sp h a2 s = (Inr (), t)"
  shows "vmar_state.truncate t = vmar_state.truncate s"
  using assms
  by (auto simp: process_start_def with_proc_def start_arg_def set_first_thread_def thread_start_def with_thread_def table_add_def Let_def
      sbind_def change_state_def put_thread_def put_proc_def vmar_state.defs split: if_splits option.splits sum.splits)

lemma boot_early_memory:
  fixes s :: "'a sys_state_scheme"
  assumes inv: "heap_inv s" and "job_root s = (Inr job, s1)" and "process_create job nm s1 = (Inr p, s2)" and "thread_create cx p nm s2 = (Inr x, s3)"
    and "resource_create rn RK_ROOT 0 len 0 s3 = (res, s4)" and "process_vmar p s4 = Inr root"
  shows "heap_inv s4" "next_koid s4 = root + 3"
proof -
  have f1: "pmem s1 = pmem s \<and> avail_frames s1 = avail_frames s \<and> paged_objs s1 = paged_objs s \<and> next_obj s1 = next_obj s"
    using assms(2) by (auto simp: job_root_def kobject_base_new_def new_koid_def put_job_def)
  obtain pr where f2: "pmem s2 = pmem s1" "avail_frames s2 = avail_frames s1" "paged_objs s2 = paged_objs s1" "next_obj s2 = next_obj s1"
    "procs s2 p = Some pr" "next_koid s2 = pr_vmar pr + 1"
    using assms(3)
    by (auto simp: process_create_def with_job_def kobject_base_with_name_def new_root_def new_koid_def job_add_process_def
      put_vmar_def put_proc_def put_job_def Let_def split: option.splits sum.splits if_splits)
  have f3: "pmem s3 = pmem s2" "avail_frames s3 = avail_frames s2" "paged_objs s3 = paged_objs s2" "next_obj s3 = next_obj s2"
    "procs s3 p = Some (pr\<lparr>pr_threads := pr_threads pr @ [x]\<rparr>)" "next_koid s3 = next_koid s2 + 1"
    using assms(4) f2(5)
    by (auto simp: thread_create_def kobject_base_with_name_def new_koid_def add_thread_def with_proc_def Let_def put_proc_def put_thread_def
      split: option.splits sum.splits proc_status.splits)
  have f4: "pmem s4 = pmem s3" "avail_frames s4 = avail_frames s3" "paged_objs s4 = paged_objs s3" "next_obj s4 = next_obj s3" "procs s4 = procs s3"
    "next_koid s4 = next_koid s3 + 1"
    using assms(5) by (auto simp: resource_create_def kobject_base_with_name_def new_koid_def)
  have "heap_inv s4 = heap_inv s" by (rule heap_inv_cong) (simp_all add: f1 f2 f3 f4)
  then show "heap_inv s4" using inv by simp
  have "root = pr_vmar pr" using assms(6) f3(5) f4(5) by (simp add: process_vmar_def get_proc_def)
  then show "next_koid s4 = root + 3" by (simp add: f4(6) f3(6) f2(6))
qed

lemma koid_apart: "n < 65536 \<Longrightarrow> 0 < m \<Longrightarrow> m < 65536 \<Longrightarrow> (k :: koid) + of_nat n + of_nat m \<noteq> k"
proof
  assume "n < 65536" "0 < m" "m < 65536" and "k + of_nat n + of_nat m = k"
  then have "(of_nat (n + m) :: koid) = 0" by (simp add: add.assoc)
  then have "2 ^ LENGTH(64) dvd n + m" unfolding word_of_nat_eq_0_iff .
  with \<open>n < 65536\<close> \<open>0 < m\<close> \<open>m < 65536\<close> show False by (auto dest: dvd_imp_le)
qed

lemma run_userboot_image:
  fixes s t :: "'a sys_state_scheme"
  assumes run: "run_userboot env img cmdline s = (Inr p, t)" and inv: "heap_inv s" and elf: "be_parse env (img_userboot img) = Some elf"
    and fits: "\<forall>ph \<in> set (elf_programs elf). seg_fits ph" and few: "length (elf_programs elf) < 65536"
  shows "\<exists>pr x th cx base. procs t p = Some pr \<and> pr_threads pr = [x] \<and> threads t x = Some th \<and> th_context th = Some cx \<and>
     cx Rip = of_nat (base + elf_entry_point elf) \<and> image_shown t base (elf_programs elf)"
proof -
  from run obtain job s1 s2 x s3 res s4 vmar entry sz s5 vdso s6 zbi s7 sp s8 uc kc s9 t1 t2 s10 crash s11 s12 cn ca s13 ins
      s14 s15 s16 s17 m where
    s1: "job_root s = (Inr job, s1)" and s2: "process_create job ''userboot'' s1 = (Inr p, s2)"
    and s3: "thread_create (be_context env) p ''userboot'' s2 = (Inr x, s3)"
    and s4: "resource_create ''root'' RK_ROOT 0 0x100000000 0 s3 = (res, s4)" and vmar: "process_vmar p s4 = Inr vmar"
    and mem: "load_userboot env img vmar s4 = (Inr (entry, sz), s5)" "load_vdso env img vmar sz s5 = (Inr vdso, s6)"
      "load_zbi img s6 = (Inr zbi, s7)" "map_stack vmar s7 = (Inr sp, s8)" and s9: "channel_create s8 = ((uc, kc), s9)"
    and late: "prepare_vdso env vdso s9 = (Inr (t1, t2), s10)" "new_paged 1 s10 = (Inr crash, s11)"
      "vmo_set_name crash ''crashlog'' s11 = (Inr (), s12)" "create_kcounter_vmo s12 = (Inr (cn, ca), s13)"
      "new_paged 0 s13 = (Inr ins, s14)" "vmo_set_name ins ''UNIMPLEMENTED_VMO'' s14 = (Inr (), s15)"
    and s16: "channel_write kc m s15 = (Inr (), s16)"
    and s17: "process_start p x (of_nat entry) (of_nat sp) (Some (handle_new (KObj T_Channel uc) R_DEFAULT_CHANNEL)) 0 s16 = (Inr (), s17)"
    and t: "t = s17\<lparr>channels := (channels s17)(kc := None)\<rparr>"
    by (rule run_userboot_steps) (rule that)
  note early = boot_early_memory [OF inv s1 s2 s3 s4 vmar]
  let ?c = "next_koid s4" and ?n = "length (load_headers (elf_programs elf))"
  have n: "?n < 65536" unfolding load_headers_def by (rule order.strict_trans1 [OF length_filter_le few])
  have "vmar \<noteq> ?c" by (simp add: early(2))
  from load_userboot_image [OF mem(1) elf early(1) fits this]
  obtain base where b: "entry = base + elf_entry_point elf" "heap_inv s5" "reserved vmar ?c (base, sz) s5" "image_shown s5 base (elf_programs elf)"
    "segs_inside (base, sz) (elf_programs elf)" "next_koid s5 = ?c + 1 + of_nat ?n" by blast
  let ?i = "next_obj s5" and ?q = "(base, sz)"
  have at: "at ?i s5" using b(2) by (simp add: at_def)
  have ne: "?c \<noteq> next_koid s5 + 1" "vmar \<noteq> next_koid s5 + 1"
    using koid_apart [OF n, of 2 ?c] koid_apart [OF n, of 5 vmar] by (simp_all add: b(6) early(2) algebra_simps)
  have "?c \<noteq> vmar" by (simp add: early(2))
  note V = later_load_vdso [OF at mem(2) b(3) this ne]
  have at6: "at ?i s6" using V by (blast intro: later_at)
  note Z = later_load_zbi [OF at6 mem(3)]
  have r7: "reserved vmar ?c ?q s7" using V reserved_vmars [OF Z(2)] by blast
  note S = later_map_stack [OF later_at [OF Z(1)] mem(4) r7]
  have C: "later ?i ?q s8 s9"
    using s9 by (intro later_same [OF later_at [OF S], of _ "next_koid s8 + 1 + 1"]) (auto simp: channel_create_eq vmar_state.defs)
  have "high ?i s9 vdso" using V Z(1) S C high_later by blast
  note L = later_late_steps [OF later_at [OF C] this late]
  obtain pr where pr: "procs s4 p = Some pr" "pr_handles pr = Map.empty" "pr_max_handle_id pr = 0" "pr_threads pr = [x]"
    "threads s4 x = Some (thread_init \<lparr>base_id = x, base_name = ''userboot''\<rparr> p (be_context env))"
    using boot_early [OF s1 s2 s3 s4] by blast
  note before = vmar_more_fields [OF boot_memory_frames [OF mem]]
  note ch = channel_create_result [OF s9]
  note after = vmar_more_fields [OF mem_above_fields(2) [OF boot_late_frames [OF late]]]
  have s15: "procs s15 p = Some pr" "threads s15 x = Some (thread_init \<lparr>base_id = x, base_name = ''userboot''\<rparr> p (be_context env))"
    "channels s15 uc = Some (channel_init \<lparr>base_id = uc, base_name = ''''\<rparr> (Some kc))"
    "channels s15 kc = Some (channel_init \<lparr>base_id = kc, base_name = ''''\<rparr> (Some uc))"
    using pr before ch after by simp_all
  have cx: "th_context (thread_init \<lparr>base_id = x, base_name = ''userboot''\<rparr> p (be_context env)) = Some (be_context env)"
    "ch_peer (channel_init \<lparr>base_id = kc, base_name = ''''\<rparr> (Some uc)) = Some uc" by (simp_all add: thread_init_def channel_init_def)
  note fin = boot_last_steps [OF s15(1) pr(2,3) s15(2) cx(1) s15(3,4) cx(2) s16 s17 t]
  have "vmar_state.truncate t = vmar_state.truncate s15"
    using process_start_memory [OF s17] channel_write_result [OF s16 s15(3,4) cx(2)] by (simp add: t put_channel_def vmar_state.defs)
  then have "later ?i ?q s15 t" by (intro later_same [OF later_at [OF L], of _ "next_koid s15"]) simp
  then have "later ?i ?q s5 t" using V Z(1) S C L by (blast intro: later_trans)
  then have "image_shown t base (elf_programs elf)" using image_later [of s5 ?q "elf_programs elf" t] b(2,4,5) by simp
  then show ?thesis using fin(1,2) pr(4) b(1)
    by (intro exI [of _ "pr\<lparr>pr_status := PS_Running, pr_max_handle_id := 1, pr_handles := [3 \<mapsto> handle_new (KObj T_Channel uc) R_DEFAULT_CHANNEL]\<rparr>"]
        exI [of _ x] exI) (auto simp: start_context_def)
qed

text \<open>C18. The first thread starts in the program it was given: when \<open>run_userboot\<close> succeeds, its instruction
  pointer is the entry point of userboot, relative to the base where userboot was loaded, and at the
  end of all the steps every byte of every loadable segment of userboot is still in memory there: it
  is accessible for exactly what the segment's header permits, and a readable segment reads as the
  bytes of the file followed by zeros.\<close>

theorem first_thread_in_userboot:
  fixes s t :: "'a sys_state_scheme"
  assumes "run_userboot env img cmdline s = (Inr p, t)" and "heap_inv s" and "be_parse env (img_userboot img) = Some elf"
    and "\<forall>ph \<in> set (elf_programs elf). seg_fits ph" and "length (elf_programs elf) < 65536"
  shows "\<exists>pr x th cx base. procs t p = Some pr \<and> pr_threads pr = [x] \<and> threads t x = Some th \<and> th_context th = Some cx \<and>
     cx Rip = of_nat (base + elf_entry_point elf) \<and>
     (\<forall>ph \<in> set (load_headers (elf_programs elf)).
       (\<forall>q. \<forall>y < ph_mem_size ph. translate q t (base + ph_virtual_addr ph + y) \<noteq> None \<longleftrightarrow> seg_permits ph q) \<and>
       (ph_is_read ph \<longrightarrow> mem_load t (base + ph_virtual_addr ph) (ph_mem_size ph) =
          Inr (seg_bytes ph @ replicate (ph_mem_size ph - length (seg_bytes ph)) 0)))"
proof -
  obtain pr x th cx base where b: "procs t p = Some pr" "pr_threads pr = [x]" "threads t x = Some th" "th_context th = Some cx"
    "cx Rip = of_nat (base + elf_entry_point elf)" "image_shown t base (elf_programs elf)"
    using run_userboot_image [OF assms] by (elim exE conjE) (rule that)
  have seg: "(\<forall>q. \<forall>y < ph_mem_size ph. translate q t (base + ph_virtual_addr ph + y) \<noteq> None \<longleftrightarrow> seg_permits ph q) \<and>
       (ph_is_read ph \<longrightarrow> mem_load t (base + ph_virtual_addr ph) (ph_mem_size ph) =
          Inr (seg_bytes ph @ replicate (ph_mem_size ph - length (seg_bytes ph)) 0))"
    if ph: "ph \<in> set (load_headers (elf_programs elf))" for ph
  proof -
    obtain m where "seg_shown t base [m] ph" using b(6) ph by (auto simp: image_shown_def)
    moreover have "seg_fits ph" "ph_type ph = Some PT_Load" using ph assms(4) by (auto simp: load_headers_def)
    ultimately show ?thesis using seg_shown_memory by blast
  qed
  show ?thesis
    by (rule exI [of _ pr], rule exI [of _ x], rule exI [of _ th], rule exI [of _ cx], rule exI [of _ base]) (use b(1-5) seg in blast)
qed

lemma first_thread_in_userboot_witness:
  "\<exists>t pr x th cx base. run_userboot demo_env demo_images [] power_on = (Inr 1025, t) \<and> procs t 1025 = Some pr \<and>
     pr_threads pr = [x] \<and> threads t x = Some th \<and> th_context th = Some cx \<and> cx Rip = of_nat (base + 16) \<and>
     translate PROT_EXEC t (base + 16) \<noteq> None \<and> translate PROT_WRITE t (base + 16) = None \<and>
     mem_load t base 4096 = Inr (0x90 # replicate 4095 0)"
proof -
  obtain t where t: "run_userboot demo_env demo_images [] power_on = (Inr 1025, t)"
    using userboot_starts [OF power_on_inv(1) power_on_simps(1-3) power_on_inv(2,3) demo_bootable(1)] by blast
  let ?elf = "\<lparr>elf_programs = [demo_ph], elf_sections = [], elf_entry_point = 16, elf_ph_offset = 64\<rparr>"
  have elf: "be_parse demo_env (img_userboot demo_images) = Some ?elf" by (simp add: demo_env_def demo_images_def)
  have ph: "ph_type demo_ph = Some PT_Load" "ph_virtual_addr demo_ph = 0" "ph_mem_size demo_ph = 4096" "seg_bytes demo_ph = [0x90]"
    "ph_is_read demo_ph" "ph_is_execute demo_ph" "\<not> ph_is_write demo_ph" "seg_fits demo_ph"
    by (simp_all add: demo_ph_def seg_bytes_def seg_fits_def)
  have fits: "\<forall>ph \<in> set (elf_programs ?elf). seg_fits ph" "length (elf_programs ?elf) < 65536" using ph(8) by simp_all
  obtain pr x th cx base where b: "procs t 1025 = Some pr" "pr_threads pr = [x]" "threads t x = Some th" "th_context th = Some cx"
    "cx Rip = of_nat (base + elf_entry_point ?elf)"
    and seg: "\<forall>ph \<in> set (load_headers (elf_programs ?elf)).
       (\<forall>q. \<forall>y < ph_mem_size ph. translate q t (base + ph_virtual_addr ph + y) \<noteq> None \<longleftrightarrow> seg_permits ph q) \<and>
       (ph_is_read ph \<longrightarrow> mem_load t (base + ph_virtual_addr ph) (ph_mem_size ph) =
          Inr (seg_bytes ph @ replicate (ph_mem_size ph - length (seg_bytes ph)) 0))"
    using first_thread_in_userboot [OF t power_on_inv(1) elf fits] by (elim exE conjE) (rule that)
  have acc: "translate q t (base + y) \<noteq> None \<longleftrightarrow> seg_permits demo_ph q" if "y < 4096" for q y using seg ph that by simp
  have mem: "mem_load t base 4096 = Inr (0x90 # replicate 4095 0)" using seg ph by simp
  have pr16: "translate PROT_EXEC t (base + 16) \<noteq> None" "translate PROT_WRITE t (base + 16) = None"
    using acc [of 16 PROT_EXEC] acc [of 16 PROT_WRITE] ph(6,7) by simp_all
  show ?thesis
    by (rule exI [of _ t], rule exI [of _ pr], rule exI [of _ x], rule exI [of _ th], rule exI [of _ cx], rule exI [of _ base]) (use t b pr16 mem in simp)
qed

end
