(* ===== verification/Syscall_Gen.thy ===== *)
theory Syscall_Gen
  imports Syscall_Numbers Zx_Error
begin

text \<open>
  The script that generates the table of system call numbers (\<^verbatim>\<open>zircon-syscall/build.rs\<close>): a function
  from the text of the C header to the text of \<^verbatim>\<open>consts.rs\<close>, with the string methods of the standard
  library it uses. Text is ASCII, which is all that \<open>to_uppercase\<close> is modelled on.
\<close>

subsection \<open>String methods\<close>

fun split_at_char :: "char \<Rightarrow> string \<Rightarrow> string list" where
  \<comment> \<open>\<open>str::split\<close>: never empty\<close>
  "split_at_char c [] = [[]]"
| "split_at_char c (x # xs) =
     (if x = c then [] # split_at_char c xs
      else (case split_at_char c xs of [] \<Rightarrow> [[x]] | l # ls \<Rightarrow> (x # l) # ls))"

definition strip_cr :: "string \<Rightarrow> string" where
  "strip_cr l = (if l \<noteq> [] \<and> last l = CHR 0x0D then butlast l else l)"

definition str_lines :: "string \<Rightarrow> string list" where
  \<comment> \<open>\<open>str::lines\<close>: no empty line after the last newline\<close>
  "str_lines s =
     (let ls = split_at_char (CHR 0x0A) s
      in map strip_cr (if last ls = [] then butlast ls else ls))"

definition to_uppercase :: "string \<Rightarrow> string" where
  "to_uppercase s =
     map (\<lambda>c. if (of_char c :: nat) \<in> {97..122} then char_of (of_char c - 32 :: nat) else c) s"

subsection \<open>The script\<close>

definition gen_head :: string where
  "gen_head = concat (map (\<lambda>l. l @ [CHR 0x0A])
     [''// Generated by build.rs. DO NOT EDIT.'', ''use numeric_enum_macro::numeric_enum;'', '''', ''numeric_enum! {'',
      ''#[repr(u32)]'', ''#[derive(Debug, Eq, PartialEq)]'', ''#[allow(non_camel_case_types)]'',
      ''#[allow(clippy::upper_case_acronyms)]'', ''pub enum SyscallType {''])"

definition enum_row :: "string \<Rightarrow> string \<Rightarrow> string" where
  "enum_row nm i = ''    '' @ nm @ '' = '' @ i @ '','' @ [CHR 0x0A]"

definition gen_row :: "string \<Rightarrow> string zx" where
  \<comment> \<open>the second and third word of a line; a missing one, or a name shorter than its prefix, panics\<close>
  "gen_row line =
     (case split_at_char (CHR 0x20) line of
        _ # nm # i # _ \<Rightarrow> if length nm < 7 then Inl Panic else Inr (enum_row (to_uppercase (drop 7 nm)) i)
      | _ \<Rightarrow> Inl Panic)"

primrec gen_rows :: "string list \<Rightarrow> string zx" where
  "gen_rows [] = Inr []"
| "gen_rows (line # lines) =
     (if take 7 line \<noteq> ''#define'' then gen_rows lines
      else rbind (gen_row line) (\<lambda>r. rbind (gen_rows lines) (\<lambda>rs. Inr (r @ rs))))"

definition gen_consts :: "string \<Rightarrow> string zx" where
  "gen_consts header =
     rbind (gen_rows (str_lines header)) (\<lambda>rows. Inr (gen_head @ rows @ [CHR 0x7D, CHR 0x0A, CHR 0x7D, CHR 0x0A]))"

subsection \<open>What it generates\<close>

datatype header_line = Define string string | Remark string

primrec show_line :: "header_line \<Rightarrow> string" where
  "show_line (Define nm i) = ''#define ZX_SYS_'' @ nm @ '' '' @ i"
| "show_line (Remark l) = l"

primrec line_ok :: "header_line \<Rightarrow> bool" where
  "line_ok (Define nm i) \<longleftrightarrow> set (nm @ i) \<inter> {CHR 0x0A, CHR 0x0D, CHR 0x20} = {}"
| "line_ok (Remark l) \<longleftrightarrow> set l \<inter> {CHR 0x0A, CHR 0x0D} = {} \<and> take 7 l \<noteq> ''#define''"

primrec line_row :: "header_line \<Rightarrow> string" where
  "line_row (Define nm i) = enum_row (to_uppercase nm) i"
| "line_row (Remark l) = []"

definition show_header :: "header_line list \<Rightarrow> string" where
  "show_header ls = concat (map (\<lambda>l. show_line l @ [CHR 0x0A]) ls)"

lemma split_at_char_word: "c \<notin> set w \<Longrightarrow> split_at_char c w = [w]"
  by (induction w) auto

lemma split_at_char_append: "c \<notin> set w \<Longrightarrow> split_at_char c (w @ c # rest) = w # split_at_char c rest"
  by (induction w) auto

lemma show_line_clean: "line_ok l \<Longrightarrow> set (show_line l) \<inter> {CHR 0x0A, CHR 0x0D} = {}"
  by (cases l) auto

lemma split_header:
  "list_all line_ok ls \<Longrightarrow> split_at_char (CHR 0x0A) (show_header ls) = map show_line ls @ [[]]"
proof (induction ls)
  case Nil
  then show ?case by (simp add: show_header_def)
next
  case (Cons l ls)
  then have "CHR 0x0A \<notin> set (show_line l)" using show_line_clean [of l] by auto
  from split_at_char_append [OF this, of "show_header ls"] Cons show ?case by (simp add: show_header_def)
qed

lemma strip_cr_line: "line_ok l \<Longrightarrow> strip_cr (show_line l) = show_line l"
  using show_line_clean [of l] by (cases "show_line l" rule: rev_cases) (auto simp: strip_cr_def)

lemma header_lines:
  assumes "list_all line_ok ls"
  shows "str_lines (show_header ls) = map show_line ls"
  using assms by (simp add: str_lines_def split_header list_all_iff strip_cr_line)

lemma gen_row_define:
  assumes "line_ok (Define nm i)"
  shows "gen_row (show_line (Define nm i)) = Inr (line_row (Define nm i))"
proof -
  have s: "CHR 0x20 \<notin> set (''ZX_SYS_'' @ nm)" "CHR 0x20 \<notin> set i" using assms by auto
  have "split_at_char (CHR 0x20) (''#define'' @ CHR 0x20 # (''ZX_SYS_'' @ nm) @ CHR 0x20 # i) = [''#define'', ''ZX_SYS_'' @ nm, i]"
    using split_at_char_append [OF s(1), of i] split_at_char_word [OF s(2)] by simp
  then show ?thesis by (simp add: gen_row_def)
qed

lemma gen_rows_header:
  "list_all line_ok ls \<Longrightarrow> gen_rows (map show_line ls) = Inr (concat (map line_row ls))"
proof (induction ls)
  case (Cons l ls)
  then show ?case using gen_row_define by (cases l) (auto simp del: show_line.simps(1) simp: show_line_def)
qed simp

text \<open>From a header of \<^verbatim>\<open>#define\<close> lines and others the script makes the enum of the defined names, in
  upper case and in their order, with their numbers, and never fails.\<close>

lemma gen_consts_header:
  assumes "list_all line_ok ls"
  shows "gen_consts (show_header ls) =
     Inr (gen_head @ concat (map line_row ls) @ [CHR 0x7D, CHR 0x0A, CHR 0x7D, CHR 0x0A])"
  using assms by (simp add: gen_consts_def header_lines gen_rows_header)

text \<open>A line that stops after the name makes the build fail.\<close>

lemma gen_row_incomplete: "gen_row ''#define ZX_SYS_COUNT'' = Inl Panic"
  by (simp add: gen_row_def)

lemma gen_consts_example:
  "gen_consts (show_header [Remark ''// numbers'', Define ''vmo_read'' ''157'']) =
     Inr (gen_head @ enum_row ''VMO_READ'' ''157'' @ [CHR 0x7D, CHR 0x0A, CHR 0x7D, CHR 0x0A])"
proof -
  have "to_uppercase ''vmo_read'' = ''VMO_READ''" by code_simp
  then show ?thesis using gen_consts_header [of "[Remark ''// numbers'', Define ''vmo_read'' ''157'']"] by simp
qed

end
