(* ===== verification/First_Chapters.thy ===== *)
theory First_Chapters
  imports Handle_Table Channel_Fifo
begin

text \<open>
  Code of the first chapters that later chapters replace. In \<^verbatim>\<open>ch01-03/src/task/process.rs\<close> the
  handle table is a \<open>BTreeMap\<close> and a new handle gets the least value that is not in use; in
  \<^verbatim>\<open>ch01-03/src/ipc/channel.rs\<close> the transaction id is a field of the packet, not the first bytes of
  its data; the dummy object of \<^verbatim>\<open>ch01-01/src/object/object_v1.rs\<close> has an id counter of its own. The
  first table is an instance of the interface \<open>handle_alloc\<close>, and the first channel is shown to be
  the channel of the last chapter with the transaction ids hidden.
\<close>

subsection \<open>The dummy object\<close>

record dummy_object =
  dm_id :: koid
  dm_name :: string

definition dummy_new :: "'a koid_state_scheme \<Rightarrow> dummy_object \<times> 'a koid_state_scheme" where
  "dummy_new s = (let (k, s1) = new_koid s in (\<lparr>dm_id = k, dm_name = ''''\<rparr>, s1))"

definition dummy_set_name :: "string \<Rightarrow> dummy_object \<Rightarrow> dummy_object" where
  "dummy_set_name nm d = d\<lparr>dm_name := nm\<rparr>"

definition dummy_type_name :: string where
  "dummy_type_name = ''DummyObject''"

subsection \<open>The handle table of the first chapter\<close>

record process1 =
  p1_base :: kobj_base
  p1_handles :: "handle_value \<Rightarrow> handle option"

definition process1_new :: "'a koid_state_scheme \<Rightarrow> process1 \<times> 'a koid_state_scheme" where
  "process1_new s = (let (b, s1) = kobject_base_new s in (\<lparr>p1_base = b, p1_handles = Map.empty\<rparr>, s1))"

function find_free :: "(handle_value \<Rightarrow> handle option) \<Rightarrow> handle_value \<Rightarrow> handle_value zx" where
  \<comment> \<open>\<open>(0..).find(..)\<close>: the range steps before it yields a value, and the step from the last \<open>u32\<close> overflows\<close>
  "find_free hs v =
     (if v = - 1 then Inl Panic
      else if hs v = None then Inr v
      else find_free hs (v + 1))"
  by pat_completeness auto

lemma unat_max_u32: "unat (- 1 :: u32) = 4294967295"
  by (simp add: unsigned_minus_1_eq_mask mask_eq_exp_minus_1)

lemma unat_succ_u32: "v \<noteq> - 1 \<Longrightarrow> unat (v + 1 :: u32) = unat v + 1"
  using unatSuc [of v] by (metis Suc_eq_plus1 add.commute add_eq_0_iff)

termination find_free
proof (relation "measure (\<lambda>(hs, v). 4294967295 - unat v)")
  fix hs :: "handle_value \<Rightarrow> handle option" and v :: handle_value
  assume "v \<noteq> - 1"
  moreover have "unat v \<noteq> unat (- 1 :: u32)" using \<open>v \<noteq> - 1\<close> by (metis word_unat_eq_iff)
  moreover have "unat v < 2 ^ 32" using unsigned_less [of v] by simp
  ultimately show "((hs, v + 1), (hs, v)) \<in> measure (\<lambda>(hs, v). 4294967295 - unat v)"
    by (simp add: unat_succ_u32 unat_max_u32)
qed simp

declare find_free.simps [simp del]

definition process1_add_handle :: "handle \<Rightarrow> process1 \<Rightarrow> handle_value zx \<times> process1" where
  "process1_add_handle h p =
     (case find_free (p1_handles p) 0 of
        Inl f \<Rightarrow> (Inl f, p)
      | Inr v \<Rightarrow> (Inr v, p\<lparr>p1_handles := (p1_handles p)(v \<mapsto> h)\<rparr>))"

definition process1_remove_handle :: "handle_value \<Rightarrow> process1 \<Rightarrow> process1" where
  \<comment> \<open>removing a value that is not in use is no error\<close>
  "process1_remove_handle v p = p\<lparr>p1_handles := (p1_handles p)(v := None)\<rparr>"

definition process1_get_object_with_rights ::
  "obj_type \<Rightarrow> handle_value \<Rightarrow> rights \<Rightarrow> process1 \<Rightarrow> koid zx" where
  "process1_get_object_with_rights t v desired p =
     rbind (ok_or (Err BAD_HANDLE) (p1_handles p v)) (\<lambda>h.
     rbind (ok_or (Err WRONG_TYPE) (downcast t (object h))) (\<lambda>o1.
       if \<not> flags_contains (rights h) desired then Inl (Err ACCESS_DENIED) else Inr o1))"

subsection \<open>The least free value\<close>

definition table1_room :: "process1 \<Rightarrow> nat" where
  \<comment> \<open>the free values that can be handed out\<close>
  "table1_room p = card {v. v \<noteq> - 1 \<and> p1_handles p v = None}"

lemma find_free_least:
  "find_free hs v = Inr w \<Longrightarrow> v \<le> w \<and> w \<noteq> - 1 \<and> hs w = None \<and> (\<forall>u. v \<le> u \<longrightarrow> u < w \<longrightarrow> hs u \<noteq> None)"
proof (induction hs v rule: find_free.induct)
  case (1 hs v)
  show ?case
  proof (cases "hs v = None")
    case True
    then show ?thesis using "1.prems" by (subst (asm) find_free.simps) (auto split: if_splits)
  next
    case False
    then have v: "v \<noteq> - 1" and w: "find_free hs (v + 1) = Inr w"
      using "1.prems" by (subst (asm) find_free.simps, simp split: if_splits)+
    note IH = "1.IH" [OF v False w]
    have le: "v + 1 \<le> u \<longleftrightarrow> v < u" for u using unat_succ_u32 [OF v] by (auto simp: word_less_nat_alt word_le_nat_alt)
    have "hs u \<noteq> None" if "v \<le> u" "u < w" for u
    proof (cases "u = v")
      case True
      then show ?thesis using False by simp
    next
      case False
      then have "v + 1 \<le> u" using that(1) le by simp
      then show ?thesis using IH that(2) by blast
    qed
    then show ?thesis using IH le [of w] by auto
  qed
qed

lemma find_free_ok:
  "v \<le> u \<Longrightarrow> u \<noteq> - 1 \<Longrightarrow> hs u = None \<Longrightarrow> \<exists>w. find_free hs v = Inr w"
proof (induction hs v rule: find_free.induct)
  case (1 hs v)
  have v: "v \<noteq> - 1" using "1.prems"(1,2) by (metis word_order.extremum_unique)
  show ?case
  proof (cases "hs v = None")
    case True
    then show ?thesis using v by (subst find_free.simps) simp
  next
    case False
    then have "v < u" using "1.prems" by (metis order_le_less)
    then have "v + 1 \<le> u" using unat_succ_u32 [OF v] by (simp add: word_less_nat_alt word_le_nat_alt)
    then show ?thesis using "1.IH" [OF v False] "1.prems"(2,3) v False by (subst find_free.simps) simp
  qed
qed

lemma process1_add_handle_ok:
  assumes "0 < table1_room p"
  obtains v where "process1_add_handle h p = (Inr v, p\<lparr>p1_handles := (p1_handles p)(v \<mapsto> h)\<rparr>)"
    "p1_handles p v = None" "v \<noteq> - 1" "\<And>u. u < v \<Longrightarrow> p1_handles p u \<noteq> None"
proof -
  have "{v. v \<noteq> - 1 \<and> p1_handles p v = None} \<noteq> {}" using assms unfolding table1_room_def by (metis card.empty less_irrefl)
  then obtain u where "u \<noteq> - 1" "p1_handles p u = None" by blast
  then obtain v where v: "find_free (p1_handles p) 0 = Inr v" using find_free_ok [of 0 u] by auto
  from find_free_least [OF v] show ?thesis by (intro that [of v]) (auto simp: process1_add_handle_def v)
qed

lemma table1_room_add:
  assumes "p1_handles p v = None" and "v \<noteq> - 1"
  shows "table1_room (p\<lparr>p1_handles := (p1_handles p)(v \<mapsto> h)\<rparr>) = table1_room p - 1"
proof -
  have "{u. u \<noteq> - 1 \<and> ((p1_handles p)(v \<mapsto> h)) u = None} = {u. u \<noteq> - 1 \<and> p1_handles p u = None} - {v}" by auto
  then show ?thesis using assms by (simp add: table1_room_def del: fun_upd_apply)
qed

interpretation t1: handle_alloc p1_handles process1_add_handle "\<lambda>_. True" table1_room
proof
  fix p :: process1 and h
  assume "0 < table1_room p"
  then obtain v where v: "process1_add_handle h p = (Inr v, p\<lparr>p1_handles := (p1_handles p)(v \<mapsto> h)\<rparr>)"
    "p1_handles p v = None" "v \<noteq> - 1" by (rule process1_add_handle_ok [of p h]) blast
  then show "\<exists>v p'. process1_add_handle h p = (Inr v, p') \<and> p1_handles p v = None \<and>
      p1_handles p' = (p1_handles p)(v \<mapsto> h) \<and> True \<and> table1_room p' = table1_room p - 1"
    using table1_room_add [OF v(2,3)] by auto
qed

lemma process1_add_handle_full:
  assumes "table1_room p = 0"
  shows "process1_add_handle h p = (Inl Panic, p)"
proof -
  have none: "\<not> (v \<noteq> - 1 \<and> p1_handles p v = None)" for v using assms by (auto simp: table1_room_def)
  have "find_free hs v = Inl Panic" if "\<And>u. \<not> (u \<noteq> - 1 \<and> hs u = None)" for hs and v :: handle_value
    using that
  proof (induction hs v rule: find_free.induct)
    case (1 hs v)
    have "find_free hs (v + 1) = Inl Panic" if "v \<noteq> - 1"
    proof (rule "1.IH" [OF that])
      show "hs v \<noteq> None" using "1.prems" [of v] that by simp
    qed (rule "1.prems")
    then show ?case using "1.prems" [of v] by (subst find_free.simps) auto
  qed
  then show ?thesis using none by (simp add: process1_add_handle_def)
qed

lemma process1_remove_added:
  "p1_handles p v = None \<Longrightarrow> process1_remove_handle v (p\<lparr>p1_handles := (p1_handles p)(v \<mapsto> h)\<rparr>) = p"
  by (simp add: process1_remove_handle_def fun_upd_idem)

text \<open>Many handles at once, from the interface: the values are free and different, and nothing else of the table changes.\<close>

lemma first_table_adds_all:
  assumes "length hs \<le> table1_room p"
  shows "\<exists>vs q. st_map process1_add_handle hs p = (Inr vs, q) \<and> distinct vs \<and> (\<forall>v \<in> set vs. p1_handles p v = None) \<and>
     p1_handles q = p1_handles p ++ map_of (zip vs hs)"
  using t1.add_all [OF TrueI assms] by blast

text \<open>C29.
  The handle table of the first chapter: unless every value is in use, when the insertion panics, a
  new handle gets the least free value; the object is found under it with the rights of the
  handle; and removing the handle restores the table, so that the next handle gets the same value
  again, whatever it refers to. The last chapter counts its values up instead.
\<close>

theorem first_table_allocates_least:
  shows "(table1_room p = 0 \<longrightarrow> process1_add_handle h p = (Inl Panic, p)) \<and>
     (0 < table1_room p \<longrightarrow>
       (\<exists>v q. process1_add_handle h p = (Inr v, q) \<and> p1_handles p v = None \<and> (\<forall>u. u < v \<longrightarrow> p1_handles p u \<noteq> None) \<and>
          p1_handles q = (p1_handles p)(v \<mapsto> h) \<and>
          process1_get_object_with_rights (ref_type (object h)) v (rights h) q = Inr (ref_id (object h)) \<and>
          process1_remove_handle v q = p \<and> fst (process1_add_handle h' (process1_remove_handle v q)) = Inr v))"
proof (intro conjI impI)
  assume "0 < table1_room p"
  then obtain v where v: "process1_add_handle h p = (Inr v, p\<lparr>p1_handles := (p1_handles p)(v \<mapsto> h)\<rparr>)"
    "p1_handles p v = None" "\<And>u. u < v \<Longrightarrow> p1_handles p u \<noteq> None" by (rule process1_add_handle_ok [of p h]) blast
  let ?q = "p\<lparr>p1_handles := (p1_handles p)(v \<mapsto> h)\<rparr>"
  have "process1_get_object_with_rights (ref_type (object h)) v (rights h) ?q = Inr (ref_id (object h))"
    by (simp add: process1_get_object_with_rights_def ok_or_def rbind_def downcast_def flags_contains_def)
  moreover have "fst (process1_add_handle h' p) = Inr v"
    using v(1) by (simp add: process1_add_handle_def split: sum.splits)
  ultimately show "\<exists>v q. process1_add_handle h p = (Inr v, q) \<and> p1_handles p v = None \<and> (\<forall>u. u < v \<longrightarrow> p1_handles p u \<noteq> None) \<and>
          p1_handles q = (p1_handles p)(v \<mapsto> h) \<and>
          process1_get_object_with_rights (ref_type (object h)) v (rights h) q = Inr (ref_id (object h)) \<and>
          process1_remove_handle v q = p \<and> fst (process1_add_handle h' (process1_remove_handle v q)) = Inr v"
    using v process1_remove_added [OF v(2)] by (intro exI [of _ v] exI [of _ ?q]) simp
qed (rule process1_add_handle_full)

definition demo_table1 :: process1 where
  "demo_table1 = \<lparr>p1_base = \<lparr>base_id = 1024, base_name = ''''\<rparr>,
     p1_handles = [0 \<mapsto> handle_new (KObj T_Process 1024) R_DEFAULT_PROCESS, 2 \<mapsto> handle_new (KObj T_DummyObject 1025) 0]\<rparr>"

lemma table1_roomI: "v \<noteq> - 1 \<Longrightarrow> p1_handles p v = None \<Longrightarrow> 0 < table1_room p"
  unfolding table1_room_def by (rule card_gt_0_iff [THEN iffD2]) (use finite [of "{u :: handle_value. u \<noteq> - 1 \<and> p1_handles p u = None}"] in blast)

lemma demo_table1_room: "0 < table1_room demo_table1"
  by (rule table1_roomI [of 1]) (simp_all add: demo_table1_def)

theorem first_table_allocates_least_witness:
  "\<exists>q. process1_add_handle (handle_new (KObj T_Channel 7) R_READ) demo_table1 = (Inr 1, q) \<and>
     process1_get_object_with_rights T_Channel 1 R_READ q = Inr 7 \<and> process1_remove_handle 1 q = demo_table1"
proof -
  let ?h = "handle_new (KObj T_Channel 7) R_READ"
  obtain v q where v: "process1_add_handle ?h demo_table1 = (Inr v, q)"
    "process1_get_object_with_rights T_Channel v R_READ q = Inr 7" "process1_remove_handle v q = demo_table1"
    using first_table_allocates_least [of demo_table1 ?h ?h] demo_table1_room by auto
  have "fst (process1_add_handle ?h demo_table1) = Inr 1"
    by (simp add: process1_add_handle_def find_free.simps [of _ 0] find_free.simps [of _ 1] demo_table1_def)
  then show ?thesis using v by auto
qed

subsection \<open>The channel of the first chapter\<close>

record message1 =
  m1_txid :: u32
  m1_data :: "u8 list"
  m1_handles :: "handle list"

definition message1_default :: message1 where
  "message1_default = \<lparr>m1_txid = 0, m1_data = [], m1_handles = []\<rparr>"

record channel1 =
  c1_base :: kobj_base
  c1_peer :: "koid option"
  c1_queue :: "message1 list"
  c1_next_txid :: u32

record channel1_state = koid_state +
  channels1 :: "koid \<Rightarrow> channel1 option"

definition put_channel1 :: "koid \<Rightarrow> channel1 \<Rightarrow> channel1_state \<Rightarrow> channel1_state" where
  "put_channel1 k c s = s\<lparr>channels1 := (channels1 s)(k \<mapsto> c)\<rparr>"

definition with_channel1 ::
  "koid \<Rightarrow> (channel1 \<Rightarrow> channel1_state \<Rightarrow> 'b zx \<times> channel1_state) \<Rightarrow> channel1_state \<Rightarrow> 'b zx \<times> channel1_state" where
  "with_channel1 k f s = (case channels1 s k of None \<Rightarrow> (Inl NoRef, s) | Some c \<Rightarrow> f c s)"

definition channel1_create :: "channel1_state \<Rightarrow> (koid \<times> koid) \<times> channel1_state" where
  "channel1_create s =
     (let (b0, s1) = kobject_base_new s;
          channel0 = \<lparr>c1_base = b0, c1_peer = None, c1_queue = [], c1_next_txid = 0x80000000\<rparr>;
          (b1, s2) = kobject_base_new s1;
          channel1 = \<lparr>c1_base = b1, c1_peer = Some (base_id b0), c1_queue = [], c1_next_txid = 0x80000000\<rparr>;
          channel0' = channel0\<lparr>c1_peer := Some (base_id b1)\<rparr>
      in ((base_id b0, base_id b1), put_channel1 (base_id b1) channel1 (put_channel1 (base_id b0) channel0' s2)))"

definition upgrade_peer1 :: "channel1 \<Rightarrow> channel1_state \<Rightarrow> koid option" where
  "upgrade_peer1 c s = (case c1_peer c of None \<Rightarrow> None | Some p \<Rightarrow> if channels1 s p = None then None else Some p)"

definition channel1_peer :: "koid \<Rightarrow> channel1_state \<Rightarrow> kobj_ref zx" where
  "channel1_peer k s =
     (case channels1 s k of
        None \<Rightarrow> Inl NoRef
      | Some c \<Rightarrow> rbind (ok_or (Err PEER_CLOSED) (upgrade_peer1 c s)) (\<lambda>p. Inr (KObj T_Channel p)))"

definition channel1_related_koid :: "koid \<Rightarrow> channel1_state \<Rightarrow> koid zx" where
  "channel1_related_koid k s =
     (case channels1 s k of None \<Rightarrow> Inl NoRef | Some c \<Rightarrow> Inr (case upgrade_peer1 c s of None \<Rightarrow> 0 | Some p \<Rightarrow> p))"

definition peer_closed1 :: "channel1 \<Rightarrow> channel1_state \<Rightarrow> bool" where
  "peer_closed1 c s \<longleftrightarrow> upgrade_peer1 c s = None"

definition channel1_read :: "koid \<Rightarrow> channel1_state \<Rightarrow> message1 zx \<times> channel1_state" where
  "channel1_read k =
     with_channel1 k (\<lambda>c s.
       case c1_queue c of
         msg # rest \<Rightarrow> (Inr msg, put_channel1 k (c\<lparr>c1_queue := rest\<rparr>) s)
       | [] \<Rightarrow> if peer_closed1 c s then (Inl (Err PEER_CLOSED), s) else (Inl (Err SHOULD_WAIT), s))"

definition push_general1 :: "koid \<Rightarrow> message1 \<Rightarrow> channel1_state \<Rightarrow> unit zx \<times> channel1_state" where
  "push_general1 k msg =
     with_channel1 k (\<lambda>c s. (Inr (), put_channel1 k (c\<lparr>c1_queue := c1_queue c @ [msg]\<rparr>) s))"

definition channel1_write :: "koid \<Rightarrow> message1 \<Rightarrow> channel1_state \<Rightarrow> unit zx \<times> channel1_state" where
  "channel1_write k msg =
     with_channel1 k (\<lambda>c s.
       case upgrade_peer1 c s of
         None \<Rightarrow> (Inl (Err PEER_CLOSED), s)
       | Some p \<Rightarrow> push_general1 p msg s)"

definition new_txid1 :: "koid \<Rightarrow> channel1_state \<Rightarrow> u32 zx \<times> channel1_state" where
  "new_txid1 k =
     with_channel1 k (\<lambda>c s. (Inr (c1_next_txid c), put_channel1 k (c\<lparr>c1_next_txid := c1_next_txid c + 1\<rparr>) s))"

definition channel1_drop :: "koid \<Rightarrow> channel1_state \<Rightarrow> unit zx \<times> channel1_state" where
  \<comment> \<open>the last \<open>Arc\<close> of the endpoint goes\<close>
  "channel1_drop k s = (Inr (), s\<lparr>channels1 := (channels1 s)(k := None)\<rparr>)"

subsection \<open>The last chapter's channel implements it\<close>

text \<open>
  A packet of the last chapter is one of the first with its transaction id hidden; a history of the
  first chapter's channels is run on the last chapter's by hiding the ids of what is written.
\<close>

definition hide_txid :: "message1 \<Rightarrow> message" where
  "hide_txid m = \<lparr>msg_data = m1_data m, msg_handles = m1_handles m\<rparr>"

definition endpoint_of :: "channel1 \<Rightarrow> channel" where
  "endpoint_of c = \<lparr>ch_base = c1_base c, ch_peer = c1_peer c, ch_queue = map hide_txid (c1_queue c), ch_next_txid = c1_next_txid c\<rparr>"

definition hides :: "channel1_state \<Rightarrow> channel_state \<Rightarrow> bool" where
  "hides s t \<longleftrightarrow> next_koid t = next_koid s \<and> (\<forall>k. channels t k = map_option endpoint_of (channels1 s k))"

datatype chan1_op = Ch1_Create | Ch1_Write koid message1 | Ch1_Read koid | Ch1_Txid koid | Ch1_Drop koid

datatype 'm chan1_result = Made koid koid | Done "unit zx" | Packet "'m zx" | Txid "u32 zx"

fun chan1_step :: "chan1_op \<Rightarrow> channel1_state \<Rightarrow> message1 chan1_result \<times> channel1_state" where
  "chan1_step Ch1_Create s = (let ((a, b), t) = channel1_create s in (Made a b, t))"
| "chan1_step (Ch1_Write k m) s = (let (r, t) = channel1_write k m s in (Done r, t))"
| "chan1_step (Ch1_Read k) s = (let (r, t) = channel1_read k s in (Packet r, t))"
| "chan1_step (Ch1_Txid k) s = (let (r, t) = new_txid1 k s in (Txid r, t))"
| "chan1_step (Ch1_Drop k) s = (let (r, t) = channel1_drop k s in (Done r, t))"

fun chan4_step :: "chan1_op \<Rightarrow> channel_state \<Rightarrow> message chan1_result \<times> channel_state" where
  "chan4_step Ch1_Create s = (let ((a, b), t) = channel_create s in (Made a b, t))"
| "chan4_step (Ch1_Write k m) s = (let (r, t) = channel_write k (hide_txid m) s in (Done r, t))"
| "chan4_step (Ch1_Read k) s = (let (r, t) = channel_read k s in (Packet r, t))"
| "chan4_step (Ch1_Txid k) s = (let (r, t) = new_txid k s in (Txid r, t))"
| "chan4_step (Ch1_Drop k) s = (let (r, t) = channel_drop k s in (Done r, t))"

primrec history_of :: "('op \<Rightarrow> 's \<Rightarrow> 'r \<times> 's) \<Rightarrow> 'op list \<Rightarrow> 's \<Rightarrow> 'r list \<times> 's" where
  "history_of step [] s = ([], s)"
| "history_of step (x # xs) s = (let (r, t) = step x s; (rs, u) = history_of step xs t in (r # rs, u))"

definition hide_zx :: "message1 zx \<Rightarrow> message zx" where
  "hide_zx r = (case r of Inl f \<Rightarrow> Inl f | Inr m \<Rightarrow> Inr (hide_txid m))"

primrec hide_result :: "message1 chan1_result \<Rightarrow> message chan1_result" where
  "hide_result (Made a b) = Made a b"
| "hide_result (Done r) = Done r"
| "hide_result (Packet r) = Packet (hide_zx r)"
| "hide_result (Txid r) = Txid r"

lemma hides_simps:
  assumes "hides s t"
  shows "channels t k = map_option endpoint_of (channels1 s k)" and "next_koid t = next_koid s"
    and "upgrade_peer (endpoint_of c) t = upgrade_peer1 c s"
  using assms by (auto simp: hides_def upgrade_peer_def upgrade_peer1_def endpoint_of_def split: option.split)

lemma hides_put: "hides s t \<Longrightarrow> endpoint_of c = d \<Longrightarrow> hides (put_channel1 k c s) (put_channel k d t)"
  by (auto simp: hides_def put_channel1_def)

lemma endpoint_of_updates:
  "endpoint_of (c\<lparr>c1_queue := q\<rparr>) = endpoint_of c\<lparr>ch_queue := map hide_txid q\<rparr>"
  "endpoint_of (c\<lparr>c1_next_txid := n\<rparr>) = endpoint_of c\<lparr>ch_next_txid := n\<rparr>"
  "ch_queue (endpoint_of c) = map hide_txid (c1_queue c)" "ch_next_txid (endpoint_of c) = c1_next_txid c"
  by (simp_all add: endpoint_of_def)

lemma chan_step_hides:
  assumes "hides s t"
  shows "fst (chan4_step x t) = hide_result (fst (chan1_step x s)) \<and> hides (snd (chan1_step x s)) (snd (chan4_step x t))"
proof (cases x)
  case Ch1_Create
  show ?thesis using assms unfolding Ch1_Create
    by (auto simp: channel_create_def channel1_create_def kobject_base_new_def new_koid_def channel_init_def Let_def hides_def
        put_channel1_def endpoint_of_def)
next
  case (Ch1_Write k m)
  have "hides (put_channel1 p (c\<lparr>c1_queue := c1_queue c @ [m]\<rparr>) s)
      (put_channel p (endpoint_of c\<lparr>ch_queue := ch_queue (endpoint_of c) @ [hide_txid m]\<rparr>) t)" for p c
    by (intro hides_put [OF assms]) (simp add: endpoint_of_updates)
  then show ?thesis using assms unfolding Ch1_Write
    by (auto simp: channel_write_def channel1_write_def with_channel_def with_channel1_def push_general_def push_general1_def
        hides_simps [OF assms] split: option.split)
next
  case (Ch1_Read k)
  have "hides (put_channel1 k (c\<lparr>c1_queue := q\<rparr>) s) (put_channel k (endpoint_of c\<lparr>ch_queue := map hide_txid q\<rparr>) t)" for c q
    by (intro hides_put [OF assms]) (simp add: endpoint_of_updates)
  then show ?thesis using assms unfolding Ch1_Read
    by (auto simp: channel_read_def check_and_read_def channel1_read_def with_channel_def with_channel1_def sbind_def hide_zx_def
        hides_simps [OF assms] endpoint_of_updates peer_closed_def peer_closed1_def split: option.split list.split)
next
  case (Ch1_Txid k)
  have "hides (put_channel1 k (c\<lparr>c1_next_txid := n\<rparr>) s) (put_channel k (endpoint_of c\<lparr>ch_next_txid := n\<rparr>) t)" for c n
    by (intro hides_put [OF assms]) (simp add: endpoint_of_updates)
  then show ?thesis using assms unfolding Ch1_Txid
    by (auto simp: new_txid_def new_txid1_def with_channel_def with_channel1_def hides_simps [OF assms] endpoint_of_updates
        split: option.split)
next
  case (Ch1_Drop k)
  show ?thesis using assms unfolding Ch1_Drop by (auto simp: channel_drop_def channel1_drop_def hides_def)
qed

lemma history_of_hides:
  "hides s t \<Longrightarrow>
   fst (history_of chan4_step xs t) = map hide_result (fst (history_of chan1_step xs s)) \<and>
   hides (snd (history_of chan1_step xs s)) (snd (history_of chan4_step xs t))"
proof (induction xs arbitrary: s t)
  case (Cons x xs)
  show ?case using chan_step_hides [OF Cons.prems, of x] Cons.IH [of "snd (chan1_step x s)" "snd (chan4_step x t)"]
    by (auto simp: Let_def split_beta)
qed simp

text \<open>C27.
  The channels of the first and of the last chapter agree: whatever sequence of creations, writes,
  reads, new transaction ids and drops of endpoints the two are taken through, starting from states
  that hold the same endpoints, every operation gives the same result, the errors included, and a
  packet that is read is the same up to the transaction id, which the first chapter keeps beside the
  data; and the states still hold the same endpoints.
\<close>

theorem channels_of_chapters_agree:
  assumes "hides s t" and "history_of chan1_step xs s = (rs, s')" and "history_of chan4_step xs t = (qs, t')"
  shows "qs = map hide_result rs \<and> hides s' t'"
  using history_of_hides [OF assms(1), of xs] assms(2,3) by simp

definition channel1_start :: channel1_state where
  "channel1_start = \<lparr>next_koid = 1024, channels1 = Map.empty\<rparr>"

lemma start_hides: "hides channel1_start channel_start"
  by (simp add: hides_def channel1_start_def)

definition demo_message1 :: message1 where
  "demo_message1 = \<lparr>m1_txid = 9, m1_data = [1], m1_handles = []\<rparr>"

definition demo_history1 :: "chan1_op list" where
  "demo_history1 = [Ch1_Create, Ch1_Txid 1024, Ch1_Write 1024 demo_message1, Ch1_Drop 1024, Ch1_Read 1025, Ch1_Read 1025]"

theorem channels_of_chapters_agree_witness:
  "\<exists>s' t'. history_of chan1_step demo_history1 channel1_start =
      ([Made 1024 1025, Txid (Inr 0x80000000), Done (Inr ()), Done (Inr ()), Packet (Inr demo_message1),
        Packet (Inl (Err PEER_CLOSED))], s') \<and>
     history_of chan4_step demo_history1 channel_start =
      ([Made 1024 1025, Txid (Inr 0x80000000), Done (Inr ()), Done (Inr ()), Packet (Inr (demo_message 1)),
        Packet (Inl (Err PEER_CLOSED))], t') \<and> hides s' t'"
proof -
  obtain s' where s': "history_of chan1_step demo_history1 channel1_start =
      ([Made 1024 1025, Txid (Inr 0x80000000), Done (Inr ()), Done (Inr ()), Packet (Inr demo_message1),
        Packet (Inl (Err PEER_CLOSED))], s')"
    by (simp add: demo_history1_def channel1_start_def channel1_create_def kobject_base_new_def new_koid_def put_channel1_def
        new_txid1_def with_channel1_def channel1_write_def upgrade_peer1_def push_general1_def channel1_drop_def
        channel1_read_def peer_closed1_def Let_def)
  obtain qs t' where t': "history_of chan4_step demo_history1 channel_start = (qs, t')" by fastforce
  have "hide_txid demo_message1 = demo_message 1" by (simp add: hide_txid_def demo_message1_def demo_message_def)
  then show ?thesis using channels_of_chapters_agree [OF start_hides s' t'] s' t' by (simp add: hide_zx_def)
qed

subsection \<open>The first channel is a pipe\<close>

definition pending1_at :: "koid \<Rightarrow> channel1_state \<Rightarrow> message1 list" where
  "pending1_at b s = (case channels1 s b of None \<Rightarrow> [] | Some c \<Rightarrow> c1_queue c)"

definition linked1 :: "koid \<Rightarrow> koid \<Rightarrow> channel1_state \<Rightarrow> bool" where
  "linked1 a b s \<longleftrightarrow> (\<exists>ca cb. channels1 s a = Some ca \<and> channels1 s b = Some cb \<and>
     c1_peer ca = Some b \<and> c1_peer cb = Some a)"

interpretation pipe1: message_pipe "channel1_write a" "channel1_read b" "pending1_at b" "linked1 a b" "Err SHOULD_WAIT"
  for a b
proof
  fix s :: channel1_state and m
  assume "linked1 a b s"
  then show "\<exists>s'. channel1_write a m s = (Inr (), s') \<and> pending1_at b s' = pending1_at b s @ [m] \<and> linked1 a b s'"
    by (auto simp: linked1_def pending1_at_def channel1_write_def with_channel1_def upgrade_peer1_def push_general1_def put_channel1_def)
next
  fix s :: channel1_state and m ms
  assume "linked1 a b s" "pending1_at b s = m # ms"
  then show "\<exists>s'. channel1_read b s = (Inr m, s') \<and> pending1_at b s' = ms \<and> linked1 a b s'"
    by (auto simp: linked1_def pending1_at_def channel1_read_def with_channel1_def put_channel1_def)
next
  fix s :: channel1_state
  assume "linked1 a b s" "pending1_at b s = []"
  then show "channel1_read b s = (Inl (Err SHOULD_WAIT), s)"
    by (auto simp: linked1_def pending1_at_def channel1_read_def with_channel1_def peer_closed1_def upgrade_peer1_def)
qed

text \<open>The packets come out with their transaction ids, in the order in which they went in.\<close>

lemma first_channel_drains:
  assumes "linked1 a b s" and "pending1_at b s = []"
  shows "case pipe_run (channel1_write a) (channel1_read b) xs s of (ms, t) \<Rightarrow> linked1 a b t \<and> ms @ pending1_at b t = pipe_sent xs"
  using pipe1.fifo [OF assms(1), of xs] assms(2) by simp

end
