(* ===== verification/Spec2Isabelle.thy ===== *)
theory Spec2Isabelle
  imports Task_Behaviour Task_Dissolve Handle_Types Vmar_Protect Userboot_Image Syscall_Gen First_Chapters
begin

text \<open>
  A verification development for the zCore microkernel of the tutorial, in its last and most
  complete chapter (\<^verbatim>\<open>code/ch04-03\<close>, all paths below are relative to it; the earlier chapters are
  earlier states of the same sources, and what they do differently is in \<open>First_Chapters\<close>).

  \<^bold>\<open>The program and its theories.\<close> zCore is a Zircon kernel that runs in user mode on a host. Every
  kernel object lives in a store by object id (\<open>koid\<close>), one field of the state per class; a reference
  (\<open>Arc\<close>, \<open>Weak\<close>) is an id, and the state grows by record extension in the order in which the crates
  build on each other:

  \<^item> \<open>hal_state\<close> (\<open>Hal\<close>): physical memory, the queue of free frames and the page table, which under the
    unix HAL is the address space of the host process (\<^verbatim>\<open>kernel-hal-unix/src/lib.rs\<close>,
    \<^verbatim>\<open>kernel-hal/src/lib.rs\<close>, \<^verbatim>\<open>dummy.rs\<close>).
  \<^item> \<open>vmo_state\<close>, \<open>vm_state\<close> (\<open>Vmo_Paged\<close>, \<open>Vmo\<close>): frames of paged objects, then memory objects with
    their tree of children (\<^verbatim>\<open>zircon-object/src/vm/vmo/\<close>); \<open>vmar_state\<close> (\<open>Vmar\<close>): address regions and
    mappings (\<^verbatim>\<open>vm/vmar.rs\<close>). \<open>Vm_Util\<close> and \<open>Block_Range\<close> are the page arithmetic and the iterator that
    splits byte ranges into pages.
  \<^item> \<open>task_state\<close> (\<open>Task_State\<close>, \<open>Thread\<close>, \<open>Task\<close>): threads, processes with their handle tables, jobs
    (\<^verbatim>\<open>task/\<close>), with \<open>Job_Policy\<close>, and \<open>Kobject\<close>, \<open>Rights\<close>, \<open>Zx_Error\<close> below them
    (\<^verbatim>\<open>object/\<close>, \<^verbatim>\<open>error.rs\<close>).
  \<^item> \<open>channel_state\<close> (\<open>Channel\<close>, \<^verbatim>\<open>ipc/channel.rs\<close>), \<open>dlog_state\<close> (\<open>Debuglog\<close>, \<^verbatim>\<open>debuglog.rs\<close>),
    \<open>resource_state\<close> (\<open>Resource\<close>, \<^verbatim>\<open>dev/resource.rs\<close>).
  \<^item> \<open>sys_state\<close> (\<open>Syscall\<close>, with \<open>Syscall_Numbers\<close>, \<open>Syscall_Gen\<close> and \<open>User_Ptr\<close>): the system calls, which reach the
    memory of the calling process through checked pointers (\<^verbatim>\<open>zircon-syscall/\<close>,
    \<^verbatim>\<open>kernel-hal/src/user.rs\<close>).
  \<^item> \<open>Elf_Loader\<close> and \<open>Loader\<close>: mapping of ELF images, the first process, the loop that runs a user
    thread and the calling convention of the system calls (\<^verbatim>\<open>util/elf_loader.rs\<close>, \<^verbatim>\<open>zircon-loader/\<close>).

  \<^bold>\<open>Conventions\<close> (\<open>Prelude\<close>). A method that may fail returns \<open>Inr\<close> its value or \<open>Inl\<close> a fault: an
  error of the code (\<open>Err\<close>), a panic (\<open>Panic\<close>: an index out of range, a failed assertion, an
  arithmetic overflow, which the debug build checks), a dangling id (\<open>NoRef\<close>) or exhausted fuel
  (\<open>NoFuel\<close>). A method that changes state returns the new state as well, also when it fails, since Rust
  keeps what was done before an early return; \<open>sbind\<close> is the question mark operator. A word type stands
  for each machine integer whose bits or wrap-around matter; \<open>usize\<close> is \<open>nat\<close> with its bound checked
  where the code adds or multiplies, and reduced where it wraps. Locks are not modelled: every method
  is one step, as it is under the lock it takes. What is dropped at the end of a scope is written
  where the code drops it. The count of references held by handles is not kept: an object whose last
  handle goes stays in the store until the separate operations \<open>channel_drop\<close>, \<open>vmo_drop\<close> and
  \<open>job_drop\<close>, which a history of the kernel may take at any point (\<open>sys_reach\<close>).

  \<^bold>\<open>What is proved.\<close>
  \<^item> Memory objects: a frame belongs to at most one object or is free (\<open>Vmo_Heap\<close>); the \<open>byte_store\<close>
    interface, interpreted by the frame lists of the code, gives reading back what was written and
    isolation between objects (\<open>Vmo_Contents\<close>); the tree of children and its repair when an object is
    dropped (\<open>Vmo_Tree\<close>, \<open>Vmo_Life\<close>).
  \<^item> Address spaces: sub-regions and mappings stay inside their region and apart from each other under
    every operation, the search for a place is complete (\<open>Vmar_Space\<close>), mapping installs exactly the
    frames of the object with the requested protection (\<open>Vmar_Map\<close>), and the mapped addresses are the
    bytes of the object, read and written either way (\<open>Shared_Memory\<close>), destruction and unmapping leave
    nothing behind (\<open>Vmar_Destroy\<close>); in every reachable space the mappings are whole pages and the
    listed sub-regions are live (\<open>Vmar_Pages\<close>, \<open>Vmar_Live\<close>), so that destroying one works, and a change of protection reaches every page of its range and no
    other (\<open>Vmar_Protect\<close>).
  \<^item> Tasks: the invariant of the tree of jobs, processes and threads (\<open>Task_Inv\<close>, \<open>Task_Ops\<close>,
    \<open>Task_Reach\<close>), killing of subtrees and its finality (\<open>Job_Kill\<close>, \<open>Task_Props\<close>), the end of a
    killed job once its threads have left (\<open>Task_Dissolve\<close>), the handle table
    against its interfaces \<open>handle_alloc\<close> and \<open>handle_space\<close> (\<open>Handle_Table\<close>), exit, suspension, registers, policies
    (\<open>Task_Behaviour\<close>).
  \<^item> Messages: the \<open>message_pipe\<close> interface interpreted by every pair of linked endpoints, and delivery in
    order without loss over all histories of channels (\<open>Channel_Fifo\<close>); the debug log as a list of
    entries with cursors (\<open>Debuglog_Spec\<close>); round trips through user memory for every type that is a
    \<open>value_type\<close> (\<open>User_Ptr_Props\<close>).
  \<^item> System calls: over all histories of calls no authority is amplified and nothing is written but
    handle tables, queues, logs and memory the caller may write (\<open>Syscall_Safety\<close>); handles stay well
    typed and no call meets a dangling reference (\<open>Handle_Types\<close>); a message written by one process
    arrives with its handles at another, and what the failures leave behind (\<open>Syscall_Props\<close>).
  \<^item> Images: after \<open>load_from_elf\<close> every segment is in memory at its address, bytes, zeros and
    protection (\<open>Elf_Image\<close>, on \<open>Shared_Memory\<close> and the contents of objects).
  \<^item> The loader: a round of the thread loop delivers the result of a system call, the rounds after an
    exit end the process, the size of an image covers its segments (\<open>Loader_Props\<close>); every step of \<open>run_userboot\<close>
    leaves the parts of the state alone that it has no business with (\<open>Boot_Frame\<close>), so that the stack
    and the message of the first process can be read off (\<open>Boot\<close>), and with images of one segment and
    enough free frames the boot succeeds (\<open>Boot_Run\<close>); the first thread starts at the entry point of
    userboot, whose image all later steps of the loader leave in place (\<open>Userboot_Image\<close>).
  \<^item> The first chapters: the least free handle value, and the first channel as the last one with its
    transaction ids hidden (\<open>First_Chapters\<close>).

  \<^bold>\<open>Fuel and termination.\<close> Three recursions of the code follow the object graph: \<open>job_kill\<close> and
  \<open>job_terminate\<close> along the tree of jobs, \<open>destroy_internal\<close> along the tree of regions. They take
  fuel, their callers pass one more than the number of ids given out so far (\<open>task_fuel\<close>,
  \<open>destroy_fuel\<close>), and the properties on their termination show that it never runs out: ids grow
  from parent to child, so no path is longer. Slices of slices are a recursive datatype. The other loops
  are structural or have a termination proof with a measure.

  \<^bold>\<open>Not modelled.\<close> The interleaving of threads inside a method (the locks), the executor and the
  generated code around futures (a future is modelled by one poll), logging, the \<open>Debug\<close>
  implementations and macros without behaviour, the weak stubs of \<^verbatim>\<open>dummy.rs\<close>, the host's \<open>mmap\<close> behind
  the page table, the command line of the loader, and the earlier chapters where they are, line for line, what the last one contains. The ELF parser, the registers of the crate
  \<open>trapframe\<close>, the clock, the git version of the build and the execution of user code are parameters.
\<close>

end
